(* ===== verification/OO_Prelude.thy ===== *)
theory OO_Prelude
  imports Main "HOL-Library.Char_ord" "HOL-Library.List_Lexorder"
begin

text \<open>
  Shared vocabulary of the development.

  \<^item> Rust's signed 64-bit arithmetic with the overflow behaviour written out where the source
    asks for it (\<open>checked_*\<close>, \<open>saturating_*\<close>, \<open>div_euclid\<close>, \<open>rem_euclid\<close>).
  \<^item> The interfaces several components implement: comparators that order by a key, and enumerations
    with stored codes and names.
  \<^item> Rust's \<open>Ordering\<close>, \<open>then_with\<close> and the iterator methods \<open>max_by\<close> and \<open>min\<close> with
    their tie-breaking.
  \<^item> The collections of rewrite rules and the generic list lemmas the components share.
\<close>

section \<open>Collections\<close>

named_theorems oncall_defs \<open>definitions that only name a test or a field access\<close>
named_theorems window_defs \<open>half-open windows of instants\<close>
named_theorems i64_defs \<open>signed 64-bit arithmetic\<close>

section \<open>Results\<close>

type_synonym ('a, 'e) result = "'e + 'a"

abbreviation Ok :: "'a \<Rightarrow> ('a, 'e) result" where "Ok \<equiv> Inr"
abbreviation Err :: "'e \<Rightarrow> ('a, 'e) result" where "Err \<equiv> Inl"

definition is_ok :: "('a, 'e) result \<Rightarrow> bool" where
  "is_ok r = (case r of Inl _ \<Rightarrow> False | Inr _ \<Rightarrow> True)"

lemma is_ok_simps [simp]: "is_ok (Inr x) = True" "is_ok (Inl e) = False"
  by (simp_all add: is_ok_def)

lemma is_ok_unit: "is_ok (r :: (unit, 'e) result) \<longleftrightarrow> r = Ok ()"
  by (cases r) (auto simp: is_ok_def)

text \<open>The \<open>?\<close> operator over a loop body: the first error ends the walk.\<close>

fun try_each :: "('a \<Rightarrow> (unit, 'e) result) \<Rightarrow> 'a list \<Rightarrow> (unit, 'e) result" where
  "try_each f [] = Ok ()"
| "try_each f (x # xs) = (case f x of Inl e \<Rightarrow> Err e | Inr _ \<Rightarrow> try_each f xs)"

lemma try_each_ok: "try_each f xs = Ok () \<longleftrightarrow> (\<forall>x \<in> set xs. f x = Ok ())"
  by (induction xs) (auto split: sum.splits)

lemma try_each_err: "try_each f xs = Err e \<Longrightarrow> \<exists>x \<in> set xs. f x = Err e"
  by (induction xs) (auto split: sum.splits)

section \<open>Signed 64-bit integers\<close>

abbreviation (input) i64_min :: int where "i64_min \<equiv> - 9223372036854775808"
abbreviation (input) i64_max :: int where "i64_max \<equiv> 9223372036854775807"

definition i64_ok :: "int \<Rightarrow> bool" where
  "i64_ok x \<longleftrightarrow> i64_min \<le> x \<and> x \<le> i64_max"

definition checked_i64 :: "int \<Rightarrow> int option" where
  "checked_i64 x = (if i64_ok x then Some x else None)"

definition checked_add :: "int \<Rightarrow> int \<Rightarrow> int option" where
  "checked_add a b = checked_i64 (a + b)"

definition checked_sub :: "int \<Rightarrow> int \<Rightarrow> int option" where
  "checked_sub a b = checked_i64 (a - b)"

definition checked_mul :: "int \<Rightarrow> int \<Rightarrow> int option" where
  "checked_mul a b = checked_i64 (a * b)"

definition sat_i64 :: "int \<Rightarrow> int" where
  "sat_i64 x = max i64_min (min i64_max x)"

definition saturating_add :: "int \<Rightarrow> int \<Rightarrow> int" where
  "saturating_add a b = sat_i64 (a + b)"

definition saturating_sub :: "int \<Rightarrow> int \<Rightarrow> int" where
  "saturating_sub a b = sat_i64 (a - b)"

definition saturating_mul :: "int \<Rightarrow> int \<Rightarrow> int" where
  "saturating_mul a b = sat_i64 (a * b)"

text \<open>Both panic on a zero divisor; every use below has a non-zero one.\<close>

definition div_euclid :: "int \<Rightarrow> int \<Rightarrow> int" where
  "div_euclid a b = (if b \<ge> 0 then a div b else - (a div (- b)))"

definition rem_euclid :: "int \<Rightarrow> int \<Rightarrow> int" where
  "rem_euclid a b = a mod \<bar>b\<bar>"

text \<open>A plain \<open>+\<close> on \<open>i32\<close> wraps in the release profile.\<close>

definition wrap_i32 :: "int \<Rightarrow> int" where
  "wrap_i32 x = (x + 2147483648) mod 4294967296 - 2147483648"

lemma wrap_i32_id: "- 2147483648 \<le> x \<Longrightarrow> x \<le> 2147483647 \<Longrightarrow> wrap_i32 x = x"
  by (simp add: wrap_i32_def)

lemmas [i64_defs] =
  checked_add_def checked_sub_def checked_mul_def checked_i64_def i64_ok_def
  saturating_add_def saturating_sub_def saturating_mul_def sat_i64_def

lemma checked_i64_Some: "checked_i64 x = Some y \<longleftrightarrow> i64_ok x \<and> y = x"
  by (auto simp: checked_i64_def)

lemma sat_i64_id: "i64_ok x \<Longrightarrow> sat_i64 x = x"
  by (simp add: i64_defs)

lemma rem_euclid_range: "n > 0 \<Longrightarrow> 0 \<le> rem_euclid a (int n) \<and> nat (rem_euclid a (int n)) < n"
  by (simp add: rem_euclid_def nat_less_iff)

section \<open>Units of time\<close>

text \<open>The microsecond constants of \<open>src/config/src/meta/oncall/rotation.rs\<close>.\<close>

definition MICROS_PER_MINUTE :: int where "MICROS_PER_MINUTE = 60000000"
definition MICROS_PER_HOUR :: int where "MICROS_PER_HOUR = 60 * MICROS_PER_MINUTE"
definition MICROS_PER_DAY :: int where "MICROS_PER_DAY = 24 * MICROS_PER_HOUR"
definition MICROS_PER_WEEK :: int where "MICROS_PER_WEEK = 7 * MICROS_PER_DAY"

lemmas [oncall_defs] =
  MICROS_PER_MINUTE_def MICROS_PER_HOUR_def MICROS_PER_DAY_def MICROS_PER_WEEK_def

section \<open>Ordering\<close>

datatype ordering = Less | Equal | Greater

definition cmp :: "'a::linorder \<Rightarrow> 'a \<Rightarrow> ordering" where
  "cmp a b = (if a < b then Less else if a = b then Equal else Greater)"

definition then_with :: "ordering \<Rightarrow> ordering \<Rightarrow> ordering" where
  "then_with a b = (case a of Equal \<Rightarrow> b | _ \<Rightarrow> a)"

text \<open>
  \<open>Iterator::max_by\<close> keeps the later of two elements that compare equal: the accumulator
  survives only when it is strictly greater.
\<close>

fun max_by_from :: "('a \<Rightarrow> 'a \<Rightarrow> ordering) \<Rightarrow> 'a \<Rightarrow> 'a list \<Rightarrow> 'a" where
  "max_by_from c m [] = m"
| "max_by_from c m (x # xs) = max_by_from c (if c m x = Greater then m else x) xs"

fun max_by :: "('a \<Rightarrow> 'a \<Rightarrow> ordering) \<Rightarrow> 'a list \<Rightarrow> 'a option" where
  "max_by c [] = None"
| "max_by c (x # xs) = Some (max_by_from c x xs)"

fun min_opt :: "'a::linorder list \<Rightarrow> 'a option" where
  "min_opt [] = None"
| "min_opt (x # xs) = Some (case min_opt xs of None \<Rightarrow> x | Some m \<Rightarrow> min x m)"

fun max_opt :: "'a::linorder list \<Rightarrow> 'a option" where
  "max_opt [] = None"
| "max_opt (x # xs) = Some (case max_opt xs of None \<Rightarrow> x | Some m \<Rightarrow> max x m)"

lemma cmp_Greater [simp]: "cmp a b = Greater \<longleftrightarrow> b < a"
  by (auto simp: cmp_def)

lemma cmp_Less [simp]: "cmp a b = Less \<longleftrightarrow> a < b"
  by (auto simp: cmp_def)

lemma cmp_Equal [simp]: "cmp a b = Equal \<longleftrightarrow> a = b"
  by (auto simp: cmp_def)

lemma then_with_Greater [simp]:
  "then_with a b = Greater \<longleftrightarrow> a = Greater \<or> (a = Equal \<and> b = Greater)"
  by (cases a) (simp_all add: then_with_def)

lemma then_with_Less [simp]:
  "then_with a b = Less \<longleftrightarrow> a = Less \<or> (a = Equal \<and> b = Less)"
  by (cases a) (simp_all add: then_with_def)

lemma then_with_Equal [simp]:
  "then_with a b = Equal \<longleftrightarrow> a = Equal \<and> b = Equal"
  by (cases a) (simp_all add: then_with_def)

text \<open>
  A comparator that compares a key. What \<open>max_by\<close> returns then has the greatest key, and when
  the keys are distinct it does not depend on the order of the list.
\<close>

locale keyed_cmp =
  fixes c :: "'a \<Rightarrow> 'a \<Rightarrow> ordering" and k :: "'a \<Rightarrow> 'k::linorder"
  assumes by_key: "c a b = cmp (k a) (k b)"
begin

lemma max_by_from_spec:
  "max_by_from c m xs \<in> set (m # xs) \<and> (\<forall>x \<in> set (m # xs). k x \<le> k (max_by_from c m xs))"
proof (induction xs arbitrary: m)
  case (Cons x xs)
  show ?case
  proof (cases "k x < k m")
    case True
    then show ?thesis using Cons.IH [of m] by (auto simp: by_key)
  next
    case False
    then show ?thesis using Cons.IH [of x] by (auto simp: by_key not_less intro: order_trans)
  qed
qed simp

lemma max_by_None: "max_by c xs = None \<longleftrightarrow> xs = []"
  by (cases xs) simp_all

lemma max_by_in: "max_by c xs = Some m \<Longrightarrow> m \<in> set xs"
  using max_by_from_spec by (cases xs) auto

lemma max_by_ge: "max_by c xs = Some m \<Longrightarrow> x \<in> set xs \<Longrightarrow> k x \<le> k m"
  using max_by_from_spec by (cases xs) auto

lemma max_by_unique:
  assumes "inj_on k (set xs)"
  shows "max_by c xs = Some m \<longleftrightarrow> m \<in> set xs \<and> (\<forall>x \<in> set xs. k x \<le> k m)"
proof
  assume m: "m \<in> set xs \<and> (\<forall>x \<in> set xs. k x \<le> k m)"
  then obtain m' where m': "max_by c xs = Some m'" by (cases xs) auto
  then have "k m' = k m" using m max_by_in [OF m'] max_by_ge [OF m'] by (simp add: order_antisym)
  then show "max_by c xs = Some m" using m' m max_by_in [OF m'] assms by (metis inj_onD)
qed (use max_by_in max_by_ge in blast)

lemma max_by_order_free:
  assumes "set xs = set ys" "inj_on k (set xs)"
  shows "max_by c xs = max_by c ys"
proof (cases "max_by c xs")
  case None
  then show ?thesis using assms(1) by (simp add: max_by_None)
next
  case (Some m)
  then show ?thesis using assms by (metis max_by_unique)
qed

end

text \<open>The reversed order, for a comparator that compares \<open>b\<close> with \<open>a\<close> on one of its terms.\<close>

datatype 'a down = Down 'a

instantiation down :: (linorder) linorder
begin

fun less_eq_down :: "'a down \<Rightarrow> 'a down \<Rightarrow> bool" where
  "less_eq_down (Down a) (Down b) \<longleftrightarrow> b \<le> a"

fun less_down :: "'a down \<Rightarrow> 'a down \<Rightarrow> bool" where
  "less_down (Down a) (Down b) \<longleftrightarrow> b < a"

instance
proof
  fix x y z :: "'a down"
  show "x < y \<longleftrightarrow> x \<le> y \<and> \<not> y \<le> x" by (cases x; cases y) auto
  show "x \<le> x" by (cases x) simp
  show "x \<le> y \<Longrightarrow> y \<le> z \<Longrightarrow> x \<le> z" by (cases x; cases y; cases z) auto
  show "x \<le> y \<Longrightarrow> y \<le> x \<Longrightarrow> x = y" by (cases x; cases y) auto
  show "x \<le> y \<or> y \<le> x" by (cases x; cases y) auto
qed

end

lemma cmp_Down [simp]: "cmp (Down a) (Down b) = cmp b a"
  by (auto simp: cmp_def)

section \<open>Generic list lemmas\<close>

lemma min_opt_snoc:
  "min_opt (xs @ [x]) = Some (case min_opt xs of None \<Rightarrow> x | Some m \<Rightarrow> min m x)"
  by (induction xs) (auto simp: min.assoc split: option.splits)

lemma min_opt_None [simp]: "min_opt xs = None \<longleftrightarrow> xs = []"
  by (cases xs) simp_all

lemma min_opt_Some: "min_opt xs = Some m \<Longrightarrow> m \<in> set xs \<and> (\<forall>x \<in> set xs. m \<le> x)"
  by (induction xs arbitrary: m) (fastforce split: option.splits simp: min_def)+

lemma max_opt_spec:
  "case max_opt xs of None \<Rightarrow> xs = [] | Some m \<Rightarrow> m \<in> set xs \<and> (\<forall>x \<in> set xs. x \<le> m)"
  by (induction xs) (auto simp: max_def split: option.splits)

lemma max_opt_in: "max_opt xs = Some m \<Longrightarrow> m \<in> set xs"
  using max_opt_spec [of xs] by simp

lemma strict_remdups_adj: "sorted xs \<Longrightarrow> sorted_wrt (<) (remdups_adj (xs :: 'a::linorder list))"
  by (induction xs rule: remdups_adj.induct) (auto simp: order_less_le)

section \<open>The interface of a persisted enumeration\<close>

text \<open>
  A durable integer id that is never reused, its partial inverse, and the text shown to people.
\<close>

locale durable_enum =
  fixes to_id :: "'a \<Rightarrow> int" and from_id :: "int \<Rightarrow> 'a option" and str_of :: "'a \<Rightarrow> string"
  assumes from_to: "from_id (to_id x) = Some x"
    and to_from: "from_id v = Some x \<Longrightarrow> to_id x = v"
    and str_inj: "str_of x = str_of y \<Longrightarrow> x = y"
begin

lemma to_id_inj: "to_id x = to_id y \<longleftrightarrow> x = y"
  by (metis from_to option.inject)

lemma from_id_Some: "from_id v = Some x \<longleftrightarrow> v = to_id x"
  using from_to to_from by blast

lemma from_id_None: "from_id v = None \<longleftrightarrow> v \<notin> range to_id"
  using from_to to_from by (metis not_Some_eq rangeE rangeI)

lemma str_of_inj: "str_of x = str_of y \<longleftrightarrow> x = y"
  using str_inj by blast

end

end
