(* ===== verification/OO_Strings.thy ===== *)
theory OO_Strings
  imports OO_Prelude
begin

text \<open>
  Rust's \<open>str\<close> as the list of its UTF-8 bytes, with the standard-library operations the
  on-call code uses. Byte order is the order of \<open>str::cmp\<close>. White space is Unicode's
  \<open>White_Space\<close> property (what \<open>str::trim\<close> strips), spelled as UTF-8 byte sequences, so
  \<open>trim\<close> is exact on every well-formed string.
\<close>

section \<open>White space and case\<close>

text \<open>The UTF-8 spellings of the 25 code points with the \<open>White_Space\<close> property.\<close>

definition ws_seqs :: "string list" where
  "ws_seqs =
     [[CHR 0x20], [CHR 0x09], [CHR 0x0A], [CHR 0x0B], [CHR 0x0C], [CHR 0x0D],
      [CHR 0xC2, CHR 0x85], [CHR 0xC2, CHR 0xA0], [CHR 0xE1, CHR 0x9A, CHR 0x80],
      [CHR 0xE2, CHR 0x80, CHR 0x80], [CHR 0xE2, CHR 0x80, CHR 0x81],
      [CHR 0xE2, CHR 0x80, CHR 0x82], [CHR 0xE2, CHR 0x80, CHR 0x83],
      [CHR 0xE2, CHR 0x80, CHR 0x84], [CHR 0xE2, CHR 0x80, CHR 0x85],
      [CHR 0xE2, CHR 0x80, CHR 0x86], [CHR 0xE2, CHR 0x80, CHR 0x87],
      [CHR 0xE2, CHR 0x80, CHR 0x88], [CHR 0xE2, CHR 0x80, CHR 0x89],
      [CHR 0xE2, CHR 0x80, CHR 0x8A], [CHR 0xE2, CHR 0x80, CHR 0xA8],
      [CHR 0xE2, CHR 0x80, CHR 0xA9], [CHR 0xE2, CHR 0x80, CHR 0xAF],
      [CHR 0xE2, CHR 0x81, CHR 0x9F], [CHR 0xE3, CHR 0x80, CHR 0x80]]"

definition strip_one :: "string list \<Rightarrow> string \<Rightarrow> string option" where
  "strip_one ws s =
     map_option (\<lambda>w. drop (length w) s) (find (\<lambda>w. w \<noteq> [] \<and> take (length w) s = w) ws)"

lemma strip_one_shorter:
  assumes "strip_one ws s = Some t"
  shows "length t < length s"
proof -
  from assms obtain w where w: "w \<noteq> []" "take (length w) s = w" "t = drop (length w) s"
    by (auto simp: strip_one_def find_Some_iff)
  from w(1,2) have "s \<noteq> []" by auto
  with w show ?thesis by (simp add: diff_less)
qed

function strip_all :: "string list \<Rightarrow> string \<Rightarrow> string" where
  "strip_all ws s = (case strip_one ws s of None \<Rightarrow> s | Some t \<Rightarrow> strip_all ws t)"
  by pat_completeness auto
termination
  by (relation "measure (\<lambda>(ws, s). length s)") (auto dest: strip_one_shorter)

declare strip_all.simps [simp del]

definition trim_start :: "string \<Rightarrow> string" where
  "trim_start s = strip_all ws_seqs s"

definition trim_end :: "string \<Rightarrow> string" where
  "trim_end s = rev (strip_all (map rev ws_seqs) (rev s))"

definition trim :: "string \<Rightarrow> string" where
  "trim s = trim_end (trim_start s)"

definition ascii_lower :: "char \<Rightarrow> char" where
  "ascii_lower c = (if CHR ''A'' \<le> c \<and> c \<le> CHR ''Z'' then char_of (of_char c + 32 :: nat) else c)"

definition to_ascii_lowercase :: "string \<Rightarrow> string" where
  "to_ascii_lowercase = map ascii_lower"

definition eq_ignore_ascii_case :: "string \<Rightarrow> string \<Rightarrow> bool" where
  "eq_ignore_ascii_case a b \<longleftrightarrow> to_ascii_lowercase a = to_ascii_lowercase b"

section \<open>Prefixes, suffixes, characters\<close>

definition starts_with :: "string \<Rightarrow> string \<Rightarrow> bool" where
  "starts_with s p \<longleftrightarrow> take (length p) s = p"

definition strip_prefix :: "string \<Rightarrow> string \<Rightarrow> string option" where
  "strip_prefix p s = (if starts_with s p then Some (drop (length p) s) else None)"

definition ends_with_char :: "string \<Rightarrow> char \<Rightarrow> bool" where
  "ends_with_char s c \<longleftrightarrow> s \<noteq> [] \<and> last s = c"

definition strip_suffix_char :: "string \<Rightarrow> char \<Rightarrow> string option" where
  "strip_suffix_char s c = (if ends_with_char s c then Some (butlast s) else None)"

definition trim_end_char :: "string \<Rightarrow> char \<Rightarrow> string" where
  "trim_end_char s c = rev (dropWhile (\<lambda>x. x = c) (rev s))"

text \<open>\<open>chars().count()\<close>: the bytes that do not continue a code point.\<close>

definition chars_count :: "string \<Rightarrow> nat" where
  "chars_count s = length (filter (\<lambda>c. \<not> (CHR 0x80 \<le> c \<and> c \<le> CHR 0xBF)) s)"

text \<open>\<open>rsplit_once\<close>: the parts around the last occurrence.\<close>

definition rsplit_once :: "string \<Rightarrow> char \<Rightarrow> (string \<times> string) option" where
  "rsplit_once s c =
     (if c \<in> set s
      then Some (rev (tl (dropWhile (\<lambda>x. x \<noteq> c) (rev s))), rev (takeWhile (\<lambda>x. x \<noteq> c) (rev s)))
      else None)"

fun join :: "string \<Rightarrow> string list \<Rightarrow> string" where
  "join sep [] = []"
| "join sep [x] = x"
| "join sep (x # y # ys) = x @ sep @ join sep (y # ys)"

text \<open>
  \<open>str::lines\<close>: the text cut after every line feed, each terminator (\<open>\n\<close> or \<open>\r\n\<close>)
  removed; a carriage return before the end of an unterminated last line stays.
\<close>

fun split_inclusive_lf :: "string \<Rightarrow> string list" where
  "split_inclusive_lf [] = []"
| "split_inclusive_lf (c # cs) =
     (if c = CHR 0x0A then [c] # split_inclusive_lf cs
      else (case split_inclusive_lf cs of [] \<Rightarrow> [[c]] | l # ls \<Rightarrow> (c # l) # ls))"

definition strip_line_end :: "string \<Rightarrow> string" where
  "strip_line_end l =
     (case strip_suffix_char l CHR 0x0A of
        None \<Rightarrow> l
      | Some m \<Rightarrow> (case strip_suffix_char m CHR 0x0D of None \<Rightarrow> m | Some k \<Rightarrow> k))"

definition str_lines :: "string \<Rightarrow> string list" where
  "str_lines s = map strip_line_end (split_inclusive_lf s)"

text \<open>\<open>split_whitespace\<close>: the maximal runs without white space.\<close>

fun take_word :: "string \<Rightarrow> string \<times> string" where
  "take_word [] = ([], [])"
| "take_word (c # cs) =
     (if strip_one ws_seqs (c # cs) \<noteq> None then ([], c # cs)
      else (let (w, r) = take_word cs in (c # w, r)))"

lemma take_word_rest: "length (snd (take_word s)) \<le> length s"
  by (induction s) (auto split: prod.splits)

lemma strip_all_le: "length (strip_all ws s) \<le> length s"
proof (induction ws s rule: strip_all.induct)
  case (1 ws s)
  show ?case
  proof (cases "strip_one ws s")
    case None
    then show ?thesis by (simp add: strip_all.simps)
  next
    case (Some t)
    with 1 strip_one_shorter [OF Some] show ?thesis
      by (simp add: strip_all.simps [of ws s])
  qed
qed

lemma strip_one_after_strip_all: "strip_one ws (strip_all ws s) = None"
proof (induction ws s rule: strip_all.induct)
  case (1 ws s)
  then show ?case
    by (cases "strip_one ws s") (simp_all add: strip_all.simps [of ws s])
qed

function split_whitespace :: "string \<Rightarrow> string list" where
  "split_whitespace s =
     (case trim_start s of
        [] \<Rightarrow> []
      | c # cs \<Rightarrow> (let (w, r) = take_word (c # cs) in w # split_whitespace r))"
  by pat_completeness auto
termination
proof (relation "measure length", simp_all, goal_cases)
  case (1 s c cs p w r)
  have "strip_one ws_seqs (c # cs) = None"
    using 1(1) strip_one_after_strip_all by (metis trim_start_def)
  with 1 have "r = snd (take_word cs)" by (auto split: prod.splits if_splits)
  then have "length r \<le> length cs" by (simp add: take_word_rest)
  moreover have "length (c # cs) \<le> length s"
    using strip_all_le [of ws_seqs s] 1(1) by (simp add: trim_start_def)
  ultimately show ?case by simp
qed

declare split_whitespace.simps [simp del]

text \<open>The two non-ASCII characters the messages use, an em dash and a middle dot.\<close>

definition em_dash :: string where "em_dash = [CHR 0xE2, CHR 0x80, CHR 0x94]"
definition middot :: string where "middot = [CHR 0xC2, CHR 0xB7]"

section \<open>Decimal numbers\<close>

definition digit_char :: "nat \<Rightarrow> char" where
  "digit_char d = char_of (48 + d)"

definition is_digit :: "char \<Rightarrow> bool" where
  "is_digit c \<longleftrightarrow> CHR ''0'' \<le> c \<and> c \<le> CHR ''9''"

definition digit_val :: "char \<Rightarrow> nat" where
  "digit_val c = of_char c - 48"

fun show_nat :: "nat \<Rightarrow> string" where
  "show_nat n = (if n < 10 then [digit_char n] else show_nat (n div 10) @ [digit_char (n mod 10)])"

declare show_nat.simps [simp del]

definition show_int :: "int \<Rightarrow> string" where
  "show_int i = (if i < 0 then ''-'' @ show_nat (nat (- i)) else show_nat (nat i))"

definition digits_val :: "string \<Rightarrow> nat" where
  "digits_val s = foldl (\<lambda>acc c. 10 * acc + digit_val c) 0 s"

text \<open>
  \<open>str::parse\<close> for integer types: an optional sign (\<open>-\<close> only for signed types), then at
  least one decimal digit and nothing else, with the value in range.
\<close>

definition parse_digits :: "string \<Rightarrow> nat option" where
  "parse_digits s = (if s \<noteq> [] \<and> list_all is_digit s then Some (digits_val s) else None)"

definition parse_u32 :: "string \<Rightarrow> nat option" where
  "parse_u32 s =
     (case parse_digits (case s of [] \<Rightarrow> [] | c # cs \<Rightarrow> if c = CHR ''+'' then cs else s) of
        None \<Rightarrow> None
      | Some n \<Rightarrow> if n < 4294967296 then Some n else None)"

definition parse_i64 :: "string \<Rightarrow> int option" where
  "parse_i64 s =
     Option.bind
       (case s of
          [] \<Rightarrow> None
        | c # cs \<Rightarrow>
            if c = CHR ''-'' then map_option (\<lambda>n. - int n) (parse_digits cs)
            else map_option int (parse_digits (if c = CHR ''+'' then cs else s)))
       checked_i64"

section \<open>Lemmas\<close>

lemma of_char_digit_char: "d < 10 \<Longrightarrow> (of_char (digit_char d) :: nat) = 48 + d"
  by (simp add: digit_char_def)

lemma digit_val_char [simp]: "d < 10 \<Longrightarrow> digit_val (digit_char d) = d"
  by (simp add: digit_val_def of_char_digit_char)

lemma is_digit_char [simp]: "d < 10 \<Longrightarrow> is_digit (digit_char d)"
  by (simp add: is_digit_def less_eq_char_def of_char_digit_char)

lemma is_digit_cases: "is_digit c \<Longrightarrow> c \<noteq> CHR ''+'' \<and> c \<noteq> CHR ''-'' \<and> c \<noteq> CHR ''#''"
  by (auto simp: is_digit_def less_eq_char_def)

lemma show_nat_nonempty [simp]: "show_nat n \<noteq> []"
  by (subst show_nat.simps) simp

lemma show_nat_digits: "list_all is_digit (show_nat n)"
proof (induction n rule: show_nat.induct)
  case (1 n)
  then show ?case by (subst show_nat.simps) simp
qed

lemma digits_val_snoc [simp]: "digits_val (s @ [c]) = 10 * digits_val s + digit_val c"
  by (simp add: digits_val_def)

lemma digits_val_show_nat [simp]: "digits_val (show_nat n) = n"
proof (induction n rule: show_nat.induct)
  case (1 n)
  show ?case
  proof (cases "n < 10")
    case True
    then show ?thesis by (subst show_nat.simps) (simp add: digits_val_def)
  next
    case False
    then have "digits_val (show_nat n) = 10 * digits_val (show_nat (n div 10)) + n mod 10"
      by (subst show_nat.simps) simp
    with "1.IH" False show ?thesis by simp
  qed
qed

lemma parse_digits_show_nat [simp]: "parse_digits (show_nat n) = Some n"
  by (simp add: parse_digits_def show_nat_digits)

lemma show_nat_hd: "show_nat n = c # cs \<Longrightarrow> is_digit c"
  using show_nat_digits [of n] by simp

text \<open>Printing then parsing a \<open>u32\<close> gives it back.\<close>

lemma parse_u32_show_nat:
  assumes "n < 4294967296"
  shows "parse_u32 (show_nat n) = Some n"
proof -
  obtain c cs where s: "show_nat n = c # cs"
    using show_nat_nonempty [of n] by (cases "show_nat n") auto
  then have "c \<noteq> CHR ''+''"
    using show_nat_hd is_digit_cases by blast
  with s assms parse_digits_show_nat [of n] show ?thesis
    by (simp add: parse_u32_def)
qed

lemma show_nat_no_hash: "CHR ''#'' \<notin> set (show_nat n)"
  using show_nat_digits [of n] is_digit_cases by (auto simp: list_all_iff)

lemma show_nat_inj: "show_nat m = show_nat n \<Longrightarrow> m = n"
  by (metis digits_val_show_nat)

lemma rsplit_once_append:
  assumes "c \<notin> set b"
  shows "rsplit_once (a @ c # b) c = Some (a, b)"
proof -
  have "takeWhile (\<lambda>x. x \<noteq> c) (rev b @ c # rev a) = rev b"
    using assms by (subst takeWhile_append2) auto
  moreover have "dropWhile (\<lambda>x. x \<noteq> c) (rev b @ c # rev a) = c # rev a"
    using assms by (subst dropWhile_append2) auto
  ultimately show ?thesis by (simp add: rsplit_once_def)
qed

text \<open>The parts \<open>rsplit_once\<close> returns are the string around the character, none to the right.\<close>

lemma rsplit_once_Some:
  assumes "rsplit_once s c = Some (a, b)"
  shows "s = a @ c # b \<and> c \<notin> set b"
proof -
  from assms have c: "c \<in> set s" by (simp add: rsplit_once_def split: if_splits)
  then obtain a' b' where s: "s = a' @ c # b'" and "c \<notin> set b'"
    by (meson split_list_last)
  then have "rsplit_once s c = Some (a', b')" by (simp add: rsplit_once_append)
  with assms s \<open>c \<notin> set b'\<close> show ?thesis by simp
qed

subsection \<open>Trimming commutes with ASCII lower-casing\<close>

definition caseless :: "char \<Rightarrow> bool" where
  "caseless c \<longleftrightarrow> \<not> (CHR ''A'' \<le> c \<and> c \<le> CHR ''Z'') \<and> \<not> (CHR ''a'' \<le> c \<and> c \<le> CHR ''z'')"

lemma ascii_lower_caseless: "caseless b \<Longrightarrow> ascii_lower c = b \<longleftrightarrow> c = b"
  by (auto simp: caseless_def ascii_lower_def less_eq_char_def)

lemma map_lower_caseless: "list_all caseless w \<Longrightarrow> map ascii_lower s = w \<longleftrightarrow> s = w"
proof (induction w arbitrary: s)
  case Nil
  then show ?case by simp
next
  case (Cons b w)
  then show ?case by (cases s) (auto simp: ascii_lower_caseless)
qed

lemma strip_one_lower:
  assumes "list_all (list_all caseless) ws"
  shows "strip_one ws (map ascii_lower s) = map_option (map ascii_lower) (strip_one ws s)"
proof -
  have "find (\<lambda>w. w \<noteq> [] \<and> take (length w) (map ascii_lower s) = w) ws =
        find (\<lambda>w. w \<noteq> [] \<and> take (length w) s = w) ws"
    using assms
    by (intro find_cong) (auto simp: take_map map_lower_caseless list_all_iff [of _ ws])
  then show ?thesis
    by (simp add: strip_one_def drop_map option.map_comp comp_def)
qed

lemma strip_all_lower:
  assumes "list_all (list_all caseless) ws"
  shows "strip_all ws (map ascii_lower s) = map ascii_lower (strip_all ws s)"
  using assms
proof (induction ws s rule: strip_all.induct)
  case (1 ws s)
  show ?case
  proof (cases "strip_one ws s")
    case None
    with 1 show ?thesis
      by (simp add: strip_all.simps [of ws s] strip_all.simps [of ws "map ascii_lower s"] strip_one_lower)
  next
    case (Some t)
    with 1 show ?thesis
      by (simp add: strip_all.simps [of ws s] strip_all.simps [of ws "map ascii_lower s"] strip_one_lower)
  qed
qed

lemma ws_seqs_caseless: "list_all (list_all caseless) ws_seqs"
  by (simp add: ws_seqs_def caseless_def less_eq_char_def)

lemma ws_seqs_rev_caseless: "list_all (list_all caseless) (map rev ws_seqs)"
  using ws_seqs_caseless by (simp add: list_all_iff)

lemma trim_lower: "trim (to_ascii_lowercase s) = to_ascii_lowercase (trim s)"
  by (simp add: trim_def trim_start_def trim_end_def to_ascii_lowercase_def rev_map
      strip_all_lower ws_seqs_caseless ws_seqs_rev_caseless)

lemma ascii_lower_idem: "ascii_lower (ascii_lower c) = ascii_lower c"
proof (cases "CHR ''A'' \<le> c \<and> c \<le> CHR ''Z''")
  case True
  then have "65 \<le> (of_char c :: nat)" "(of_char c :: nat) \<le> 90" by (simp_all add: less_eq_char_def)
  then show ?thesis by (auto simp: ascii_lower_def less_eq_char_def)
next
  case False
  then have "ascii_lower c = c" by (simp only: ascii_lower_def if_False)
  then show ?thesis by simp
qed

lemma lower_idem: "to_ascii_lowercase (to_ascii_lowercase m) = to_ascii_lowercase m"
  by (simp add: to_ascii_lowercase_def ascii_lower_idem)

subsection \<open>Trimming is idempotent\<close>

lemma strip_all_fixed: "strip_one ws s = None \<Longrightarrow> strip_all ws s = s"
  by (simp add: strip_all.simps)

declare strip_one_after_strip_all [simp]

lemma strip_one_None: "strip_one ws s = None \<longleftrightarrow> (\<forall>w \<in> set ws. w \<noteq> [] \<longrightarrow> take (length w) s \<noteq> w)"
  by (auto simp: strip_one_def find_None_iff)

lemma strip_all_drop: "\<exists>k. strip_all ws s = drop k s"
proof (induction ws s rule: strip_all.induct)
  case (1 ws s)
  show ?case
  proof (cases "strip_one ws s")
    case None
    then have "strip_all ws s = drop 0 s" by (simp add: strip_all_fixed)
    then show ?thesis by blast
  next
    case (Some t)
    then obtain n where t: "t = drop n s" by (auto simp: strip_one_def)
    from "1.IH" [OF Some] obtain k where "strip_all ws t = drop k t" by blast
    with t Some have "strip_all ws s = drop (k + n) s"
      by (simp add: strip_all.simps [of ws s])
    then show ?thesis by blast
  qed
qed

text \<open>What \<open>trim\<close> returns starts with no white space and ends with none.\<close>

lemma trim_end_take: "\<exists>k. trim_end s = take k s"
proof -
  obtain k where "strip_all (map rev ws_seqs) (rev s) = drop k (rev s)"
    using strip_all_drop by blast
  then show ?thesis by (auto simp: trim_end_def rev_drop intro: exI [of _ "length s - k"])
qed

lemma trim_start_trim: "trim_start (trim s) = trim s"
proof -
  obtain k where k: "trim s = take k (trim_start s)"
    using trim_end_take by (auto simp: trim_def)
  have "strip_one ws_seqs (trim_start s) = None" by (simp add: trim_start_def)
  then have "strip_one ws_seqs (take k (trim_start s)) = None"
    by (auto simp: strip_one_None min_def split: if_splits)
  with k show ?thesis by (simp add: trim_start_def strip_all_fixed)
qed

lemma trim_end_idem: "trim_end (trim_end s) = trim_end s"
  by (simp add: trim_end_def strip_all_fixed)

lemma trim_idem [simp]: "trim (trim s) = trim s"
proof -
  have "trim (trim s) = trim_end (trim_start (trim s))" by (simp only: trim_def [of "trim s"])
  also have "\<dots> = trim_end (trim s)" by (simp only: trim_start_trim)
  also have "\<dots> = trim s" by (simp only: trim_def [of s] trim_end_idem)
  finally show ?thesis .
qed

lemma trim_Nil [simp]: "trim [] = []"
  by (simp add: trim_def trim_start_def trim_end_def strip_all.simps strip_one_def find_None_iff ws_seqs_def)

end
