(* ===== verification/Deql_Registry.thy ===== *)
theory Deql_Registry
  imports OO_Strings "HOL-Library.AList" "HOL-Library.Multiset"
begin

text \<open>
  The DeQL domain core (\<open>src/deql-core\<close>): concept kinds, the error type with its display
  strings, registry entries, the \<open>Registry\<close> port and its \<open>HashMap\<close>-backed implementation.

  The hash map is the association list of its entries in iteration order, which the standard
  library leaves unspecified: every law below speaks of the entries as a map, a set or a
  multiset. A method taking the write lock is one step from the old map to the new one. The
  JSON payload type is a type parameter.

  The locale \<open>registry\<close> is the port: it is interpreted on the in-memory implementation at
  the end, and the abstract specification it is refined to is a finite map.
\<close>

section \<open>Data\<close>

datatype concept_kind = Unknown

datatype deql_error =
    DbError string
  | Config string
  | Parse string
  | NotFound string
  | Conflict string
  | Other string

definition deql_error_display :: "deql_error \<Rightarrow> string" where
  "deql_error_display e =
     (case e of
        DbError m \<Rightarrow> ''DbError# '' @ m
      | Config m \<Rightarrow> ''ConfigError# '' @ m
      | Parse m \<Rightarrow> ''ParseError# '' @ m
      | NotFound m \<Rightarrow> ''NotFound# '' @ m
      | Conflict m \<Rightarrow> ''Conflict# '' @ m
      | Other m \<Rightarrow> ''OtherError# '' @ m)"

record 'json registry_entry =
  re_id :: string
  re_name :: string
  re_kind :: concept_kind
  re_version :: string
  re_payload :: "'json option"

record 'json in_memory_registry =
  imr_entries :: "(string \<times> 'json registry_entry) list"

section \<open>The in-memory registry\<close>

definition imr_new :: "'json in_memory_registry" where
  "imr_new = \<lparr>imr_entries = []\<rparr>"

definition imr_insert ::
    "'json in_memory_registry \<Rightarrow> 'json registry_entry
     \<Rightarrow> 'json in_memory_registry \<times> (unit, deql_error) result" where
  "imr_insert r entry =
     (if map_of (imr_entries r) (re_id entry) \<noteq> None
      then (r, Err (Conflict (''entry already exists: '' @ re_id entry)))
      else (r\<lparr>imr_entries := AList.update (re_id entry) entry (imr_entries r)\<rparr>, Ok ()))"

definition imr_get ::
    "'json in_memory_registry \<Rightarrow> string \<Rightarrow> ('json registry_entry option, deql_error) result" where
  "imr_get r i = Ok (map_of (imr_entries r) i)"

definition imr_list ::
    "'json in_memory_registry \<Rightarrow> ('json registry_entry list, deql_error) result" where
  "imr_list r = Ok (map snd (imr_entries r))"

definition imr_remove ::
    "'json in_memory_registry \<Rightarrow> string
     \<Rightarrow> 'json in_memory_registry \<times> (unit, deql_error) result" where
  "imr_remove r i =
     (let m' = AList.delete i (imr_entries r)
      in if map_of (imr_entries r) i = None
         then (r\<lparr>imr_entries := m'\<rparr>, Err (NotFound (''entry not found: '' @ i)))
         else (r\<lparr>imr_entries := m'\<rparr>, Ok ()))"

definition imr_upsert_many ::
    "'json in_memory_registry \<Rightarrow> 'json registry_entry list
     \<Rightarrow> 'json in_memory_registry \<times> (unit, deql_error) result" where
  "imr_upsert_many r es =
     (r\<lparr>imr_entries := foldl (\<lambda>m e. AList.update (re_id e) e m) (imr_entries r) es\<rparr>, Ok ())"

definition imr_export_all ::
    "'json in_memory_registry \<Rightarrow> ('json registry_entry list, deql_error) result" where
  "imr_export_all r = imr_list r"

text \<open>Type invariant: one row per key, and every entry is filed under its own id.\<close>

definition imr_inv :: "'json in_memory_registry \<Rightarrow> bool" where
  "imr_inv r \<longleftrightarrow> distinct (map fst (imr_entries r)) \<and> (\<forall>(k, e) \<in> set (imr_entries r). re_id e = k)"

definition imr_abs :: "'json in_memory_registry \<Rightarrow> string \<Rightarrow> 'json registry_entry option" where
  "imr_abs r = map_of (imr_entries r)"

section \<open>The abstract registry: a finite map, and traces of requests\<close>

datatype 'json reg_op =
    RInsert "'json registry_entry"
  | RGet string
  | RList
  | RRemove string
  | RUpsert "'json registry_entry list"
  | RExport

datatype 'json reg_reply =
    RUnit "(unit, deql_error) result"
  | REntry "('json registry_entry option, deql_error) result"
  | REntries "'json registry_entry multiset"

fun imr_step :: "'json in_memory_registry \<Rightarrow> 'json reg_op \<Rightarrow> 'json in_memory_registry \<times> 'json reg_reply" where
  "imr_step r (RInsert e) = map_prod id RUnit (imr_insert r e)"
| "imr_step r (RGet i) = (r, REntry (imr_get r i))"
| "imr_step r RList = (r, REntries (case imr_list r of Inr xs \<Rightarrow> mset xs | Inl _ \<Rightarrow> {#}))"
| "imr_step r (RRemove i) = map_prod id RUnit (imr_remove r i)"
| "imr_step r (RUpsert es) = map_prod id RUnit (imr_upsert_many r es)"
| "imr_step r RExport = (r, REntries (case imr_export_all r of Inr xs \<Rightarrow> mset xs | Inl _ \<Rightarrow> {#}))"

fun imr_run :: "'json in_memory_registry \<Rightarrow> 'json reg_op list \<Rightarrow> 'json reg_reply list" where
  "imr_run r [] = []"
| "imr_run r (q # qs) = (let (r', a) = imr_step r q in a # imr_run r' qs)"

type_synonym 'json spec_registry = "string \<Rightarrow> 'json registry_entry option"

definition spec_entries :: "'json spec_registry \<Rightarrow> 'json registry_entry multiset" where
  "spec_entries m = image_mset (\<lambda>k. the (m k)) (mset_set (dom m))"

fun spec_step :: "'json spec_registry \<Rightarrow> 'json reg_op \<Rightarrow> 'json spec_registry \<times> 'json reg_reply" where
  "spec_step m (RInsert e) =
     (case m (re_id e) of
        Some _ \<Rightarrow> (m, RUnit (Err (Conflict (''entry already exists: '' @ re_id e))))
      | None \<Rightarrow> (m(re_id e \<mapsto> e), RUnit (Ok ())))"
| "spec_step m (RGet i) = (m, REntry (Ok (m i)))"
| "spec_step m RList = (m, REntries (spec_entries m))"
| "spec_step m (RRemove i) =
     (case m i of
        None \<Rightarrow> (m, RUnit (Err (NotFound (''entry not found: '' @ i))))
      | Some _ \<Rightarrow> (m(i := None), RUnit (Ok ())))"
| "spec_step m (RUpsert es) = (foldl (\<lambda>m e. m(re_id e \<mapsto> e)) m es, RUnit (Ok ()))"
| "spec_step m RExport = (m, REntries (spec_entries m))"

fun spec_run :: "'json spec_registry \<Rightarrow> 'json reg_op list \<Rightarrow> 'json reg_reply list" where
  "spec_run m [] = []"
| "spec_run m (q # qs) = (let (m', a) = spec_step m q in a # spec_run m' qs)"

section \<open>The port\<close>

text \<open>
  What \<open>trait Registry\<close> promises its clients, through the map \<open>abs\<close> of stored entries: how
  each call answers and what it leaves stored, and that the invariant is kept.
\<close>

locale registry =
  fixes new :: "'r"
    and insert :: "'r \<Rightarrow> 'json registry_entry \<Rightarrow> 'r \<times> (unit, deql_error) result"
    and get :: "'r \<Rightarrow> string \<Rightarrow> ('json registry_entry option, deql_error) result"
    and list :: "'r \<Rightarrow> ('json registry_entry list, deql_error) result"
    and remove :: "'r \<Rightarrow> string \<Rightarrow> 'r \<times> (unit, deql_error) result"
    and upsert_many :: "'r \<Rightarrow> 'json registry_entry list \<Rightarrow> 'r \<times> (unit, deql_error) result"
    and export_all :: "'r \<Rightarrow> ('json registry_entry list, deql_error) result"
    and inv :: "'r \<Rightarrow> bool"
    and abs :: "'r \<Rightarrow> 'json spec_registry"
  assumes new_abs: "abs new = Map.empty" and new_inv: "inv new"
    and abs_id: "inv r \<Longrightarrow> abs r i = Some e \<Longrightarrow> re_id e = i"
    and abs_finite: "inv r \<Longrightarrow> finite (dom (abs r))"
    and insert_free: "inv r \<Longrightarrow> abs r (re_id e) = None \<Longrightarrow>
          insert r e = (r', a) \<Longrightarrow> a = Ok () \<and> abs r' = (abs r)(re_id e \<mapsto> e) \<and> inv r'"
    and insert_taken: "inv r \<Longrightarrow> abs r (re_id e) = Some e' \<Longrightarrow>
          insert r e = (r, Err (Conflict (''entry already exists: '' @ re_id e)))"
    and get_abs: "inv r \<Longrightarrow> get r i = Ok (abs r i)"
    and list_abs: "inv r \<Longrightarrow> \<exists>xs. list r = Ok xs \<and> mset xs = spec_entries (abs r)"
    and remove_absent: "inv r \<Longrightarrow> abs r i = None \<Longrightarrow>
          remove r i = (r', a) \<Longrightarrow>
          a = Err (NotFound (''entry not found: '' @ i)) \<and> abs r' = abs r \<and> inv r'"
    and remove_present: "inv r \<Longrightarrow> abs r i = Some e \<Longrightarrow>
          remove r i = (r', a) \<Longrightarrow> a = Ok () \<and> abs r' = (abs r)(i := None) \<and> inv r'"
    and upsert_abs: "inv r \<Longrightarrow> upsert_many r es = (r', a) \<Longrightarrow>
          a = Ok () \<and> abs r' = foldl (\<lambda>m e. m(re_id e \<mapsto> e)) (abs r) es \<and> inv r'"
    and export_list: "export_all r = list r"
begin

lemma upsert_fold:
  "foldl (\<lambda>m e. m(re_id e \<mapsto> e)) m es i =
     (case map_of (rev (map (\<lambda>e. (re_id e, e)) es)) i of Some e \<Rightarrow> Some e | None \<Rightarrow> m i)"
  by (induction es rule: rev_induct) auto

lemma export_entries:
  assumes "inv r" and "export_all r = Ok xs"
  shows "set xs = ran (abs r)"
proof -
  from assms have "mset xs = spec_entries (abs r)"
    using list_abs export_list by fastforce
  then have "set xs = set_mset (spec_entries (abs r))" by (metis set_mset_mset)
  also have "\<dots> = ran (abs r)"
    using abs_finite [OF assms(1)] by (force simp: spec_entries_def ran_def dom_def image_iff)
  finally show ?thesis .
qed

lemma export_member:
  assumes "inv r" and "export_all r = Ok xs"
  shows "e \<in> set xs \<longleftrightarrow> abs r (re_id e) = Some e"
  unfolding export_entries [OF assms] ran_def using abs_id [OF assms(1)] by blast

text \<open>Exporting a registry and upserting the export into a new one restores every entry.\<close>

lemma export_restores:
  assumes inv: "inv r" and ex: "export_all r = Ok xs" and up: "upsert_many new xs = (r', a)"
  shows "abs r' = abs r"
proof
  fix i
  let ?kv = "map (\<lambda>e. (re_id e, e)) xs"
  have abs': "abs r' i = map_of (rev ?kv) i"
    using upsert_abs [OF new_inv up] upsert_fold [of "Map.empty" xs i]
    by (simp add: new_abs split: option.splits)
  show "abs r' i = abs r i"
  proof (cases "abs r i")
    case None
    then have "\<forall>e \<in> set xs. re_id e \<noteq> i"
      by (auto simp: export_member [OF inv ex])
    then have "i \<notin> fst ` set (rev ?kv)" by auto
    then have "map_of (rev ?kv) i = None" by (rule map_of_eq_None_iff [THEN iffD2])
    with abs' None show ?thesis by simp
  next
    case (Some e)
    then have id: "re_id e = i" by (rule abs_id [OF inv])
    with Some have mem: "e \<in> set xs" by (simp add: export_member [OF inv ex])
    have uniq: "e' = e" if "e' \<in> set xs" "re_id e' = i" for e'
      using that Some by (simp add: export_member [OF inv ex])
    from mem id have "map_of (rev ?kv) i \<noteq> None"
      by (auto simp: map_of_eq_None_iff image_iff)
    then obtain e' where e': "map_of (rev ?kv) i = Some e'" by blast
    then have "(i, e') \<in> set (rev ?kv)" by (rule map_of_SomeD)
    then have "e' = e" using uniq by auto
    with e' abs' Some show ?thesis by simp
  qed
qed

lemma insert_then_get:
  assumes "inv r" and "abs r (re_id e) = None" and "insert r e = (r', a)"
  shows "get r' (re_id e) = Ok (Some e)"
  using insert_free [OF assms] by (simp add: get_abs)

lemma remove_then_get:
  assumes "inv r" and "remove r i = (r', a)"
  shows "get r' i = Ok None"
  using assms remove_absent [OF assms(1) _ assms(2)] remove_present [OF assms(1) _ assms(2)]
  by (cases "abs r i") (auto simp: get_abs)

end

section \<open>The in-memory registry implements the port\<close>

lemma spec_entries_map_of:
  assumes "distinct (map fst xs)"
  shows "spec_entries (map_of xs) = mset (map snd xs)"
proof -
  have "mset_set (dom (map_of xs)) = mset (map fst xs)"
    using assms by (simp add: dom_map_of_conv_image_fst mset_set_set del: mset_map flip: set_map)
  then have "spec_entries (map_of xs) = mset (map (\<lambda>k. the (map_of xs k)) (map fst xs))"
    by (simp only: spec_entries_def mset_map)
  also have "map (\<lambda>k. the (map_of xs k)) (map fst xs) = map snd xs"
    using assms by (auto intro!: map_cong)
  finally show ?thesis .
qed

lemma imr_inv_update:
  assumes "imr_inv r"
  shows "imr_inv (r\<lparr>imr_entries := AList.update (re_id e) e (imr_entries r)\<rparr>)"
proof -
  have "\<forall>(k, x) \<in> set (AList.update (re_id e) e xs). re_id x = k"
    if "\<forall>(k, x) \<in> set xs. re_id x = k" for xs
    using that by (induction xs) auto
  note ids = this
  show ?thesis
    using assms ids [of "imr_entries r"] by (auto simp: imr_inv_def distinct_update)
qed

lemma imr_inv_upserts:
  "imr_inv r \<Longrightarrow>
   imr_inv (r\<lparr>imr_entries := foldl (\<lambda>m e. AList.update (re_id e) e m) (imr_entries r) es\<rparr>)"
proof (induction es arbitrary: r)
  case Nil
  then show ?case by simp
next
  case (Cons e es)
  from Cons.IH [OF imr_inv_update [OF Cons.prems, of e]] show ?case by simp
qed

lemma imr_inv_delete:
  assumes "imr_inv r"
  shows "imr_inv (r\<lparr>imr_entries := AList.delete i (imr_entries r)\<rparr>)"
  using assms by (auto simp: imr_inv_def distinct_map_filter AList.delete_eq)

lemma map_of_upserts:
  "map_of (foldl (\<lambda>m e. AList.update (re_id e) e m) xs es) =
   foldl (\<lambda>m e. m(re_id e \<mapsto> e)) (map_of xs) es"
  by (induction es arbitrary: xs) (simp_all add: update_conv')

interpretation mem: registry imr_new imr_insert imr_get imr_list imr_remove imr_upsert_many
  imr_export_all imr_inv imr_abs
proof (unfold_locales, goal_cases)
  case 1 show ?case by (simp add: imr_abs_def imr_new_def)
next
  case 2 show ?case by (simp add: imr_inv_def imr_new_def)
next
  case 3 then show ?case by (auto simp: imr_inv_def imr_abs_def dest!: map_of_SomeD)
next
  case 4 show ?case by (simp add: imr_abs_def finite_dom_map_of)
next
  case 5 then show ?case by (auto simp: imr_insert_def imr_abs_def update_conv' imr_inv_update)
next
  case 6 then show ?case by (auto simp: imr_insert_def imr_abs_def)
next
  case 7 show ?case by (simp add: imr_get_def imr_abs_def)
next
  case 8 then show ?case
    by (auto simp: imr_list_def imr_abs_def imr_inv_def spec_entries_map_of)
next
  case 9 then show ?case
    by (auto simp: imr_remove_def imr_abs_def imr_inv_delete delete_conv' Let_def)
next
  case 10 then show ?case
    by (auto simp: imr_remove_def imr_abs_def imr_inv_delete delete_conv' Let_def)
next
  case 11 then show ?case
    by (auto simp: imr_upsert_many_def imr_abs_def imr_inv_upserts map_of_upserts)
next
  case 12 show ?case by (simp add: imr_export_all_def)
qed

section \<open>Properties\<close>

lemma imr_list_entries: "imr_inv r \<Longrightarrow> \<exists>xs. imr_list r = Ok xs \<and> mset xs = spec_entries (imr_abs r)"
  by (rule mem.list_abs)

lemma imr_step_simulates:
  assumes "imr_inv r" and "imr_step r q = (r', a)"
  shows "spec_step (imr_abs r) q = (imr_abs r', a) \<and> imr_inv r'"
proof (cases q)
  case (RInsert e)
  obtain r1 a1 where i: "imr_insert r e = (r1, a1)" by force
  with RInsert assms(2) have "r' = r1" "a = RUnit a1" by simp_all
  with RInsert i show ?thesis
    using mem.insert_free [OF assms(1) _ i] mem.insert_taken [OF assms(1), of e] assms(1)
    by (cases "imr_abs r (re_id e)") auto
next
  case (RGet i)
  with assms show ?thesis by (auto simp: mem.get_abs)
next
  case RList
  with assms imr_list_entries [OF assms(1)] show ?thesis by auto
next
  case (RRemove i)
  obtain r1 a1 where i: "imr_remove r i = (r1, a1)" by force
  with RRemove assms(2) have "r' = r1" "a = RUnit a1" by simp_all
  with RRemove i show ?thesis
    using mem.remove_absent [OF assms(1) _ i] mem.remove_present [OF assms(1) _ i]
    by (cases "imr_abs r i") auto
next
  case (RUpsert es)
  obtain r1 a1 where i: "imr_upsert_many r es = (r1, a1)" by force
  with RUpsert assms(2) have "r' = r1" "a = RUnit a1" by simp_all
  with RUpsert show ?thesis using mem.upsert_abs [OF assms(1) i] by auto
next
  case RExport
  with assms imr_list_entries [OF assms(1)] show ?thesis by (auto simp: mem.export_list)
qed

lemma imr_run_simulates: "imr_inv r \<Longrightarrow> imr_run r qs = spec_run (imr_abs r) qs"
proof (induction qs arbitrary: r)
  case Nil
  then show ?case by simp
next
  case (Cons q qs)
  obtain r' a where st: "imr_step r q = (r', a)" by force
  with imr_step_simulates [OF Cons.prems st] Cons.IH [of r'] show ?case by simp
qed

text \<open>
  C18. Every sequence of requests served by the in-memory registry gets the answers of the
  abstract finite map: inserts conflict exactly on a taken id, removals miss exactly on an
  absent one, reads and listings show the entries stored so far, each once.
\<close>

theorem registry_refines_map: "imr_run imr_new qs = spec_run Map.empty qs"
  using imr_run_simulates [OF mem.new_inv, of qs] by (simp add: mem.new_abs)

text \<open>
  Backup and restore: exporting a registry and upserting the export into an empty one
  gives a registry with the same entry under every id.
\<close>

theorem registry_export_restores:
  assumes "imr_inv r" and "imr_export_all r = Ok xs"
  shows "imr_get (fst (imr_upsert_many imr_new xs)) i = imr_get r i"
proof -
  obtain r' a where up: "imr_upsert_many imr_new xs = (r', a)" by force
  have "imr_inv r'" using mem.upsert_abs [OF mem.new_inv up] by blast
  with up mem.export_restores [OF assms up] show ?thesis
    by (simp add: mem.get_abs assms(1))
qed

definition demo_entry :: "string \<Rightarrow> string \<Rightarrow> unit registry_entry" where
  "demo_entry i n = \<lparr>re_id = i, re_name = n, re_kind = Unknown, re_version = ''1.0.0'', re_payload = None\<rparr>"

definition demo_registry :: "unit in_memory_registry" where
  "demo_registry = \<lparr>imr_entries = [(''a'', demo_entry ''a'' ''A''), (''b'', demo_entry ''b'' ''B'')]\<rparr>"

theorem registry_export_restores_witness:
  "imr_inv demo_registry \<and>
   imr_get (fst (imr_upsert_many imr_new [demo_entry ''a'' ''A'', demo_entry ''b'' ''B''])) ''b'' =
     Ok (Some (demo_entry ''b'' ''B''))"
proof -
  have i: "imr_inv demo_registry"
    by (simp add: imr_inv_def demo_registry_def demo_entry_def)
  have e: "imr_export_all demo_registry = Ok [demo_entry ''a'' ''A'', demo_entry ''b'' ''B'']"
    by (simp add: imr_export_all_def imr_list_def demo_registry_def)
  show ?thesis
    using i registry_export_restores [OF i e, of "''b''"]
    by (simp add: imr_get_def demo_registry_def)
qed

end
