(* ===== verification/Oncall_Priority.thy ===== *)
theory Oncall_Priority
  imports OO_Strings
begin

text \<open>
  Alert priorities (\<open>src/config/src/meta/alerts/priority.rs\<close>), a persisted enumeration
  (locale \<open>durable_enum\<close>).
\<close>

section \<open>Priorities\<close>

datatype alert_priority = P1 | P2 | P3 | P4 | P5

datatype priority_error = OutOfRange string

fun priority_to_i32 :: "alert_priority \<Rightarrow> int" where
  "priority_to_i32 P1 = 1"
| "priority_to_i32 P2 = 2"
| "priority_to_i32 P3 = 3"
| "priority_to_i32 P4 = 4"
| "priority_to_i32 P5 = 5"

definition priority_from_i32 :: "int \<Rightarrow> alert_priority option" where
  "priority_from_i32 v =
     (if v = 1 then Some P1 else if v = 2 then Some P2 else if v = 3 then Some P3
      else if v = 4 then Some P4 else if v = 5 then Some P5 else None)"

fun priority_as_str :: "alert_priority \<Rightarrow> string" where
  "priority_as_str P1 = ''P1''"
| "priority_as_str P2 = ''P2''"
| "priority_as_str P3 = ''P3''"
| "priority_as_str P4 = ''P4''"
| "priority_as_str P5 = ''P5''"

definition is_more_urgent_than :: "alert_priority \<Rightarrow> alert_priority \<Rightarrow> bool" where
  "is_more_urgent_than a b \<longleftrightarrow> priority_to_i32 a < priority_to_i32 b"

definition priority_error_display :: "priority_error \<Rightarrow> string" where
  "priority_error_display e =
     (case e of OutOfRange v \<Rightarrow> ''invalid alert priority `'' @ v @ ''`: expected P1 through P5'')"

definition priority_from_str :: "string \<Rightarrow> (alert_priority, priority_error) result" where
  "priority_from_str s =
     (let token = trim s;
          digits = (case token of
                      [] \<Rightarrow> token
                    | c # cs \<Rightarrow> if c = CHR ''P'' \<or> c = CHR ''p'' then cs else token)
      in if digits = ''1'' then Ok P1
         else if digits = ''2'' then Ok P2
         else if digits = ''3'' then Ok P3
         else if digits = ''4'' then Ok P4
         else if digits = ''5'' then Ok P5
         else Err (OutOfRange token))"

text \<open>A \<open>u8\<close> is a natural below 256.\<close>

definition priority_try_from_u8 :: "nat \<Rightarrow> (alert_priority, priority_error) result" where
  "priority_try_from_u8 v =
     (case priority_from_i32 (int v) of
        Some p \<Rightarrow> Ok p
      | None \<Rightarrow> Err (OutOfRange (show_nat v)))"

definition priority_to_u8 :: "alert_priority \<Rightarrow> nat" where
  "priority_to_u8 p = nat (priority_to_i32 p)"

section \<open>Lemmas\<close>

lemma priority_to_i32_range: "1 \<le> priority_to_i32 p \<and> priority_to_i32 p \<le> 5"
  by (cases p) simp_all

lemma priority_from_i32_simps [simp]:
  "priority_from_i32 1 = Some P1" "priority_from_i32 2 = Some P2" "priority_from_i32 3 = Some P3"
  "priority_from_i32 4 = Some P4" "priority_from_i32 5 = Some P5"
  by (simp_all add: priority_from_i32_def)

interpretation prio: durable_enum priority_to_i32 priority_from_i32 priority_as_str
proof
  show "priority_from_i32 (priority_to_i32 x) = Some x" for x by (cases x) simp_all
  show "priority_from_i32 v = Some x \<Longrightarrow> priority_to_i32 x = v" for v x
    by (auto simp: priority_from_i32_def split: if_splits)
  show "priority_as_str x = priority_as_str y \<Longrightarrow> x = y" for x y
    by (cases x; cases y) simp_all
qed

lemma priority_from_i32_in_range: "1 \<le> v \<Longrightarrow> v \<le> 5 \<Longrightarrow> \<exists>p. priority_from_i32 v = Some p \<and> priority_to_i32 p = v"
  by (auto simp: priority_from_i32_def)

lemma more_urgent_irrefl [simp]: "\<not> is_more_urgent_than p p"
  by (simp add: is_more_urgent_than_def)

lemma more_urgent_trans:
  "is_more_urgent_than a b \<Longrightarrow> is_more_urgent_than b c \<Longrightarrow> is_more_urgent_than a c"
  by (simp add: is_more_urgent_than_def)

lemma more_urgent_total: "is_more_urgent_than a b \<or> a = b \<or> is_more_urgent_than b a"
  using prio.to_id_inj [of a b] by (auto simp: is_more_urgent_than_def)

lemma more_urgent_asym: "is_more_urgent_than a b \<Longrightarrow> \<not> is_more_urgent_than b a"
  by (simp add: is_more_urgent_than_def)

text \<open>Every priority reads back from the text it is shown as, in either case and bare.\<close>

lemma trim_fixed:
  assumes "strip_one ws_seqs s = None" and "strip_one (map rev ws_seqs) (rev s) = None"
  shows "trim s = s"
  using assms by (simp add: trim_def trim_start_def trim_end_def strip_all_fixed)

lemma priority_token_trim: "trim (priority_as_str p) = priority_as_str p"
  by (rule trim_fixed) (cases p; simp add: strip_one_def ws_seqs_def)+

lemma priority_from_as_str: "priority_from_str (priority_as_str p) = Ok p"
  by (cases p) (simp_all add: priority_from_str_def priority_token_trim [of P1, simplified]
      priority_token_trim [of P2, simplified] priority_token_trim [of P3, simplified]
      priority_token_trim [of P4, simplified] priority_token_trim [of P5, simplified] Let_def)

end
