(* ===== verification/Oncall_Subject.thy ===== *)
theory Oncall_Subject
  imports Oncall_Priority
begin

text \<open>
  Subjects (\<open>src/config/src/meta/oncall/subject.rs\<close>): a response record is keyed by one firing
  of one source, stored as \<open>source#n\<close>. A \<open>u32\<close> firing counter is a natural below \<open>2 ^ 32\<close>.
\<close>

datatype subject_type = Alert | Incident

datatype subject_error = UnknownType string | EmptyId | BadFiringSuffix string

fun subject_type_to_i32 :: "subject_type \<Rightarrow> int" where
  "subject_type_to_i32 Alert = 1"
| "subject_type_to_i32 Incident = 2"

definition subject_type_from_i32 :: "int \<Rightarrow> subject_type option" where
  "subject_type_from_i32 v = (if v = 1 then Some Alert else if v = 2 then Some Incident else None)"

fun subject_type_as_str :: "subject_type \<Rightarrow> string" where
  "subject_type_as_str Alert = ''alert''"
| "subject_type_as_str Incident = ''incident''"

definition subject_type_from_str :: "string \<Rightarrow> (subject_type, subject_error) result" where
  "subject_type_from_str s =
     (let token = trim s; low = to_ascii_lowercase token
      in if low = ''alert'' then Ok Alert
         else if low = ''incident'' then Ok Incident
         else Err (UnknownType token))"

record subject_ref =
  sr_type :: subject_type
  sr_source_id :: string
  sr_firing :: nat

definition subject_ref_new :: "subject_type \<Rightarrow> string \<Rightarrow> nat \<Rightarrow> subject_ref" where
  "subject_ref_new t s n = \<lparr>sr_type = t, sr_source_id = s, sr_firing = n\<rparr>"

definition subject_id :: "subject_ref \<Rightarrow> string" where
  "subject_id r = sr_source_id r @ ''#'' @ show_nat (sr_firing r)"

definition storage_key :: "subject_ref \<Rightarrow> int \<times> string" where
  "storage_key r = (subject_type_to_i32 (sr_type r), subject_id r)"

definition subject_ref_parse :: "subject_type \<Rightarrow> string \<Rightarrow> (subject_ref, subject_error) result" where
  "subject_ref_parse t s =
     (case rsplit_once s CHR ''#'' of
        None \<Rightarrow> Err (BadFiringSuffix s)
      | Some (src, suffix) \<Rightarrow>
          if src = [] then Err EmptyId
          else (case parse_u32 suffix of
                  None \<Rightarrow> Err (BadFiringSuffix s)
                | Some firing \<Rightarrow>
                    if firing = 0 then Err (BadFiringSuffix s)
                    else Ok (subject_ref_new t src firing)))"

text \<open>In release builds the \<open>u32\<close> increment wraps.\<close>

definition next_firing :: "subject_ref \<Rightarrow> subject_ref" where
  "next_firing r = r\<lparr>sr_firing := (sr_firing r + 1) mod 4294967296\<rparr>"

definition subject_ref_display :: "subject_ref \<Rightarrow> string" where
  "subject_ref_display r = subject_type_as_str (sr_type r) @ ''/'' @ subject_id r"

definition subject_error_display :: "subject_error \<Rightarrow> string" where
  "subject_error_display e =
     (case e of
        UnknownType v \<Rightarrow>
          ''invalid subject type `'' @ v @ ''`: expected alert, incident, synthetic or anomaly''
      | EmptyId \<Rightarrow> ''subject id must name a source''
      | BadFiringSuffix v \<Rightarrow> ''subject id `'' @ v @ ''` must end in `#<n>` with n >= 1'')"

definition subject_ref_wf :: "subject_ref \<Rightarrow> bool" where
  "subject_ref_wf r \<longleftrightarrow> sr_source_id r \<noteq> [] \<and> 0 < sr_firing r \<and> sr_firing r < 4294967296"

section \<open>Lemmas\<close>

interpretation subject_type: durable_enum subject_type_to_i32 subject_type_from_i32 subject_type_as_str
proof
  show "subject_type_from_i32 (subject_type_to_i32 x) = Some x" for x
    by (cases x) (simp_all add: subject_type_from_i32_def)
  show "subject_type_from_i32 v = Some x \<Longrightarrow> subject_type_to_i32 x = v" for v x
    by (auto simp: subject_type_from_i32_def split: if_splits)
  show "subject_type_as_str x = subject_type_as_str y \<Longrightarrow> x = y" for x y
    by (cases x; cases y) simp_all
qed

lemma rsplit_subject_id:
  "rsplit_once (subject_id r) CHR ''#'' = Some (sr_source_id r, show_nat (sr_firing r))"
  using rsplit_once_append [OF show_nat_no_hash, of "sr_source_id r" "sr_firing r"]
  by (simp add: subject_id_def)

lemma parse_subject_id:
  "subject_ref_wf r \<Longrightarrow> subject_ref_parse (sr_type r) (subject_id r) = Ok r"
  by (simp add: subject_ref_parse_def rsplit_subject_id parse_u32_show_nat subject_ref_wf_def
      subject_ref_new_def)

lemma subject_id_inj:
  assumes "subject_id a = subject_id b"
  shows "sr_source_id a = sr_source_id b \<and> sr_firing a = sr_firing b"
  using rsplit_subject_id [of a] rsplit_subject_id [of b] assms by (auto dest: show_nat_inj)

lemma parse_u32_bound: "parse_u32 s = Some n \<Longrightarrow> n < 4294967296"
  by (auto simp: parse_u32_def split: option.splits if_splits)

lemma parse_wf: "subject_ref_parse t s = Ok r \<Longrightarrow> subject_ref_wf r \<and> sr_type r = t"
  by (auto simp: subject_ref_parse_def subject_ref_wf_def subject_ref_new_def parse_u32_bound
      split: option.splits if_splits prod.splits)

section \<open>Properties\<close>

text \<open>
  Parsing the stored subject id of any well-formed reference gives that reference back,
  also when the source id itself contains hash signs, and two references with the same
  storage key are equal.
\<close>

theorem subject_roundtrip:
  assumes "subject_ref_wf r"
  shows "subject_ref_parse (sr_type r) (subject_id r) = Ok r
     \<and> (\<forall>r'. storage_key r' = storage_key r \<longrightarrow> r' = r)"
proof (intro conjI allI impI)
  show "subject_ref_parse (sr_type r) (subject_id r) = Ok r"
    using assms by (rule parse_subject_id)
  fix r' assume "storage_key r' = storage_key r"
  then have "sr_type r' = sr_type r" and "subject_id r' = subject_id r"
    by (auto simp: storage_key_def subject_type.to_id_inj)
  then show "r' = r" using subject_id_inj [of r' r] by simp
qed

theorem subject_roundtrip_witness:
  "subject_ref_parse Alert ''a#b#12'' = Ok \<lparr>sr_type = Alert, sr_source_id = ''a#b'', sr_firing = 12\<rparr>"
proof -
  let ?r = "\<lparr>sr_type = Alert, sr_source_id = ''a#b'', sr_firing = 12\<rparr>"
  have wf: "subject_ref_wf ?r" by (simp add: subject_ref_wf_def)
  have "subject_id ?r = ''a#b#12''"
    by code_simp
  with conjunct1 [OF subject_roundtrip [OF wf]] show ?thesis by simp
qed

end
