(* ===== verification/Oncall_Channel.thy ===== *)
theory Oncall_Channel
  imports Oncall_Priority "HOL-Library.Multiset"
begin

text \<open>
  Paging channels (\<open>oncall/policy.rs\<close>, with the two channel filters of \<open>oncall/agent.rs\<close>):
  how a rung's channel set splits into sends per person and one post per rung, and which of
  them a person, a follow-up or a downgraded page may use.
\<close>

datatype channel = Email | Webhook | Sms | Voice

fun channel_to_i32 :: "channel \<Rightarrow> int" where
  "channel_to_i32 Email = 1"
| "channel_to_i32 Sms = 3"
| "channel_to_i32 Voice = 4"
| "channel_to_i32 Webhook = 7"

definition channel_from_i32 :: "int \<Rightarrow> channel option" where
  "channel_from_i32 v =
     (if v = 1 then Some Email else if v = 3 then Some Sms else if v = 4 then Some Voice
      else if v = 7 then Some Webhook else None)"

fun channel_as_str :: "channel \<Rightarrow> string" where
  "channel_as_str Email = ''email''"
| "channel_as_str Sms = ''sms''"
| "channel_as_str Voice = ''voice''"
| "channel_as_str Webhook = ''webhook''"

definition deliverable :: "channel list" where
  "deliverable = [Email, Sms, Voice, Webhook]"

definition CHANNEL_ORDER :: "channel list" where
  "CHANNEL_ORDER = [Email, Sms, Voice, Webhook]"

fun is_broadcast :: "channel \<Rightarrow> bool" where
  "is_broadcast Webhook = True"
| "is_broadcast Email = False"
| "is_broadcast Sms = False"
| "is_broadcast Voice = False"

record channel_plan_t =
  cp_personal :: "channel list"
  cp_broadcast :: "channel list"

definition channel_plan_is_empty :: "channel_plan_t \<Rightarrow> bool" where
  "channel_plan_is_empty p \<longleftrightarrow> cp_personal p = [] \<and> cp_broadcast p = []"

definition channel_plan :: "channel list \<Rightarrow> channel_plan_t" where
  "channel_plan channels =
     (let (broadcast, personal) =
            partition is_broadcast (filter (\<lambda>c. c \<in> set channels) CHANNEL_ORDER)
      in \<lparr>cp_personal = personal, cp_broadcast = broadcast\<rparr>)"

definition personal_channels :: "channel list \<Rightarrow> bool \<Rightarrow> bool \<Rightarrow> channel list" where
  "personal_channels channels pageable account =
     filter (\<lambda>c. case c of
        Email \<Rightarrow> True
      | Sms \<Rightarrow> pageable \<and> account
      | Voice \<Rightarrow> pageable \<and> account
      | Webhook \<Rightarrow> False) channels"

text \<open>The destinations of a team's channel: the team's list wins whenever it is set.\<close>

definition team_channel :: "string list option \<Rightarrow> string list \<Rightarrow> string list" where
  "team_channel team policy = (case team of Some l \<Rightarrow> l | None \<Rightarrow> policy)"

definition update_channels :: "channel list \<Rightarrow> channel list" where
  "update_channels channels = filter (\<lambda>c. c = Email) channels"

definition quieter_channels :: "channel list \<Rightarrow> channel list" where
  "quieter_channels channels =
     filter (\<lambda>c. case c of Email \<Rightarrow> True | Webhook \<Rightarrow> True | Sms \<Rightarrow> False | Voice \<Rightarrow> False) channels"

fun updates_in_place :: "channel \<Rightarrow> bool" where
  "updates_in_place Email = False"
| "updates_in_place Webhook = False"
| "updates_in_place Sms = False"
| "updates_in_place Voice = False"

section \<open>Lemmas\<close>

interpretation chan: durable_enum channel_to_i32 channel_from_i32 channel_as_str
proof
  show "channel_from_i32 (channel_to_i32 x) = Some x" for x
    by (cases x) (simp_all add: channel_from_i32_def)
  show "channel_from_i32 v = Some x \<Longrightarrow> channel_to_i32 x = v" for v x
    by (auto simp: channel_from_i32_def split: if_splits)
  show "channel_as_str x = channel_as_str y \<Longrightarrow> x = y" for x y
    by (cases x; cases y) simp_all
qed

lemma set_channel_order [simp]: "set CHANNEL_ORDER = UNIV"
  by (auto simp: CHANNEL_ORDER_def intro: channel.exhaust)

lemma channel_plan_simps [simp]:
  "cp_personal (channel_plan cs) = filter (\<lambda>c. c \<in> set cs \<and> \<not> is_broadcast c) CHANNEL_ORDER"
  "cp_broadcast (channel_plan cs) = filter (\<lambda>c. c \<in> set cs \<and> is_broadcast c) CHANNEL_ORDER"
  by (simp_all add: channel_plan_def partition_filter_conv comp_def filter_filter conj_commute)

lemma set_channel_plan:
  "set (cp_personal (channel_plan cs)) = {c \<in> set cs. \<not> is_broadcast c}"
  "set (cp_broadcast (channel_plan cs)) = {c \<in> set cs. is_broadcast c}"
  by auto

lemma channel_plan_empty: "channel_plan_is_empty (channel_plan cs) \<longleftrightarrow> cs = []"
proof -
  have "channel_plan_is_empty (channel_plan cs) \<longleftrightarrow>
        set (cp_personal (channel_plan cs)) \<union> set (cp_broadcast (channel_plan cs)) = {}"
    by (simp add: channel_plan_is_empty_def del: channel_plan_simps)
  also have "\<dots> \<longleftrightarrow> set cs = {}" unfolding set_channel_plan by auto
  finally show ?thesis by simp
qed

section \<open>Properties\<close>

text \<open>
  The plan of a rung lists exactly the rung's channels, each once and in the fixed
  order, the room-wide ones under broadcast and the others under personal; it is empty only
  for an empty channel set.
\<close>

theorem channel_plan_partitions:
  "mset (cp_personal (channel_plan cs) @ cp_broadcast (channel_plan cs)) = mset_set (set cs)
   \<and> (\<forall>c. c \<in> set (cp_broadcast (channel_plan cs)) \<longleftrightarrow> c \<in> set cs \<and> c = Webhook)
   \<and> sorted (map channel_to_i32 (cp_personal (channel_plan cs)))
   \<and> (channel_plan_is_empty (channel_plan cs) \<longleftrightarrow> cs = [])"
proof (intro conjI)
  let ?p = "cp_personal (channel_plan cs)" and ?b = "cp_broadcast (channel_plan cs)"
  have d: "distinct (?p @ ?b)" by (auto simp: CHANNEL_ORDER_def)
  have "set (?p @ ?b) = set cs" using set_channel_plan [of cs] by auto
  with d show "mset (?p @ ?b) = mset_set (set cs)" by (metis mset_set_set)
  show "\<forall>c. c \<in> set ?b \<longleftrightarrow> c \<in> set cs \<and> c = Webhook"
    using is_broadcast.elims(2) by (auto simp: set_channel_plan)
  show "sorted (map channel_to_i32 ?p)" by (auto simp: CHANNEL_ORDER_def)
  show "channel_plan_is_empty (channel_plan cs) \<longleftrightarrow> cs = []" by (rule channel_plan_empty)
qed

end
