(* ===== verification/Oncall_Response.thy ===== *)
theory Oncall_Response
  imports Oncall_Subject Oncall_Channel
begin

text \<open>
  The response record (\<open>src/config/src/meta/oncall/response.rs\<close>): one per firing of a subject.
  Its lifecycle states, the timeline entries that double as the delivery ledger, snoozing,
  handing over, the decision whether a firing pages, the ordered recovery of dependents and
  the message in the team's channel.

  Differences of instants are taken on \<open>int\<close>; the one product the source guards against
  overflow (\<open>snooze_until\<close>) keeps its checked arithmetic, and the run counter wraps as \<open>i32\<close>.
\<close>

section \<open>Ladder runs and snoozes\<close>

definition FIRST_LADDER_RUN :: int where "FIRST_LADDER_RUN = 1"

definition next_ladder_run :: "int option \<Rightarrow> int" where
  "next_ladder_run current = wrap_i32 ((case current of Some r \<Rightarrow> r | None \<Rightarrow> FIRST_LADDER_RUN) + 1)"

definition MAX_SNOOZE_MINUTES :: int where "MAX_SNOOZE_MINUTES = 24 * 60"

definition snooze_until :: "int \<Rightarrow> int \<Rightarrow> int option" where
  "snooze_until now minutes =
     (if \<not> (1 \<le> minutes \<and> minutes \<le> MAX_SNOOZE_MINUTES) then None
      else Option.bind (checked_mul minutes (60 * 1000000)) (checked_add now))"

definition snoozed_ladder_anchor :: "int option \<Rightarrow> int \<Rightarrow> int option \<Rightarrow> int \<Rightarrow> int \<Rightarrow> int" where
  "snoozed_ladder_anchor existing_anchor opened_at already_quiet_until frm until =
     (let quiet_reaches = max (case already_quiet_until of Some q \<Rightarrow> q | None \<Rightarrow> frm) frm
      in (case existing_anchor of Some a \<Rightarrow> a | None \<Rightarrow> opened_at) + max (until - quiet_reaches) 0)"

section \<open>States, roles and kinds\<close>

datatype response_state = Triggered | Triaged | Acknowledged | Resolved

fun rstate_to_i32 :: "response_state \<Rightarrow> int" where
  "rstate_to_i32 Triggered = 1"
| "rstate_to_i32 Triaged = 2"
| "rstate_to_i32 Acknowledged = 3"
| "rstate_to_i32 Resolved = 4"

definition rstate_from_i32 :: "int \<Rightarrow> response_state option" where
  "rstate_from_i32 v =
     (if v = 1 then Some Triggered
      else if v = 2 then Some Triaged
      else if v = 3 then Some Acknowledged
      else if v = 4 then Some Resolved
      else None)"

fun rstate_as_str :: "response_state \<Rightarrow> string" where
  "rstate_as_str Triggered = ''triggered''"
| "rstate_as_str Triaged = ''triaged''"
| "rstate_as_str Acknowledged = ''acknowledged''"
| "rstate_as_str Resolved = ''resolved''"

definition is_terminal :: "response_state \<Rightarrow> bool" where
  "is_terminal s \<longleftrightarrow> s = Resolved"

definition state_is_escalating :: "response_state \<Rightarrow> bool" where
  "state_is_escalating s \<longleftrightarrow> s = Triggered \<or> s = Triaged"

definition is_unresolved :: "response_state \<Rightarrow> bool" where
  "is_unresolved s \<longleftrightarrow> \<not> is_terminal s"

lemmas [oncall_defs] = is_terminal_def state_is_escalating_def is_unresolved_def

datatype responder_role = Owner | Impacted

fun role_to_i32 :: "responder_role \<Rightarrow> int" where
  "role_to_i32 Owner = 1"
| "role_to_i32 Impacted = 2"

definition role_from_i32 :: "int \<Rightarrow> responder_role option" where
  "role_from_i32 v =
     (if v = 1 then Some Owner
      else if v = 2 then Some Impacted
      else None)"

fun role_as_str :: "responder_role \<Rightarrow> string" where
  "role_as_str Owner = ''owner''"
| "role_as_str Impacted = ''impacted''"

datatype response_event_kind = EvSys | EvPage | EvAck | EvNote | EvRca | EvHandoff | EvRecovery | EvState | EvExhausted | EvDelivery | EvAiVerdict | EvSeverityPromoted | EvFlapped

fun event_kind_to_i32 :: "response_event_kind \<Rightarrow> int" where
  "event_kind_to_i32 EvSys = 1"
| "event_kind_to_i32 EvPage = 2"
| "event_kind_to_i32 EvAck = 3"
| "event_kind_to_i32 EvNote = 4"
| "event_kind_to_i32 EvRca = 5"
| "event_kind_to_i32 EvHandoff = 6"
| "event_kind_to_i32 EvRecovery = 7"
| "event_kind_to_i32 EvState = 8"
| "event_kind_to_i32 EvExhausted = 9"
| "event_kind_to_i32 EvDelivery = 10"
| "event_kind_to_i32 EvAiVerdict = 11"
| "event_kind_to_i32 EvSeverityPromoted = 12"
| "event_kind_to_i32 EvFlapped = 13"

definition event_kind_from_i32 :: "int \<Rightarrow> response_event_kind option" where
  "event_kind_from_i32 v =
     (if v = 1 then Some EvSys
      else if v = 2 then Some EvPage
      else if v = 3 then Some EvAck
      else if v = 4 then Some EvNote
      else if v = 5 then Some EvRca
      else if v = 6 then Some EvHandoff
      else if v = 7 then Some EvRecovery
      else if v = 8 then Some EvState
      else if v = 9 then Some EvExhausted
      else if v = 10 then Some EvDelivery
      else if v = 11 then Some EvAiVerdict
      else if v = 12 then Some EvSeverityPromoted
      else if v = 13 then Some EvFlapped
      else None)"

fun event_kind_as_str :: "response_event_kind \<Rightarrow> string" where
  "event_kind_as_str EvSys = ''sys''"
| "event_kind_as_str EvPage = ''page''"
| "event_kind_as_str EvAck = ''ack''"
| "event_kind_as_str EvNote = ''note''"
| "event_kind_as_str EvRca = ''rca''"
| "event_kind_as_str EvHandoff = ''handoff''"
| "event_kind_as_str EvRecovery = ''recovery''"
| "event_kind_as_str EvState = ''state''"
| "event_kind_as_str EvExhausted = ''exhausted''"
| "event_kind_as_str EvDelivery = ''delivery''"
| "event_kind_as_str EvAiVerdict = ''ai_verdict''"
| "event_kind_as_str EvSeverityPromoted = ''severity_promoted''"
| "event_kind_as_str EvFlapped = ''flapped''"

definition is_human_authored :: "response_event_kind \<Rightarrow> bool" where
  "is_human_authored k \<longleftrightarrow> k = EvNote \<or> k = EvAck \<or> k = EvHandoff"

definition is_ledger_only :: "response_event_kind \<Rightarrow> bool" where
  "is_ledger_only k \<longleftrightarrow> k = EvDelivery"

text \<open>The three persisted enumerations keep the contract of \<open>durable_enum\<close>.\<close>

interpretation rstate: durable_enum rstate_to_i32 rstate_from_i32 rstate_as_str
proof
  show "rstate_from_i32 (rstate_to_i32 x) = Some x" for x
    by (cases x) (simp_all add: rstate_from_i32_def)
  show "rstate_from_i32 v = Some x \<Longrightarrow> rstate_to_i32 x = v" for v x
    by (auto simp: rstate_from_i32_def split: if_splits)
  show "rstate_as_str x = rstate_as_str y \<Longrightarrow> x = y" for x y
    by (cases x; cases y) simp_all
qed

interpretation role: durable_enum role_to_i32 role_from_i32 role_as_str
proof
  show "role_from_i32 (role_to_i32 x) = Some x" for x
    by (cases x) (simp_all add: role_from_i32_def)
  show "role_from_i32 v = Some x \<Longrightarrow> role_to_i32 x = v" for v x
    by (auto simp: role_from_i32_def split: if_splits)
  show "role_as_str x = role_as_str y \<Longrightarrow> x = y" for x y
    by (cases x; cases y) simp_all
qed

interpretation event_kind: durable_enum event_kind_to_i32 event_kind_from_i32 event_kind_as_str
proof
  show "event_kind_from_i32 (event_kind_to_i32 x) = Some x" for x
    by (cases x) (simp_all add: event_kind_from_i32_def)
  show "event_kind_from_i32 v = Some x \<Longrightarrow> event_kind_to_i32 x = v" for v x
    by (auto simp: event_kind_from_i32_def split: if_splits)
  show "event_kind_as_str x = event_kind_as_str y \<Longrightarrow> x = y" for x y
    by (cases x; cases y) simp_all
qed

section \<open>The timeline\<close>

record response_event =
  ev_kind :: response_event_kind
  ev_at :: int
  ev_actor :: string
  ev_body :: string
  ev_rung_micros :: "int option"
  ev_ladder_run :: "int option"
  ev_recipient :: "string option"
  ev_channel :: "channel option"
  ev_delivered :: "bool option"

definition event_new :: "response_event_kind \<Rightarrow> int \<Rightarrow> string \<Rightarrow> string \<Rightarrow> response_event" where
  "event_new kind at actor body =
     \<lparr>ev_kind = kind, ev_at = at, ev_actor = actor, ev_body = body, ev_rung_micros = None,
      ev_ladder_run = None, ev_recipient = None, ev_channel = None, ev_delivered = None\<rparr>"

definition at_rung :: "response_event \<Rightarrow> int \<Rightarrow> response_event" where
  "at_rung e rung_micros = e\<lparr>ev_rung_micros := Some rung_micros\<rparr>"

definition in_run :: "response_event \<Rightarrow> int \<Rightarrow> response_event" where
  "in_run e ladder_run = e\<lparr>ev_ladder_run := Some ladder_run\<rparr>"

definition delivered_to :: "response_event \<Rightarrow> string \<Rightarrow> channel \<Rightarrow> bool \<Rightarrow> response_event" where
  "delivered_to e recipient channel delivered =
     e\<lparr>ev_recipient := Some recipient, ev_channel := Some channel, ev_delivered := Some delivered\<rparr>"

definition reached_nobody :: "response_event \<Rightarrow> response_event" where
  "reached_nobody e = e\<lparr>ev_delivered := Some False\<rparr>"

definition event_run :: "response_event \<Rightarrow> int" where
  "event_run e = (case ev_ladder_run e of Some r \<Rightarrow> r | None \<Rightarrow> FIRST_LADDER_RUN)"

definition is_unreached_rung :: "response_event \<Rightarrow> int \<Rightarrow> bool" where
  "is_unreached_rung e ladder_run \<longleftrightarrow>
     ev_kind e = EvPage \<and> ev_delivered e = Some False \<and> event_run e = ladder_run"

definition is_delivery_of :: "response_event \<Rightarrow> int \<Rightarrow> int \<Rightarrow> string \<Rightarrow> channel \<Rightarrow> bool" where
  "is_delivery_of e ladder_run rung_micros recipient channel \<longleftrightarrow>
     ev_kind e = EvDelivery \<and> ev_delivered e = Some True \<and> event_run e = ladder_run
     \<and> ev_rung_micros e = Some rung_micros \<and> ev_recipient e = Some recipient
     \<and> ev_channel e = Some channel"

section \<open>Causes\<close>

datatype resolution_cause =
    ConfigChangeOrDeploy
  | CapacityOrLoad
  | DependencyFailure
  | ExpectedOrMaintenance
  | NoisyThreshold
  | DataOrIngestionIssue
  | GenuineDefect
  | StillUnknown

definition ALL_CAUSES :: "resolution_cause list" where
  "ALL_CAUSES =
     [ConfigChangeOrDeploy,
      CapacityOrLoad,
      DependencyFailure,
      ExpectedOrMaintenance,
      NoisyThreshold,
      DataOrIngestionIssue,
      GenuineDefect,
      StillUnknown]"

fun cause_as_str :: "resolution_cause \<Rightarrow> string" where
  "cause_as_str ConfigChangeOrDeploy = ''config_change_or_deploy''"
| "cause_as_str CapacityOrLoad = ''capacity_or_load''"
| "cause_as_str DependencyFailure = ''dependency_failure''"
| "cause_as_str ExpectedOrMaintenance = ''expected_or_maintenance''"
| "cause_as_str NoisyThreshold = ''noisy_threshold''"
| "cause_as_str DataOrIngestionIssue = ''data_or_ingestion_issue''"
| "cause_as_str GenuineDefect = ''genuine_defect''"
| "cause_as_str StillUnknown = ''still_unknown''"

definition cause_from_str_opt :: "string \<Rightarrow> resolution_cause option" where
  "cause_from_str_opt s = List.find (\<lambda>c. cause_as_str c = s) ALL_CAUSES"

section \<open>The record\<close>

record response =
  rs_id :: string
  rs_org_id :: string
  rs_subject :: subject_ref
  rs_team_id :: "string option"
  rs_title :: "string option"
  rs_cause :: "resolution_cause option"
  rs_cause_note :: "string option"
  rs_snoozed_until :: "int option"
  rs_ladder_anchor :: "int option"
  rs_ladder_run :: "int option"
  rs_priority :: int
  rs_responder_role :: responder_role
  rs_exhausted_at :: "int option"
  rs_origin_response_id :: "string option"
  rs_state :: response_state
  rs_opened_at :: int
  rs_acked_by :: "string option"
  rs_acked_at :: "int option"
  rs_closed_at :: "int option"
  rs_incident_id :: "string option"
  rs_updated_at :: int

definition response_team :: "response \<Rightarrow> string" where
  "response_team r = (case rs_team_id r of Some t \<Rightarrow> t | None \<Rightarrow> [])"

definition time_to_ack :: "response \<Rightarrow> int option" where
  "time_to_ack r = map_option (\<lambda>a. a - rs_opened_at r) (rs_acked_at r)"

definition time_to_resolve :: "response \<Rightarrow> int option" where
  "time_to_resolve r = map_option (\<lambda>c. c - rs_opened_at r) (rs_closed_at r)"

definition ladder_start :: "response \<Rightarrow> int" where
  "ladder_start r = (case rs_ladder_anchor r of Some a \<Rightarrow> a | None \<Rightarrow> rs_opened_at r)"

definition current_run :: "response \<Rightarrow> int" where
  "current_run r = (case rs_ladder_run r of Some n \<Rightarrow> n | None \<Rightarrow> FIRST_LADDER_RUN)"

definition handed_over :: "response \<Rightarrow> string option \<Rightarrow> int \<Rightarrow> response" where
  "handed_over r to_team_id now =
     r\<lparr>rs_team_id := (case to_team_id of Some t \<Rightarrow> Some t | None \<Rightarrow> rs_team_id r),
       rs_state := Triggered, rs_acked_by := None, rs_acked_at := None, rs_snoozed_until := None,
       rs_exhausted_at := None, rs_ladder_anchor := Some now,
       rs_ladder_run := Some (next_ladder_run (rs_ladder_run r))\<rparr>"

definition is_snoozed :: "response \<Rightarrow> int \<Rightarrow> bool" where
  "is_snoozed r now = (case rs_snoozed_until r of Some until \<Rightarrow> now < until | None \<Rightarrow> False)"

definition is_escalating :: "response \<Rightarrow> bool" where
  "is_escalating r \<longleftrightarrow> state_is_escalating (rs_state r) \<and> rs_exhausted_at r = None"

definition is_exhausted :: "response \<Rightarrow> bool" where
  "is_exhausted r \<longleftrightarrow> rs_exhausted_at r \<noteq> None \<and> \<not> is_terminal (rs_state r)"

section \<open>Whether a firing pages\<close>

definition DEFAULT_FLAP_DAMPENING_SECS :: int where "DEFAULT_FLAP_DAMPENING_SECS = 300"

datatype page_decision_t =
    PdPage
  | PdAlreadyOpen
  | PdFlap string int

definition page_decision :: "response option \<Rightarrow> int \<Rightarrow> int \<Rightarrow> page_decision_t" where
  "page_decision latest now dampening_micros =
     (case latest of
        None \<Rightarrow> PdPage
      | Some record \<Rightarrow>
          if \<not> is_terminal (rs_state record) \<and> rs_closed_at record = None then PdAlreadyOpen
          else if dampening_micros \<le> 0 then PdPage
          else (case rs_closed_at record of
                  None \<Rightarrow> PdPage
                | Some closed_at \<Rightarrow>
                    (let recovered_for = now - closed_at in
                     if 0 \<le> recovered_for \<and> recovered_for < dampening_micros
                     then PdFlap (rs_id record) recovered_for else PdPage)))"

definition flap_note :: "int \<Rightarrow> string" where
  "flap_note recovered_for_micros =
     (let seconds = max recovered_for_micros 0 div 1000000
      in ''the condition fired again '' @ show_int seconds @ ''s after recovering '' @ em_dash
         @ '' dampened as the same unstable firing, so nobody was paged a second time'')"

datatype no_blast_radius = NoServiceDimension | NoGraph | NothingCallsIt string

fun blast_note :: "no_blast_radius \<Rightarrow> string" where
  "blast_note NoServiceDimension = ''this signal carries no service, so no downstream teams were computed''"
| "blast_note NoGraph = ''the service graph has no recent data, so no downstream teams were computed''"
| "blast_note (NothingCallsIt service) =
     ''nothing in the service graph calls '' @ service @ '', so no other team is downstream of this''"

section \<open>Ordered recovery\<close>

datatype upstream_recovery_t = CloseOwner | AwaitDependents "string list"

definition upstream_recovery :: "response list \<Rightarrow> upstream_recovery_t" where
  "upstream_recovery impacted =
     (let outstanding = map rs_id (filter (\<lambda>r. \<not> is_terminal (rs_state r)) impacted)
      in if outstanding = [] then CloseOwner else AwaitDependents outstanding)"

definition dependents_all_clear :: "response list \<Rightarrow> string \<Rightarrow> bool" where
  "dependents_all_clear impacted confirmed_id \<longleftrightarrow>
     \<not> list_ex (\<lambda>r. rs_id r \<noteq> confirmed_id \<and> \<not> is_terminal (rs_state r)) impacted"

section \<open>The team's channel\<close>

datatype channel_post_stage = StPaged | StAcknowledged | StResolved

fun stage_as_str :: "channel_post_stage \<Rightarrow> string" where
  "stage_as_str StPaged = ''paged''"
| "stage_as_str StAcknowledged = ''acknowledged''"
| "stage_as_str StResolved = ''resolved''"

fun stage_of :: "response_state \<Rightarrow> channel_post_stage option" where
  "stage_of Triggered = Some StPaged"
| "stage_of Acknowledged = Some StAcknowledged"
| "stage_of Resolved = Some StResolved"
| "stage_of Triaged = None"

record channel_post_t =
  cp_key :: string
  cp_stage :: channel_post_stage
  cp_title :: string
  cp_body :: string
  cp_url :: string

definition CHANNEL_POST_KEY_PREFIX :: string where "CHANNEL_POST_KEY_PREFIX = ''o2-oncall-response''"

definition channel_post_key :: "string \<Rightarrow> string" where
  "channel_post_key response_id = CHANNEL_POST_KEY_PREFIX @ '':'' @ response_id"

definition nl :: string where "nl = [CHR 0x0A]"

definition channel_post :: "response \<Rightarrow> string \<Rightarrow> channel_post_stage \<Rightarrow> string \<Rightarrow> channel_post_t" where
  "channel_post response team_name stage detail_url =
     (let what = (case rs_title response of Some t \<Rightarrow> t | None \<Rightarrow> sr_source_id (rs_subject response));
          title = ''['' @ stage_as_str stage @ ''] '' @ what @ '' '' @ em_dash @ '' '' @ team_name;
          body =
            (case stage of
               StPaged \<Rightarrow>
                 team_name @ '' has been paged for '' @ what @ ''.'' @ nl
                 @ (if rs_responder_role response = Impacted
                    then ''This team is impacted rather than the owner: contain the impact on your ''
                         @ ''service; another team is fixing the cause.'' @ nl
                    else [])
             | StAcknowledged \<Rightarrow>
                 (case rs_acked_by response of Some w \<Rightarrow> w | None \<Rightarrow> ''somebody'')
                 @ '' has it. '' @ what @ '' '' @ em_dash @ '' '' @ team_name @ ''.'' @ nl
             | StResolved \<Rightarrow>
                 ''Resolved: '' @ what @ '' '' @ em_dash @ '' '' @ team_name @ ''.'' @ nl
                 @ (case rs_cause response of
                      Some cause \<Rightarrow> ''Cause: '' @ cause_as_str cause @ nl
                    | None \<Rightarrow> ''Cause: not recorded'' @ nl)
                 @ (case rs_cause_note response of
                      Some note \<Rightarrow> if trim note \<noteq> [] then note @ nl else []
                    | None \<Rightarrow> []))
      in \<lparr>cp_key = channel_post_key (rs_id response), cp_stage = stage, cp_title = title,
          cp_body = body @ nl @ detail_url @ nl, cp_url = detail_url\<rparr>)"

datatype channel_post_action_t = Post | Edit | Skip

fun channel_post_action :: "bool \<Rightarrow> bool \<Rightarrow> channel_post_action_t" where
  "channel_post_action False _ = Post"
| "channel_post_action True True = Edit"
| "channel_post_action True False = Skip"

lemmas [oncall_defs] = FIRST_LADDER_RUN_def MAX_SNOOZE_MINUTES_def

section \<open>Lemmas\<close>

lemma find_cause: "cause_from_str_opt (cause_as_str c) = Some c"
  by (cases c) (simp_all add: cause_from_str_opt_def ALL_CAUSES_def)

lemma find_cause_sound: "cause_from_str_opt s = Some c \<Longrightarrow> cause_as_str c = s"
  by (auto simp: cause_from_str_opt_def find_Some_iff)

text \<open>A snooze as \<open>oncall_responses::snooze\<close> writes it: the anchor moves, the quiet reaches \<open>until\<close>.\<close>

definition snooze_record :: "response \<Rightarrow> int \<times> int \<Rightarrow> response" where
  "snooze_record r w =
     r\<lparr>rs_ladder_anchor := Some (snoozed_ladder_anchor (rs_ladder_anchor r) (rs_opened_at r)
          (rs_snoozed_until r) (fst w) (snd w)),
       rs_snoozed_until := Some (snd w)\<rparr>"

text \<open>
  A sequence of snoozes pressed in order, none shortening an earlier one, with \<open>lo\<close> the instant
  the last one was pressed and \<open>hi\<close> the instant the quiet reaches.
\<close>

fun snoozes_from :: "int \<Rightarrow> int \<Rightarrow> (int \<times> int) list \<Rightarrow> bool" where
  "snoozes_from lo hi [] = True"
| "snoozes_from lo hi ((f, u) # ws) \<longleftrightarrow> lo \<le> f \<and> hi \<le> u \<and> f \<le> u \<and> snoozes_from f u ws"

definition quiet_instants :: "(int \<times> int) list \<Rightarrow> int set" where
  "quiet_instants ws = (\<Union>(f, u) \<in> set ws. {f..<u})"

lemma quiet_instants_simps [simp]:
  "quiet_instants [] = {}" "quiet_instants ((f, u) # ws) = {f..<u} \<union> quiet_instants ws"
  by (auto simp: quiet_instants_def)

lemma finite_quiet [simp]: "finite (quiet_instants ws)"
  by (auto simp: quiet_instants_def)

lemma quiet_above: "snoozes_from lo hi ws \<Longrightarrow> x \<in> quiet_instants ws \<Longrightarrow> lo \<le> x"
  by (induction lo hi ws rule: snoozes_from.induct) auto

lemma card_quiet_step:
  assumes "lo \<le> f" "hi \<le> u" "f \<le> u"
  shows "int (card ({lo..<hi} \<union> {f..<u})) = int (card {lo..<hi}) + max (u - max hi f) 0"
proof -
  have "{lo..<hi} \<union> {f..<u} = {lo..<hi} \<union> {max hi f..<u}" using assms by auto
  moreover have "{lo..<hi} \<inter> {max hi f..<u} = {}" by auto
  ultimately show ?thesis using assms by (simp add: card_Un_disjoint max_def)
qed

lemma snoozes_anchor:
  assumes "snoozes_from lo hi ws" "rs_snoozed_until r = Some hi" "rs_ladder_anchor r = Some a" "lo \<le> hi"
  shows "ladder_start (foldl snooze_record r ws) =
           a + int (card ({lo..<hi} \<union> quiet_instants ws)) - int (card {lo..<hi})"
  using assms
proof (induction ws arbitrary: lo hi r a)
  case Nil
  then show ?case by (simp add: ladder_start_def)
next
  case (Cons w ws)
  obtain f u where w: "w = (f, u)" by (cases w)
  let ?r = "snooze_record r w"
  let ?a = "a + max (u - max hi f) 0"
  have r: "rs_snoozed_until ?r = Some u" "rs_ladder_anchor ?r = Some ?a"
    using Cons.prems w by (simp_all add: snooze_record_def snoozed_ladder_anchor_def)
  from Cons.prems w have le: "lo \<le> f" "hi \<le> u" "f \<le> u" and rest: "snoozes_from f u ws" by simp_all
  have IH: "ladder_start (foldl snooze_record r (w # ws)) =
      ?a + int (card ({f..<u} \<union> quiet_instants ws)) - int (card {f..<u})"
    using Cons.IH [OF rest r le(3)] by simp
  let ?Q = "quiet_instants ws - {f..<u}"
  have above: "\<forall>x \<in> ?Q. u \<le> x" using quiet_above [OF rest] by force
  have "{f..<u} \<union> quiet_instants ws = {f..<u} \<union> ?Q" by blast
  then have c1: "card ({f..<u} \<union> quiet_instants ws) = card {f..<u} + card ?Q"
    by (metis (no_types) Diff_disjoint card_Un_disjoint finite_Diff finite_atLeastLessThan_int finite_quiet)
  have "{lo..<hi} \<union> quiet_instants (w # ws) = ({lo..<hi} \<union> {f..<u}) \<union> ?Q" using w by auto
  moreover have "({lo..<hi} \<union> {f..<u}) \<inter> ?Q = {}" using above le by force
  ultimately have c2: "card ({lo..<hi} \<union> quiet_instants (w # ws)) = card ({lo..<hi} \<union> {f..<u}) + card ?Q"
    by (simp add: card_Un_disjoint)
  show ?case using IH c1 c2 card_quiet_step [OF le] by simp
qed

text \<open>Snoozes pressed in order, with nothing said of how long each one lasts; a cancel is one of no length.\<close>

fun pressed_from :: "int \<Rightarrow> (int \<times> int) list \<Rightarrow> bool" where
  "pressed_from lo [] = True"
| "pressed_from lo ((f, u) # ws) \<longleftrightarrow> lo \<le> f \<and> f \<le> u \<and> pressed_from f ws"

lemma never_shortened: "pressed_from f ws \<Longrightarrow> sorted (u # map snd ws) \<Longrightarrow> snoozes_from f u ws"
  by (induction f ws arbitrary: u rule: pressed_from.induct) auto

lemma snoozes_cover:
  assumes "pressed_from lo ws" "rs_snoozed_until r = Some hi" "rs_ladder_anchor r = Some a"
    and "finite S" "{lo..<hi} \<subseteq> S" "int (card S) \<le> a - c"
  shows "c + int (card (S \<union> quiet_instants ws)) \<le> ladder_start (foldl snooze_record r ws)"
  using assms
proof (induction ws arbitrary: lo hi r a S)
  case (Cons w ws)
  obtain f u where w: "w = (f, u)" by (cases w)
  let ?r = "snooze_record r w" and ?a = "a + max (u - max hi f) 0" and ?S = "S \<union> {f..<u}"
  have r: "rs_snoozed_until ?r = Some u" "rs_ladder_anchor ?r = Some ?a"
    using Cons.prems w by (simp_all add: snooze_record_def snoozed_ladder_anchor_def)
  have "x \<in> S \<union> {max hi f..<u}" if "x \<in> ?S" for x
  proof (cases "x < hi")
    case True
    then show ?thesis using that Cons.prems(1,5) w by fastforce
  qed (use that in auto)
  then have "?S \<subseteq> S \<union> {max hi f..<u}" by (rule subsetI)
  then have "card ?S \<le> card (S \<union> {max hi f..<u})" using Cons.prems(4) by (intro card_mono) simp_all
  also have "\<dots> \<le> card S + card {max hi f..<u}" by (rule card_Un_le)
  finally have "int (card ?S) \<le> ?a - c" using Cons.prems(6) by simp
  from Cons.IH [OF _ r _ _ this, of f] Cons.prems(1,4) w show ?case by (simp add: Un_assoc)
qed (simp add: ladder_start_def)

lemma snoozes_at_most:
  assumes "pressed_from lo ws"
  shows "ladder_start (foldl snooze_record r ws) \<le> ladder_start r + (\<Sum>(f, u) \<leftarrow> ws. u - f)"
  using assms
proof (induction ws arbitrary: lo r)
  case (Cons w ws)
  obtain f u where w: "w = (f, u)" by (cases w)
  have "ladder_start (snooze_record r w) \<le> ladder_start r + (u - f)"
    using Cons.prems w
    by (auto simp: ladder_start_def snooze_record_def snoozed_ladder_anchor_def split: option.splits)
  then show ?case using Cons.IH [of f "snooze_record r w"] Cons.prems w by simp
qed simp

lemma upstream_recovery_close:
  "upstream_recovery rs = CloseOwner \<longleftrightarrow> (\<forall>r \<in> set rs. rs_state r = Resolved)"
  by (simp add: upstream_recovery_def Let_def oncall_defs filter_empty_conv)

text \<open>A record for the examples: acknowledged, snoozed and exhausted.\<close>

definition sample_response :: response where
  "sample_response =
     \<lparr>rs_id = ''r1'', rs_org_id = ''org'', rs_subject = subject_ref_new Alert ''cpu'' 1,
      rs_team_id = Some ''web'', rs_title = None, rs_cause = None, rs_cause_note = None,
      rs_snoozed_until = Some 900, rs_ladder_anchor = None, rs_ladder_run = None, rs_priority = 2,
      rs_responder_role = Owner, rs_exhausted_at = Some 300, rs_origin_response_id = None,
      rs_state = Acknowledged, rs_opened_at = 5, rs_acked_by = Some ''ana'', rs_acked_at = Some 400,
      rs_closed_at = None, rs_incident_id = None, rs_updated_at = 400\<rparr>"

section \<open>Properties\<close>

text \<open>
  A handover is a fresh start: whatever the record's state, the result is triggered,
  unacknowledged, awake, escalating, not exhausted, and its ladder counts from now on the next
  run, so that no delivery or lost rung recorded for the current or an earlier run is mistaken
  for one of the new run. The identity, the subject, the priority and the opening instant stay.
\<close>

theorem handover_restarts_ladder:
  assumes "current_run r < 2147483647" "- 2147483648 \<le> current_run r"
    and h: "h = handed_over r dest now"
  shows "rs_state h = Triggered \<and> rs_acked_by h = None \<and> \<not> is_snoozed h at \<and> is_escalating h
     \<and> \<not> is_exhausted h \<and> ladder_start h = now \<and> current_run h = current_run r + 1
     \<and> (event_run e \<le> current_run r \<longrightarrow>
          \<not> is_delivery_of e (current_run h) rung who chan \<and> \<not> is_unreached_rung e (current_run h))
     \<and> rs_team_id h = (case dest of Some t \<Rightarrow> Some t | None \<Rightarrow> rs_team_id r)
     \<and> rs_id h = rs_id r \<and> rs_subject h = rs_subject r \<and> rs_priority h = rs_priority r
     \<and> rs_opened_at h = rs_opened_at r"
proof -
  have run: "current_run h = current_run r + 1"
    using assms(1,2)
    by (simp add: h current_run_def handed_over_def next_ladder_run_def wrap_i32_id split: option.splits)
  have "\<not> is_delivery_of e (current_run h) rung who chan \<and> \<not> is_unreached_rung e (current_run h)"
    if "event_run e \<le> current_run r"
    using that by (auto simp: run is_delivery_of_def is_unreached_rung_def)
  with run show ?thesis
    by (simp add: h handed_over_def is_snoozed_def is_escalating_def is_exhausted_def
        ladder_start_def oncall_defs)
qed

theorem handover_restarts_ladder_witness:
  "is_escalating (handed_over sample_response (Some ''db-team'') 500)
   \<and> current_run (handed_over sample_response (Some ''db-team'') 500) = 2"
proof -
  have run: "current_run sample_response = 1"
    by (simp add: sample_response_def current_run_def oncall_defs)
  then show ?thesis
    using handover_restarts_ladder [of sample_response _ "Some ''db-team''" 500, OF _ _ refl] by simp
qed

text \<open>
  Whether a firing pages: it folds into the latest record exactly when that one is open and
  never closed, it is dampened exactly when the latest record closed within the last
  \<open>dampening\<close> microseconds, not in the future, with dampening on, and it pages in every other
  case; a dampened firing names the record it is put on.
\<close>

theorem page_decision_exact:
  "(page_decision latest now d = PdAlreadyOpen \<longleftrightarrow>
      (\<exists>r. latest = Some r \<and> rs_state r \<noteq> Resolved \<and> rs_closed_at r = None))
   \<and> (page_decision latest now d = PdFlap i held \<longleftrightarrow>
      (\<exists>r. latest = Some r \<and> rs_id r = i \<and> rs_closed_at r = Some (now - held) \<and> 0 \<le> held \<and> held < d))
   \<and> (page_decision latest now d = PdPage \<longleftrightarrow>
      (case latest of
         None \<Rightarrow> True
       | Some r \<Rightarrow> (case rs_closed_at r of
                        None \<Rightarrow> rs_state r = Resolved
                      | Some c \<Rightarrow> now < c \<or> d \<le> now - c)))"
  by (cases latest)
     (auto simp: page_decision_def Let_def oncall_defs split: option.splits)

text \<open>
  C19. Snoozing pauses the ladder for the time that was asked for. After any sequence of snoozes pressed in
  order, shortened and cancelled ones included, the ladder's clock has moved forward by at least the number
  of microseconds covered by at least one of them, so that no rung fires early, and by at most the sum of
  their lengths. When none of them ends before an earlier one does, it has moved by exactly the time covered,
  overlaps counted once.
\<close>

theorem snoozes_pause_exactly:
  assumes "rs_snoozed_until r = None" "rs_ladder_anchor r = None" "pressed_from lo ws"
  shows "rs_opened_at r + int (card (quiet_instants ws)) \<le> ladder_start (foldl snooze_record r ws) \<and>
    ladder_start (foldl snooze_record r ws) \<le> rs_opened_at r + (\<Sum>(f, u) \<leftarrow> ws. u - f) \<and>
    (sorted (map snd ws) \<longrightarrow>
       ladder_start (foldl snooze_record r ws) = rs_opened_at r + int (card (quiet_instants ws)))"
proof (cases ws)
  case Nil
  then show ?thesis using assms by (simp add: ladder_start_def)
next
  case (Cons w ws')
  obtain f u where w: "w = (f, u)" by (cases w)
  let ?r = "snooze_record r w"
  have r: "rs_snoozed_until ?r = Some u" "rs_ladder_anchor ?r = Some (rs_opened_at r + (u - f))"
    using assms Cons w by (simp_all add: snooze_record_def snoozed_ladder_anchor_def)
  have p: "f \<le> u" "pressed_from f ws'" using assms(3) Cons w by simp_all
  have "rs_opened_at r + int (card (quiet_instants ws)) \<le> ladder_start (foldl snooze_record r ws)"
    using snoozes_cover [OF p(2) r, of "{f..<u}" "rs_opened_at r"] p(1) Cons w by simp
  moreover have "ladder_start (foldl snooze_record r ws) \<le> rs_opened_at r + (\<Sum>(f, u) \<leftarrow> ws. u - f)"
    using snoozes_at_most [OF assms(3), of r] assms(2) by (simp add: ladder_start_def)
  moreover have "ladder_start (foldl snooze_record r ws) = rs_opened_at r + int (card (quiet_instants ws))"
    if "sorted (map snd ws)"
  proof -
    have "snoozes_from f u ws'" using never_shortened [OF p(2), of u] that Cons w by simp
    then show ?thesis using snoozes_anchor [OF _ r p(1), of ws'] Cons w p(1) by simp
  qed
  ultimately show ?thesis by blast
qed

theorem snoozes_pause_exactly_witness:
  "ladder_start (foldl snooze_record (sample_response\<lparr>rs_snoozed_until := None\<rparr>) [(10, 70), (20, 80)]) = 5 + 70"
proof -
  have "{10..<70} \<union> {20..<80} = {10::int..<80}" by auto
  then show ?thesis
    using snoozes_pause_exactly [of "sample_response\<lparr>rs_snoozed_until := None\<rparr>" 0 "[(10, 70), (20, 80)]"]
    by (simp add: sample_response_def)
qed

text \<open>
  The time covered is not exact once a snooze is shortened: the anchor keeps the longer push while the
  quiet it was for is forgotten, so a later snooze pays for the overlap again. An hour's snooze cancelled
  after ten units and followed by one of sixty units moves the clock by 120 where 80 are covered.
\<close>

lemma shortened_snooze_counts_twice:
  "ladder_start (foldl snooze_record (sample_response\<lparr>rs_snoozed_until := None\<rparr>) [(0, 60), (10, 10), (20, 80)]) = 5 + 120 \<and>
   card (quiet_instants [(0, 60), (10, 10), (20, 80)]) = 80"
proof -
  have "{0..<60} \<union> {20..<80} = {0::int..<80}" by auto
  then show ?thesis by (simp add: sample_response_def ladder_start_def snooze_record_def snoozed_ladder_anchor_def)
qed

lemma snooze_bounds:
  assumes "snooze_until now minutes = Some u"
  shows "1 \<le> minutes \<and> minutes \<le> 1440 \<and> u = now + minutes * 60000000 \<and> i64_ok u"
  using assms
  by (auto simp: snooze_until_def i64_defs oncall_defs split: if_splits bind_splits)

text \<open>
  Recovery is ordered: confirming one dependent clears the owner exactly when, with that
  dependent's records resolved, the upstream recovery would close the owner; and what an
  upstream recovery waits on is exactly the dependents not yet resolved.
\<close>

theorem recovery_ordered:
  "(dependents_all_clear impacted i \<longleftrightarrow>
      upstream_recovery (map (\<lambda>r. if rs_id r = i then r\<lparr>rs_state := Resolved\<rparr> else r) impacted) = CloseOwner)
   \<and> (case upstream_recovery impacted of
        CloseOwner \<Rightarrow> rs_state ` set impacted \<subseteq> {Resolved}
      | AwaitDependents ids \<Rightarrow>
          ids \<noteq> [] \<and> set ids = rs_id ` {r \<in> set impacted. rs_state r \<noteq> Resolved})"
proof
  let ?confirm = "\<lambda>r. if rs_id r = i then r\<lparr>rs_state := Resolved\<rparr> else r"
  have "upstream_recovery (map ?confirm impacted) = CloseOwner \<longleftrightarrow>
      (\<forall>r \<in> set impacted. \<not> (rs_id r \<noteq> i \<and> rs_state r \<noteq> Resolved))"
    unfolding upstream_recovery_close by auto
  then show "dependents_all_clear impacted i \<longleftrightarrow> upstream_recovery (map ?confirm impacted) = CloseOwner"
    by (simp add: dependents_all_clear_def list_ex_iff oncall_defs)
  show "case upstream_recovery impacted of
        CloseOwner \<Rightarrow> rs_state ` set impacted \<subseteq> {Resolved}
      | AwaitDependents ids \<Rightarrow>
          ids \<noteq> [] \<and> set ids = rs_id ` {r \<in> set impacted. rs_state r \<noteq> Resolved}"
    by (auto simp: upstream_recovery_def Let_def oncall_defs filter_empty_conv)
qed

text \<open>
  The delivery ledger: an entry built for one delivery matches the query for a run, a rung,
  a recipient and a channel exactly when it is that delivery and it landed; a failed one never
  matches, so only what did not land is sent again.
\<close>

theorem delivery_ledger_key:
  "is_delivery_of (delivered_to (in_run (at_rung (event_new EvDelivery at actor body) rung) run) who chan ok)
       run' rung' who' chan'
     \<longleftrightarrow> ok \<and> run' = run \<and> rung' = rung \<and> who' = who \<and> chan' = chan"
  by (auto simp: is_delivery_of_def delivered_to_def in_run_def at_rung_def event_new_def event_run_def)

end
