(* ===== verification/Oncall_Rotation.thy ===== *)
theory Oncall_Rotation
  imports OO_Strings "HOL-Library.Product_Lexorder"
begin

text \<open>
  Rotations (\<open>src/config/src/meta/oncall/rotation.rs\<close>): who is on call at an instant. Time
  windows on the local wall clock, shift rules and their handover arithmetic, absences and
  covers, the rule in force, the grid of a window of time and the look-ahead for shifts that
  land on somebody away.

  The calendar is chrono's: a \<open>zone\<close> stands for \<open>chrono_tz::Tz\<close> together with the range of
  \<open>DateTime::from_timestamp_micros\<close>, and what the results below need of it is the locale
  \<open>wall_clock\<close>. Instants and local readings are microseconds as \<open>int\<close>; the arithmetic the
  source checks or saturates keeps its 64-bit bounds.
\<close>

section \<open>The calendar\<close>

datatype local_result = LSingle int | LAmbiguous int int | LNone

record zone =
  z_in_range :: "int \<Rightarrow> bool"
  z_to_local :: "int \<Rightarrow> int"
  z_from_local :: "int \<Rightarrow> local_result"
  z_weekday :: "int \<Rightarrow> nat"
  z_minute_of_day :: "int \<Rightarrow> nat"

definition MAX_GAP_MINUTES :: nat where "MAX_GAP_MINUTES = 180"
definition MAX_BOUNDARY_CORRECTIONS :: nat where "MAX_BOUNDARY_CORRECTIONS = 4"

definition to_local_micros :: "zone \<Rightarrow> int \<Rightarrow> int option" where
  "to_local_micros tz at = (if z_in_range tz at then Some (z_to_local tz at) else None)"

fun first_reading :: "local_result \<Rightarrow> int option" where
  "first_reading (LSingle dt) = Some dt"
| "first_reading (LAmbiguous first_dt _) = Some first_dt"
| "first_reading LNone = None"

text \<open>The search through a gap: the first minute after the missing reading that exists.\<close>

fun first_after_gap :: "zone \<Rightarrow> int \<Rightarrow> nat list \<Rightarrow> int option" where
  "first_after_gap tz local [] = None"
| "first_after_gap tz local (m # ms) =
     (case first_reading (z_from_local tz (local + int m * MICROS_PER_MINUTE)) of
        Some a \<Rightarrow> Some a
      | None \<Rightarrow> first_after_gap tz local ms)"

definition from_local_micros :: "zone \<Rightarrow> int \<Rightarrow> int option" where
  "from_local_micros tz local =
     (if \<not> z_in_range tz local then None
      else case first_reading (z_from_local tz local) of
             Some a \<Rightarrow> Some a
           | None \<Rightarrow> first_after_gap tz local [1..<MAX_GAP_MINUTES + 1])"

section \<open>Time windows\<close>

definition MINUTES_PER_DAY :: nat where "MINUTES_PER_DAY = 1440"

record time_window =
  tw_days :: "nat list"
  tw_start_minute :: nat
  tw_end_minute :: nat

definition covers_local :: "time_window \<Rightarrow> nat \<Rightarrow> nat \<Rightarrow> bool" where
  "covers_local w day minute =
     (let in_time = (if tw_start_minute w \<le> tw_end_minute w
                     then minute \<ge> tw_start_minute w \<and> minute < tw_end_minute w
                     else minute \<ge> tw_start_minute w \<or> minute < tw_end_minute w);
          effective_day = (if tw_start_minute w > tw_end_minute w \<and> minute < tw_end_minute w
                           then (day + 6) mod 7 else day)
      in in_time \<and> (tw_days w = [] \<or> effective_day \<in> set (tw_days w)))"

definition tw_contains :: "time_window \<Rightarrow> int \<Rightarrow> zone \<Rightarrow> bool" where
  "tw_contains w at tz =
     (case to_local_micros tz at of
        None \<Rightarrow> False
      | Some local \<Rightarrow> covers_local w (z_weekday tz local) (z_minute_of_day tz local))"

section \<open>Shift rules\<close>

definition DEFAULT_ROTATION_NAME :: string where "DEFAULT_ROTATION_NAME = ''Primary''"
definition SECONDARY_ROTATION_NAME :: string where "SECONDARY_ROTATION_NAME = ''Secondary''"
definition MAX_ROTATION_NAME_CHARS :: nat where "MAX_ROTATION_NAME_CHARS = 64"
definition DEFAULT_SHIFT_RULE_NAME :: string where "DEFAULT_SHIFT_RULE_NAME = ''Base''"
definition SOURCE_DEFAULT :: string where "SOURCE_DEFAULT = ''default''"

record shift_rule =
  sr_name :: string
  sr_members :: "string list"
  sr_shift_micros :: int
  sr_anchor_micros :: int
  sr_priority :: int
  sr_restrictions :: "time_window list"
  sr_starts_at :: "int option"
  sr_ends_at :: "int option"

datatype shift_rule_error =
    NoMembers
  | NonPositiveShift int
  | DuplicateMember string
  | RuleNoName
  | EmptyValidityWindow int int
  | RestrictionMinuteOutOfRange string nat nat
  | EmptyRestriction string nat

fun shift_rule_error_display :: "shift_rule_error \<Rightarrow> string" where
  "shift_rule_error_display NoMembers = ''a shift rule must have at least one member''"
| "shift_rule_error_display (NonPositiveShift v) =
     ''shift length must be positive, got '' @ show_int v @ '' micros''"
| "shift_rule_error_display (DuplicateMember m) = ''duplicate member `'' @ m @ ''` in one shift rule''"
| "shift_rule_error_display RuleNoName = ''a shift rule must have a name''"
| "shift_rule_error_display (EmptyValidityWindow starts_at ends_at) =
     ''shift rule ends at '' @ show_int ends_at @ '' but starts at '' @ show_int starts_at
     @ '', so it applies at no instant''"
| "shift_rule_error_display (RestrictionMinuteOutOfRange field got mx) =
     ''`'' @ field @ ''` is '' @ show_nat got @ ''; minutes past midnight must be between 0 and '' @ show_nat mx"
| "shift_rule_error_display (EmptyRestriction field minute) =
     ''`'' @ field @ ''` starts and ends at minute '' @ show_nat minute
     @ '', so it would apply at no instant at all''"

definition rule_weekly :: "string \<Rightarrow> string list \<Rightarrow> int \<Rightarrow> shift_rule" where
  "rule_weekly name members anchor_micros =
     \<lparr>sr_name = name, sr_members = members, sr_shift_micros = MICROS_PER_WEEK,
      sr_anchor_micros = anchor_micros, sr_priority = 0, sr_restrictions = [],
      sr_starts_at = None, sr_ends_at = None\<rparr>"

definition rule_offset_from :: "shift_rule \<Rightarrow> int \<Rightarrow> shift_rule" where
  "rule_offset_from other shifts =
     other\<lparr>sr_anchor_micros :=
       saturating_sub (sr_anchor_micros other) (saturating_mul shifts (sr_shift_micros other))\<rparr>"

definition in_effect_at :: "shift_rule \<Rightarrow> int \<Rightarrow> bool" where
  "in_effect_at r at \<longleftrightarrow>
     (case sr_starts_at r of None \<Rightarrow> True | Some s \<Rightarrow> at \<ge> s)
     \<and> (case sr_ends_at r of None \<Rightarrow> True | Some e \<Rightarrow> at < e)"

definition applies_at :: "shift_rule \<Rightarrow> int \<Rightarrow> zone \<Rightarrow> bool" where
  "applies_at r at tz \<longleftrightarrow>
     in_effect_at r at
     \<and> (sr_restrictions r = [] \<or> list_ex (\<lambda>w. tw_contains w at tz) (sr_restrictions r))"

text \<open>The loop over the members, with its set of lowered names.\<close>

fun check_members :: "string set \<Rightarrow> string list \<Rightarrow> (unit, shift_rule_error) result" where
  "check_members seen [] = Ok ()"
| "check_members seen (m # ms) =
     (if to_ascii_lowercase m \<in> seen then Err (DuplicateMember m)
      else check_members (insert (to_ascii_lowercase m) seen) ms)"

definition restriction_field :: "nat \<Rightarrow> string \<Rightarrow> string" where
  "restriction_field index suffix = ''restrictions['' @ show_nat index @ '']'' @ suffix"

fun check_restrictions :: "nat \<Rightarrow> time_window list \<Rightarrow> (unit, shift_rule_error) result" where
  "check_restrictions index [] = Ok ()"
| "check_restrictions index (w # ws) =
     (if tw_start_minute w \<ge> MINUTES_PER_DAY
      then Err (RestrictionMinuteOutOfRange (restriction_field index ''.start_minute'')
                  (tw_start_minute w) (MINUTES_PER_DAY - 1))
      else if tw_end_minute w > MINUTES_PER_DAY
      then Err (RestrictionMinuteOutOfRange (restriction_field index ''.end_minute'')
                  (tw_end_minute w) MINUTES_PER_DAY)
      else if tw_start_minute w = tw_end_minute w
      then Err (EmptyRestriction (restriction_field index []) (tw_start_minute w))
      else check_restrictions (index + 1) ws)"

definition rule_validate :: "shift_rule \<Rightarrow> (unit, shift_rule_error) result" where
  "rule_validate r =
     (if trim (sr_name r) = [] then Err RuleNoName
      else if sr_members r = [] then Err NoMembers
      else if sr_shift_micros r \<le> 0 then Err (NonPositiveShift (sr_shift_micros r))
      else case check_members {} (sr_members r) of
             Inl e \<Rightarrow> Err e
           | Inr _ \<Rightarrow>
               (case (sr_starts_at r, sr_ends_at r) of
                  (Some starts_at, Some ends_at) \<Rightarrow>
                    if ends_at \<le> starts_at then Err (EmptyValidityWindow starts_at ends_at)
                    else check_restrictions 0 (sr_restrictions r)
                | _ \<Rightarrow> check_restrictions 0 (sr_restrictions r)))"

definition boundary :: "shift_rule \<Rightarrow> int \<Rightarrow> zone \<Rightarrow> int option" where
  "boundary r index tz =
     Option.bind (to_local_micros tz (sr_anchor_micros r)) (\<lambda>local_anchor.
     Option.bind (checked_mul index (sr_shift_micros r)) (\<lambda>offset.
     Option.bind (checked_add local_anchor offset) (from_local_micros tz)))"

text \<open>The corrections of \<open>shift_index\<close>: at most \<open>k\<close> steps towards the boundary instants.\<close>

fun settle :: "nat \<Rightarrow> shift_rule \<Rightarrow> int \<Rightarrow> zone \<Rightarrow> int \<Rightarrow> int" where
  "settle 0 r at tz index = index"
| "settle (Suc k) r at tz index =
     (if (case boundary r index tz of Some b \<Rightarrow> b > at | None \<Rightarrow> False)
      then settle k r at tz (index - 1)
      else if (case boundary r (index + 1) tz of Some b \<Rightarrow> b \<le> at | None \<Rightarrow> False)
      then settle k r at tz (index + 1)
      else index)"

definition shift_index :: "shift_rule \<Rightarrow> int \<Rightarrow> zone \<Rightarrow> int option" where
  "shift_index r at tz =
     Option.bind (to_local_micros tz at) (\<lambda>local_at.
     Option.bind (to_local_micros tz (sr_anchor_micros r)) (\<lambda>local_anchor.
     Option.bind (checked_sub local_at local_anchor) (\<lambda>diff.
     Some (settle MAX_BOUNDARY_CORRECTIONS r at tz (div_euclid diff (sr_shift_micros r))))))"

definition nth_opt :: "'a list \<Rightarrow> nat \<Rightarrow> 'a option" where
  "nth_opt xs i = (if i < length xs then Some (xs ! i) else None)"

definition member_offset :: "shift_rule \<Rightarrow> int \<Rightarrow> int \<Rightarrow> zone \<Rightarrow> string option" where
  "member_offset r at offset tz =
     (if \<not> is_ok (rule_validate r) then None
      else Option.bind (shift_index r at tz) (\<lambda>index.
             nth_opt (sr_members r) (nat (rem_euclid (index + offset) (int (length (sr_members r)))))))"

definition member_at :: "shift_rule \<Rightarrow> int \<Rightarrow> zone \<Rightarrow> string option" where
  "member_at r at tz = member_offset r at 0 tz"

definition order_at :: "shift_rule \<Rightarrow> int \<Rightarrow> zone \<Rightarrow> string list" where
  "order_at r at tz =
     (if \<not> is_ok (rule_validate r) then []
      else case shift_index r at tz of
             None \<Rightarrow> []
           | Some index \<Rightarrow>
               (let len = int (length (sr_members r))
                in List.map_filter
                     (\<lambda>offset. nth_opt (sr_members r) (nat (rem_euclid (index + int offset) len)))
                     [0..<length (sr_members r)]))"

definition shift_start :: "shift_rule \<Rightarrow> int \<Rightarrow> zone \<Rightarrow> int option" where
  "shift_start r at tz =
     (if \<not> is_ok (rule_validate r) then None
      else Option.bind (shift_index r at tz) (\<lambda>index. boundary r index tz))"

definition next_handover :: "shift_rule \<Rightarrow> int \<Rightarrow> zone \<Rightarrow> int option" where
  "next_handover r at tz =
     (if \<not> is_ok (rule_validate r) then None
      else Option.bind (shift_index r at tz) (\<lambda>index. boundary r (index + 1) tz))"

section \<open>Covers and absences\<close>

definition OVERRIDE_ROTATION_NAME :: string where "OVERRIDE_ROTATION_NAME = ''Override''"

record schedule_override =
  ov_id :: string
  ov_org_id :: string
  ov_team_id :: string
  ov_rotation_id :: string
  ov_user_email :: string
  ov_start_at :: int
  ov_end_at :: int
  ov_covering_for :: "string option"
  ov_reason :: "string option"
  ov_created_by :: string
  ov_created_at :: int

definition ov_is_for :: "schedule_override \<Rightarrow> string \<Rightarrow> bool" where
  "ov_is_for o1 rotation_id \<longleftrightarrow> ov_rotation_id o1 = rotation_id"

definition ov_covers :: "schedule_override \<Rightarrow> int \<Rightarrow> bool" where
  "ov_covers o1 at \<longleftrightarrow> at \<ge> ov_start_at o1 \<and> at < ov_end_at o1"

definition ov_overlaps :: "schedule_override \<Rightarrow> int \<Rightarrow> int \<Rightarrow> bool" where
  "ov_overlaps o1 frm to \<longleftrightarrow> ov_start_at o1 < to \<and> ov_end_at o1 > frm"

record unavailability =
  un_id :: string
  un_org_id :: string
  un_user_email :: string
  un_start_at :: int
  un_end_at :: int
  un_reason :: "string option"
  un_created_by :: string
  un_created_at :: int

definition un_covers :: "unavailability \<Rightarrow> int \<Rightarrow> bool" where
  "un_covers u at \<longleftrightarrow> at \<ge> un_start_at u \<and> at < un_end_at u"

definition un_overlaps :: "unavailability \<Rightarrow> int \<Rightarrow> int \<Rightarrow> bool" where
  "un_overlaps u frm to \<longleftrightarrow> un_start_at u < to \<and> un_end_at u > frm"

definition un_is :: "unavailability \<Rightarrow> string \<Rightarrow> bool" where
  "un_is u user_email \<longleftrightarrow> eq_ignore_ascii_case (trim (un_user_email u)) (trim user_email)"

definition is_unavailable :: "unavailability list \<Rightarrow> string \<Rightarrow> int \<Rightarrow> bool" where
  "is_unavailable us user_email at \<longleftrightarrow> list_ex (\<lambda>u. un_covers u at \<and> un_is u user_email) us"

definition available_member_at :: "shift_rule \<Rightarrow> int \<Rightarrow> zone \<Rightarrow> unavailability list \<Rightarrow> string option" where
  "available_member_at r at tz us = List.find (\<lambda>m. \<not> is_unavailable us m at) (order_at r at tz)"

definition override_cmp :: "schedule_override \<Rightarrow> schedule_override \<Rightarrow> ordering" where
  "override_cmp a b = then_with (cmp (ov_created_at a) (ov_created_at b)) (cmp (ov_id a) (ov_id b))"

definition covering_override_for ::
    "schedule_override list \<Rightarrow> string \<Rightarrow> int \<Rightarrow> schedule_override option" where
  "covering_override_for overrides rotation_id at =
     max_by override_cmp (filter (\<lambda>o1. ov_covers o1 at \<and> ov_is_for o1 rotation_id) overrides)"

lemmas [window_defs] = ov_covers_def ov_overlaps_def un_covers_def un_overlaps_def

section \<open>Half-open windows\<close>

text \<open>Covers and absences are the same kind of window; what the grid needs of one is here.\<close>

locale half_open =
  fixes starts :: "'a \<Rightarrow> int" and ends :: "'a \<Rightarrow> int"
    and covers :: "'a \<Rightarrow> int \<Rightarrow> bool" and overlaps :: "'a \<Rightarrow> int \<Rightarrow> int \<Rightarrow> bool"
  assumes covers_iff: "covers w at \<longleftrightarrow> starts w \<le> at \<and> at < ends w"
    and overlaps_iff: "overlaps w f t \<longleftrightarrow> starts w < t \<and> f < ends w"
begin

lemma overlaps_covers:
  assumes "starts w < ends w" "f < t"
  shows "overlaps w f t \<longleftrightarrow> (\<exists>at. covers w at \<and> f \<le> at \<and> at < t)"
proof
  assume "overlaps w f t"
  then have "covers w (max (starts w) f) \<and> f \<le> max (starts w) f \<and> max (starts w) f < t"
    using assms by (auto simp: covers_iff overlaps_iff)
  then show "\<exists>at. covers w at \<and> f \<le> at \<and> at < t" by blast
qed (auto simp: covers_iff overlaps_iff)

text \<open>Whether a window covers an instant only changes at its two edges.\<close>

lemma covers_constant:
  assumes "a \<le> b" "\<not> (a < starts w \<and> starts w \<le> b)" "\<not> (a < ends w \<and> ends w \<le> b)"
  shows "covers w a \<longleftrightarrow> covers w b"
  using assms by (auto simp: covers_iff)

lemma back_to_back: "ends v \<le> starts w \<Longrightarrow> \<not> (covers v at \<and> covers w at)"
  by (auto simp: covers_iff)

end

interpretation cover: half_open ov_start_at ov_end_at ov_covers ov_overlaps
  by unfold_locales (auto simp: window_defs)

interpretation absence: half_open un_start_at un_end_at un_covers un_overlaps
  by unfold_locales (auto simp: window_defs)

section \<open>What the wall clock promises\<close>

text \<open>
  The readings of a time zone, as far as handovers rely on them, for instants and readings between
  \<open>CLOCK_START\<close> (November 1985, since when every zone's offsets are whole minutes) and \<open>CLOCK_LIMIT\<close> (over a
  hundred thousand years): every instant has a reading less than a day away; every reading is turned into
  an instant, which is so when the clock never jumps forward by more than the three hours
  \<open>from_local_micros\<close> searches; later whole minutes are never turned into earlier instants; the instant of a
  whole minute has come once the clock reads it or more; and a reading more than \<open>setback\<close>
  microseconds ahead of the clock lies in the future. \<open>setback\<close> is the largest step the zone's clock is
  set back. Only whole minutes are ordered across a forward jump, since \<open>from_local_micros\<close> leaves a gap in
  steps of a minute. The laws are proved below for a zone with one change of its clock, in either direction.
\<close>

definition CLOCK_START :: int where "CLOCK_START = 500000000000000"
definition CLOCK_LIMIT :: int where "CLOCK_LIMIT = 4000000000000000000"

definition in_clock :: "int \<Rightarrow> bool" where
  "in_clock x \<longleftrightarrow> CLOCK_START \<le> x \<and> x \<le> CLOCK_LIMIT"

locale wall_clock =
  fixes tz :: zone and setback :: int
  assumes reading: "in_clock a \<Longrightarrow> \<exists>l. to_local_micros tz a = Some l \<and> \<bar>l - a\<bar> < MICROS_PER_DAY"
    and instant: "in_clock l \<Longrightarrow> \<exists>a. from_local_micros tz l = Some a"
    and monotone: "from_local_micros tz l = Some a \<Longrightarrow> from_local_micros tz l' = Some a' \<Longrightarrow> in_clock l \<Longrightarrow> in_clock l' \<Longrightarrow>
      MICROS_PER_MINUTE dvd l \<Longrightarrow> MICROS_PER_MINUTE dvd l' \<Longrightarrow> l \<le> l' \<Longrightarrow> a \<le> a'"
    and reached: "to_local_micros tz a = Some l' \<Longrightarrow> from_local_micros tz l = Some b \<Longrightarrow> in_clock a \<Longrightarrow> in_clock l \<Longrightarrow>
      MICROS_PER_MINUTE dvd l \<Longrightarrow> l \<le> l' \<Longrightarrow> b \<le> a"
    and after_setback: "to_local_micros tz a = Some l \<Longrightarrow> from_local_micros tz l' = Some b \<Longrightarrow> in_clock a \<Longrightarrow> in_clock l' \<Longrightarrow>
      l + setback \<le> l' \<Longrightarrow> l < l' \<Longrightarrow> a < b"
begin

text \<open>A handover of a rule: its instant and the whole minute the clock is to read then.\<close>

definition handover :: "shift_rule \<Rightarrow> int \<Rightarrow> int \<Rightarrow> int \<Rightarrow> bool" where
  "handover r i l b \<longleftrightarrow>
     boundary r i tz = Some b \<and> from_local_micros tz l = Some b \<and> in_clock l \<and> MICROS_PER_MINUTE dvd l \<and>
     to_local_micros tz (sr_anchor_micros r) = Some (l - i * sr_shift_micros r)"

lemma handover_ex:
  assumes "to_local_micros tz (sr_anchor_micros r) = Some la" "\<bar>la\<bar> \<le> 1000000000000000000"
    and "in_clock (la + i * sr_shift_micros r)"
    and "MICROS_PER_MINUTE dvd la" "MICROS_PER_MINUTE dvd sr_shift_micros r"
  shows "\<exists>b. handover r i (la + i * sr_shift_micros r) b"
proof -
  obtain b where "from_local_micros tz (la + i * sr_shift_micros r) = Some b" using instant [OF assms(3)] by blast
  moreover have "i64_ok (i * sr_shift_micros r)" "i64_ok (la + i * sr_shift_micros r)"
    using assms(2,3) by (auto simp: i64_ok_def in_clock_def CLOCK_START_def CLOCK_LIMIT_def)
  ultimately show ?thesis
    using assms by (auto simp: handover_def boundary_def checked_mul_def checked_add_def checked_i64_def)
qed

lemma handover_mono:
  assumes "handover r i l b" "handover r j l' b'" "i \<le> j" "0 < sr_shift_micros r"
  shows "b \<le> b'"
proof -
  have "l - i * sr_shift_micros r = l' - j * sr_shift_micros r" using assms(1,2) by (simp add: handover_def)
  moreover have "i * sr_shift_micros r \<le> j * sr_shift_micros r" using assms(3,4) by (simp add: mult_right_mono)
  ultimately have "l \<le> l'" by linarith
  then show ?thesis using assms(1,2) monotone unfolding handover_def by blast
qed

end

text \<open>
  The correction loop: from an index whose boundary is not after \<open>at\<close> and which is at most
  \<open>k\<close> handovers early, it ends on the shift that contains \<open>at\<close>.
\<close>

lemma settle_finds:
  assumes "\<forall>j. i \<le> j \<and> j \<le> i + int k + 1 \<longrightarrow> boundary r j tz = Some (b j)"
    and "b i \<le> at" "at < b (i + int k + 1)"
  shows "\<exists>j. settle k r at tz i = j \<and> i \<le> j \<and> j \<le> i + int k \<and> b j \<le> at \<and> at < b (j + 1)"
  using assms
proof (induction k arbitrary: i)
  case 0
  then show ?case by simp
next
  case (Suc k)
  have bi: "boundary r i tz = Some (b i)" "boundary r (i + 1) tz = Some (b (i + 1))"
    using Suc.prems(1) by auto
  show ?case
  proof (cases "b (i + 1) \<le> at")
    case True
    have "\<exists>j. settle k r at tz (i + 1) = j \<and> i + 1 \<le> j \<and> j \<le> (i + 1) + int k \<and> b j \<le> at \<and> at < b (j + 1)"
      by (rule Suc.IH) (use Suc.prems True in \<open>auto simp: algebra_simps\<close>)
    then show ?thesis using bi True Suc.prems(2) by auto
  next
    case False
    then show ?thesis using bi Suc.prems(2) by auto
  qed
qed

text \<open>
  The rules the results on handovers speak of: valid, with a shift of whole minutes, at most nine years and
  at least a quarter of the largest step back, whose anchor falls on a whole minute of the wall clock.
\<close>

definition plain_rule :: "zone \<Rightarrow> shift_rule \<Rightarrow> int \<Rightarrow> bool" where
  "plain_rule tz r setback \<longleftrightarrow>
     is_ok (rule_validate r) \<and> sr_shift_micros r \<le> 300000000000000 \<and> MICROS_PER_MINUTE dvd sr_shift_micros r \<and>
     setback \<le> 4 * sr_shift_micros r \<and>
     (case to_local_micros tz (sr_anchor_micros r) of
        Some la \<Rightarrow> \<bar>la\<bar> \<le> 1000000000000000000 \<and> MICROS_PER_MINUTE dvd la
      | None \<Rightarrow> False)"

text \<open>From September 2001 on, for thirty thousand years.\<close>

definition modern :: "int \<Rightarrow> bool" where
  "modern x \<longleftrightarrow> 1000000000000000 \<le> x \<and> x \<le> 1000000000000000000"

lemma modern_in_clock: "modern x \<Longrightarrow> in_clock x"
  by (simp add: modern_def in_clock_def CLOCK_START_def CLOCK_LIMIT_def)

lemma rule_validate_shift: "rule_validate r = Ok () \<Longrightarrow> 0 < sr_shift_micros r"
  by (auto simp: rule_validate_def split: if_splits)

lemma rule_validate_members: "rule_validate r = Ok () \<Longrightarrow> sr_members r \<noteq> []"
  by (auto simp: rule_validate_def split: if_splits)

context wall_clock
begin

lemma shift_brackets:
  assumes rule: "plain_rule tz r setback" and at: "modern at"
  shows "\<exists>i l l' b b'. shift_index r at tz = Some i \<and> handover r i l b \<and> handover r (i + 1) l' b' \<and> b \<le> at \<and> at < b'"
proof -
  let ?S = "sr_shift_micros r"
  have S: "0 < ?S" "?S \<le> 300000000000000" "setback \<le> 4 * ?S" "MICROS_PER_MINUTE dvd ?S"
    using rule rule_validate_shift [of r] by (auto simp: plain_rule_def is_ok_unit)
  obtain la where la: "to_local_micros tz (sr_anchor_micros r) = Some la" "\<bar>la\<bar> \<le> 1000000000000000000" "MICROS_PER_MINUTE dvd la"
    using rule by (auto simp: plain_rule_def split: option.splits)
  obtain l where l: "to_local_micros tz at = Some l" "\<bar>l - at\<bar> < 86400000000"
    using reading [OF modern_in_clock [OF at]] by (auto simp: oncall_defs)
  define i where "i = (l - la) div ?S"
  have lower: "la + i * ?S \<le> l" and upper: "l < la + i * ?S + ?S"
  proof -
    have "l - la = i * ?S + (l - la) mod ?S" by (simp add: i_def)
    moreover have "0 \<le> (l - la) mod ?S" "(l - la) mod ?S < ?S" using S by simp_all
    ultimately show "la + i * ?S \<le> l" "l < la + i * ?S + ?S" by linarith+
  qed
  have bounds: "i64_ok (l - la)" using l la(2) at by (auto simp: modern_def i64_ok_def)
  have ex: "\<exists>b. handover r j (la + j * ?S) b" if "i \<le> j" "j \<le> i + 5" for j
  proof (rule handover_ex [OF la(1,2) _ la(3) S(4)])
    have "i * ?S \<le> j * ?S" using that S by (intro mult_right_mono) simp_all
    moreover have "j * ?S \<le> (i + 5) * ?S" using that S by (intro mult_right_mono) simp_all
    then have "j * ?S \<le> i * ?S + 5 * ?S" by (simp only: distrib_right)
    ultimately show "in_clock (la + j * ?S)"
      using lower upper at S l(2) unfolding in_clock_def modern_def CLOCK_START_def CLOCK_LIMIT_def by linarith
  qed
  define b where "b = (\<lambda>j. the (boundary r j tz))"
  have b: "handover r j (la + j * ?S) (b j)" "boundary r j tz = Some (b j)" if "i \<le> j" "j \<le> i + 5" for j
    using ex [OF that] by (auto simp: b_def handover_def)
  have "b i \<le> at"
    using reached [OF l(1) _ modern_in_clock [OF at]] b(1) [of i] lower by (auto simp: handover_def)
  moreover have "at < b (i + 5)"
    using after_setback [OF l(1) _ modern_in_clock [OF at]] b(1) [of "i + 5"] upper S by (auto simp: handover_def algebra_simps)
  ultimately obtain j where j: "settle 4 r at tz i = j" "i \<le> j" "j \<le> i + 4" "b j \<le> at" "at < b (j + 1)"
    using settle_finds [of i 4 r tz b at] b(2) by (auto simp: add.commute)
  have "shift_index r at tz = Some j"
    using l(1) la(1) bounds j(1) S
    by (simp add: shift_index_def checked_sub_def checked_i64_def div_euclid_def i_def MAX_BOUNDARY_CORRECTIONS_def)
  then show ?thesis using b(1) [of j] b(1) [of "j + 1"] j by auto
qed

end

section \<open>The UTC clock\<close>

text \<open>\<open>chrono_tz::UTC\<close>: readings are instants; 1 January 1970 was a Thursday.\<close>

definition utc :: zone where
  "utc = \<lparr>z_in_range = (\<lambda>a. \<bar>a\<bar> \<le> CLOCK_LIMIT), z_to_local = (\<lambda>a. a), z_from_local = LSingle,
          z_weekday = (\<lambda>l. nat ((l div MICROS_PER_DAY + 3) mod 7)),
          z_minute_of_day = (\<lambda>l. nat (l mod MICROS_PER_DAY div MICROS_PER_MINUTE))\<rparr>"

lemma utc_local [simp]: "to_local_micros utc a = (if \<bar>a\<bar> \<le> CLOCK_LIMIT then Some a else None)"
  by (simp add: to_local_micros_def utc_def)

lemma utc_instant [simp]: "from_local_micros utc l = (if \<bar>l\<bar> \<le> CLOCK_LIMIT then Some l else None)"
  by (simp add: from_local_micros_def utc_def)

interpretation utc_clock: wall_clock utc 0
  by unfold_locales (auto simp: oncall_defs in_clock_def CLOCK_START_def split: if_splits)

section \<open>A clock that is changed once\<close>

text \<open>
  A zone whose offset is \<open>before\<close> until the instant \<open>change\<close> and \<open>after\<close> from it on, resolved as chrono does: a
  reading has the instants at which the clock shows it, none in the hours a forward change skips and two in
  those a change back repeats.
\<close>

definition change_zone :: "int \<Rightarrow> int \<Rightarrow> int \<Rightarrow> zone" where
  "change_zone change before after =
     utc\<lparr>z_in_range := (\<lambda>a. \<bar>a\<bar> \<le> 8000000000000000000),
         z_to_local := (\<lambda>a. a + (if a < change then before else after)),
         z_from_local := (\<lambda>l. if l - before < change
                              then (if change \<le> l - after then LAmbiguous (l - before) (l - after) else LSingle (l - before))
                              else (if change \<le> l - after then LSingle (l - after) else LNone))\<rparr>"

definition change_ok :: "int \<Rightarrow> int \<Rightarrow> int \<Rightarrow> bool" where
  "change_ok change before after \<longleftrightarrow>
     MICROS_PER_MINUTE dvd change \<and> MICROS_PER_MINUTE dvd before \<and> MICROS_PER_MINUTE dvd after \<and>
     \<bar>before\<bar> < MICROS_PER_DAY \<and> \<bar>after\<bar> < MICROS_PER_DAY \<and> after - before \<le> 180 * MICROS_PER_MINUTE"

lemma gap_search:
  assumes "change \<le> l - before" "l - after < change" "change \<le> l + int n * MICROS_PER_MINUTE - after" "0 < m" "m \<le> n"
    and "l + (int m - 1) * MICROS_PER_MINUTE - after < change"
  shows "\<exists>k. first_after_gap (change_zone change before after) l [m..<Suc n] = Some (l + k * MICROS_PER_MINUTE - after) \<and>
    change \<le> l + k * MICROS_PER_MINUTE - after \<and> l + (k - 1) * MICROS_PER_MINUTE - after < change"
  using assms(4-6)
proof (induction "n - m" arbitrary: m)
  case 0
  have "before \<le> after" using assms(1,2) by simp
  moreover have "0 \<le> int m * MICROS_PER_MINUTE" by (simp add: oncall_defs)
  moreover have "[m..<Suc n] = [m]" "m = n" using 0 by auto
  ultimately show ?case using 0 assms(1,3) by (intro exI [of _ "int m"]) (auto simp: change_zone_def)
next
  case (Suc d)
  then have list: "[m..<Suc n] = m # [Suc m..<Suc n]" by (simp add: upt_conv_Cons)
  have nonneg: "0 \<le> int m * MICROS_PER_MINUTE" by (simp add: oncall_defs)
  show ?case
  proof (cases "change \<le> l + int m * MICROS_PER_MINUTE - after")
    case True
    then show ?thesis using Suc.prems(3) assms(1) nonneg unfolding list
      by (intro exI [of _ "int m"]) (auto simp: change_zone_def)
  next
    case False
    have "first_after_gap (change_zone change before after) l [m..<Suc n] =
        first_after_gap (change_zone change before after) l [Suc m..<Suc n]"
      using False assms(1) nonneg unfolding list by (auto simp: change_zone_def)
    moreover have "\<exists>k. first_after_gap (change_zone change before after) l [Suc m..<Suc n] = Some (l + k * MICROS_PER_MINUTE - after) \<and>
        change \<le> l + k * MICROS_PER_MINUTE - after \<and> l + (k - 1) * MICROS_PER_MINUTE - after < change"
      using Suc.hyps(2) Suc.prems False by (intro Suc.hyps(1)) auto
    ultimately show ?thesis by simp
  qed
qed

lemma change_instant:
  assumes "change_ok change before after" "in_clock l"
  shows "\<exists>b. from_local_micros (change_zone change before after) l = Some b \<and>
    (l - before < change \<and> b = l - before \<or> change \<le> l - before \<and> change \<le> l - after \<and> b = l - after \<or>
     change \<le> l - before \<and> l - after < change \<and> change \<le> b \<and> (MICROS_PER_MINUTE dvd l \<longrightarrow> b = change))"
proof (cases "change \<le> l - before \<and> l - after < change")
  case True
  have "l - after \<ge> change - 180 * MICROS_PER_MINUTE" using True assms(1) by (simp add: change_ok_def)
  then obtain k where k: "first_after_gap (change_zone change before after) l [1..<Suc 180] = Some (l + k * MICROS_PER_MINUTE - after)"
      "change \<le> l + k * MICROS_PER_MINUTE - after" "l + (k - 1) * MICROS_PER_MINUTE - after < change"
    using True gap_search [of change l before after 180 1] by auto
  define b where "b = l + k * MICROS_PER_MINUTE - after"
  have "b = change" if "MICROS_PER_MINUTE dvd l"
  proof -
    have "MICROS_PER_MINUTE dvd b - change" using that assms(1) by (simp add: b_def change_ok_def)
    moreover have "0 \<le> b - change" "b - change < MICROS_PER_MINUTE" using k(2,3) by (simp_all add: b_def algebra_simps)
    ultimately show ?thesis using zdvd_not_zless [of "b - change" MICROS_PER_MINUTE] by (cases "b = change") auto
  qed
  moreover have "\<bar>l\<bar> \<le> 8000000000000000000"
    using assms(2) by (simp add: in_clock_def CLOCK_START_def CLOCK_LIMIT_def)
  then have "from_local_micros (change_zone change before after) l = Some b"
    using True k(1) by (simp add: from_local_micros_def change_zone_def b_def MAX_GAP_MINUTES_def)
  ultimately show ?thesis using True k(2) by (auto simp: b_def)
next
  case False
  have "\<bar>l\<bar> \<le> 8000000000000000000" using assms(2) by (simp add: in_clock_def CLOCK_START_def CLOCK_LIMIT_def)
  then show ?thesis using False by (auto simp: from_local_micros_def change_zone_def)
qed

lemma change_reading:
  "in_clock a \<Longrightarrow> to_local_micros (change_zone change before after) a = Some (a + (if a < change then before else after))"
  by (simp add: to_local_micros_def change_zone_def in_clock_def CLOCK_START_def CLOCK_LIMIT_def)

lemma change_zone_clock:
  assumes "change_ok change before after"
  shows "wall_clock (change_zone change before after) (max 0 (before - after))"
proof
  let ?z = "change_zone change before after"
  have off: "\<bar>before\<bar> < MICROS_PER_DAY" "\<bar>after\<bar> < MICROS_PER_DAY" using assms by (simp_all add: change_ok_def)
  show "\<exists>l. to_local_micros ?z a = Some l \<and> \<bar>l - a\<bar> < MICROS_PER_DAY" if "in_clock a" for a
    using change_reading [OF that] off by auto
  show "\<exists>a. from_local_micros ?z l = Some a" if "in_clock l" for l using change_instant [OF assms that] by blast
  show "a \<le> a'" if "from_local_micros ?z l = Some a" "from_local_micros ?z l' = Some a'" "in_clock l" "in_clock l'"
      "MICROS_PER_MINUTE dvd l" "MICROS_PER_MINUTE dvd l'" "l \<le> l'" for l a l' a'
    using change_instant [OF assms that(3)] change_instant [OF assms that(4)] that by auto
  show "b \<le> a" if "to_local_micros ?z a = Some l'" "from_local_micros ?z l = Some b" "in_clock a" "in_clock l"
      "MICROS_PER_MINUTE dvd l" "l \<le> l'" for a l' l b
    using change_instant [OF assms that(4)] change_reading [OF that(3)] that by (auto split: if_splits)
  show "a < b" if "to_local_micros ?z a = Some l" "from_local_micros ?z l' = Some b" "in_clock a" "in_clock l'"
      "l + max 0 (before - after) \<le> l'" "l < l'" for a l l' b
    using change_instant [OF assms that(4)] change_reading [OF that(3)] that by (auto split: if_splits)
qed

text \<open>Berlin in 2024: an hour forward on 31 March, an hour back on 27 October, both at 01:00 UTC.\<close>

definition berlin_spring :: zone where
  "berlin_spring = change_zone 1711846800000000 3600000000 7200000000"

definition berlin_autumn :: zone where
  "berlin_autumn = change_zone 1729990800000000 7200000000 3600000000"

lemma change_ok_examples:
  "change_ok 1711846800000000 3600000000 7200000000" "change_ok 1729990800000000 7200000000 3600000000"
  by (simp_all add: change_ok_def oncall_defs)

interpretation spring: wall_clock berlin_spring 0
  using change_zone_clock [OF change_ok_examples(1)] by (simp add: berlin_spring_def)

interpretation autumn: wall_clock berlin_autumn 3600000000
  using change_zone_clock [OF change_ok_examples(2)] by (simp add: berlin_autumn_def)

section \<open>Lemmas on rosters\<close>

lemma map_filter_total: "(\<And>x. x \<in> set xs \<Longrightarrow> f x = Some (g x)) \<Longrightarrow> List.map_filter f xs = map g xs"
  by (induction xs) (auto simp: List.map_filter_simps)

lemma order_at_rotate:
  assumes "is_ok (rule_validate r)" "shift_index r at tz = Some i"
  shows "order_at r at tz = rotate (nat (i mod int (length (sr_members r)))) (sr_members r)"
proof -
  let ?n = "length (sr_members r)"
  have n: "?n > 0" using assms(1) rule_validate_members [of r] by (simp add: is_ok_unit)
  have idx: "nat (rem_euclid (i + int k) (int ?n)) = (nat (i mod int ?n) + k) mod ?n" for k
  proof -
    have "int ((nat (i mod int ?n) + k) mod ?n) = (i + int k) mod int ?n"
      using n by (simp add: zmod_int mod_add_left_eq)
    then show ?thesis by (simp add: rem_euclid_def nat_eq_iff)
  qed
  have "order_at r at tz = map (\<lambda>k. sr_members r ! ((nat (i mod int ?n) + k) mod ?n)) [0..<?n]"
    using assms n by (simp add: order_at_def Let_def idx nth_opt_def map_filter_total)
  also have "\<dots> = rotate (nat (i mod int ?n)) (sr_members r)"
    by (rule nth_equalityI) (simp_all add: nth_rotate add.commute)
  finally show ?thesis .
qed

lemma order_at_cases:
  "order_at r at tz = [] \<or> (is_ok (rule_validate r) \<and> (\<exists>k. order_at r at tz = rotate k (sr_members r)))"
proof (cases "is_ok (rule_validate r) \<and> shift_index r at tz \<noteq> None")
  case True
  then show ?thesis using order_at_rotate by blast
qed (auto simp: order_at_def)

lemma set_order_at: "set (order_at r at tz) \<subseteq> set (sr_members r)"
  using order_at_cases [of r at tz] by auto

lemma check_members_ok:
  "check_members seen ms = Ok () \<longleftrightarrow>
     distinct (map to_ascii_lowercase ms) \<and> seen \<inter> to_ascii_lowercase ` set ms = {}"
  by (induction ms arbitrary: seen) auto

definition valid_window :: "time_window \<Rightarrow> bool" where
  "valid_window w \<longleftrightarrow> tw_start_minute w < 1440 \<and> tw_end_minute w \<le> 1440 \<and> tw_start_minute w \<noteq> tw_end_minute w"

lemma check_restrictions_ok:
  "check_restrictions i ws = Ok () \<longleftrightarrow> (\<forall>w \<in> set ws. valid_window w)"
  by (induction ws arbitrary: i) (auto simp: valid_window_def MINUTES_PER_DAY_def)

lemma rule_validate_ok:
  "rule_validate r = Ok () \<longleftrightarrow>
     trim (sr_name r) \<noteq> [] \<and> sr_members r \<noteq> [] \<and> 0 < sr_shift_micros r
     \<and> distinct (map to_ascii_lowercase (sr_members r))
     \<and> (\<forall>s e. sr_starts_at r = Some s \<longrightarrow> sr_ends_at r = Some e \<longrightarrow> s < e)
     \<and> (\<forall>w \<in> set (sr_restrictions r). valid_window w)"
proof -
  have "check_members {} (sr_members r) = Ok () \<longleftrightarrow> distinct (map to_ascii_lowercase (sr_members r))"
    by (simp add: check_members_ok)
  then show ?thesis
    by (cases "check_members {} (sr_members r)")
       (auto simp: rule_validate_def check_restrictions_ok not_le split: option.splits)
qed

lemma is_unavailable_Cons [simp]:
  "is_unavailable (u # us) m at \<longleftrightarrow> (un_covers u at \<and> un_is u m) \<or> is_unavailable us m at"
  "is_unavailable [] m at \<longleftrightarrow> False"
  by (simp_all add: is_unavailable_def)

definition window_length :: "time_window \<Rightarrow> nat" where
  "window_length w =
     (if tw_start_minute w \<le> tw_end_minute w then tw_end_minute w - tw_start_minute w
      else tw_end_minute w + 1440 - tw_start_minute w)"

lemma week_offset:
  fixes day d minute s L :: nat
  assumes "day < 7" "d < 7" "minute < 1440" "s < 1440" "L \<le> 1440"
  shows "(day * 1440 + minute + 10080 - (d * 1440 + s)) mod 10080 < L \<longleftrightarrow>
     (if s \<le> minute then d = day \<and> minute - s < L else d = (day + 6) mod 7 \<and> minute + 1440 - s < L)"
proof -
  let ?x = "day * 1440 + minute + 10080 - (d * 1440 + s)"
  have "?x < 20160" using assms by linarith
  then have m: "?x mod 10080 = (if ?x < 10080 then ?x else ?x - 10080)" by (simp add: mod_if)
  have e: "d = (day + 6) mod 7 \<longleftrightarrow> d + 1 = day \<or> (day = 0 \<and> d = 6)" using assms(1,2) by (cases day) auto
  consider "d = day" | "d + 1 = day" | "day = 0 \<and> d = 6" | "d + 2 \<le> day" | "day < d \<and> \<not> (day = 0 \<and> d = 6)"
    by linarith
  then have "(if ?x < 10080 then ?x else ?x - 10080) < L \<longleftrightarrow>
      (if s \<le> minute then d = day \<and> minute - s < L
       else (d + 1 = day \<or> (day = 0 \<and> d = 6)) \<and> minute + 1440 - s < L)"
  proof cases
    case 4
    then have "d * 1440 + 2880 \<le> day * 1440" by simp
    then show ?thesis using 4 assms by auto
  next
    case 5
    then have "day * 1440 + 1440 \<le> d * 1440" "d * 1440 \<le> day * 1440 + 7200" using assms by auto
    then show ?thesis using 5 assms by auto
  qed (use assms in auto)
  then show ?thesis unfolding m e .
qed

lemma window_length_le: "tw_end_minute w \<le> 1440 \<Longrightarrow> window_length w \<le> 1440"
  by (auto simp: window_length_def)

section \<open>Properties\<close>

text \<open>
  C14. Handovers are right in every time zone that keeps the laws of \<open>wall_clock\<close>, as zones whose clock is put
  forward or back do: for a valid rule whose shifts are whole minutes and at least a quarter of the largest
  step back, and whose anchor is a whole minute of the wall clock, the shift found for an instant from
  September 2001 on starts at or before it and hands over strictly after it, so the four corrections of the
  local estimate are enough across any such change.
\<close>

theorem shift_contains_instant:
  assumes "wall_clock tz setback" "plain_rule tz r setback" "modern at"
  shows "\<exists>b b'. shift_start r at tz = Some b \<and> next_handover r at tz = Some b' \<and> b \<le> at \<and> at < b'"
  using wall_clock.shift_brackets [OF assms] assms(2) wall_clock.handover_def [OF assms(1)]
  by (auto simp: shift_start_def next_handover_def plain_rule_def)

text \<open>A weekly rule for the examples.\<close>

definition sample_rule :: shift_rule where
  "sample_rule = rule_weekly ''Base'' [''ana'', ''bo'', ''cy''] 0"

lemma sample_rule_valid: "rule_validate sample_rule = Ok ()"
proof -
  have "trim ''Base'' \<noteq> []" by code_simp
  moreover have "distinct (map to_ascii_lowercase [''ana'', ''bo'', ''cy''])" by code_simp
  ultimately show ?thesis
    by (simp add: rule_validate_ok sample_rule_def rule_weekly_def oncall_defs)
qed

text \<open>A rule that hands over every day at half past two on the clock of Berlin, a reading 31 March 2024 does not have.\<close>

definition night_rule :: shift_rule where
  "night_rule = sample_rule\<lparr>sr_shift_micros := MICROS_PER_DAY, sr_anchor_micros := 1711675800000000\<rparr>"

lemma night_rule_plain: "plain_rule berlin_spring night_rule 0"
  using sample_rule_valid
  by (simp add: plain_rule_def night_rule_def sample_rule_def rule_weekly_def rule_validate_ok is_ok_unit berlin_spring_def
      to_local_micros_def change_zone_def oncall_defs)

theorem shift_contains_instant_witness:
  "\<exists>b b'. shift_start night_rule 1711846800000000 berlin_spring = Some b \<and>
     next_handover night_rule 1711846800000000 berlin_spring = Some b' \<and> b \<le> 1711846800000000 \<and> 1711846800000000 < b'"
  by (rule shift_contains_instant [OF spring.wall_clock_axioms night_rule_plain]) (simp add: modern_def)

text \<open>
  The ladder order of a shift is a rotation of the roster that begins with whoever is on
  shift: every member appears exactly once, and \<open>member_offset\<close> walks the same cycle.
\<close>

theorem order_at_is_the_cycle:
  assumes "is_ok (rule_validate r)" "shift_index r at tz = Some i"
  shows "order_at r at tz = rotate (nat (i mod int (length (sr_members r)))) (sr_members r)
     \<and> member_at r at tz = Some (hd (order_at r at tz))
     \<and> (k < length (sr_members r) \<longrightarrow> member_offset r at (int k) tz = Some (order_at r at tz ! k))"
proof -
  let ?n = "length (sr_members r)"
  have n: "?n > 0" using assms(1) rule_validate_members [of r] by (simp add: is_ok_unit)
  note ord = order_at_rotate [OF assms]
  have off: "member_offset r at (int j) tz = Some (order_at r at tz ! j)" if "j < ?n" for j
  proof -
    have "int ((j + nat (i mod int ?n)) mod ?n) = (i + int j) mod int ?n"
      using n by (simp add: zmod_int mod_add_right_eq add.commute)
    then have "nat (rem_euclid (i + int j) (int ?n)) = (j + nat (i mod int ?n)) mod ?n"
      by (simp add: rem_euclid_def nat_eq_iff)
    then show ?thesis
      using assms that n by (simp add: member_offset_def nth_opt_def ord nth_rotate add.commute)
  qed
  have "order_at r at tz \<noteq> []" using ord n by auto
  then show ?thesis using ord off off [of 0] n by (simp add: member_at_def hd_conv_nth)
qed

theorem order_at_is_the_cycle_witness:
  "order_at sample_rule 700000000000 utc = [''bo'', ''cy'', ''ana'']"
proof -
  have "shift_index sample_rule 700000000000 utc = Some 1" by code_simp
  from order_at_is_the_cycle [OF _ this, of 0] show ?thesis
    by (simp add: sample_rule_valid) (simp add: sample_rule_def rule_weekly_def rotate_def)
qed

text \<open>
  Absences move only the away person's turn: whoever a rule resolves to is on its roster
  and present; it resolves to nobody only when everybody in the order is away; and recording
  one more absence changes the answer only if it is the answer's own.
\<close>

theorem absence_moves_only_own_turn:
  "(case available_member_at r at tz us of
      Some m \<Rightarrow> m \<in> set (sr_members r) \<and> \<not> is_unavailable us m at
    | None \<Rightarrow> filter (\<lambda>m. \<not> is_unavailable us m at) (order_at r at tz) = [])
   \<and> (available_member_at r at tz (u # us) = available_member_at r at tz us
      \<or> (\<exists>m. available_member_at r at tz us = Some m \<and> un_covers u at \<and> un_is u m))"
proof
  show "case available_member_at r at tz us of
      Some m \<Rightarrow> m \<in> set (sr_members r) \<and> \<not> is_unavailable us m at
    | None \<Rightarrow> filter (\<lambda>m. \<not> is_unavailable us m at) (order_at r at tz) = []"
    using set_order_at [of r at tz]
    by (auto simp: available_member_at_def find_Some_iff find_None_iff filter_empty_conv
             split: option.splits)
  have "List.find (\<lambda>m. \<not> is_unavailable (u # us) m at) ms = List.find (\<lambda>m. \<not> is_unavailable us m at) ms
      \<or> (\<exists>m. List.find (\<lambda>m. \<not> is_unavailable us m at) ms = Some m \<and> un_covers u at \<and> un_is u m)" for ms
    by (induction ms) auto
  then show "available_member_at r at tz (u # us) = available_member_at r at tz us
      \<or> (\<exists>m. available_member_at r at tz us = Some m \<and> un_covers u at \<and> un_is u m)"
    by (simp add: available_member_at_def)
qed

text \<open>
  Time windows on the week: a valid window covers a minute of the week exactly when that
  minute lies within the window's length after its start on one of its days, so a window that
  wraps midnight belongs to the day it opened, Sunday night into Monday included.
\<close>

theorem window_covers_week:
  assumes "tw_start_minute w < 1440" "tw_end_minute w \<le> 1440" "day < 7" "minute < 1440"
  shows "covers_local w day minute \<longleftrightarrow>
     (\<exists>d < 7. (tw_days w = [] \<or> d \<in> set (tw_days w))
        \<and> (day * 1440 + minute + 10080 - (d * 1440 + tw_start_minute w)) mod 10080 < window_length w)"
proof -
  have L: "window_length w \<le> 1440" using assms(2) by (rule window_length_le)
  let ?eff = "if tw_start_minute w \<le> minute then day else (day + 6) mod 7"
  let ?k = "if tw_start_minute w \<le> minute then minute - tw_start_minute w
            else minute + 1440 - tw_start_minute w"
  have wk: "(day * 1440 + minute + 10080 - (d * 1440 + tw_start_minute w)) mod 10080 < window_length w
      \<longleftrightarrow> d = ?eff \<and> ?k < window_length w" if "d < 7" for d
    unfolding week_offset [OF assms(3) that assms(4,1) L] by (simp only: split: if_split) simp
  have eff: "?eff < 7" using assms(3) by simp
  have "(\<exists>d < 7. (tw_days w = [] \<or> d \<in> set (tw_days w))
        \<and> (day * 1440 + minute + 10080 - (d * 1440 + tw_start_minute w)) mod 10080 < window_length w)
      \<longleftrightarrow> (tw_days w = [] \<or> ?eff \<in> set (tw_days w)) \<and> ?k < window_length w"
    using wk eff by blast
  moreover have "covers_local w day minute \<longleftrightarrow>
      (tw_days w = [] \<or> ?eff \<in> set (tw_days w)) \<and> ?k < window_length w"
  proof (cases "tw_start_minute w \<le> tw_end_minute w")
    case True
    then have "?k < window_length w \<longleftrightarrow> tw_start_minute w \<le> minute \<and> minute < tw_end_minute w"
      using assms by (simp add: window_length_def) linarith
    with True show ?thesis by (auto simp: covers_local_def)
  next
    case False
    then have "?k < window_length w \<longleftrightarrow> tw_start_minute w \<le> minute \<or> minute < tw_end_minute w"
      using assms by (simp add: window_length_def) linarith
    with False show ?thesis by (auto simp: covers_local_def)
  qed
  ultimately show ?thesis by simp
qed

theorem window_covers_week_witness:
  "covers_local \<lparr>tw_days = [6], tw_start_minute = 1320, tw_end_minute = 360\<rparr> 0 30"
proof -
  have "(0 * 1440 + 30 + 10080 - (6 * 1440 + 1320)) mod 10080 < (480 :: nat)" by simp
  then show ?thesis
    using window_covers_week [of "\<lparr>tw_days = [6], tw_start_minute = 1320, tw_end_minute = 360\<rparr>" 0 30]
    by (simp add: window_length_def)
qed

end
