(* ===== verification/Oncall_Schedule.thy ===== *)
theory Oncall_Schedule
  imports Oncall_Rotation
begin

text \<open>
  The second half of \<open>src/config/src/meta/oncall/rotation.rs\<close>: a rotation as a stack of shift
  rules, who it puts on call, the positions of a team, the grid of a window of time and the
  look-ahead for shifts that land on somebody who is away.
\<close>

section \<open>Rotations\<close>

record rotation =
  rot_id :: string
  rot_name :: string
  rot_shift_rules :: "shift_rule list"
  rot_source :: "string option"

datatype rotation_error =
    RotNoName string
  | NoShiftRules
  | Rule shift_rule_error

definition rotation_error_display :: "rotation_error \<Rightarrow> string" where
  "rotation_error_display e =
     (case e of
        RotNoName s \<Rightarrow>
          if trim s = [] then ''a rotation must have a name '' @ em_dash @ '' a level pages it by name''
          else ''rotation name `'' @ s @ ''` is longer than the '' @ show_nat MAX_ROTATION_NAME_CHARS
               @ '' characters a name may have''
      | NoShiftRules \<Rightarrow> ''a rotation with no shift rules puts nobody on call; give it at least one''
      | Rule re \<Rightarrow> shift_rule_error_display re)"

definition rotation_weekly :: "string \<Rightarrow> string \<Rightarrow> string list \<Rightarrow> int \<Rightarrow> rotation" where
  "rotation_weekly i name members anchor_micros =
     \<lparr>rot_id = i, rot_name = name,
      rot_shift_rules = [rule_weekly DEFAULT_SHIFT_RULE_NAME members anchor_micros],
      rot_source = None\<rparr>"

definition rotation_offset_from :: "string \<Rightarrow> string \<Rightarrow> rotation \<Rightarrow> int \<Rightarrow> rotation" where
  "rotation_offset_from i name other shifts =
     \<lparr>rot_id = i, rot_name = name,
      rot_shift_rules = map (\<lambda>r. rule_offset_from r shifts) (rot_shift_rules other),
      rot_source = rot_source other\<rparr>"

definition rotation_validate :: "rotation \<Rightarrow> (unit, rotation_error) result" where
  "rotation_validate r =
     (if trim (rot_name r) = [] \<or> chars_count (rot_name r) > MAX_ROTATION_NAME_CHARS
      then Err (RotNoName (rot_name r))
      else if rot_shift_rules r = [] then Err NoShiftRules
      else try_each (\<lambda>rule. case rule_validate rule of Inl e \<Rightarrow> Err (Rule e) | Inr _ \<Rightarrow> Ok ())
             (rot_shift_rules r))"

definition rule_cmp :: "shift_rule \<Rightarrow> shift_rule \<Rightarrow> ordering" where
  "rule_cmp a b =
     then_with
       (then_with (cmp (sr_priority a) (sr_priority b))
                  (cmp (length (sr_restrictions a)) (length (sr_restrictions b))))
       (cmp (sr_anchor_micros b) (sr_anchor_micros a))"

definition winning_rule :: "rotation \<Rightarrow> int \<Rightarrow> zone \<Rightarrow> shift_rule option" where
  "winning_rule rot at tz =
     max_by rule_cmp (filter (\<lambda>r. is_ok (rule_validate r) \<and> applies_at r at tz) (rot_shift_rules rot))"

definition on_call ::
    "rotation \<Rightarrow> schedule_override list \<Rightarrow> unavailability list \<Rightarrow> int \<Rightarrow> zone \<Rightarrow> string option" where
  "on_call rot overrides us at tz =
     (case covering_override_for overrides (rot_id rot) at of
        Some ov \<Rightarrow> Some (ov_user_email ov)
      | None \<Rightarrow> Option.bind (winning_rule rot at tz) (\<lambda>r. available_member_at r at tz us))"

definition next_holder :: "rotation \<Rightarrow> unavailability list \<Rightarrow> int \<Rightarrow> zone \<Rightarrow> string option" where
  "next_holder rot us at tz =
     Option.bind (winning_rule rot at tz) (\<lambda>rule.
     Option.bind (next_handover rule at tz) (\<lambda>next_at.
     available_member_at rule next_at tz us))"

definition everyone ::
    "rotation \<Rightarrow> schedule_override list \<Rightarrow> unavailability list \<Rightarrow> int \<Rightarrow> zone \<Rightarrow> string list" where
  "everyone rot overrides us at tz =
     (let out = (case winning_rule rot at tz of Some r \<Rightarrow> sr_members r | None \<Rightarrow> []);
          out = (case covering_override_for overrides (rot_id rot) at of
                   Some ov \<Rightarrow>
                     if \<not> list_ex (\<lambda>m. eq_ignore_ascii_case m (ov_user_email ov)) out
                     then out @ [ov_user_email ov] else out
                 | None \<Rightarrow> out)
      in filter (\<lambda>m. \<not> is_unavailable us m at) out)"

record on_call_position =
  oc_rotation_id :: string
  oc_rotation_name :: string
  oc_rule :: string
  oc_user_email :: string
  oc_next_user_email :: "string option"
  oc_override_id :: "string option"

definition position_at ::
    "rotation \<Rightarrow> schedule_override list \<Rightarrow> unavailability list \<Rightarrow> int \<Rightarrow> zone \<Rightarrow> on_call_position option" where
  "position_at rot overrides us at tz =
     (let cover = covering_override_for overrides (rot_id rot) at;
          rule = winning_rule rot at tz;
          user = (case cover of
                    Some ov \<Rightarrow> Some (ov_user_email ov)
                  | None \<Rightarrow> Option.bind rule (\<lambda>r. available_member_at r at tz us))
      in map_option
           (\<lambda>user_email.
              \<lparr>oc_rotation_id = rot_id rot, oc_rotation_name = rot_name rot,
               oc_rule = (case rule of Some r \<Rightarrow> sr_name r | None \<Rightarrow> OVERRIDE_ROTATION_NAME),
               oc_user_email = user_email, oc_next_user_email = next_holder rot us at tz,
               oc_override_id = map_option ov_id cover\<rparr>)
           user)"

section \<open>A team's positions\<close>

definition resolve_on_call ::
    "rotation list \<Rightarrow> schedule_override list \<Rightarrow> unavailability list \<Rightarrow> int \<Rightarrow> zone \<Rightarrow> on_call_position list" where
  "resolve_on_call rotations overrides us at tz =
     List.map_filter (\<lambda>r. position_at r overrides us at tz)
       (filter (\<lambda>r. is_ok (rotation_validate r)) rotations)"

text \<open>The loop that keeps the first spelling of every address.\<close>

fun dedup_emails :: "string set \<Rightarrow> string list \<Rightarrow> string list" where
  "dedup_emails seen [] = []"
| "dedup_emails seen (e # es) =
     (if to_ascii_lowercase e \<in> seen then dedup_emails seen es
      else e # dedup_emails (insert (to_ascii_lowercase e) seen) es)"

definition everyone_on_call ::
    "rotation list \<Rightarrow> schedule_override list \<Rightarrow> unavailability list \<Rightarrow> int \<Rightarrow> zone \<Rightarrow> string list" where
  "everyone_on_call rotations overrides us at tz =
     dedup_emails {} (map oc_user_email (resolve_on_call rotations overrides us at tz))"

text \<open>One entry of \<open>by_person\<close> per address, in the order the addresses are first met.\<close>

fun add_person :: "string \<Rightarrow> rotation \<Rightarrow> (string \<times> rotation list) list \<Rightarrow> (string \<times> rotation list) list" where
  "add_person key r [] = [(key, [r])]"
| "add_person key r ((p, rs) # rest) =
     (if p = key then (p, rs @ [r]) # rest else (p, rs) # add_person key r rest)"

definition colliding_rotations ::
    "rotation list \<Rightarrow> schedule_override list \<Rightarrow> unavailability list \<Rightarrow> int \<Rightarrow> zone
     \<Rightarrow> (string \<times> rotation list) list" where
  "colliding_rotations rotations overrides us at tz =
     filter (\<lambda>(_, rs). length rs > 1)
       (foldl (\<lambda>by_person r.
                 case on_call r overrides us at tz of
                   None \<Rightarrow> by_person
                 | Some who \<Rightarrow> add_person (to_ascii_lowercase who) r by_person)
          [] (filter (\<lambda>r. is_ok (rotation_validate r)) rotations))"

section \<open>The grid of a window\<close>

record coverage_segment =
  cs_rotation_id :: string
  cs_from :: int
  cs_to :: int
  cs_user_email :: "string option"
  cs_rotation :: "string option"
  cs_override_id :: "string option"

definition is_gap :: "coverage_segment \<Rightarrow> bool" where
  "is_gap s \<longleftrightarrow> cs_user_email s = None"

datatype grid_error =
    InvertedWindow int int
  | WindowTooLong int int
  | TooManySegments nat

fun grid_error_display :: "grid_error \<Rightarrow> string" where
  "grid_error_display (InvertedWindow frm to) =
     ''window end '' @ show_int to @ '' is not after its start '' @ show_int frm"
| "grid_error_display (WindowTooLong micros mx) =
     ''window of '' @ show_int micros @ '' micros is longer than the '' @ show_int mx
     @ '' micros this endpoint resolves''"
| "grid_error_display (TooManySegments mx) =
     ''this schedule resolves to more than '' @ show_nat mx
     @ '' segments over that window; ask for a shorter one''"

definition MAX_GRID_MICROS :: int where "MAX_GRID_MICROS = 31 * MICROS_PER_DAY"
definition MAX_GRID_SEGMENTS :: nat where "MAX_GRID_SEGMENTS = 2000"
definition MAX_HANDOVERS_PER_ROTATION :: nat where "MAX_HANDOVERS_PER_ROTATION = MAX_GRID_SEGMENTS"

type_synonym holder = "string option \<times> string option \<times> string option"

definition holder_at ::
    "rotation \<Rightarrow> schedule_override list \<Rightarrow> unavailability list \<Rightarrow> int \<Rightarrow> zone \<Rightarrow> holder" where
  "holder_at rot overrides us at tz =
     (let winner = winning_rule rot at tz in
      case covering_override_for overrides (rot_id rot) at of
        Some ov \<Rightarrow> (Some (ov_user_email ov), map_option sr_name winner, Some (ov_id ov))
      | None \<Rightarrow>
          (case Option.bind winner (\<lambda>r. map_option (\<lambda>m. (sr_name r, m)) (available_member_at r at tz us)) of
             Some (rule, member) \<Rightarrow> (Some member, Some rule, None)
           | None \<Rightarrow> (None, None, None)))"

text \<open>
  The walk over the handovers of one rule: \<open>k\<close> is what is left of the loop's bound, the result
  the instants pushed.
\<close>

fun handover_marks :: "nat \<Rightarrow> shift_rule \<Rightarrow> zone \<Rightarrow> int \<Rightarrow> int \<Rightarrow> int list" where
  "handover_marks 0 r tz to cursor = []"
| "handover_marks (Suc k) r tz to cursor =
     (case next_handover r cursor tz of
        None \<Rightarrow> []
      | Some nxt \<Rightarrow>
          if nxt \<ge> to \<or> nxt \<le> cursor then [] else nxt # handover_marks k r tz to nxt)"

definition restriction_boundaries :: "shift_rule \<Rightarrow> int \<Rightarrow> int \<Rightarrow> zone \<Rightarrow> int list" where
  "restriction_boundaries r frm to tz =
     (if sr_restrictions r = [] then []
      else case to_local_micros tz frm of
             None \<Rightarrow> []
           | Some local_from \<Rightarrow>
               (let first_midnight = div_euclid local_from MICROS_PER_DAY * MICROS_PER_DAY - MICROS_PER_DAY;
                    days = div_euclid (to - frm) MICROS_PER_DAY + 3
                in concat (map (\<lambda>day.
                     let midnight = first_midnight + int day * MICROS_PER_DAY in
                     concat (map (\<lambda>w.
                       List.map_filter (\<lambda>minute.
                         case from_local_micros tz (midnight + int minute * MICROS_PER_MINUTE) of
                           Some edge \<Rightarrow> if edge > frm \<and> edge < to then Some edge else None
                         | None \<Rightarrow> None)
                         [tw_start_minute w, tw_end_minute w]) (sr_restrictions r)))
                     [0..<nat days])))"

definition inside :: "int \<Rightarrow> int \<Rightarrow> int \<Rightarrow> int list" where
  "inside frm to m = (if m > frm \<and> m < to then [m] else [])"

definition rule_marks :: "shift_rule \<Rightarrow> int \<Rightarrow> int \<Rightarrow> zone \<Rightarrow> int list" where
  "rule_marks r frm to tz =
     (if \<not> is_ok (rule_validate r) then []
      else (case sr_starts_at r of Some s \<Rightarrow> inside frm to s | None \<Rightarrow> [])
           @ (case sr_ends_at r of Some e \<Rightarrow> inside frm to e | None \<Rightarrow> [])
           @ handover_marks MAX_HANDOVERS_PER_ROTATION r tz to frm
           @ restriction_boundaries r frm to tz)"

definition candidate_boundaries ::
    "rotation \<Rightarrow> schedule_override list \<Rightarrow> unavailability list \<Rightarrow> int \<Rightarrow> int \<Rightarrow> zone \<Rightarrow> int list" where
  "candidate_boundaries rot overrides us frm to tz =
     remdups_adj (sort
       ([frm]
        @ concat (map (\<lambda>ov. if \<not> ov_overlaps ov frm to \<or> \<not> ov_is_for ov (rot_id rot) then []
                            else inside frm to (ov_start_at ov) @ inside frm to (ov_end_at ov)) overrides)
        @ concat (map (\<lambda>u. if \<not> un_overlaps u frm to then []
                           else inside frm to (un_start_at u) @ inside frm to (un_end_at u)) us)
        @ concat (map (\<lambda>r. rule_marks r frm to tz) (rot_shift_rules rot))))"

definition same_answer :: "coverage_segment \<Rightarrow> holder \<Rightarrow> bool" where
  "same_answer s h \<longleftrightarrow>
     (case h of (user_email, rule, override_id) \<Rightarrow>
        cs_user_email s = user_email \<and> cs_rotation s = rule \<and> cs_override_id s = override_id)"

definition mk_segment :: "rotation \<Rightarrow> int \<Rightarrow> int \<Rightarrow> holder \<Rightarrow> coverage_segment" where
  "mk_segment rot start fin h =
     (case h of (user_email, rule, override_id) \<Rightarrow>
        \<lparr>cs_rotation_id = rot_id rot, cs_from = start, cs_to = fin, cs_user_email = user_email,
         cs_rotation = rule, cs_override_id = override_id\<rparr>)"

text \<open>The loop over the marks; \<open>segments\<close> is the vector being built.\<close>

fun window_walk ::
    "rotation \<Rightarrow> (int \<Rightarrow> holder) \<Rightarrow> int \<Rightarrow> int list \<Rightarrow> coverage_segment list
     \<Rightarrow> (coverage_segment list, grid_error) result" where
  "window_walk rot holder to [] segments = Ok segments"
| "window_walk rot holder to (start # marks) segments =
     (let fin = (case marks of [] \<Rightarrow> to | m # _ \<Rightarrow> m) in
      if fin \<le> start then window_walk rot holder to marks segments
      else if segments \<noteq> [] \<and> same_answer (last segments) (holder start)
      then window_walk rot holder to marks (butlast segments @ [(last segments)\<lparr>cs_to := fin\<rparr>])
      else if length segments \<ge> MAX_GRID_SEGMENTS then Err (TooManySegments MAX_GRID_SEGMENTS)
      else window_walk rot holder to marks (segments @ [mk_segment rot start fin (holder start)]))"

definition resolve_window ::
    "rotation \<Rightarrow> schedule_override list \<Rightarrow> unavailability list \<Rightarrow> int \<Rightarrow> int \<Rightarrow> zone
     \<Rightarrow> (coverage_segment list, grid_error) result" where
  "resolve_window rot overrides us frm to tz =
     (if to \<le> frm then Err (InvertedWindow frm to)
      else (let span = (case checked_sub to frm of Some d \<Rightarrow> d | None \<Rightarrow> i64_max) in
            if span > MAX_GRID_MICROS then Err (WindowTooLong span MAX_GRID_MICROS)
            else window_walk rot (\<lambda>at. holder_at rot overrides us at tz) to
                   (candidate_boundaries rot overrides us frm to tz) []))"

section \<open>Shifts that land on somebody away\<close>

record away_shift =
  aw_rotation_id :: string
  aw_rotation :: string
  aw_rule :: string
  aw_user_email :: string
  aw_from :: int
  aw_to :: int
  aw_covered_by :: "string option"

definition MAX_AWAY_SHIFTS :: nat where "MAX_AWAY_SHIFTS = 50"

text \<open>The innermost loop, over the absences of the holder that overlap the shift.\<close>

fun away_in_shift ::
    "rotation \<Rightarrow> shift_rule \<Rightarrow> unavailability list \<Rightarrow> zone \<Rightarrow> nat \<Rightarrow> string \<Rightarrow> int \<Rightarrow> int
     \<Rightarrow> unavailability list \<Rightarrow> away_shift list \<Rightarrow> away_shift list" where
  "away_in_shift rot r us tz limit holder start fin [] out = out"
| "away_in_shift rot r us tz limit holder start fin (u # rest) out =
     (let overlap_from = max (un_start_at u) start; overlap_to = min (un_end_at u) fin in
      if (case winning_rule rot overlap_from tz of None \<Rightarrow> True | Some w \<Rightarrow> sr_name w \<noteq> sr_name r)
      then away_in_shift rot r us tz limit holder start fin rest out
      else if length out \<ge> limit then out
      else away_in_shift rot r us tz limit holder start fin rest
             (out @ [\<lparr>aw_rotation_id = rot_id rot, aw_rotation = rot_name rot, aw_rule = sr_name r,
                      aw_user_email = holder, aw_from = overlap_from, aw_to = overlap_to,
                      aw_covered_by = available_member_at r overlap_from tz us\<rparr>]))"

text \<open>The loop over the shifts of one rule, with what is left of its bound.\<close>

fun away_walk ::
    "nat \<Rightarrow> rotation \<Rightarrow> shift_rule \<Rightarrow> unavailability list \<Rightarrow> int \<Rightarrow> int \<Rightarrow> zone \<Rightarrow> nat \<Rightarrow> int
     \<Rightarrow> away_shift list \<Rightarrow> away_shift list" where
  "away_walk 0 rot r us frm to tz limit cursor out = out"
| "away_walk (Suc k) rot r us frm to tz limit cursor out =
     (if cursor \<ge> to \<or> length out \<ge> limit then out
      else case next_handover r cursor tz of
             None \<Rightarrow> out
           | Some shift_end \<Rightarrow>
               (let start = max cursor frm; fin = min shift_end to in
                if shift_end \<le> cursor then out
                else if fin \<le> start then away_walk k rot r us frm to tz limit shift_end out
                else case member_at r start tz of
                       None \<Rightarrow> away_walk k rot r us frm to tz limit shift_end out
                     | Some holder \<Rightarrow>
                         away_walk k rot r us frm to tz limit shift_end
                           (away_in_shift rot r us tz limit holder start fin
                              (filter (\<lambda>u. un_is u holder \<and> un_overlaps u start fin) us) out)))"

definition away_assignments ::
    "rotation list \<Rightarrow> unavailability list \<Rightarrow> int \<Rightarrow> int \<Rightarrow> zone \<Rightarrow> nat \<Rightarrow> away_shift list" where
  "away_assignments rotations us frm to tz limit =
     (if to \<le> frm \<or> limit = 0 \<or> us = [] then []
      else sort_key (\<lambda>a. (aw_from a, aw_rotation a, aw_rule a, aw_user_email a))
             (foldl (\<lambda>out rot.
                 foldl (\<lambda>out r.
                     if \<not> is_ok (rule_validate r) then out
                     else away_walk MAX_HANDOVERS_PER_ROTATION rot r us frm to tz limit frm out)
                   out (rot_shift_rules rot))
               [] (filter (\<lambda>rot. is_ok (rotation_validate rot)) rotations)))"

lemmas [oncall_defs] = MAX_GRID_MICROS_def MAX_GRID_SEGMENTS_def MAX_HANDOVERS_PER_ROTATION_def

section \<open>Comparators\<close>

interpretation override_order: keyed_cmp override_cmp "\<lambda>o1. (ov_created_at o1, ov_id o1)"
  by unfold_locales (auto simp: override_cmp_def cmp_def then_with_def less_prod_def')

interpretation rule_order: keyed_cmp rule_cmp
  "\<lambda>r. (sr_priority r, length (sr_restrictions r), - sr_anchor_micros r)"
  by unfold_locales (auto simp: rule_cmp_def cmp_def then_with_def less_prod_def')

lemma winning_rule_sound:
  "winning_rule rot at tz = Some r \<Longrightarrow>
     r \<in> set (rot_shift_rules rot) \<and> is_ok (rule_validate r) \<and> applies_at r at tz"
  using rule_order.max_by_in by (fastforce simp: winning_rule_def)

section \<open>Lemmas on the walk over the marks\<close>

definition answer :: "coverage_segment \<Rightarrow> holder" where
  "answer s = (cs_user_email s, cs_rotation s, cs_override_id s)"

lemma same_answer_iff [simp]: "same_answer s h \<longleftrightarrow> answer s = h"
  by (cases h) (auto simp: same_answer_def answer_def)

lemma answer_update [simp]: "answer (s\<lparr>cs_to := t\<rparr>) = answer s"
  by (simp add: answer_def)

lemma mk_segment_simps [simp]:
  "answer (mk_segment rot a b h) = h" "cs_from (mk_segment rot a b h) = a" "cs_to (mk_segment rot a b h) = b"
  by (cases h, simp add: mk_segment_def answer_def)+

text \<open>The segments lie end to end from one instant to another.\<close>

fun tiles :: "int \<Rightarrow> coverage_segment list \<Rightarrow> int \<Rightarrow> bool" where
  "tiles f [] t \<longleftrightarrow> f = t"
| "tiles f (s # ss) t \<longleftrightarrow> cs_from s = f \<and> f < cs_to s \<and> tiles (cs_to s) ss t"

lemma tiles_append: "tiles f (xs @ ys) t \<longleftrightarrow> (\<exists>m. tiles f xs m \<and> tiles m ys t)"
  by (induction xs arbitrary: f) auto

lemma tiles_le: "tiles f ss t \<Longrightarrow> f \<le> t"
  by (induction ss arbitrary: f) fastforce+

definition kept :: "coverage_segment \<Rightarrow> coverage_segment list \<Rightarrow> bool" where
  "kept s out \<longleftrightarrow> (\<exists>s' \<in> set out. cs_from s' = cs_from s \<and> cs_to s \<le> cs_to s' \<and> answer s' = answer s)"

lemma kept_refl: "s \<in> set out \<Longrightarrow> kept s out"
  by (auto simp: kept_def)

lemma kept_extend: "kept (s\<lparr>cs_to := t\<rparr>) out \<Longrightarrow> cs_to s \<le> t \<Longrightarrow> kept s out"
  by (auto simp: kept_def)

definition spans :: "int list \<Rightarrow> int \<Rightarrow> (int \<times> int) list" where
  "spans marks to = zip marks (tl marks @ [to])"

lemma spans_Cons:
  "spans (m # ms) to = (m, case ms of [] \<Rightarrow> to | n # _ \<Rightarrow> n) # spans ms to"
  by (cases ms) (simp_all add: spans_def)

lemma window_walk_spec:
  assumes "window_walk rot holder to marks segs = Ok out"
    and "sorted_wrt (<) marks" "\<forall>m \<in> set marks. m < to"
    and "tiles f segs (case marks of [] \<Rightarrow> to | m # _ \<Rightarrow> m)"
    and "successively (\<lambda>a b. answer a \<noteq> answer b) segs" "length segs \<le> MAX_GRID_SEGMENTS"
  shows "tiles f out to \<and> successively (\<lambda>a b. answer a \<noteq> answer b) out
    \<and> length out \<le> MAX_GRID_SEGMENTS \<and> (\<forall>s \<in> set segs. kept s out)
    \<and> (\<forall>(m, n) \<in> set (spans marks to). \<exists>s \<in> set out. cs_from s \<le> m \<and> n \<le> cs_to s \<and> answer s = holder m)"
  using assms
proof (induction marks arbitrary: segs)
  case Nil
  then show ?case by (auto simp: kept_refl spans_def)
next
  case (Cons start marks)
  let ?fin = "case marks of [] \<Rightarrow> to | m # _ \<Rightarrow> m"
  have fin: "start < ?fin" using Cons.prems(2,3) by (cases marks) auto
  have t: "tiles f segs start" using Cons.prems(4) by simp
  have marks: "sorted_wrt (<) marks" "\<forall>m \<in> set marks. m < to" using Cons.prems(2,3) by auto
  show ?case
  proof (cases "segs \<noteq> [] \<and> answer (last segs) = holder start")
    case True
    let ?l = "(last segs)\<lparr>cs_to := ?fin\<rparr>"
    let ?segs = "butlast segs @ [?l]"
    have segs: "segs = butlast segs @ [last segs]" using True by simp
    obtain m where m: "tiles f (butlast segs) m" "tiles m [last segs] start"
      using t segs tiles_append by metis
    have "window_walk rot holder to marks ?segs = Ok out"
      using Cons.prems(1) True fin by (simp add: Let_def not_le)
    moreover have "tiles f ?segs ?fin" using m fin by (auto simp: tiles_append)
    moreover have "successively (\<lambda>a b. answer a \<noteq> answer b) ?segs"
      using Cons.prems(5) segs by (metis answer_update last_snoc successively_append_iff
          successively.simps(2) list.sel(1) list.distinct(1))
    moreover have "length ?segs \<le> MAX_GRID_SEGMENTS" using Cons.prems(6) True by simp
    ultimately have IH: "tiles f out to" "successively (\<lambda>a b. answer a \<noteq> answer b) out"
        "length out \<le> MAX_GRID_SEGMENTS" "\<forall>s \<in> set ?segs. kept s out"
        "\<forall>(m, n) \<in> set (spans marks to). \<exists>s \<in> set out. cs_from s \<le> m \<and> n \<le> cs_to s \<and> answer s = holder m"
      using Cons.IH [OF _ marks] by blast+
    have kl: "kept ?l out" using IH(4) by simp
    have last: "cs_from (last segs) < start" "cs_to (last segs) = start" using m(2) by simp_all
    have "kept (last segs) out" using kept_extend [OF kl] last fin by simp
    then have "\<forall>s \<in> set segs. kept s out" using IH(4) segs
      by (metis Un_iff append_butlast_last_id empty_iff insert_iff list.set(1) list.simps(15) set_append)
    moreover have "\<exists>s \<in> set out. cs_from s \<le> start \<and> ?fin \<le> cs_to s \<and> answer s = holder start"
      using kl last True by (force simp: kept_def)
    ultimately show ?thesis using IH by (simp add: spans_Cons)
  next
    case False
    let ?s = "mk_segment rot start ?fin (holder start)"
    have "length segs < MAX_GRID_SEGMENTS"
      using Cons.prems(1) False fin by (auto simp: Let_def not_le split: if_splits)
    moreover have "window_walk rot holder to marks (segs @ [?s]) = Ok out"
      using Cons.prems(1) False fin by (auto simp: Let_def not_le split: if_splits)
    moreover have "tiles f (segs @ [?s]) ?fin" using t fin by (auto simp: tiles_append)
    moreover have "successively (\<lambda>a b. answer a \<noteq> answer b) (segs @ [?s])"
      using Cons.prems(5) False by (auto simp: successively_append_iff)
    ultimately have IH: "tiles f out to" "successively (\<lambda>a b. answer a \<noteq> answer b) out"
        "length out \<le> MAX_GRID_SEGMENTS" "\<forall>s \<in> set (segs @ [?s]). kept s out"
        "\<forall>(m, n) \<in> set (spans marks to). \<exists>s \<in> set out. cs_from s \<le> m \<and> n \<le> cs_to s \<and> answer s = holder m"
      using Cons.IH [OF _ marks, of "segs @ [?s]"] by simp_all
    have "\<exists>s \<in> set out. cs_from s \<le> start \<and> ?fin \<le> cs_to s \<and> answer s = holder start"
      using IH(4) by (force simp: kept_def)
    then show ?thesis using IH by (simp add: spans_Cons)
  qed
qed

section \<open>Between two marks the answer is constant\<close>

definition grid_rule :: "zone \<Rightarrow> shift_rule \<Rightarrow> int \<Rightarrow> bool" where
  "grid_rule tz r setback \<longleftrightarrow>
     plain_rule tz r setback \<and> sr_restrictions r = [] \<and> 1800000000 \<le> sr_shift_micros r"

context wall_clock
begin

lemma plain_rule_shift: "plain_rule tz r setback \<Longrightarrow> 0 < sr_shift_micros r \<and> is_ok (rule_validate r)"
  using rule_validate_shift [of r] by (auto simp: plain_rule_def is_ok_unit)

text \<open>The shift of an instant, with its two handovers.\<close>

lemma shift_of:
  assumes "plain_rule tz r setback" "modern at"
  obtains i l l' b b' where "shift_index r at tz = Some i" "handover r i l b"
    "handover r (i + 1) l' b'" "b \<le> at" "at < b'" "next_handover r at tz = Some b'"
proof -
  obtain i l l' b b' where 1: "shift_index r at tz = Some i" "handover r i l b" "handover r (i + 1) l' b'" "b \<le> at" "at < b'"
    using shift_brackets [OF assms] by metis
  moreover have "next_handover r at tz = Some b'"
    using 1 plain_rule_shift [OF assms(1)] by (simp add: next_handover_def handover_def)
  ultimately show ?thesis using that by blast
qed

lemma index_mono:
  assumes r: "plain_rule tz r setback" and "modern a" "modern t" "a \<le> t"
    and "shift_index r a tz = Some i" "shift_index r t tz = Some j"
  shows "i \<le> j"
proof -
  obtain l b where a: "handover r i l b" "b \<le> a"
    using shift_of [OF r \<open>modern a\<close>] assms(5) by (metis option.inject)
  obtain m c' where t: "handover r (j + 1) m c'" "t < c'"
    using shift_of [OF r \<open>modern t\<close>] assms(6) by (metis option.inject)
  have S: "0 < sr_shift_micros r" using plain_rule_shift [OF r] by simp
  have "\<not> j + 1 \<le> i" using handover_mono [OF t(1) a(1) _ S] t(2) a(2) \<open>a \<le> t\<close> by force
  then show ?thesis by simp
qed

lemma index_constant:
  assumes r: "plain_rule tz r setback" and "modern a" "modern t" "a \<le> t"
    and n: "next_handover r a tz = Some n" "t < n"
  shows "shift_index r t tz = shift_index r a tz"
proof -
  obtain i l b' where a: "shift_index r a tz = Some i" "handover r (i + 1) l b'" "next_handover r a tz = Some b'"
    using shift_of [OF r \<open>modern a\<close>] by metis
  obtain j m c where t: "shift_index r t tz = Some j" "handover r j m c" "c \<le> t"
    using shift_of [OF r \<open>modern t\<close>] by metis
  have S: "0 < sr_shift_micros r" using plain_rule_shift [OF r] by simp
  have "\<not> i + 1 \<le> j" using handover_mono [OF a(2) t(2) _ S] t(3) n a(3) by force
  moreover have "i \<le> j" by (rule index_mono [OF assms(1-4) a(1) t(1)])
  ultimately show ?thesis using a(1) t(1) by simp
qed

lemma next_index:
  assumes r: "plain_rule tz r setback" and "modern c" "modern n"
    and n: "next_handover r c tz = Some n"
  shows "\<exists>i j. shift_index r c tz = Some i \<and> shift_index r n tz = Some j \<and> i < j \<and> c < n"
proof -
  obtain i l b' where c: "shift_index r c tz = Some i"
      "handover r (i + 1) l b'" "c < b'" "next_handover r c tz = Some b'"
    using shift_of [OF r \<open>modern c\<close>] by metis
  obtain j m d' where j: "shift_index r n tz = Some j" "handover r (j + 1) m d'" "n < d'"
    using shift_of [OF r \<open>modern n\<close>] by metis
  have S: "0 < sr_shift_micros r" using plain_rule_shift [OF r] by simp
  have "\<not> j + 1 \<le> i + 1" using handover_mono [OF j(2) c(2) _ S] j(3) c(4) n by force
  then show ?thesis using c j n by auto
qed

lemma handover_marks_complete:
  assumes r: "plain_rule tz r setback" and "modern c" "modern a" "modern to" "c \<le> a" "a < to"
    and n: "next_handover r a tz = Some n" "n < to"
    and "shift_index r c tz = Some i" "shift_index r a tz = Some j" "nat (j - i) < k"
  shows "n \<in> set (handover_marks k r tz to c)"
  using assms(2,5,9,11)
proof (induction k arbitrary: c i)
  case (Suc k)
  obtain n0 where n0: "next_handover r c tz = Some n0" "c < n0"
    using shift_of [OF r Suc.prems(1)] by metis
  show ?case
  proof (cases "a < n0")
    case True
    then have "shift_index r a tz = shift_index r c tz"
      using index_constant [OF r Suc.prems(1) assms(3) Suc.prems(2) n0(1)] by simp
    then have "n0 = n" using n0(1) n(1) by (simp add: next_handover_def split: if_splits)
    then show ?thesis using n0 n(2) by simp
  next
    case False
    then have "modern n0" using n0(2) Suc.prems(1) assms(3) by (auto simp: modern_def)
    obtain i' where i': "shift_index r n0 tz = Some i'" "i < i'"
      using next_index [OF r Suc.prems(1) \<open>modern n0\<close> n0(1)] Suc.prems(3) by auto
    have "n \<in> set (handover_marks k r tz to n0)" if "nat (j - i') < k"
      using Suc.IH [OF \<open>modern n0\<close> _ i'(1) that] False by simp
    moreover have "i' \<le> j"
      using index_mono [OF r \<open>modern n0\<close> assms(3) _ i'(1) assms(10)] False by simp
    then have "nat (j - i') < k" using Suc.prems(4) i'(2) by linarith
    ultimately show ?thesis using n0 False assms(6) by simp
  qed
qed simp

lemma index_span:
  assumes r: "plain_rule tz r setback" "1800000000 \<le> sr_shift_micros r"
    and "modern f" "modern a" "a - f \<le> MAX_GRID_MICROS"
    and i: "shift_index r f tz = Some i" and j: "shift_index r a tz = Some j"
  shows "nat (j - i) < MAX_HANDOVERS_PER_ROTATION"
proof -
  let ?S = "sr_shift_micros r"
  have S: "0 < ?S" "setback \<le> 4 * ?S" using r plain_rule_shift [OF r(1)] by (auto simp: plain_rule_def)
  obtain lf where lf: "to_local_micros tz f = Some lf" "\<bar>lf - f\<bar> < 86400000000"
    using reading [OF modern_in_clock [OF \<open>modern f\<close>]] by (auto simp: oncall_defs)
  obtain l where l: "to_local_micros tz a = Some l" "\<bar>l - a\<bar> < 86400000000"
    using reading [OF modern_in_clock [OF \<open>modern a\<close>]] by (auto simp: oncall_defs)
  obtain lc c where c: "handover r j lc c" "c \<le> a"
    using shift_of [OF r(1) \<open>modern a\<close>] j by (metis option.inject)
  obtain lb b where b: "handover r (i + 1) lb b" "f < b"
    using shift_of [OF r(1) \<open>modern f\<close>] i by (metis option.inject)
  have diff: "lc - j * ?S = lb - (i + 1) * ?S" using b(1) c(1) by (simp add: handover_def)
  have "lf < lb"
    using reached [OF lf(1) _ modern_in_clock [OF \<open>modern f\<close>]] b by (force simp: handover_def)
  moreover have "lc \<le> l + 4 * ?S"
    using after_setback [OF l(1) _ modern_in_clock [OF \<open>modern a\<close>]] c S by (force simp: handover_def)
  ultimately have "j * ?S - (i + 1) * ?S - 4 * ?S < 2678400000000 + 2 * 86400000000"
    using lf(2) l(2) assms(5) diff by (simp add: oncall_defs)
  then have "(j - i - 5) * ?S < 2851200000000" by (simp add: algebra_simps)
  moreover have "(j - i - 5) * 1800000000 \<le> (j - i - 5) * ?S" if "0 \<le> j - i - 5"
    using that r(2) by (intro mult_left_mono) simp_all
  ultimately have "j - i - 5 < 1584" by (cases "0 \<le> j - i - 5") auto
  then show ?thesis by (simp add: oncall_defs nat_less_iff)
qed

lemma rule_constant:
  assumes r: "grid_rule tz r setback" and "modern f" "modern to" "to - f \<le> MAX_GRID_MICROS"
    and "f \<le> a" "a \<le> t" "t < to" and no_mark: "\<forall>m \<in> set (rule_marks r f to tz). \<not> (a < m \<and> m \<le> t)"
  shows "applies_at r a tz = applies_at r t tz" "order_at r a tz = order_at r t tz"
proof -
  have plain: "plain_rule tz r setback" "1800000000 \<le> sr_shift_micros r" and ok: "is_ok (rule_validate r)"
    and free: "sr_restrictions r = []"
    using r plain_rule_shift [of r] by (auto simp: grid_rule_def)
  have near: "modern a" "modern t" using assms(2-7) by (auto simp: modern_def)
  have marks: "\<And>e. sr_starts_at r = Some e \<Longrightarrow> \<not> (a < e \<and> e \<le> t)"
    "\<And>e. sr_ends_at r = Some e \<Longrightarrow> \<not> (a < e \<and> e \<le> t)"
    using no_mark ok assms(5-7) by (auto simp: rule_marks_def inside_def)
  show "applies_at r a tz = applies_at r t tz"
    using marks \<open>a \<le> t\<close> by (auto simp: applies_at_def free in_effect_at_def split: option.splits)
  obtain i where i: "shift_index r f tz = Some i" using shift_of [OF plain(1) \<open>modern f\<close>] by metis
  obtain j n where j: "shift_index r a tz = Some j" "next_handover r a tz = Some n" "a < n"
    using shift_of [OF plain(1) near(1)] by metis
  have "t < n"
  proof (rule ccontr)
    assume "\<not> t < n"
    then have "n \<le> t" "n < to" using \<open>t < to\<close> by simp_all
    have "nat (j - i) < MAX_HANDOVERS_PER_ROTATION"
      using index_span [OF plain \<open>modern f\<close> near(1) _ i j(1)] assms(4-7) by simp
    then have "n \<in> set (handover_marks MAX_HANDOVERS_PER_ROTATION r tz to f)"
      using handover_marks_complete [OF plain(1) \<open>modern f\<close> near(1) \<open>modern to\<close> \<open>f \<le> a\<close> _ j(2) \<open>n < to\<close> i j(1)]
        assms(6,7) by simp
    then show False using no_mark ok j(3) \<open>n \<le> t\<close> by (auto simp: rule_marks_def)
  qed
  then have "shift_index r t tz = shift_index r a tz"
    by (rule index_constant [OF plain(1) near \<open>a \<le> t\<close> j(2)])
  then show "order_at r a tz = order_at r t tz" by (simp add: order_at_def)
qed

end

lemma set_candidates:
  "set (candidate_boundaries rot ovs us f to tz) =
     insert f
       ((\<Union>ov \<in> {ov \<in> set ovs. ov_overlaps ov f to \<and> ov_is_for ov (rot_id rot)}.
           set (inside f to (ov_start_at ov) @ inside f to (ov_end_at ov)))
        \<union> (\<Union>u \<in> {u \<in> set us. un_overlaps u f to}.
             set (inside f to (un_start_at u) @ inside f to (un_end_at u)))
        \<union> (\<Union>r \<in> set (rot_shift_rules rot). set (rule_marks r f to tz)))"
  unfolding candidate_boundaries_def remdups_adj_set set_sort by auto

lemma override_mark:
  assumes "ov \<in> set ovs" "ov_is_for ov (rot_id rot)" "ov_overlaps ov f to" "f < e" "e < to"
    and "e = ov_start_at ov \<or> e = ov_end_at ov"
  shows "e \<in> set (candidate_boundaries rot ovs us f to tz)"
proof -
  have "e \<in> set (inside f to (ov_start_at ov) @ inside f to (ov_end_at ov))"
    using assms(4-6) by (auto simp: inside_def)
  then show ?thesis using assms(1-3) unfolding set_candidates by blast
qed

lemma absence_mark:
  assumes "u \<in> set us" "un_overlaps u f to" "f < e" "e < to" "e = un_start_at u \<or> e = un_end_at u"
  shows "e \<in> set (candidate_boundaries rot ovs us f to tz)"
proof -
  have "e \<in> set (inside f to (un_start_at u) @ inside f to (un_end_at u))"
    using assms(3-5) by (auto simp: inside_def)
  then show ?thesis using assms(1,2) unfolding set_candidates by blast
qed

lemma covers_between:
  assumes "f \<le> a" "a \<le> t" "t < to"
    and "\<forall>m \<in> set (candidate_boundaries rot ovs us f to tz). \<not> (a < m \<and> m \<le> t)"
  shows "ov \<in> set ovs \<Longrightarrow> ov_is_for ov (rot_id rot) \<Longrightarrow> ov_covers ov a = ov_covers ov t"
    and "u \<in> set us \<Longrightarrow> un_covers u a = un_covers u t"
    and "r \<in> set (rot_shift_rules rot) \<Longrightarrow> m \<in> set (rule_marks r f to tz) \<Longrightarrow> \<not> (a < m \<and> m \<le> t)"
proof -
  assume ov: "ov \<in> set ovs" "ov_is_for ov (rot_id rot)"
  show "ov_covers ov a = ov_covers ov t"
  proof (cases "ov_overlaps ov f to")
    case True
    have "\<not> (a < e \<and> e \<le> t)" if "e = ov_start_at ov \<or> e = ov_end_at ov" for e
      using override_mark [OF ov True _ _ that] assms by force
    then show ?thesis using cover.covers_constant [OF \<open>a \<le> t\<close>] by blast
  next
    case False
    then show ?thesis using assms(1-3) by (auto simp: window_defs)
  qed
next
  assume u: "u \<in> set us"
  show "un_covers u a = un_covers u t"
  proof (cases "un_overlaps u f to")
    case True
    have "\<not> (a < e \<and> e \<le> t)" if "e = un_start_at u \<or> e = un_end_at u" for e
      using absence_mark [OF u True _ _ that] assms by force
    then show ?thesis using absence.covers_constant [OF \<open>a \<le> t\<close>] by blast
  next
    case False
    then show ?thesis using assms(1-3) by (auto simp: window_defs)
  qed
next
  assume "r \<in> set (rot_shift_rules rot)" "m \<in> set (rule_marks r f to tz)"
  then show "\<not> (a < m \<and> m \<le> t)" using assms(4) unfolding set_candidates by blast
qed

lemma is_unavailable_between:
  "(\<And>u. u \<in> set us \<Longrightarrow> un_covers u a = un_covers u t) \<Longrightarrow> is_unavailable us m a = is_unavailable us m t"
  by (auto simp: is_unavailable_def list_ex_iff)

lemma holder_constant:
  assumes clock: "wall_clock tz setback"
    and rules: "\<forall>r \<in> set (rot_shift_rules rot). is_ok (rule_validate r) \<longrightarrow> grid_rule tz r setback"
    and near: "modern f" "modern to" "to - f \<le> MAX_GRID_MICROS" and "f \<le> a" "a \<le> t" "t < to"
    and no_mark: "\<forall>m \<in> set (candidate_boundaries rot ovs us f to tz). \<not> (a < m \<and> m \<le> t)"
  shows "holder_at rot ovs us a tz = holder_at rot ovs us t tz"
proof -
  note between = covers_between [OF \<open>f \<le> a\<close> \<open>a \<le> t\<close> \<open>t < to\<close> no_mark]
  have rule: "applies_at r a tz = applies_at r t tz" "order_at r a tz = order_at r t tz"
    if "r \<in> set (rot_shift_rules rot)" "is_ok (rule_validate r)" for r
    using wall_clock.rule_constant [OF clock _ near \<open>f \<le> a\<close> \<open>a \<le> t\<close> \<open>t < to\<close>] rules that between(3)
    by blast+
  have cov: "covering_override_for ovs (rot_id rot) a = covering_override_for ovs (rot_id rot) t"
    unfolding covering_override_for_def using between(1) by (metis (mono_tags, lifting) filter_cong)
  have win: "winning_rule rot a tz = winning_rule rot t tz"
    unfolding winning_rule_def using rule(1) by (metis (mono_tags, lifting) filter_cong)
  have "available_member_at r a tz us = available_member_at r t tz us" if "winning_rule rot t tz = Some r" for r
    using rule(2) winning_rule_sound [OF that] is_unavailable_between [OF between(2)]
    by (simp add: available_member_at_def)
  then show ?thesis unfolding holder_at_def cov win by (cases "winning_rule rot t tz"; cases "covering_override_for ovs (rot_id rot) t") (simp_all add: Let_def)
qed

lemma marks_strict: "sorted_wrt (<) (candidate_boundaries rot ovs us f to tz)"
  unfolding candidate_boundaries_def by (rule strict_remdups_adj) (rule sorted_sort)

lemma handover_marks_range: "m \<in> set (handover_marks k r tz to c) \<Longrightarrow> c < m \<and> m < to"
  by (induction k arbitrary: c) (fastforce split: option.splits if_splits)+

lemma restriction_range: "m \<in> set (restriction_boundaries r f to tz) \<Longrightarrow> f < m \<and> m < to"
  by (auto simp: restriction_boundaries_def Let_def List.map_filter_simps
      split: if_splits option.splits)

lemma marks_range:
  "f < to \<Longrightarrow> m \<in> set (candidate_boundaries rot ovs us f to tz) \<Longrightarrow> f \<le> m \<and> m < to"
  by (auto simp: set_candidates rule_marks_def inside_def
      split: if_splits option.splits dest!: handover_marks_range restriction_range)

lemma marks_head: "f < to \<Longrightarrow> \<exists>ms. candidate_boundaries rot ovs us f to tz = f # ms"
proof -
  assume "f < to"
  let ?ms = "candidate_boundaries rot ovs us f to tz"
  have "f \<in> set ?ms" by (simp add: set_candidates)
  moreover have "\<forall>m \<in> set ?ms. f \<le> m" using marks_range [OF \<open>f < to\<close>] by blast
  ultimately show ?thesis using marks_strict [of rot ovs us f to tz]
    by (metis list.exhaust list.set_intros(1) empty_iff empty_set not_less set_ConsD sorted_wrt.simps(2))
qed

text \<open>Every instant of the window is in the span of some mark.\<close>

lemma span_of:
  assumes "sorted_wrt (<) (m # ms)" "m \<le> t" "t < to"
  shows "\<exists>(a, b) \<in> set (spans (m # ms) to). a \<le> t \<and> t < b \<and> (\<forall>x \<in> set (m # ms). \<not> (a < x \<and> x \<le> t))"
  using assms
proof (induction ms arbitrary: m)
  case Nil
  then show ?case by (simp add: spans_def)
next
  case (Cons n ns)
  show ?case
  proof (cases "t < n")
    case True
    then have "\<forall>x \<in> set (m # n # ns). \<not> (m < x \<and> x \<le> t)" using Cons.prems(1) by force
    moreover have "(m, n) \<in> set (spans (m # n # ns) to)" by (simp add: spans_Cons)
    ultimately show ?thesis using True Cons.prems(2) by blast
  next
    case False
    then obtain a b where ab: "(a, b) \<in> set (spans (n # ns) to)" "a \<le> t" "t < b"
        "\<forall>x \<in> set (n # ns). \<not> (a < x \<and> x \<le> t)"
      using Cons.IH [of n] Cons.prems by auto
    have "a \<in> set (n # ns)" using ab(1) by (auto simp: spans_def dest: set_zip_leftD)
    then have "m < a" using Cons.prems(1) by auto
    then have "\<forall>x \<in> set (m # n # ns). \<not> (a < x \<and> x \<le> t)" using ab(4) by auto
    moreover have "(a, b) \<in> set (spans (m # n # ns) to)" using ab(1) by (simp add: spans_Cons)
    ultimately show ?thesis using ab(2,3) by blast
  qed
qed

lemma resolve_window_walk:
  assumes "resolve_window rot ovs us f to tz = Ok segs"
  shows "f < to" "to - f \<le> MAX_GRID_MICROS"
    "window_walk rot (\<lambda>at. holder_at rot ovs us at tz) to (candidate_boundaries rot ovs us f to tz) [] = Ok segs"
proof -
  show lt: "f < to" using assms by (auto simp: resolve_window_def not_le split: if_splits)
  have span: "(case checked_sub to f of Some d \<Rightarrow> d | None \<Rightarrow> i64_max) \<le> MAX_GRID_MICROS"
    using assms by (auto simp: resolve_window_def Let_def split: if_splits)
  then have "checked_sub to f \<noteq> None" by (auto simp: oncall_defs split: option.splits)
  then show "to - f \<le> MAX_GRID_MICROS" using span by (auto simp: checked_sub_def checked_i64_def split: if_splits)
  show "window_walk rot (\<lambda>at. holder_at rot ovs us at tz) to (candidate_boundaries rot ovs us f to tz) [] = Ok segs"
    using assms lt span by (simp add: resolve_window_def Let_def)
qed

lemma resolve_window_spec:
  assumes "resolve_window rot ovs us f to tz = Ok segs"
  shows "tiles f segs to \<and> successively (\<lambda>a b. answer a \<noteq> answer b) segs \<and> length segs \<le> MAX_GRID_SEGMENTS
    \<and> (\<forall>(m, n) \<in> set (spans (candidate_boundaries rot ovs us f to tz) to).
         \<exists>s \<in> set segs. cs_from s \<le> m \<and> n \<le> cs_to s \<and> answer s = holder_at rot ovs us m tz)"
proof -
  note w = resolve_window_walk [OF assms]
  obtain ms where ms: "candidate_boundaries rot ovs us f to tz = f # ms" using marks_head [OF w(1)] by blast
  have "\<forall>m \<in> set (candidate_boundaries rot ovs us f to tz). m < to" using marks_range [OF w(1)] by blast
  from window_walk_spec [OF w(3) marks_strict this, of f] show ?thesis by (simp add: ms)
qed

section \<open>Properties\<close>


text \<open>A rotation for the examples.\<close>

definition sample_rotation :: rotation where
  "sample_rotation = rotation_weekly ''r1'' ''Primary'' [''ana'', ''bo'', ''cy''] 0"

text \<open>
  The night of 31 March 2024 in Berlin: a rotation that hands over daily at half past two, drawn from the
  evening before until the next afternoon. The clock jumps from two to three, where the handover falls.
\<close>

definition night_rotation_berlin :: rotation where
  "night_rotation_berlin = sample_rotation\<lparr>rot_shift_rules := [night_rule]\<rparr>"

lemma berlin_grid:
  "resolve_window night_rotation_berlin [] [] 1711825200000000 1711900800000000 berlin_spring =
     Ok [\<lparr>cs_rotation_id = ''r1'', cs_from = 1711825200000000, cs_to = 1711846800000000, cs_user_email = Some ''bo'',
          cs_rotation = Some ''Base'', cs_override_id = None\<rparr>,
         \<lparr>cs_rotation_id = ''r1'', cs_from = 1711846800000000, cs_to = 1711900800000000, cs_user_email = Some ''cy'',
          cs_rotation = Some ''Base'', cs_override_id = None\<rparr>]"
  by code_simp


lemma sample_grid:
  "resolve_window sample_rotation [] [] 0 1209600000000 utc =
     Ok [\<lparr>cs_rotation_id = ''r1'', cs_from = 0, cs_to = 604800000000, cs_user_email = Some ''ana'',
          cs_rotation = Some ''Base'', cs_override_id = None\<rparr>,
         \<lparr>cs_rotation_id = ''r1'', cs_from = 604800000000, cs_to = 1209600000000, cs_user_email = Some ''bo'',
          cs_rotation = Some ''Base'', cs_override_id = None\<rparr>]"
  by code_simp

text \<open>
  The grid has no holes: the segments of a resolved window lie end to end from its start to
  its end, each of them is not empty, neighbours differ in their answer, there are at most two
  thousand, and a coverage gap is a segment without a holder.
\<close>

theorem grid_tiles_window:
  assumes "resolve_window rot ovs us f to tz = Ok segs"
  shows "tiles f segs to \<and> segs \<noteq> [] \<and> length segs \<le> 2000
     \<and> successively (\<lambda>a b. (cs_user_email a, cs_rotation a, cs_override_id a)
                         \<noteq> (cs_user_email b, cs_rotation b, cs_override_id b)) segs"
  using resolve_window_spec [OF assms] resolve_window_walk(1) [OF assms]
  by (auto simp: answer_def oncall_defs)

theorem grid_tiles_window_witness:
  "\<exists>segs. resolve_window sample_rotation [] [] 0 1209600000000 utc = Ok segs \<and> tiles 0 segs 1209600000000"
  using grid_tiles_window [OF sample_grid] sample_grid by blast

text \<open>
  Every reading of who is on call agrees: the position shown for a rotation and the holder
  the grid draws name exactly whom paging reaches, and a cover, when one is in force, outranks
  every rule and every absence.
\<close>

theorem resolvers_agree:
  "map_option oc_user_email (position_at rot ovs us at tz) = on_call rot ovs us at tz
   \<and> fst (holder_at rot ovs us at tz) = on_call rot ovs us at tz
   \<and> (case covering_override_for ovs (rot_id rot) at of
        Some ov \<Rightarrow> on_call rot ovs us at tz = Some (ov_user_email ov)
                   \<and> ov \<in> set ovs \<and> ov_covers ov at \<and> ov_is_for ov (rot_id rot)
      | None \<Rightarrow> filter (\<lambda>ov. ov_covers ov at \<and> ov_is_for ov (rot_id rot)) ovs = [])"
proof -
  have "map_option oc_user_email (position_at rot ovs us at tz) = on_call rot ovs us at tz"
    by (simp add: position_at_def on_call_def Let_def option.map_comp comp_def option.map_ident split: option.splits)
  moreover have "fst (holder_at rot ovs us at tz) = on_call rot ovs us at tz"
    by (auto simp: holder_at_def on_call_def Let_def split: option.splits bind_splits)
  moreover have "case covering_override_for ovs (rot_id rot) at of
        Some ov \<Rightarrow> on_call rot ovs us at tz = Some (ov_user_email ov)
                   \<and> ov \<in> set ovs \<and> ov_covers ov at \<and> ov_is_for ov (rot_id rot)
      | None \<Rightarrow> filter (\<lambda>ov. ov_covers ov at \<and> ov_is_for ov (rot_id rot)) ovs = []"
    using override_order.max_by_in override_order.max_by_None
    by (fastforce simp: on_call_def covering_override_for_def split: option.splits)
  ultimately show ?thesis by blast
qed

text \<open>
  The rule in force: nobody wins when no valid rule applies, and otherwise the winner is a
  valid rule that applies and no other such rule has a higher priority, the same priority and
  more restrictions, or both the same and an earlier anchor.
\<close>

theorem winning_rule_greatest:
  "case winning_rule rot at tz of
     None \<Rightarrow> filter (\<lambda>r. is_ok (rule_validate r) \<and> applies_at r at tz) (rot_shift_rules rot) = []
   | Some w \<Rightarrow>
       w \<in> set (rot_shift_rules rot) \<and> is_ok (rule_validate w) \<and> applies_at w at tz
       \<and> filter (\<lambda>r. is_ok (rule_validate r) \<and> applies_at r at tz
            \<and> (sr_priority w, length (sr_restrictions w), - sr_anchor_micros w)
              < (sr_priority r, length (sr_restrictions r), - sr_anchor_micros r)) (rot_shift_rules rot) = []"
proof (cases "winning_rule rot at tz")
  case None
  then show ?thesis by (simp add: winning_rule_def rule_order.max_by_None)
next
  case (Some w)
  have "\<not> (sr_priority w, length (sr_restrictions w), - sr_anchor_micros w)
        < (sr_priority r, length (sr_restrictions r), - sr_anchor_micros r)"
    if "r \<in> set (rot_shift_rules rot)" "is_ok (rule_validate r)" "applies_at r at tz" for r
    using rule_order.max_by_ge [OF Some [unfolded winning_rule_def], of r, THEN leD] that by simp
  then show ?thesis using winning_rule_sound [OF Some] Some by (auto simp: filter_empty_conv)
qed

text \<open>
  Every node agrees on a cover: who is on call does not depend on the order the covers are
  read in, as long as no two of them share both their creation instant and their id.
\<close>

theorem covers_order_free:
  assumes "set ovs = set ovs'" "inj_on (\<lambda>ov. (ov_created_at ov, ov_id ov)) (set ovs)"
  shows "on_call rot ovs us at tz = on_call rot ovs' us at tz"
proof -
  let ?p = "\<lambda>ov. ov_covers ov at \<and> ov_is_for ov (rot_id rot)"
  have "inj_on (\<lambda>ov. (ov_created_at ov, ov_id ov)) (set (filter ?p ovs))"
    using assms(2) by (rule inj_on_subset) auto
  then have "max_by override_cmp (filter ?p ovs) = max_by override_cmp (filter ?p ovs')"
    using assms(1) by (intro override_order.max_by_order_free) auto
  then show ?thesis by (simp add: on_call_def covering_override_for_def)
qed

definition sample_cover :: "string \<Rightarrow> string \<Rightarrow> int \<Rightarrow> schedule_override" where
  "sample_cover i who created =
     \<lparr>ov_id = i, ov_org_id = ''org'', ov_team_id = ''t'', ov_rotation_id = ''r1'', ov_user_email = who,
      ov_start_at = 0, ov_end_at = 1000, ov_covering_for = None, ov_reason = None,
      ov_created_by = who, ov_created_at = created\<rparr>"

theorem covers_order_free_witness:
  "on_call sample_rotation [sample_cover ''a'' ''ana'' 5, sample_cover ''b'' ''bo'' 6] [] 10 utc =
   on_call sample_rotation [sample_cover ''b'' ''bo'' 6, sample_cover ''a'' ''ana'' 5] [] 10 utc"
  by (rule covers_order_free) (auto simp: sample_cover_def)

text \<open>
  Two valid rules that tie on priority, restrictions and anchor: the winner is the one stored
  last, so it does depend on row order.
\<close>

lemma winning_rule_row_order:
  "winning_rule \<lparr>rot_id = ''r'', rot_name = ''n'', rot_shift_rules =
       [rule_weekly ''A'' [''ana''] 0, rule_weekly ''B'' [''bo''] 0], rot_source = None\<rparr> 10 utc
     = Some (rule_weekly ''B'' [''bo''] 0)
   \<and> winning_rule \<lparr>rot_id = ''r'', rot_name = ''n'', rot_shift_rules =
       [rule_weekly ''B'' [''bo''] 0, rule_weekly ''A'' [''ana''] 0], rot_source = None\<rparr> 10 utc
     = Some (rule_weekly ''A'' [''ana''] 0)"
  by code_simp

text \<open>
  Rules with restriction windows are outside the theorem on the grid for a reason: where the clocks go back,
  a window inside the repeated hour is in force twice, and the grid marks only its first occurrence. Below
  the clocks go back from two to one and a window runs from 1:15 to 1:45; in the second run the pager
  resolves a person where the calendar draws nobody.
\<close>

definition setback_zone :: zone where
  "setback_zone = utc\<lparr>z_to_local := (\<lambda>a. if a < 7200000000 then a else a - 3600000000),
     z_from_local := (\<lambda>l. if l < 3600000000 then LSingle l
                          else if l < 7200000000 then LAmbiguous l (l + 3600000000) else LSingle (l + 3600000000))\<rparr>"

definition night_rotation :: rotation where
  "night_rotation =
     (rotation_weekly ''r1'' ''Primary'' [''ana''] 0)
       \<lparr>rot_shift_rules := [(rule_weekly ''night'' [''ana''] 0)
          \<lparr>sr_restrictions := [\<lparr>tw_days = [], tw_start_minute = 75, tw_end_minute = 105\<rparr>]\<rparr>]\<rparr>"

theorem repeated_window_not_drawn:
  "(\<exists>segs. resolve_window night_rotation [] [] 0 43200000000 setback_zone = Ok segs \<and>
      map (\<lambda>s. (cs_from s, cs_to s, cs_user_email s)) segs =
        [(0, 4500000000, None), (4500000000, 6300000000, Some ''ana''), (6300000000, 43200000000, None)]) \<and>
   fst (holder_at night_rotation [] [] 9000000000 setback_zone) = Some ''ana''"
proof (intro conjI exI)
  show "resolve_window night_rotation [] [] 0 43200000000 setback_zone = Ok (projr (resolve_window night_rotation [] [] 0 43200000000 setback_zone))"
    by code_simp
  show "map (\<lambda>s. (cs_from s, cs_to s, cs_user_email s)) (projr (resolve_window night_rotation [] [] 0 43200000000 setback_zone)) =
        [(0, 4500000000, None), (4500000000, 6300000000, Some ''ana''), (6300000000, 43200000000, None)]"
    by code_simp
  show "fst (holder_at night_rotation [] [] 9000000000 setback_zone) = Some ''ana''"
    by code_simp
qed

end
