(* ===== verification/Oncall_Target.thy ===== *)
theory Oncall_Target
  imports OO_Strings
begin

text \<open>
  Who a level pages (\<open>src/config/src/meta/oncall/target.rs\<close>): a rotation by id, in one of two
  modes, a person by email, or the whole team.
\<close>

datatype rotation_mode = OnCall | All

fun rotation_mode_as_str :: "rotation_mode \<Rightarrow> string" where
  "rotation_mode_as_str OnCall = ''on_call''"
| "rotation_mode_as_str All = ''all''"

definition rotation_mode_is_default :: "rotation_mode \<Rightarrow> bool" where
  "rotation_mode_is_default m \<longleftrightarrow> m = OnCall"

datatype escalation_target =
    TRotation string rotation_mode
  | TUser string
  | TWholeTeam

datatype target_error = EmptyUser | EmptyRotation

fun target_error_display :: "target_error \<Rightarrow> string" where
  "target_error_display EmptyUser = ''a user target needs an email''"
| "target_error_display EmptyRotation = ''a rotation target needs a rotation''"

definition target_user :: "string \<Rightarrow> escalation_target" where
  "target_user email = TUser email"

definition target_rotation :: "string \<Rightarrow> escalation_target" where
  "target_rotation rotation_id = TRotation rotation_id OnCall"

definition target_everyone_in :: "string \<Rightarrow> escalation_target" where
  "target_everyone_in rotation_id = TRotation rotation_id All"

lemmas [oncall_defs] = target_user_def target_rotation_def target_everyone_in_def

fun target_rotation_id :: "escalation_target \<Rightarrow> string option" where
  "target_rotation_id (TRotation rotation_id _) = Some rotation_id"
| "target_rotation_id (TUser _) = None"
| "target_rotation_id TWholeTeam = None"

fun target_validate :: "escalation_target \<Rightarrow> (unit, target_error) result" where
  "target_validate (TUser email) = (if trim email = [] then Err EmptyUser else Ok ())"
| "target_validate (TRotation rotation_id _) = (if trim rotation_id = [] then Err EmptyRotation else Ok ())"
| "target_validate TWholeTeam = Ok ()"

fun target_describe :: "escalation_target \<Rightarrow> string option \<Rightarrow> string" where
  "target_describe (TRotation _ mode) rotation_name =
     (case (rotation_name, mode) of
        (Some n, OnCall) \<Rightarrow> ''whoever is on call in '' @ n
      | (Some n, All) \<Rightarrow> ''everyone on '' @ n
      | (None, _) \<Rightarrow> ''a rotation that no longer exists'')"
| "target_describe (TUser email) _ = email"
| "target_describe TWholeTeam _ = ''the whole team''"

fun target_kind :: "escalation_target \<Rightarrow> string" where
  "target_kind (TRotation _ OnCall) = ''rotation_on_call''"
| "target_kind (TRotation _ All) = ''rotation_all''"
| "target_kind (TUser _) = ''user''"
| "target_kind TWholeTeam = ''whole_team''"

fun target_reason :: "escalation_target \<Rightarrow> string" where
  "target_reason (TRotation _ OnCall) = ''you are on call''"
| "target_reason (TRotation _ All) = ''you are on this rotation''"
| "target_reason (TUser _) = ''you are named on the escalation policy''"
| "target_reason TWholeTeam = ''the whole team is being paged''"

fun needs_schedule :: "escalation_target \<Rightarrow> bool" where
  "needs_schedule (TRotation _ _) = True"
| "needs_schedule (TUser _) = False"
| "needs_schedule TWholeTeam = False"

lemma needs_schedule_iff: "needs_schedule t \<longleftrightarrow> target_rotation_id t \<noteq> None"
  by (cases t) simp_all

text \<open>The metric label and the reason a person reads tell the same targets apart.\<close>

lemma kind_reason_agree: "target_kind a = target_kind b \<longleftrightarrow> target_reason a = target_reason b"
  by (cases a rule: target_kind.cases; cases b rule: target_kind.cases) simp_all

end
