(* ===== verification/Oncall_Agent.thy ===== *)
theory Oncall_Agent
  imports Oncall_Channel
begin

text \<open>
  L0, the investigating agent in front of the escalation ladder
  (\<open>src/config/src/meta/oncall/agent.rs\<close>): the verdict contract, the per-team policy block and
  its validation, the severity ratchet, the gate that may hold a page, the application of a
  verdict, the counters it moves, the report parser and the notification lines.

  Instants are microseconds as \<open>int\<close>. Two library calls are arguments: \<open>hms\<close> is chrono's
  \<open>%H:%M:%S\<close> rendering of an instant (\<open>None\<close> outside its range), \<open>decode\<close> is serde's reading
  of a verdict block.
\<close>

definition MIN_TRIAGE_BUDGET_SECONDS :: int where "MIN_TRIAGE_BUDGET_SECONDS = 30"
definition MAX_TRIAGE_BUDGET_SECONDS :: int where "MAX_TRIAGE_BUDGET_SECONDS = 600"

lemmas [oncall_defs] = MIN_TRIAGE_BUDGET_SECONDS_def MAX_TRIAGE_BUDGET_SECONDS_def

section \<open>The verdict contract\<close>

datatype confidence = High | Medium | Low

fun confidence_as_str :: "confidence \<Rightarrow> string" where
  "confidence_as_str High = ''high''"
| "confidence_as_str Medium = ''medium''"
| "confidence_as_str Low = ''low''"

datatype change_kind = Deploy | Commit | ConfigChange | FeatureFlag | Infra

text \<open>\<open>{:?}\<close> of a change kind prints the constructor's name.\<close>

fun change_kind_debug :: "change_kind \<Rightarrow> string" where
  "change_kind_debug Deploy = ''Deploy''"
| "change_kind_debug Commit = ''Commit''"
| "change_kind_debug ConfigChange = ''ConfigChange''"
| "change_kind_debug FeatureFlag = ''FeatureFlag''"
| "change_kind_debug Infra = ''Infra''"

record suspect_change =
  sc_kind :: change_kind
  sc_reference :: string
  sc_author :: "string option"
  sc_occurred_at :: int

record evidence_link =
  el_label :: string
  el_url :: string

datatype page_action = APage | ADowngrade | ASuppress

fun page_action_as_str :: "page_action \<Rightarrow> string" where
  "page_action_as_str APage = ''page''"
| "page_action_as_str ADowngrade = ''downgrade''"
| "page_action_as_str ASuppress = ''suppress''"

record page_recommendation =
  pr_action :: page_action
  pr_severity_suggestion :: "alert_priority option"
  pr_reason :: string

text \<open>
  The JSON value a severity suggestion arrives as, as far as the reader looks: a number by
  its \<open>as_i64\<close>, a string, or anything else. \<open>shown\<close> is the value's own rendering, which only
  the error message uses.
\<close>

datatype json_view = JNull | JNumber "int option" | JString string | JOtherValue

definition deserialize_severity_suggestion ::
    "string \<Rightarrow> json_view option \<Rightarrow> (alert_priority option, string) result" where
  "deserialize_severity_suggestion shown raw =
     (case raw of
        None \<Rightarrow> Ok None
      | Some JNull \<Rightarrow> Ok None
      | Some v \<Rightarrow>
          (let i = (case v of
                      JNumber n \<Rightarrow> n
                    | JString s \<Rightarrow>
                        (let t = trim s;
                             digits = (case t of [] \<Rightarrow> t
                                       | c # cs \<Rightarrow> if c = CHR ''P'' \<or> c = CHR ''p'' then cs else t)
                         in parse_i64 digits)
                    | _ \<Rightarrow> None);
               id32 = Option.bind i (\<lambda>n. if - 2147483648 \<le> n \<and> n \<le> 2147483647 then Some n else None)
           in case Option.bind id32 priority_from_i32 of
                Some p \<Rightarrow> Ok (Some p)
              | None \<Rightarrow> Err (''`'' @ shown @ ''` is not one of P1-P5'')))"

datatype action_kind = Rollback | Scale | Restart | Runbook | OtherAction

record proposed_action =
  pa_title :: string
  pa_kind :: action_kind
  pa_detail :: string

record analysis_verdict =
  av_probable_cause :: string
  av_confidence :: confidence
  av_suspect_change :: "suspect_change option"
  av_impacted_services :: "string list"
  av_evidence_links :: "evidence_link list"
  av_page_recommendation :: page_recommendation
  av_proposed_actions :: "proposed_action list"
  av_report_ref :: string

datatype analysis_status = Pending | Complete | Failed | Skipped

fun may_still_answer :: "analysis_status \<Rightarrow> bool" where
  "may_still_answer Pending = True"
| "may_still_answer Complete = False"
| "may_still_answer Failed = False"
| "may_still_answer Skipped = False"

record analysis_state =
  as_status :: analysis_status
  as_verdict :: "analysis_verdict option"
  as_requested_at :: "int option"
  as_completed_at :: "int option"

section \<open>The L0 policy block\<close>

datatype l0_mode = Parallel | Gate | Only | Off

fun l0_mode_as_str :: "l0_mode \<Rightarrow> string" where
  "l0_mode_as_str Parallel = ''parallel''"
| "l0_mode_as_str Gate = ''gate''"
| "l0_mode_as_str Only = ''only''"
| "l0_mode_as_str Off = ''off''"

record l0_modes =
  m_p1 :: l0_mode
  m_p2 :: l0_mode
  m_p3 :: l0_mode
  m_p4 :: l0_mode

record l0_policy =
  l0_modes_of :: l0_modes
  l0_triage_budget_seconds :: int
  l0_allow_promotion :: bool
  l0_max_promotion_steps :: nat
  l0_allow_downgrade :: bool
  l0_allow_suppress :: bool

datatype l0_error =
    P1MustNeverBeHeld l0_mode
  | OnlyWouldSilenceAPage l0_mode
  | NothingToHoldAtThisSeverity l0_mode
  | BudgetOutOfRange int

text \<open>\<open>{:?}\<close> of a mode prints the constructor's name.\<close>

fun l0_mode_debug :: "l0_mode \<Rightarrow> string" where
  "l0_mode_debug Parallel = ''Parallel''"
| "l0_mode_debug Gate = ''Gate''"
| "l0_mode_debug Only = ''Only''"
| "l0_mode_debug Off = ''Off''"

fun l0_error_display :: "l0_error \<Rightarrow> string" where
  "l0_error_display (P1MustNeverBeHeld m) =
     ''P1 is never held and cannot be set to `'' @ l0_mode_debug m
     @ ''`: holding, or silencing, a critical page is not a setting this product offers''"
| "l0_error_display (OnlyWouldSilenceAPage m) =
     ''`'' @ l0_mode_debug m
     @ ''` would silence a severity that pages someone; `only` is legal only at P4 and P5''"
| "l0_error_display (NothingToHoldAtThisSeverity m) =
     ''P4 and P5 page nobody, so the agent cannot be set to `'' @ l0_mode_debug m
     @ ''`: there is no page to hold and none to run beside''"
| "l0_error_display (BudgetOutOfRange v) =
     ''triage budget '' @ show_int v @ ''s is outside '' @ show_int MIN_TRIAGE_BUDGET_SECONDS @ ''-''
     @ show_int MAX_TRIAGE_BUDGET_SECONDS @ '' seconds''"

definition l0_defaults :: l0_policy where
  "l0_defaults =
     \<lparr>l0_modes_of = \<lparr>m_p1 = Parallel, m_p2 = Gate, m_p3 = Gate, m_p4 = Only\<rparr>,
      l0_triage_budget_seconds = 90, l0_allow_promotion = True, l0_max_promotion_steps = 2,
      l0_allow_downgrade = True, l0_allow_suppress = False\<rparr>"

definition l0_validate :: "l0_policy \<Rightarrow> (unit, l0_error) result" where
  "l0_validate p =
     (let m = l0_modes_of p in
      if \<not> (m_p1 m = Parallel \<or> m_p1 m = Off) then Err (P1MustNeverBeHeld (m_p1 m))
      else case try_each (\<lambda>mode. if mode = Only then Err (OnlyWouldSilenceAPage mode) else Ok ())
                  [m_p2 m, m_p3 m] of
             Inl e \<Rightarrow> Err e
           | Inr _ \<Rightarrow>
               if \<not> (m_p4 m = Only \<or> m_p4 m = Off) then Err (NothingToHoldAtThisSeverity (m_p4 m))
               else if \<not> (MIN_TRIAGE_BUDGET_SECONDS \<le> l0_triage_budget_seconds p \<and>
                          l0_triage_budget_seconds p \<le> MAX_TRIAGE_BUDGET_SECONDS)
               then Err (BudgetOutOfRange (l0_triage_budget_seconds p))
               else Ok ())"

fun severity_pages :: "alert_priority \<Rightarrow> bool" where
  "severity_pages P1 = True"
| "severity_pages P2 = True"
| "severity_pages P3 = True"
| "severity_pages P4 = False"
| "severity_pages P5 = False"

fun stored_mode :: "l0_policy \<Rightarrow> alert_priority \<Rightarrow> l0_mode" where
  "stored_mode p P1 = m_p1 (l0_modes_of p)"
| "stored_mode p P2 = m_p2 (l0_modes_of p)"
| "stored_mode p P3 = m_p3 (l0_modes_of p)"
| "stored_mode p P4 = m_p4 (l0_modes_of p)"
| "stored_mode p P5 = m_p4 (l0_modes_of p)"

definition mode_for :: "l0_policy \<Rightarrow> alert_priority \<Rightarrow> l0_mode" where
  "mode_for p priority =
     (let stored = stored_mode p priority in
      if stored = Off then Off
      else if \<not> severity_pages priority then Only
      else if priority = P1 then Parallel
      else (case stored of Only \<Rightarrow> Parallel | other \<Rightarrow> other))"

definition triage_budget_micros :: "l0_policy \<Rightarrow> int" where
  "triage_budget_micros p =
     max MIN_TRIAGE_BUDGET_SECONDS (min MAX_TRIAGE_BUDGET_SECONDS (l0_triage_budget_seconds p)) * 1000000"

section \<open>The ratchet\<close>

datatype severity_decision =
    Unchanged alert_priority
  | Discarded alert_priority alert_priority
  | Refused alert_priority alert_priority
  | Promoted alert_priority alert_priority alert_priority

fun applied :: "severity_decision \<Rightarrow> alert_priority" where
  "applied (Unchanged current) = current"
| "applied (Discarded current requested) = current"
| "applied (Refused current requested) = current"
| "applied (Promoted from_p to_p requested) = to_p"

fun was_demotion_attempt :: "severity_decision \<Rightarrow> bool" where
  "was_demotion_attempt (Discarded _ _) = True"
| "was_demotion_attempt (Unchanged _) = False"
| "was_demotion_attempt (Refused _ _) = False"
| "was_demotion_attempt (Promoted _ _ _) = False"

definition ratchet ::
    "alert_priority \<Rightarrow> alert_priority option \<Rightarrow> l0_policy \<Rightarrow> severity_decision" where
  "ratchet current suggestion l0 =
     (case suggestion of
        None \<Rightarrow> Unchanged current
      | Some requested \<Rightarrow>
          if \<not> is_more_urgent_than requested current then Discarded current requested
          else if \<not> l0_allow_promotion l0 then Refused current requested
          else
            (let asked = priority_to_i32 current - priority_to_i32 requested;
                 steps = min asked (int (l0_max_promotion_steps l0))
             in if steps \<le> 0 then Refused current requested
                else (case priority_from_i32 (priority_to_i32 current - steps) of
                        Some t \<Rightarrow> Promoted current t requested
                      | None \<Rightarrow> Refused current requested)))"

section \<open>The gate\<close>

datatype gate_plan_t = GParallel | GGate int | GL0Only

fun inserts_a_trigger_row :: "gate_plan_t \<Rightarrow> bool" where
  "inserts_a_trigger_row GParallel = True"
| "inserts_a_trigger_row (GGate _) = True"
| "inserts_a_trigger_row GL0Only = False"

definition gate_plan :: "l0_policy \<Rightarrow> alert_priority \<Rightarrow> analysis_state \<Rightarrow> int \<Rightarrow> gate_plan_t" where
  "gate_plan l0 priority analysis fired_at =
     (case mode_for l0 priority of
        Only \<Rightarrow> GL0Only
      | Parallel \<Rightarrow> GParallel
      | Off \<Rightarrow> if severity_pages priority then GParallel else GL0Only
      | Gate \<Rightarrow>
          if \<not> may_still_answer (as_status analysis) then GParallel
          else (let anchor = (case as_requested_at analysis of Some r \<Rightarrow> r | None \<Rightarrow> fired_at)
                in GGate (anchor + triage_budget_micros l0)))"

section \<open>Applying a verdict\<close>

datatype verdict_outcome =
    VHold int
  | VPage (vp_severity: alert_priority) (vp_promoted_from: "alert_priority option") (vp_quieter: bool)
  | VSuppress
  | VFollowUp alert_priority
  | VFailOpen alert_priority

fun wants_quieter_channels :: "verdict_outcome \<Rightarrow> bool" where
  "wants_quieter_channels (VPage _ _ q) = q"
| "wants_quieter_channels (VHold _) = False"
| "wants_quieter_channels VSuppress = False"
| "wants_quieter_channels (VFollowUp _) = False"
| "wants_quieter_channels (VFailOpen _) = False"

fun outcome_pages_anyone :: "verdict_outcome \<Rightarrow> bool" where
  "outcome_pages_anyone (VPage _ _ _) = True"
| "outcome_pages_anyone (VFailOpen _) = True"
| "outcome_pages_anyone (VHold _) = False"
| "outcome_pages_anyone VSuppress = False"
| "outcome_pages_anyone (VFollowUp _) = False"

definition hold_deadline :: "l0_policy \<Rightarrow> analysis_state \<Rightarrow> int \<Rightarrow> int" where
  "hold_deadline l0 analysis now =
     (case as_requested_at analysis of Some r \<Rightarrow> r | None \<Rightarrow> now) + triage_budget_micros l0"

definition suggestion_of :: "analysis_state \<Rightarrow> alert_priority option" where
  "suggestion_of analysis =
     Option.bind (as_verdict analysis) (\<lambda>v. pr_severity_suggestion (av_page_recommendation v))"

definition promotion_of :: "severity_decision \<Rightarrow> (alert_priority \<times> alert_priority) option" where
  "promotion_of d = (case d of Promoted f t _ \<Rightarrow> Some (f, t) | _ \<Rightarrow> None)"

definition gated_verdict ::
    "l0_policy \<Rightarrow> analysis_state \<Rightarrow> alert_priority \<Rightarrow> int
     \<Rightarrow> (alert_priority \<times> alert_priority) option \<Rightarrow> verdict_outcome" where
  "gated_verdict l0 analysis severity now promotion =
     (let deadline = hold_deadline l0 analysis now in
      case as_verdict analysis of
        None \<Rightarrow>
          if may_still_answer (as_status analysis) \<and> now < deadline then VHold deadline
          else VFailOpen severity
      | Some verdict \<Rightarrow>
          (case promotion of
             Some (f, t) \<Rightarrow> VPage t (Some f) False
           | None \<Rightarrow>
               (let arrived = (case as_completed_at analysis of Some c \<Rightarrow> c | None \<Rightarrow> now) in
                if arrived \<ge> deadline then VFollowUp severity
                else case pr_action (av_page_recommendation verdict) of
                       ASuppress \<Rightarrow>
                         if l0_allow_suppress l0 then VSuppress else VPage severity None False
                     | ADowngrade \<Rightarrow> VPage severity None (l0_allow_downgrade l0)
                     | APage \<Rightarrow> VPage severity None False)))"

definition apply_verdict ::
    "l0_policy \<Rightarrow> analysis_state \<Rightarrow> alert_priority \<Rightarrow> int \<Rightarrow> verdict_outcome" where
  "apply_verdict l0 analysis severity now =
     (let promotion = promotion_of (ratchet severity (suggestion_of analysis) l0) in
      case mode_for l0 severity of
        Off \<Rightarrow> VFollowUp severity
      | Only \<Rightarrow>
          (case promotion of
             Some (f, t) \<Rightarrow> if severity_pages t then VPage t (Some f) False else VFollowUp severity
           | None \<Rightarrow> VFollowUp severity)
      | Parallel \<Rightarrow>
          (case promotion of
             Some (f, t) \<Rightarrow> VPage t (Some f) False
           | None \<Rightarrow> VFollowUp severity)
      | Gate \<Rightarrow> gated_verdict l0 analysis severity now promotion)"

section \<open>Guards and counters\<close>

definition analysis_status_after_run :: "bool \<Rightarrow> analysis_status" where
  "analysis_status_after_run produced = (if produced then Complete else Failed)"

definition analysis_status_for_start ::
    "bool \<Rightarrow> bool \<Rightarrow> bool \<Rightarrow> bool \<Rightarrow> bool \<Rightarrow> analysis_status" where
  "analysis_status_for_start rca_enabled agent_url_set agent_healthy in_flight cooldown_elapsed =
     (if rca_enabled \<and> agent_url_set \<and> agent_healthy \<and> \<not> in_flight \<and> cooldown_elapsed
      then Pending else Skipped)"

datatype l0_metric =
    MVerdict page_action confidence
  | MBudgetExpired
  | MPromoted alert_priority alert_priority
  | MSeverityClamped
  | MSuppressed
  | MDowngraded

definition metrics_for ::
    "l0_policy \<Rightarrow> analysis_state \<Rightarrow> alert_priority \<Rightarrow> int \<Rightarrow> l0_metric list" where
  "metrics_for l0 analysis severity now =
     (let outcome = apply_verdict l0 analysis severity now;
          first =
            (case as_verdict analysis of
               Some verdict \<Rightarrow>
                 (let rec = av_page_recommendation verdict;
                      decision = ratchet severity (pr_severity_suggestion rec) l0
                  in [MVerdict (pr_action rec) (av_confidence verdict)]
                     @ (if was_demotion_attempt decision then [MSeverityClamped] else [])
                     @ (case decision of Promoted f t _ \<Rightarrow> [MPromoted f t] | _ \<Rightarrow> []))
             | None \<Rightarrow>
                 if may_still_answer (as_status analysis) \<and> mode_for l0 severity = Gate
                    \<and> now \<ge> hold_deadline l0 analysis now
                 then [MBudgetExpired] else []);
          last =
            (case outcome of
               VSuppress \<Rightarrow> [MSuppressed]
             | VPage _ _ q \<Rightarrow> if q then [MDowngraded] else []
             | _ \<Rightarrow> [])
      in first @ last)"

section \<open>The report parser\<close>

record parsed_report =
  rp_report :: string
  rp_verdict :: "analysis_verdict option"

definition fence :: string where "fence = ''```''"

definition opens_verdict :: "string \<Rightarrow> bool" where
  "opens_verdict line =
     (case strip_prefix fence (trim line) of
        None \<Rightarrow> False
      | Some info \<Rightarrow> split_whitespace info = [''json'', ''verdict''])"

text \<open>The loop over the lines: the open block's lines so far, and the last closed block.\<close>

fun verdict_scan :: "string list \<Rightarrow> string list option \<Rightarrow> string option \<Rightarrow> string option" where
  "verdict_scan [] blk found = found"
| "verdict_scan (line # ls) None found =
     verdict_scan ls (if opens_verdict line then Some [] else None) found"
| "verdict_scan (line # ls) (Some body) found =
     (if starts_with (trim_start line) fence
      then verdict_scan ls None (Some (join [CHR 0x0A] body))
      else verdict_scan ls (Some (body @ [line])) found)"

definition last_verdict_block :: "string \<Rightarrow> string option" where
  "last_verdict_block rca_content = verdict_scan (str_lines rca_content) None None"

definition parse_report :: "(string \<Rightarrow> analysis_verdict option) \<Rightarrow> string \<Rightarrow> parsed_report" where
  "parse_report decode rca_content =
     \<lparr>rp_report = rca_content, rp_verdict = Option.bind (last_verdict_block rca_content) decode\<rparr>"

section \<open>What the notifications carry\<close>

definition promotion_note ::
    "(int \<Rightarrow> string option) \<Rightarrow> alert_priority \<Rightarrow> alert_priority \<Rightarrow> int \<Rightarrow> string \<Rightarrow> string" where
  "promotion_note hms f t at_micros reason =
     (let at = (case hms at_micros of Some x \<Rightarrow> x | None \<Rightarrow> show_int at_micros);
          line = priority_as_str t @ '' '' @ middot @ '' promoted from '' @ priority_as_str f @ '' at '' @ at
      in if reason = [] then line else line @ '' '' @ em_dash @ '' '' @ reason)"

definition verdict_lines ::
    "(int \<Rightarrow> string option) \<Rightarrow> analysis_state \<Rightarrow> severity_decision \<Rightarrow> string list" where
  "verdict_lines hms analysis decision =
     (case as_verdict analysis of
        None \<Rightarrow> if may_still_answer (as_status analysis) then [''AI investigation running''] else []
      | Some v \<Rightarrow>
          (let rec = av_page_recommendation v in
           [''probable cause: '' @ av_probable_cause v @ '' ('' @ confidence_as_str (av_confidence v) @ '')'']
           @ (case av_suspect_change v of
                None \<Rightarrow> []
              | Some ch \<Rightarrow>
                  [''suspect change: '' @ change_kind_debug (sc_kind ch) @ '' '' @ sc_reference ch
                   @ (case sc_author ch of None \<Rightarrow> [] | Some a \<Rightarrow> '' by '' @ a)])
           @ (if av_impacted_services v \<noteq> []
              then [''impacted: '' @ join '', '' (av_impacted_services v)] else [])
           @ map (\<lambda>l. middot @ '' '' @ el_label l @ '' '' @ em_dash @ '' '' @ el_url l) (av_evidence_links v)
           @ [''recommendation: '' @ page_action_as_str (pr_action rec) @ '' '' @ em_dash @ '' '' @ pr_reason rec]
           @ (case decision of
                Promoted f t _ \<Rightarrow>
                  [promotion_note hms f t
                     (case as_completed_at analysis of Some c \<Rightarrow> c | None \<Rightarrow> 0) (pr_reason rec)]
              | Refused current requested \<Rightarrow>
                  [''the agent judged this a '' @ priority_as_str requested
                   @ ''; this team does not apply promotions, so it pages as a '' @ priority_as_str current]
              | Discarded _ _ \<Rightarrow> []
              | Unchanged _ \<Rightarrow> [])
           @ map (\<lambda>a. ''suggested: '' @ pa_title a @ '' '' @ em_dash @ '' '' @ pa_detail a) (av_proposed_actions v)))"

definition verdict_beat_the_ack :: "int option \<Rightarrow> int \<Rightarrow> bool" where
  "verdict_beat_the_ack verdict_at acked_at = (case verdict_at of Some a \<Rightarrow> a < acked_at | None \<Rightarrow> False)"

definition is_false_suppress :: "int \<Rightarrow> alert_priority \<Rightarrow> int \<Rightarrow> alert_priority \<Rightarrow> bool" where
  "is_false_suppress suppressed_at suppressed_severity refired_at refired_severity =
     (let since = refired_at - suppressed_at in
      if \<not> (0 \<le> since \<and> since < 24 * 3600 * 1000000) then False
      else refired_severity = suppressed_severity
           \<or> is_more_urgent_than refired_severity suppressed_severity)"

text \<open>A verdict for the examples.\<close>

definition sample_verdict :: analysis_verdict where
  "sample_verdict =
     \<lparr>av_probable_cause = ''pool exhausted'', av_confidence = High, av_suspect_change = None,
      av_impacted_services = [], av_evidence_links = [],
      av_page_recommendation = \<lparr>pr_action = APage, pr_severity_suggestion = Some P2, pr_reason = []\<rparr>,
      av_proposed_actions = [], av_report_ref = []\<rparr>"

section \<open>Lemmas\<close>

lemma l0_defaults_valid: "l0_validate l0_defaults = Ok ()"
  by (simp add: l0_validate_def l0_defaults_def oncall_defs)

lemma l0_validate_ok:
  "l0_validate p = Ok () \<longleftrightarrow>
     m_p1 (l0_modes_of p) \<in> {Parallel, Off} \<and> m_p2 (l0_modes_of p) \<noteq> Only \<and> m_p3 (l0_modes_of p) \<noteq> Only
     \<and> m_p4 (l0_modes_of p) \<in> {Only, Off} \<and> 30 \<le> l0_triage_budget_seconds p \<and> l0_triage_budget_seconds p \<le> 600"
  by (auto simp: l0_validate_def oncall_defs Let_def)

lemma triage_budget_range: "30000000 \<le> triage_budget_micros p \<and> triage_budget_micros p \<le> 600000000"
  by (simp add: triage_budget_micros_def oncall_defs)

lemma mode_for_P1: "mode_for p P1 \<in> {Parallel, Off}"
  by (simp add: mode_for_def Let_def)

lemma mode_for_Gate: "mode_for p s = Gate \<Longrightarrow> s = P2 \<or> s = P3"
  by (cases s) (auto simp: mode_for_def Let_def split: if_splits l0_mode.splits)

lemma mode_for_Only: "mode_for p s = Only \<Longrightarrow> \<not> severity_pages s"
  by (cases s) (auto simp: mode_for_def Let_def split: if_splits l0_mode.splits)

lemma mode_for_Parallel: "mode_for p s = Parallel \<Longrightarrow> severity_pages s"
  by (cases s) (auto simp: mode_for_def Let_def split: if_splits)

lemma ratchet_promoted:
  assumes "ratchet c s l0 = Promoted f t r"
  shows "f = c \<and> s = Some r \<and> l0_allow_promotion l0 \<and> is_more_urgent_than t c
     \<and> \<not> is_more_urgent_than t r
     \<and> priority_to_i32 c - priority_to_i32 t \<le> int (l0_max_promotion_steps l0)"
proof -
  from assms obtain r' where s: "s = Some r'" by (cases s) (auto simp: ratchet_def)
  let ?steps = "min (priority_to_i32 c - priority_to_i32 r') (int (l0_max_promotion_steps l0))"
  from assms s have 1: "is_more_urgent_than r' c" "l0_allow_promotion l0" "\<not> ?steps \<le> 0"
    and 2: "priority_from_i32 (priority_to_i32 c - ?steps) = Some t" "f = c" "r = r'"
    by (auto simp: ratchet_def Let_def split: if_splits option.splits)
  from 2(1) have "priority_to_i32 t = priority_to_i32 c - ?steps" by (rule prio.to_from)
  with 1 2 s show ?thesis by (auto simp: is_more_urgent_than_def)
qed

lemma ratchet_applied: "applied (ratchet c s l0) = c \<or> is_more_urgent_than (applied (ratchet c s l0)) c"
proof (cases "ratchet c s l0")
  case (Promoted f t r)
  then show ?thesis using ratchet_promoted [OF Promoted] by simp
qed (auto simp: ratchet_def Let_def split: option.splits if_splits)

lemma promotion_of_Some:
  "promotion_of (ratchet c s l0) = Some (f, t) \<Longrightarrow> f = c \<and> is_more_urgent_than t c"
  by (auto simp: promotion_of_def dest: ratchet_promoted split: severity_decision.splits)


lemma ratchet_clamped:
  "priority_from_i32 (priority_to_i32 c - n) = None \<Longrightarrow> 0 \<le> n \<Longrightarrow> n \<le> priority_to_i32 c - priority_to_i32 r \<Longrightarrow> False"
  by (cases c; cases r) (auto simp: priority_from_i32_def split: if_splits)

lemma ratchet_steps:
  assumes "is_more_urgent_than r c" "l0_allow_promotion l0"
  shows "priority_to_i32 (applied (ratchet c (Some r) l0)) =
           priority_to_i32 c - min (priority_to_i32 c - priority_to_i32 r) (int (l0_max_promotion_steps l0))"
proof -
  let ?n = "min (priority_to_i32 c - priority_to_i32 r) (int (l0_max_promotion_steps l0))"
  have nonneg: "0 \<le> ?n" using assms(1) by (simp add: is_more_urgent_than_def)
  obtain t where t: "priority_from_i32 (priority_to_i32 c - ?n) = Some t"
    using ratchet_clamped [of c ?n r] nonneg by fastforce
  show ?thesis
  proof (cases "?n \<le> 0")
    case True
    then have "?n = 0" using nonneg by simp
    with True assms show ?thesis by (simp add: ratchet_def Let_def)
  next
    case False
    then have "ratchet c (Some r) l0 = Promoted c t r"
      using assms t by (simp add: ratchet_def Let_def)
    then show ?thesis using prio.to_from [OF t] by simp
  qed
qed

lemma verdict_scan_closed:
  "\<forall>l \<in> set ls. \<not> opens_verdict l \<Longrightarrow> verdict_scan (ls @ rest) None found = verdict_scan rest None found"
  by (induction ls) simp_all

lemma verdict_scan_body:
  "\<forall>l \<in> set ls. \<not> starts_with (trim_start l) fence
   \<Longrightarrow> verdict_scan (ls @ rest) (Some body) found = verdict_scan rest (Some (body @ ls)) found"
  by (induction ls arbitrary: body) simp_all

lemma gated_not_hold:
  assumes "now \<ge> hold_deadline l0 analysis now"
  shows "gated_verdict l0 analysis severity now promotion \<noteq> VHold u"
  using assms by (auto simp: gated_verdict_def Let_def split: option.splits page_action.splits)

lemma gated_suppress:
  "gated_verdict l0 analysis severity now promotion = VSuppress \<longleftrightarrow>
     promotion = None \<and> l0_allow_suppress l0
     \<and> (\<exists>v. as_verdict analysis = Some v \<and> pr_action (av_page_recommendation v) = ASuppress)
     \<and> (case as_completed_at analysis of Some c \<Rightarrow> c | None \<Rightarrow> now) < hold_deadline l0 analysis now"
  by (auto simp: gated_verdict_def Let_def split: option.splits page_action.splits)

lemma promotion_of_None:
  "promotion_of d = None \<longleftrightarrow> (\<forall>f t r. d \<noteq> Promoted f t r)"
  by (cases d) (simp_all add: promotion_of_def)

lemma ratchet_Promoted_applied:
  "(\<exists>f t r. ratchet c s l0 = Promoted f t r) \<longleftrightarrow> applied (ratchet c s l0) \<noteq> c"
proof (cases "ratchet c s l0")
  case (Promoted f t r)
  then show ?thesis using ratchet_promoted [OF Promoted] by (auto simp: is_more_urgent_than_def)
qed (auto simp: ratchet_def Let_def split: option.splits if_splits)

lemma severity_pages_iff: "severity_pages s \<longleftrightarrow> s = P1 \<or> s = P2 \<or> s = P3"
  by (cases s) simp_all

section \<open>Properties\<close>

text \<open>
  The severity ratchet: the severity a verdict leaves behind is the recorded one raised
  by exactly the number of steps the agent asked for, capped by the team's maximum, and by
  none when the team refuses promotions, when nothing was suggested or when the suggestion is
  not more urgent. So no verdict ever lowers a severity.
\<close>

theorem ratchet_exact:
  "priority_to_i32 (applied (ratchet current suggestion l0)) =
     priority_to_i32 current -
       (case suggestion of
          None \<Rightarrow> 0
        | Some requested \<Rightarrow>
            if l0_allow_promotion l0
            then max 0 (min (priority_to_i32 current - priority_to_i32 requested)
                            (int (l0_max_promotion_steps l0)))
            else 0)"
proof (cases suggestion)
  case None
  then show ?thesis by (simp add: ratchet_def)
next
  case (Some r)
  show ?thesis
  proof (cases "is_more_urgent_than r current \<and> l0_allow_promotion l0")
    case True
    then show ?thesis using ratchet_steps [of r current l0] Some by (simp add: is_more_urgent_than_def)
  next
    case False
    then show ?thesis using Some by (auto simp: ratchet_def is_more_urgent_than_def)
  qed
qed

lemma ratchet_keeps_iff:
  "applied (ratchet severity suggestion l0) = severity \<longleftrightarrow>
     \<not> (\<exists>p. suggestion = Some p \<and> priority_to_i32 p < priority_to_i32 severity
          \<and> l0_allow_promotion l0 \<and> 0 < l0_max_promotion_steps l0)"
proof -
  have "a = b \<longleftrightarrow> priority_to_i32 a = priority_to_i32 b" for a b by (cases a; cases b) simp_all
  then have "applied (ratchet severity suggestion l0) = severity \<longleftrightarrow>
      priority_to_i32 (applied (ratchet severity suggestion l0)) = priority_to_i32 severity" .
  then show ?thesis unfolding ratchet_exact by (cases suggestion) (auto simp: max_def min_def split: if_splits)
qed


text \<open>
  The hold fails open: once an analysis that recorded when it was requested is past that
  instant by the team's budget, no page is held any longer, and the budget is at most ten
  minutes whatever the stored policy says. Before the verdict lands the outcome is then
  exactly the fail-open page.
\<close>

theorem hold_fails_open:
  assumes "as_requested_at analysis = Some r" "now \<ge> r + triage_budget_micros l0"
  shows "apply_verdict l0 analysis severity now \<noteq> VHold u
    \<and> r + triage_budget_micros l0 \<le> r + 600000000
    \<and> (mode_for l0 severity = Gate \<and> as_verdict analysis = None \<longrightarrow>
         apply_verdict l0 analysis severity now = VFailOpen severity)"
proof -
  have "now \<ge> hold_deadline l0 analysis now" using assms by (simp add: hold_deadline_def)
  note nh = gated_not_hold [OF this]
  have "apply_verdict l0 analysis severity now \<noteq> VHold u"
    by (auto simp: apply_verdict_def Let_def nh split: l0_mode.splits option.splits)
  moreover have "apply_verdict l0 analysis severity now = VFailOpen severity"
    if "mode_for l0 severity = Gate" "as_verdict analysis = None"
    using that assms by (simp add: apply_verdict_def gated_verdict_def hold_deadline_def Let_def)
  ultimately show ?thesis using triage_budget_range [of l0] by simp
qed

theorem hold_fails_open_witness:
  "apply_verdict l0_defaults \<lparr>as_status = Pending, as_verdict = None, as_requested_at = Some 1000,
      as_completed_at = None\<rparr> P2 90001000 = VFailOpen P2"
proof -
  have "mode_for l0_defaults P2 = Gate" by (simp add: mode_for_def l0_defaults_def)
  then show ?thesis
    using hold_fails_open [of "\<lparr>as_status = Pending, as_verdict = None,
        as_requested_at = Some 1000, as_completed_at = None\<rparr>" 1000 l0_defaults 90001000 P2 0]
    by (simp add: triage_budget_micros_def l0_defaults_def oncall_defs)
qed

text \<open>
  The gate plan: a trigger row is inserted exactly for the severities that page, and a
  delayed one fires at least thirty seconds and at most ten minutes after its anchor, the
  request when one was recorded and the firing otherwise; a P1 is never delayed.
\<close>

theorem gate_plan_sound:
  "(inserts_a_trigger_row (gate_plan l0 priority analysis fired_at) \<longleftrightarrow> severity_pages priority)
   \<and> (case gate_plan l0 priority analysis fired_at of
        GGate fire_at \<Rightarrow>
          priority \<in> {P2, P3} \<and> may_still_answer (as_status analysis)
          \<and> (let anchor = case_option fired_at (\<lambda>r. r) (as_requested_at analysis)
             in anchor + 30000000 \<le> fire_at \<and> fire_at \<le> anchor + 600000000)
      | GParallel \<Rightarrow> True
      | GL0Only \<Rightarrow> \<not> severity_pages priority)"
proof (cases "mode_for l0 priority")
  case Parallel
  then have "severity_pages priority" by (rule mode_for_Parallel)
  with Parallel show ?thesis by (simp add: gate_plan_def)
next
  case Gate
  then have "severity_pages priority" "priority \<in> {P2, P3}" using mode_for_Gate by fastforce+
  with Gate show ?thesis using triage_budget_range [of l0]
    by (auto simp: gate_plan_def Let_def split: option.splits)
next
  case Only
  then show ?thesis using mode_for_Only [OF Only] by (simp add: gate_plan_def)
next
  case Off
  then show ?thesis by (simp add: gate_plan_def)
qed

text \<open>
  Every outcome keeps the severity at least as urgent as the recorded one, pages only
  severities that page anyone, and asks for quieter channels only for an unpromoted gated page
  of a team that allows downgrades.
\<close>

theorem verdict_outcome_sound:
  "case apply_verdict l0 analysis severity now of
     VPage s from_s quieter \<Rightarrow>
       \<not> is_more_urgent_than severity s \<and> severity_pages s
       \<and> (case from_s of
              None \<Rightarrow> s = severity \<and> mode_for l0 severity = Gate
                \<and> (if quieter then l0_allow_downgrade l0 else True)
            | Some f \<Rightarrow> f = severity \<and> is_more_urgent_than s severity \<and> \<not> quieter)
   | VHold until \<Rightarrow> severity \<in> {P2, P3} \<and> now < until \<and> as_verdict analysis = None
   | VFollowUp s \<Rightarrow> s = severity
   | VFailOpen s \<Rightarrow> s = severity \<and> severity \<in> {P2, P3}
   | VSuppress \<Rightarrow> severity \<in> {P2, P3}"
proof -
  have prom: "f = severity \<and> is_more_urgent_than t severity \<and> \<not> is_more_urgent_than severity t
      \<and> (severity_pages severity \<longrightarrow> severity_pages t)"
    if "promotion_of (ratchet severity s l0) = Some (f, t)" for s f t
    using promotion_of_Some [OF that]
    by (cases severity; cases t) (simp_all add: is_more_urgent_than_def)
  show ?thesis
  proof (cases "mode_for l0 severity")
    case Gate
    then have "severity \<in> {P2, P3}" using mode_for_Gate by blast
    then show ?thesis
      using Gate prom
      by (auto simp: apply_verdict_def Let_def gated_verdict_def is_more_urgent_than_def
               split: option.splits page_action.splits)
  next
    case Parallel
    then have "severity_pages severity" by (rule mode_for_Parallel)
    then show ?thesis using Parallel prom
      by (auto simp: apply_verdict_def Let_def split: option.splits)
  next
    case Only
    then show ?thesis using prom
      by (auto simp: apply_verdict_def Let_def split: option.splits)
  next
    case Off
    then show ?thesis by (simp add: apply_verdict_def Let_def)
  qed
qed

text \<open>
  A saved policy means what it says: once validation accepts the block, the mode applied
  to every severity is the stored one, and the budget is the stored number of seconds.
\<close>

theorem l0_validated_verbatim:
  assumes "l0_validate p = Ok ()"
  shows "mode_for p s = stored_mode p s \<and> triage_budget_micros p = l0_triage_budget_seconds p * 1000000"
  using assms
  by (cases s) (auto simp: l0_validate_ok mode_for_def triage_budget_micros_def oncall_defs Let_def
                     split: l0_mode.splits)

theorem l0_validated_verbatim_witness:
  "l0_validate l0_defaults = Ok () \<and> mode_for l0_defaults P4 = stored_mode l0_defaults P4"
  using l0_validated_verbatim [OF l0_defaults_valid] l0_defaults_valid by simp

text \<open>
  The report parser finds the verdict: in a report whose text before the block opens no
  other one, the lines between the opening and the closing fence are decoded, and nothing
  after the block that opens no further block changes that.
\<close>

theorem verdict_block_found:
  assumes "str_lines txt = pre @ [op] @ body @ [cl] @ post"
    and "\<forall>l \<in> set pre. \<not> opens_verdict l" "opens_verdict op"
    and "\<forall>l \<in> set body. \<not> starts_with (trim_start l) fence" "starts_with (trim_start cl) fence"
    and "\<forall>l \<in> set post. \<not> opens_verdict l"
  shows "parse_report decode txt = \<lparr>rp_report = txt, rp_verdict = decode (join [CHR 0x0A] body)\<rparr>"
  using assms verdict_scan_closed [of post "[]"]
  by (simp add: parse_report_def last_verdict_block_def verdict_scan_closed verdict_scan_body)

theorem verdict_block_found_witness:
  "rp_verdict (parse_report (\<lambda>b. if b = ''{}'' then Some sample_verdict else None)
     (''cause'' @ [CHR 0x0A] @ ''```json verdict'' @ [CHR 0x0A] @ ''{}'' @ [CHR 0x0A] @ ''```'')) = Some sample_verdict"
  (is "rp_verdict (parse_report ?dec ?txt) = _")
proof -
  have "str_lines ?txt = [''cause''] @ [''```json verdict''] @ [''{}''] @ [''```''] @ []"
    by code_simp
  moreover have "opens_verdict ''```json verdict''" "\<not> opens_verdict ''cause''"
    by code_simp+
  moreover have "\<not> starts_with (trim_start ''{}'') fence" "starts_with (trim_start ''```'') fence"
    by code_simp+
  ultimately have "parse_report ?dec ?txt =
      \<lparr>rp_report = ?txt, rp_verdict = ?dec (join [CHR 0x0A] [''{}''])\<rparr>"
    by (intro verdict_block_found [where pre = "[''cause'']" and post = "[]"]) simp_all
  moreover have "join [CHR 0x0A] [''{}''] = ''{}''" by code_simp
  ultimately show ?thesis by simp
qed

end
