(* ===== verification/Oncall_Policy.thy ===== *)
theory Oncall_Policy
  imports Oncall_Target Oncall_Agent
begin

text \<open>
  Escalation policies (\<open>src/config/src/meta/oncall/policy.rs\<close>): the ladder of a team, its
  validation, the defaults a team is created with, the planner that says what is due now, the
  per-channel circuit breaker, and what follows a rung that woke nobody. Channels, the first
  part of the same file, are in \<open>Oncall_Channel\<close>.

  The breaker's methods take \<open>&mut self\<close>: here they return the new state, \<open>admit\<close> beside its
  answer. Instants and delays are microseconds as \<open>int\<close>.
\<close>

definition DEFAULT_PAGING_PRIORITY :: alert_priority where "DEFAULT_PAGING_PRIORITY = P2"

section \<open>Fanning one firing out to several teams\<close>

definition MAX_FANOUT_TEAMS :: nat where "MAX_FANOUT_TEAMS = 5"
definition NAMED_GROUPS :: nat where "NAMED_GROUPS = 5"

definition fanout_note :: "string \<Rightarrow> string list \<Rightarrow> nat \<Rightarrow> string" where
  "fanout_note mine also_mine other_teams =
     ''paged for '' @ mine
     @ (if also_mine \<noteq> []
        then '', and '' @ join '', '' (take NAMED_GROUPS also_mine)
             @ (if length also_mine > NAMED_GROUPS
                then '' and '' @ show_nat (length also_mine - NAMED_GROUPS) @ '' more'' else [])
             @ '' '' @ em_dash @ '' all owned by this team, so this is one page''
        else [])
     @ (if other_teams > 0
        then ''; '' @ show_nat other_teams @ '' other team(s) were paged for the same firing'' else [])"

definition fanout_capped_note :: "nat \<Rightarrow> string" where
  "fanout_capped_note teams =
     ''this firing spans '' @ show_nat teams @ '' teams, which is a grouping mistake rather than ''
     @ show_nat teams @ '' outages; one page was sent instead of '' @ show_nat teams
     @ '', and the alert's grouping needs a look''"

section \<open>Ladders\<close>

record ladder_step =
  after_micros :: int
  step_targets :: "escalation_target list"

definition ladder_step_new :: "int \<Rightarrow> escalation_target list \<Rightarrow> ladder_step" where
  "ladder_step_new after targets = \<lparr>after_micros = after, step_targets = targets\<rparr>"

definition IMPACTED_RUNGS :: nat where "IMPACTED_RUNGS = 2"

definition impacted_ladder :: "ladder_step list \<Rightarrow> ladder_step list" where
  "impacted_ladder steps = take IMPACTED_RUNGS (sort_key after_micros steps)"

section \<open>Retries and the circuit breaker\<close>

definition MAX_SEND_ATTEMPTS :: nat where "MAX_SEND_ATTEMPTS = 3"
definition SEND_LIMIT_MICROS :: int where "SEND_LIMIT_MICROS = 15 * 1000000"

definition retry_delay_micros :: "nat \<Rightarrow> int option" where
  "retry_delay_micros attempts_made =
     (if attempts_made = 0 \<or> attempts_made \<ge> MAX_SEND_ATTEMPTS then None
      else Some (1000000 * 2 ^ (attempts_made - 1)))"

definition BREAKER_WINDOW_MICROS :: int where "BREAKER_WINDOW_MICROS = MICROS_PER_MINUTE"
definition BREAKER_OPEN_MICROS :: int where "BREAKER_OPEN_MICROS = MICROS_PER_MINUTE"
definition BREAKER_FAILURES :: nat where "BREAKER_FAILURES = 4"

record channel_breaker =
  failures :: "int list"
  opened_at :: "int option"
  probe_at :: "int option"

datatype admission = Send | Probe | Refuse

definition breaker_new :: channel_breaker where
  "breaker_new = \<lparr>failures = [], opened_at = None, probe_at = None\<rparr>"

definition admit :: "channel_breaker \<Rightarrow> int \<Rightarrow> admission \<times> channel_breaker" where
  "admit b now =
     (case opened_at b of
        None \<Rightarrow> (Send, b)
      | Some at \<Rightarrow>
          (let live_probe = (case probe_at b of Some p \<Rightarrow> now - p < BREAKER_OPEN_MICROS | None \<Rightarrow> False)
           in if live_probe \<or> now - at < BREAKER_OPEN_MICROS then (Refuse, b)
              else (Probe, b\<lparr>probe_at := Some now\<rparr>)))"

definition release :: "channel_breaker \<Rightarrow> channel_breaker" where
  "release b = b\<lparr>probe_at := None\<rparr>"

definition record_attempt :: "channel_breaker \<Rightarrow> int \<Rightarrow> bool \<Rightarrow> channel_breaker" where
  "record_attempt b now delivered =
     (let b = b\<lparr>probe_at := None\<rparr> in
      if delivered then b\<lparr>failures := [], opened_at := None\<rparr>
      else if opened_at b \<noteq> None then b\<lparr>opened_at := Some now, failures := []\<rparr>
      else
        (let fs = filter (\<lambda>at. now - at < BREAKER_WINDOW_MICROS) (failures b) @ [now];
             b = b\<lparr>failures := fs\<rparr>
         in if length fs \<ge> BREAKER_FAILURES then b\<lparr>opened_at := Some now\<rparr> else b))"

section \<open>Policies\<close>

record priority_rung =
  rung_priority :: alert_priority
  rung_steps :: "ladder_step list"
  rung_channels :: "channel list"

record escalation_policy =
  ep_id :: string
  ep_org_id :: string
  ep_team_id :: string
  ep_rungs :: "priority_rung list"
  ep_destinations :: "string list"
  ep_l0 :: l0_policy

datatype policy_error =
    NegativeDelay int
  | DuplicateDelay int
  | NoTargets int
  | BadTarget target_error
  | DuplicatePriority alert_priority
  | NoChannels alert_priority
  | PersonalWithoutEmail alert_priority

definition default_for_team ::
    "string \<Rightarrow> string \<Rightarrow> string \<Rightarrow> string \<Rightarrow> string option \<Rightarrow> escalation_policy" where
  "default_for_team i org_id team_id primary_rotation_id secondary_rotation_id =
     (let m = MICROS_PER_MINUTE;
          primary = [target_rotation primary_rotation_id];
          secondary = map_option (\<lambda>r. [target_rotation r]) secondary_rotation_id;
          deeper = [TWholeTeam]
      in \<lparr>ep_id = i, ep_org_id = org_id, ep_team_id = team_id,
          ep_rungs =
            [\<lparr>rung_priority = P1,
              rung_steps = [ladder_step_new 0 (primary @ (case secondary of Some s \<Rightarrow> s | None \<Rightarrow> [])),
                            ladder_step_new (5 * m) deeper, ladder_step_new (15 * m) deeper],
              rung_channels = [Email, Sms, Voice]\<rparr>,
             \<lparr>rung_priority = P2,
              rung_steps = List.map_filter (\<lambda>s. s)
                [Some (ladder_step_new 0 primary), map_option (ladder_step_new (5 * m)) secondary,
                 Some (ladder_step_new (15 * m) deeper)],
              rung_channels = [Email, Sms, Voice]\<rparr>,
             \<lparr>rung_priority = P3,
              rung_steps = List.map_filter (\<lambda>s. s)
                [Some (ladder_step_new 0 primary), map_option (ladder_step_new (15 * m)) secondary,
                 Some (ladder_step_new (30 * m) deeper)],
              rung_channels = [Email]\<rparr>,
             \<lparr>rung_priority = P4, rung_steps = [], rung_channels = []\<rparr>,
             \<lparr>rung_priority = P5, rung_steps = [], rung_channels = []\<rparr>],
          ep_destinations = [], ep_l0 = l0_defaults\<rparr>)"

definition whole_team_fallback :: "string \<Rightarrow> string \<Rightarrow> string \<Rightarrow> escalation_policy" where
  "whole_team_fallback i org_id team_id =
     (let m = MICROS_PER_MINUTE;
          everybody = (\<lambda>delays. \<lparr>rung_priority = P1,
             rung_steps = map (\<lambda>d. ladder_step_new d [TWholeTeam]) delays, rung_channels = [Email]\<rparr>)
      in \<lparr>ep_id = i, ep_org_id = org_id, ep_team_id = team_id,
          ep_rungs =
            [(everybody [0, 5 * m, 15 * m])\<lparr>rung_priority := P1\<rparr>,
             (everybody [0, 15 * m])\<lparr>rung_priority := P2\<rparr>,
             (everybody [0, 30 * m])\<lparr>rung_priority := P3\<rparr>,
             \<lparr>rung_priority = P4, rung_steps = [], rung_channels = []\<rparr>,
             \<lparr>rung_priority = P5, rung_steps = [], rung_channels = []\<rparr>],
          ep_destinations = [], ep_l0 = l0_defaults\<rparr>)"

definition policy_rung :: "escalation_policy \<Rightarrow> alert_priority \<Rightarrow> priority_rung option" where
  "policy_rung p priority = List.find (\<lambda>r. rung_priority r = priority) (ep_rungs p)"

definition policy_pages_anyone :: "escalation_policy \<Rightarrow> alert_priority \<Rightarrow> bool" where
  "policy_pages_anyone p priority =
     (case policy_rung p priority of Some r \<Rightarrow> rung_steps r \<noteq> [] | None \<Rightarrow> False)"

text \<open>The inner loop of \<open>validate\<close>, over the steps of one rung, with its set of seen delays.\<close>

fun validate_steps :: "int set \<Rightarrow> ladder_step list \<Rightarrow> (unit, policy_error) result" where
  "validate_steps seen [] = Ok ()"
| "validate_steps seen (s # ss) =
     (if after_micros s < 0 then Err (NegativeDelay (after_micros s))
      else if step_targets s = [] then Err (NoTargets (after_micros s))
      else case try_each target_validate (step_targets s) of
             Inl e \<Rightarrow> Err (BadTarget e)
           | Inr _ \<Rightarrow>
               if after_micros s \<in> seen then Err (DuplicateDelay (after_micros s))
               else validate_steps (insert (after_micros s) seen) ss)"

definition validate_rung :: "priority_rung \<Rightarrow> (unit, policy_error) result" where
  "validate_rung r =
     (let phone = list_ex (\<lambda>c. c = Sms \<or> c = Voice) (rung_channels r) in
      if rung_steps r \<noteq> [] \<and> rung_channels r = [] then Err (NoChannels (rung_priority r))
      else if rung_steps r \<noteq> [] \<and> phone \<and> Email \<notin> set (rung_channels r)
      then Err (PersonalWithoutEmail (rung_priority r))
      else validate_steps {} (rung_steps r))"

fun validate_rungs :: "int set \<Rightarrow> priority_rung list \<Rightarrow> (unit, policy_error) result" where
  "validate_rungs seen [] = Ok ()"
| "validate_rungs seen (r # rs) =
     (if priority_to_i32 (rung_priority r) \<in> seen then Err (DuplicatePriority (rung_priority r))
      else case validate_rung r of
             Inl e \<Rightarrow> Err e
           | Inr _ \<Rightarrow> validate_rungs (insert (priority_to_i32 (rung_priority r)) seen) rs)"

definition policy_validate :: "escalation_policy \<Rightarrow> (unit, policy_error) result" where
  "policy_validate p = validate_rungs {} (ep_rungs p)"

fun policy_error_display :: "policy_error \<Rightarrow> string" where
  "policy_error_display (NegativeDelay v) = ''escalation delay cannot be negative, got '' @ show_int v"
| "policy_error_display (DuplicateDelay v) =
     ''two rungs both fire at '' @ show_int v @ ''us; they are one rung with both sets of targets''"
| "policy_error_display (NoTargets v) = ''the rung at '' @ show_int v @ ''us pages nobody''"
| "policy_error_display (BadTarget e) = target_error_display e"
| "policy_error_display (DuplicatePriority p) = ''priority `'' @ priority_as_str p @ ''` is configured twice''"
| "policy_error_display (NoChannels p) =
     ''priority `'' @ priority_as_str p @ ''` pages somebody but has no channels''"
| "policy_error_display (PersonalWithoutEmail p) =
     ''priority `'' @ priority_as_str p @ ''` pages by SMS or voice, so it must also page by email''"

section \<open>The planner\<close>

datatype ladder_action =
    Notify (na_due: "ladder_step list") (na_next: "int option")
  | Wait int
  | Exhausted

text \<open>One pass of the loop over the steps: those due, and the least delay still ahead.\<close>

definition plan_step ::
    "int \<Rightarrow> int list \<Rightarrow> ladder_step list \<times> int option \<Rightarrow> ladder_step \<Rightarrow> ladder_step list \<times> int option" where
  "plan_step elapsed_micros already_notified acc step =
     (case acc of (due, nxt) \<Rightarrow>
        if after_micros step \<le> elapsed_micros
        then (if after_micros step \<notin> set already_notified then (due @ [step], nxt) else (due, nxt))
        else (due, Some (case nxt of None \<Rightarrow> after_micros step | Some n \<Rightarrow> min n (after_micros step))))"

definition plan :: "ladder_step list \<Rightarrow> int \<Rightarrow> int list \<Rightarrow> ladder_action" where
  "plan steps elapsed_micros already_notified =
     (case foldl (plan_step elapsed_micros already_notified) ([], None) steps of
        (due, nxt) \<Rightarrow>
          if due \<noteq> [] then Notify (sort_key after_micros due) nxt
          else (case nxt of Some n \<Rightarrow> Wait n | None \<Rightarrow> Exhausted))"

section \<open>A rung that woke nobody\<close>

definition MAX_TRANSPORT_ATTEMPTS :: nat where "MAX_TRANSPORT_ATTEMPTS = 4"
definition TRANSPORT_BACKOFF_MICROS :: int where "TRANSPORT_BACKOFF_MICROS = 30 * 1000000"
definition MAX_TRANSPORT_BACKOFF_MICROS :: int where "MAX_TRANSPORT_BACKOFF_MICROS = 4 * MICROS_PER_MINUTE"

datatype rung_outcome = Reached | NoRecipients | DeliveryFailed

datatype after_rung_t =
    NextRung
  | AdvanceNow
  | RetryRung int nat
  | GiveUpRung

definition transport_backoff_micros :: "nat \<Rightarrow> int" where
  "transport_backoff_micros attempts_made =
     min (saturating_mul TRANSPORT_BACKOFF_MICROS (2 ^ min attempts_made 16)) MAX_TRANSPORT_BACKOFF_MICROS"

definition after_rung :: "rung_outcome \<Rightarrow> nat \<Rightarrow> int \<Rightarrow> after_rung_t" where
  "after_rung outcome attempts_made now =
     (case outcome of
        Reached \<Rightarrow> NextRung
      | NoRecipients \<Rightarrow> AdvanceNow
      | DeliveryFailed \<Rightarrow>
          if attempts_made \<ge> MAX_TRANSPORT_ATTEMPTS then GiveUpRung
          else RetryRung (now + transport_backoff_micros attempts_made) (attempts_made + 1))"

lemmas [oncall_defs] =
  BREAKER_WINDOW_MICROS_def BREAKER_OPEN_MICROS_def BREAKER_FAILURES_def
  MAX_TRANSPORT_ATTEMPTS_def TRANSPORT_BACKOFF_MICROS_def MAX_TRANSPORT_BACKOFF_MICROS_def
  MAX_SEND_ATTEMPTS_def SEND_LIMIT_MICROS_def IMPACTED_RUNGS_def ladder_step_new_def

section \<open>Lemmas on the planner\<close>

abbreviation is_due :: "int \<Rightarrow> int list \<Rightarrow> ladder_step \<Rightarrow> bool" where
  "is_due e ns s \<equiv> after_micros s \<le> e \<and> after_micros s \<notin> set ns"

lemma plan_fold:
  "foldl (plan_step e ns) ([], None) steps =
     (filter (is_due e ns) steps, min_opt (filter (\<lambda>a. e < a) (map after_micros steps)))"
  by (induction steps rule: rev_induct) (auto simp: plan_step_def min_opt_snoc split: option.splits)

lemma plan_eq:
  "plan steps e ns =
     (let due = filter (is_due e ns) steps; nxt = min_opt (filter (\<lambda>a. e < a) (map after_micros steps))
      in if due \<noteq> [] then Notify (sort_key after_micros due) nxt
         else case nxt of Some n \<Rightarrow> Wait n | None \<Rightarrow> Exhausted)"
  by (simp only: plan_def plan_fold prod.case Let_def)

text \<open>
  The engine's use of the planner: notify what is due, remember the delays in the ledger, come
  back at the next wake-up. The list collects the rungs in the order they are notified; \<open>None\<close>
  means the fuel ran out before the ladder was exhausted.
\<close>

fun ladder_run :: "nat \<Rightarrow> ladder_step list \<Rightarrow> int \<Rightarrow> int list \<Rightarrow> ladder_step list option" where
  "ladder_run 0 steps e ns = None"
| "ladder_run (Suc k) steps e ns =
     (case plan steps e ns of
        Exhausted \<Rightarrow> Some []
      | Wait n \<Rightarrow> ladder_run k steps n ns
      | Notify due nxt \<Rightarrow>
          map_option ((@) due)
            (ladder_run k steps (case nxt of Some n \<Rightarrow> n | None \<Rightarrow> e) (map after_micros due @ ns)))"

lemma sorted_split:
  "sorted (map f xs) \<Longrightarrow> filter (\<lambda>x. (f x :: int) \<le> e) xs @ filter (\<lambda>x. e < f x) xs = xs"
proof (induction xs)
  case (Cons x xs)
  have "filter (\<lambda>x. f x \<le> e) xs = []" if "e < f x"
    using Cons.prems that by (force simp: filter_empty_conv)
  with Cons show ?case by auto
qed simp

lemma sort_key_split:
  "sort_key f (filter (\<lambda>x. (f x :: int) \<le> e) xs) @ sort_key f (filter (\<lambda>x. e < f x) xs) = sort_key f xs"
  by (simp add: filter_sort [symmetric] sorted_split)

abbreviation pending :: "int list \<Rightarrow> ladder_step list \<Rightarrow> ladder_step list" where
  "pending ns steps \<equiv> filter (\<lambda>s. after_micros s \<notin> set ns) steps"

lemma ladder_run_complete:
  assumes "\<forall>s \<in> set steps. after_micros s \<in> set ns \<longrightarrow> after_micros s \<le> e"
    and "k > length (pending ns steps) + (if filter (is_due e ns) steps = [] \<and> pending ns steps \<noteq> [] then 1 else 0)"
  shows "ladder_run k steps e ns = Some (sort_key after_micros (pending ns steps))"
  using assms
proof (induction k arbitrary: e ns)
  case 0
  then show ?case by simp
next
  case (Suc k)
  let ?due = "filter (is_due e ns) steps"
  let ?nxt = "min_opt (filter (\<lambda>a. e < a) (map after_micros steps))"
  have later: "filter (\<lambda>s. e < after_micros s) (pending ns steps) = filter (\<lambda>s. e < after_micros s) steps"
    using Suc.prems(1) by (auto intro!: filter_cong)
  have due: "?due = filter (\<lambda>s. after_micros s \<le> e) (pending ns steps)"
    by (simp add: conj_commute)
  show ?case
  proof (cases "?due = []")
    case True
    then have none_due: "\<forall>s \<in> set (pending ns steps). e < after_micros s"
      by (auto simp: filter_empty_conv)
    show ?thesis
    proof (cases ?nxt)
      case None
      then have "pending ns steps = []" using none_due by (auto simp: filter_empty_conv)
      then show ?thesis using True None by (simp add: plan_eq Let_def)
    next
      case (Some n)
      then obtain s where s: "s \<in> set steps" "after_micros s = n" "e < n"
        using min_opt_Some [OF Some] by auto
      have "filter (is_due n ns) steps \<noteq> []"
        using s Suc.prems(1) by (auto simp: filter_empty_conv)
      moreover have "pending ns steps \<noteq> []" using s Suc.prems(1) by (auto simp: filter_empty_conv)
      moreover have "plan steps e ns = Wait n" using True Some by (simp add: plan_eq Let_def)
      ultimately show ?thesis using Suc.prems True s
        by (auto intro!: Suc.IH)
    qed
  next
    case False
    let ?ns = "map after_micros (sort_key after_micros ?due) @ ns"
    have rest: "pending ?ns steps = filter (\<lambda>s. e < after_micros s) steps"
      using Suc.prems(1) by (auto intro!: filter_cong)
    let ?e = "case ?nxt of Some n \<Rightarrow> n | None \<Rightarrow> e"
    have "e \<le> ?e" by (auto dest!: min_opt_Some split: option.splits)
    then have past: "\<forall>s \<in> set steps. after_micros s \<in> set ?ns \<longrightarrow> after_micros s \<le> ?e"
      using Suc.prems(1) by fastforce
    have "length (pending ns steps) = length ?due + length (filter (\<lambda>s. e < after_micros s) steps)"
      using sum_length_filter_compl [of "\<lambda>s. after_micros s \<le> e" "pending ns steps"]
      by (simp only: due later [symmetric]) (simp add: not_le)
    moreover have "length ?due > 0" using False by simp
    moreover have "length (pending ns steps) \<le> k" using Suc.prems(2) by (simp split: if_splits)
    ultimately have less: "length (filter (\<lambda>s. e < after_micros s) steps) + 0 < k" by linarith
    have "filter (\<lambda>s. e < after_micros s) steps = []" if none: "filter (is_due ?e ?ns) steps = []"
    proof (cases ?nxt)
      case (Some n)
      then have "n \<in> set (filter (\<lambda>a. e < a) (map after_micros steps))" using min_opt_Some by blast
      then obtain s where "s \<in> set steps" "after_micros s = n" "e < n" by auto
      then have "s \<in> set (filter (is_due n ?ns) steps)" using Suc.prems(1) by force
      then show ?thesis using none Some by (metis empty_iff empty_set option.simps(5))
    qed (auto simp: filter_empty_conv)
    then have "\<not> (filter (is_due ?e ?ns) steps = [] \<and> filter (\<lambda>s. e < after_micros s) steps \<noteq> [])"
      by blast
    with less have fuel: "k > length (pending ?ns steps)
        + (if filter (is_due ?e ?ns) steps = [] \<and> pending ?ns steps \<noteq> [] then 1 else 0)"
      unfolding rest by (simp only: if_not_P if_False)
    have "plan steps e ns = Notify (sort_key after_micros ?due) ?nxt"
      using False by (simp add: plan_eq Let_def)
    then have "ladder_run (Suc k) steps e ns =
        Some (sort_key after_micros ?due @ sort_key after_micros (pending ?ns steps))"
      using Suc.IH [OF past fuel] by (simp only: ladder_run.simps ladder_action.case option.map)
    then have "ladder_run (Suc k) steps e ns =
        Some (sort_key after_micros ?due @ sort_key after_micros (filter (\<lambda>s. e < after_micros s) steps))"
      by (simp only: rest)
    then show ?thesis
      using sort_key_split [of after_micros e "pending ns steps"] by (simp only: later due)
  qed
qed

section \<open>Lemmas on validation\<close>

definition valid_step :: "ladder_step \<Rightarrow> bool" where
  "valid_step s \<longleftrightarrow> after_micros s \<ge> 0 \<and> step_targets s \<noteq> []
     \<and> (\<forall>t \<in> set (step_targets s). target_validate t = Ok ())"

definition valid_rung :: "priority_rung \<Rightarrow> bool" where
  "valid_rung r \<longleftrightarrow>
     (rung_steps r \<noteq> [] \<longrightarrow> rung_channels r \<noteq> []
        \<and> (Sms \<in> set (rung_channels r) \<or> Voice \<in> set (rung_channels r) \<longrightarrow> Email \<in> set (rung_channels r)))
     \<and> (\<forall>s \<in> set (rung_steps r). valid_step s) \<and> distinct (map after_micros (rung_steps r))"

lemma validate_steps_ok:
  "validate_steps seen ss = Ok () \<longleftrightarrow>
     (\<forall>s \<in> set ss. valid_step s) \<and> distinct (map after_micros ss) \<and> seen \<inter> after_micros ` set ss = {}"
proof (induction ss arbitrary: seen)
  case (Cons s ss)
  have "validate_steps seen (s # ss) = Ok () \<longleftrightarrow>
      valid_step s \<and> after_micros s \<notin> seen \<and> validate_steps (insert (after_micros s) seen) ss = Ok ()"
    by (simp add: valid_step_def try_each_ok [symmetric] split: sum.split)
  then show ?case by (auto simp: Cons.IH)
qed simp

lemma validate_rung_ok: "validate_rung r = Ok () \<longleftrightarrow> valid_rung r"
  by (auto simp: validate_rung_def valid_rung_def validate_steps_ok list_ex_iff)

lemma validate_rungs_ok:
  "validate_rungs seen rs = Ok () \<longleftrightarrow>
     (\<forall>r \<in> set rs. valid_rung r) \<and> distinct (map rung_priority rs)
     \<and> seen \<inter> priority_to_i32 ` rung_priority ` set rs = {}"
proof (induction rs arbitrary: seen)
  case (Cons r rs)
  have "validate_rungs seen (r # rs) = Ok () \<longleftrightarrow>
      valid_rung r \<and> priority_to_i32 (rung_priority r) \<notin> seen
      \<and> validate_rungs (insert (priority_to_i32 (rung_priority r)) seen) rs = Ok ()"
    by (auto simp: validate_rung_ok [symmetric] split: sum.splits)
  then show ?case by (auto simp: Cons.IH prio.to_id_inj)
qed simp

lemma policy_validate_ok:
  "policy_validate p = Ok () \<longleftrightarrow>
     (\<forall>r \<in> set (ep_rungs p). valid_rung r) \<and> distinct (map rung_priority (ep_rungs p))"
  by (simp add: policy_validate_def validate_rungs_ok)

section \<open>The breaker as a state machine\<close>

text \<open>
  A run of one channel's breaker under a clock that does not go back. Beside the state it
  carries the instants of the failed attempts recorded since the last delivered one.
\<close>

inductive breaker_run :: "channel_breaker \<Rightarrow> int \<Rightarrow> int list \<Rightarrow> bool" where
  start: "breaker_run breaker_new t []"
| admit: "breaker_run b t g \<Longrightarrow> t \<le> t' \<Longrightarrow> breaker_run (snd (admit b t')) t' g"
| release: "breaker_run b t g \<Longrightarrow> breaker_run (release b) t g"
| delivered: "breaker_run b t g \<Longrightarrow> t \<le> t' \<Longrightarrow> breaker_run (record_attempt b t' True) t' []"
| failed: "breaker_run b t g \<Longrightarrow> t \<le> t' \<Longrightarrow> breaker_run (record_attempt b t' False) t' (g @ [t'])"

definition in_window :: "int \<Rightarrow> int list \<Rightarrow> int list" where
  "in_window x g = filter (\<lambda>a. x - a < BREAKER_WINDOW_MICROS \<and> a \<le> x) g"

definition burst :: "int list \<Rightarrow> bool" where
  "burst g \<longleftrightarrow> (\<exists>x \<in> set g. BREAKER_FAILURES \<le> length (in_window x g))"

lemma in_window_mono: "length (in_window x g) \<le> length (in_window x (g @ [y]))"
  by (simp add: in_window_def)

lemma burst_snoc_mono: "burst g \<Longrightarrow> burst (g @ [x])"
  unfolding burst_def by (meson UnI1 in_window_mono le_trans set_append [THEN equalityD2, THEN subsetD])

definition breaker_inv :: "channel_breaker \<Rightarrow> int \<Rightarrow> int list \<Rightarrow> bool" where
  "breaker_inv b t g \<longleftrightarrow>
     (\<forall>a \<in> set g. a \<le> t)
     \<and> (case probe_at b of Some p \<Rightarrow> p \<le> t \<and> opened_at b \<noteq> None | None \<Rightarrow> True)
     \<and> (case opened_at b of
          None \<Rightarrow> \<not> burst g \<and> (\<forall>x \<ge> t. in_window x (failures b) = in_window x g)
                  \<and> set (failures b) \<subseteq> set g
        | Some at \<Rightarrow> at \<le> t \<and> burst g)"

lemma in_window_snoc:
  "\<forall>a \<in> set g. a \<le> t' \<Longrightarrow> x < t' \<Longrightarrow> in_window x (g @ [t']) = in_window x g"
  by (simp add: in_window_def)

lemma burst_snoc:
  assumes "\<forall>a \<in> set g. a \<le> t'"
  shows "burst (g @ [t']) \<longleftrightarrow> burst g \<or> BREAKER_FAILURES \<le> length (in_window t' (g @ [t']))"
proof
  assume "burst (g @ [t'])"
  then obtain x where x: "x \<in> set (g @ [t'])" "BREAKER_FAILURES \<le> length (in_window x (g @ [t']))"
    unfolding burst_def by blast
  show "burst g \<or> BREAKER_FAILURES \<le> length (in_window t' (g @ [t']))"
  proof (cases "x = t'")
    case False
    then have "x \<in> set g" "x < t'" using x assms by force+
    then show ?thesis using x(2) in_window_snoc [OF assms] by (auto simp: burst_def)
  qed (use x in simp)
next
  assume "burst g \<or> BREAKER_FAILURES \<le> length (in_window t' (g @ [t']))"
  then show "burst (g @ [t'])" using burst_snoc_mono by (auto simp: burst_def)
qed

lemma retained_window:
  assumes "\<forall>a \<in> set fs. a \<le> t'"
  shows "filter (\<lambda>at. t' - at < BREAKER_WINDOW_MICROS) fs = in_window t' fs"
  using assms by (auto simp: in_window_def intro!: filter_cong)

lemma in_window_later: "t' \<le> x \<Longrightarrow> in_window x (in_window t' fs) = in_window x (filter (\<lambda>a. a \<le> t') fs)"
  by (auto simp: in_window_def intro!: filter_cong)

lemma failed_closed_inv:
  assumes inv: "breaker_inv b t g" and "t \<le> t'" and closed: "opened_at b = None"
  shows "breaker_inv (record_attempt b t' False) t' (g @ [t'])"
proof -
  have past: "\<forall>a \<in> set g. a \<le> t'" "\<forall>a \<in> set (failures b). a \<le> t'"
    using inv closed \<open>t \<le> t'\<close> by (fastforce simp: breaker_inv_def)+
  have win: "in_window t' (failures b) = in_window t' g"
    using inv closed \<open>t \<le> t'\<close> by (simp add: breaker_inv_def)
  let ?fs = "in_window t' g @ [t']"
  have fs: "filter (\<lambda>at. t' - at < BREAKER_WINDOW_MICROS) (failures b) = in_window t' g"
    using retained_window [OF past(2)] win by simp
  have len: "Suc (length (in_window t' g)) = length (in_window t' (g @ [t']))"
    by (simp add: in_window_def oncall_defs)
  have "in_window x ?fs = in_window x (g @ [t'])" if "t' \<le> x" for x
    using that past(1) in_window_later [OF that, of g] by (simp add: in_window_def)
  moreover have "\<not> burst g" using inv closed by (simp add: breaker_inv_def)
  moreover have "set (in_window t' g) \<subseteq> set g" by (auto simp: in_window_def)
  ultimately show ?thesis
    using past(1) closed
    by (auto simp: breaker_inv_def record_attempt_def Let_def fs len burst_snoc [OF past(1)])
qed

lemma breaker_run_inv: "breaker_run b t g \<Longrightarrow> breaker_inv b t g"
proof (induction rule: breaker_run.induct)
  case (start t)
  show ?case by (simp add: breaker_inv_def breaker_new_def burst_def)
next
  case (admit b t g t')
  then show ?case
    by (auto simp: breaker_inv_def admit_def Let_def split: option.splits if_splits)
next
  case (release b t g)
  then show ?case by (auto simp: breaker_inv_def release_def split: option.splits)
next
  case (delivered b t g t')
  then show ?case by (simp add: breaker_inv_def record_attempt_def burst_def)
next
  case (failed b t g t')
  show ?case
  proof (cases "opened_at b")
    case None
    with failed show ?thesis by (blast intro: failed_closed_inv)
  next
    case (Some at)
    with failed show ?thesis
      by (auto simp: breaker_inv_def record_attempt_def burst_snoc_mono)
  qed
qed

lemmas shipped_defs =
  default_for_team_def whole_team_fallback_def Let_def ladder_step_new_def target_rotation_def
  MICROS_PER_MINUTE_def List.map_filter_simps

lemma default_for_team_valid:
  assumes "trim prim \<noteq> []" "case sec of Some r \<Rightarrow> trim r \<noteq> [] | None \<Rightarrow> True"
  shows "policy_validate (default_for_team i org team prim sec) = Ok ()"
  using assms
  by (cases sec) (simp_all add: policy_validate_ok valid_rung_def valid_step_def shipped_defs)

lemma whole_team_fallback_valid: "policy_validate (whole_team_fallback i org team) = Ok ()"
  by (simp add: policy_validate_ok valid_rung_def valid_step_def shipped_defs)

lemma default_for_team_pages:
  "policy_pages_anyone (default_for_team i org team prim sec) s \<longleftrightarrow> severity_pages s"
  by (cases s) (simp_all add: policy_pages_anyone_def policy_rung_def shipped_defs)

lemma whole_team_fallback_pages:
  "policy_pages_anyone (whole_team_fallback i org team) s \<longleftrightarrow> severity_pages s"
  by (cases s) (simp_all add: policy_pages_anyone_def policy_rung_def shipped_defs)

lemma shipped_l0:
  "ep_l0 (default_for_team i org team prim sec) = l0_defaults" "ep_l0 (whole_team_fallback i org team) = l0_defaults"
  by (simp_all add: shipped_defs)

section \<open>Properties\<close>

text \<open>
  The planner against its specification: the rungs notified are exactly those whose delay
  has elapsed and whose delay is not in the ledger, in delay order; the wake-up is the least
  delay still ahead, whatever order the steps are stored in; the ladder is exhausted exactly
  when nothing is due and nothing is ahead.
\<close>

theorem plan_spec:
  "case plan steps e ns of
     Notify due nxt \<Rightarrow>
       due \<noteq> [] \<and> due = sort_key after_micros (filter (is_due e ns) steps)
       \<and> nxt = min_opt (filter (\<lambda>a. e < a) (map after_micros steps))
   | Wait n \<Rightarrow>
       filter (is_due e ns) steps = [] \<and> e < n \<and> n \<in> after_micros ` set steps
       \<and> filter (\<lambda>s. e < after_micros s \<and> after_micros s < n) steps = []
   | Exhausted \<Rightarrow> filter (\<lambda>s. e < after_micros s \<or> is_due e ns s) steps = []"
proof -
  let ?nxt = "min_opt (filter (\<lambda>a. e < a) (map after_micros steps))"
  have nxt: "n \<in> after_micros ` set steps \<and> e < n \<and> (\<forall>s \<in> set steps. e < after_micros s \<longrightarrow> n \<le> after_micros s)"
    if "?nxt = Some n" for n
    using min_opt_Some [OF that] by auto
  have none: "\<forall>s \<in> set steps. after_micros s \<le> e" if "?nxt = None"
    using that by (auto simp: filter_empty_conv not_less)
  have "sort_key after_micros xs \<noteq> []" if "xs \<noteq> []" for xs :: "ladder_step list"
    using that by (metis length_0_conv length_sort)
  then show ?thesis
  proof (cases "filter (is_due e ns) steps = []")
    case True
    then show ?thesis using nxt none
      by (cases ?nxt) (fastforce simp: plan_eq Let_def filter_empty_conv)+
  qed (simp add: plan_eq Let_def)
qed

text \<open>
  C8. A ladder driven by the planner notifies every rung the ledger does not hold, exactly
  once and in delay order, and then ends: with the ledger fed back after every notification
  and the clock advanced to the announced wake-up, two rounds more than there are rungs are
  enough, from any elapsed time at which the ledger only holds rungs already due.
\<close>

theorem ladder_exactly_once:
  assumes "\<forall>s \<in> set steps. after_micros s \<in> set ns \<longrightarrow> after_micros s \<le> e"
  shows "ladder_run (length steps + 2) steps e ns =
           Some (sort_key after_micros (filter (\<lambda>s. after_micros s \<notin> set ns) steps))"
proof (rule ladder_run_complete [OF assms])
  show "length (pending ns steps)
      + (if filter (is_due e ns) steps = [] \<and> pending ns steps \<noteq> [] then 1 else 0) < length steps + 2"
    by (auto intro!: le_imp_less_Suc le_SucI)
qed

theorem ladder_exactly_once_witness:
  "ladder_run 4 [ladder_step_new 300 [TWholeTeam], ladder_step_new 0 [TUser ''a'']] 0 [] =
     Some [ladder_step_new 0 [TUser ''a''], ladder_step_new 300 [TWholeTeam]]"
  using ladder_exactly_once
    [of "[ladder_step_new 300 [TWholeTeam], ladder_step_new 0 [TUser ''a'']]" "[]" 0]
  by (simp add: ladder_step_new_def eval_nat_numeral)

text \<open>
  Validation accepts a policy exactly when no priority is configured twice, every rung with
  steps has a channel and pairs SMS or voice with email, and within a rung the delays are
  distinct and not negative and every step has targets, all of them valid.
\<close>

theorem policy_validate_exact:
  "policy_validate p = Ok () \<longleftrightarrow>
     distinct (map rung_priority (ep_rungs p))
     \<and> list_all (\<lambda>r.
          (rung_steps r = [] \<or> rung_channels r \<noteq> []
             \<and> (Email \<in> set (rung_channels r) \<or> set (rung_channels r) \<inter> {Sms, Voice} = {}))
          \<and> distinct (map after_micros (rung_steps r))
          \<and> list_all (\<lambda>s. after_micros s \<ge> 0 \<and> step_targets s \<noteq> []
                          \<and> list_all (\<lambda>t. target_validate t = Ok ()) (step_targets s)) (rung_steps r))
        (ep_rungs p)"
  by (auto simp: policy_validate_ok valid_rung_def valid_step_def list_all_iff)

text \<open>
  The policies the code ships are valid and page exactly P1 to P3: the default for a team
  whose rotation ids are not blank, and the whole-team fallback always; the L0 block they
  carry is valid too.
\<close>

theorem shipped_policies_valid:
  assumes "trim prim \<noteq> []" "case sec of Some r \<Rightarrow> trim r \<noteq> [] | None \<Rightarrow> True"
    and "p \<in> {default_for_team i org team prim sec, whole_team_fallback i org team}"
  shows "policy_validate p = Ok () \<and> (policy_pages_anyone p s \<longleftrightarrow> severity_pages s)
     \<and> l0_validate (ep_l0 p) = Ok ()"
  using assms
  by (auto simp: default_for_team_valid whole_team_fallback_valid default_for_team_pages
      whole_team_fallback_pages shipped_l0 l0_defaults_valid)

theorem shipped_policies_valid_witness:
  "policy_validate (default_for_team ''p'' ''org'' ''t'' ''r1'' (Some ''r2'')) = Ok ()"
proof -
  have "trim ''r1'' \<noteq> []" "trim ''r2'' \<noteq> []" by code_simp+
  then show ?thesis
    using shipped_policies_valid [of "''r1''" "Some ''r2''"
        "default_for_team ''p'' ''org'' ''t'' ''r1'' (Some ''r2'')" "''p''" "''org''" "''t''"]
    by simp
qed

text \<open>
  C10. The circuit breaker is open exactly after a burst: in every run under a clock that does
  not go back, the breaker refuses or probes only if, since the last delivered attempt, four
  failed attempts fell within one minute of each other, and it sends freely otherwise.
\<close>

theorem breaker_open_iff_burst:
  assumes "breaker_run b t g"
  shows "(fst (admit b now) \<noteq> Send) \<longleftrightarrow>
           (\<exists>x \<in> set g. 4 \<le> length (filter (\<lambda>a. x - a < 60000000 \<and> a \<le> x) g))"
proof -
  have "(\<exists>x \<in> set g. 4 \<le> length (filter (\<lambda>a. x - a < 60000000 \<and> a \<le> x) g)) \<longleftrightarrow> burst g"
    by (simp add: burst_def in_window_def oncall_defs)
  moreover have "fst (admit b now) \<noteq> Send \<longleftrightarrow> opened_at b \<noteq> None"
    by (auto simp: admit_def Let_def split: option.splits)
  ultimately show ?thesis
    using breaker_run_inv [OF assms] by (auto simp: breaker_inv_def split: option.splits)
qed

theorem breaker_open_iff_burst_witness:
  "fst (admit (record_attempt (record_attempt (record_attempt (record_attempt breaker_new 0 False)
     1 False) 2 False) 3 False) 4) \<noteq> Send"
proof -
  have "breaker_run (record_attempt (record_attempt (record_attempt (record_attempt breaker_new 0 False)
     1 False) 2 False) 3 False) 3 (((([] @ [0]) @ [1]) @ [2]) @ [3])"
    by (intro breaker_run.failed [where t = 2] breaker_run.failed [where t = 1]
        breaker_run.failed [where t = 0] breaker_run.start) simp_all
  from breaker_open_iff_burst [OF this, of 4] show ?thesis by simp
qed

text \<open>
  The half-open breaker admits one probe a minute and never starves: right after a probe is
  admitted no send passes for a minute unless the probe is released or recorded, and a minute
  after the last event of a run the breaker never refuses.
\<close>

theorem breaker_probe_once_and_live:
  assumes "breaker_run b t g"
  shows "(admit b now = (Probe, b') \<longrightarrow> now' - now < 60000000 \<longrightarrow> fst (admit b' now') = Refuse)
    \<and> (now \<ge> t + 60000000 \<longrightarrow> fst (admit b now) \<noteq> Refuse)"
  using breaker_run_inv [OF assms]
  by (auto simp: admit_def Let_def breaker_inv_def oncall_defs split: option.splits if_splits)

theorem breaker_probe_once_and_live_witness:
  "fst (admit breaker_new 60000000) \<noteq> Refuse"
  using breaker_probe_once_and_live [OF breaker_run.start [of 0], of 60000000] by simp

text \<open>
  A rung lost to the transport is sent again at most four times, after 30, 60, 120 and 240
  seconds, and is then given up; a rung that reached somebody or has nobody on it is never
  sent again.
\<close>

theorem after_rung_backoff:
  "after_rung outcome n now =
     (case outcome of
        Reached \<Rightarrow> NextRung
      | NoRecipients \<Rightarrow> AdvanceNow
      | DeliveryFailed \<Rightarrow>
          if n < 4 then RetryRung (now + [30000000, 60000000, 120000000, 240000000] ! n) (n + 1)
          else GiveUpRung)"
proof -
  have "n = 0 \<or> n = 1 \<or> n = 2 \<or> n = 3" if "n < 4" using that by linarith
  then show ?thesis
    by (auto simp: after_rung_def transport_backoff_micros_def oncall_defs i64_defs split: rung_outcome.splits)
qed

end
