(* ===== verification/Oncall_Routing.thy ===== *)
theory Oncall_Routing
  imports Oncall_Subject "HOL-Library.Product_Lexorder" "HOL-Library.Multiset"
begin

text \<open>
  Ownership routing (\<open>src/config/src/meta/oncall/routing.rs\<close>): rules that claim dimension
  paths, how specific a claim is, which rule owns a signal, the tiers of the decision and the
  queue of signals nobody owns.

  A \<open>HashMap<String, String>\<close> is the list of its entries in iteration order, its keys distinct
  (\<open>dims_ok\<close>); what the code makes of it beyond that order is proved not to depend on it.
\<close>

type_synonym dims = "(string \<times> string) list"

definition dims_ok :: "dims \<Rightarrow> bool" where
  "dims_ok d \<longleftrightarrow> distinct (map fst d)"

definition SERVICE_DIMENSION :: string where "SERVICE_DIMENSION = ''service''"

definition show_pair :: "string \<times> string \<Rightarrow> string" where
  "show_pair p = fst p @ ''='' @ snd p"

definition canonical_path :: "dims \<Rightarrow> string" where
  "canonical_path d = join ''/'' (map show_pair (sort_key fst d))"

record routing_config =
  rc_org_id :: string
  rc_default_team_id :: "string option"
  rc_updated_at :: int

definition routing_config_unset :: "string \<Rightarrow> routing_config" where
  "routing_config_unset org_id = \<lparr>rc_org_id = org_id, rc_default_team_id = None, rc_updated_at = 0\<rparr>"

definition not_blank :: "string option \<Rightarrow> bool" where
  "not_blank t = (case t of Some x \<Rightarrow> trim x \<noteq> [] | None \<Rightarrow> False)"

definition has_default :: "routing_config \<Rightarrow> bool" where
  "has_default c = not_blank (rc_default_team_id c)"

section \<open>Ownership rules\<close>

record ownership_rule =
  or_id :: string
  or_org_id :: string
  or_team_id :: string
  or_dimensions :: dims
  or_created_at :: int
  or_updated_at :: int

datatype ownership_error =
    NoDimensions
  | EmptyDimensionName
  | EmptyDimensionValue string
  | WildcardNotTrailing string
  | WildcardMatchesEverything string

fun ownership_error_display :: "ownership_error \<Rightarrow> string" where
  "ownership_error_display NoDimensions =
     ''an ownership rule must name at least one dimension; an empty rule would own every alert in the org''"
| "ownership_error_display EmptyDimensionName = ''dimension name cannot be empty''"
| "ownership_error_display (EmptyDimensionValue k) = ''dimension `'' @ k @ ''` has an empty value''"
| "ownership_error_display (WildcardNotTrailing k) =
     ''dimension `'' @ k
     @ ''` may only use `*` at the end of its value, as a prefix claim like `db-*`''"
| "ownership_error_display (WildcardMatchesEverything k) =
     ''dimension `'' @ k
     @ ''` is a bare `*`, which claims every value it can take; nominate a default team instead''"

definition star :: char where "star = CHR ''*''"

definition pair_matches :: "string \<Rightarrow> string \<Rightarrow> bool" where
  "pair_matches want actual =
     (case strip_suffix_char want star of
        Some prefix \<Rightarrow> starts_with actual prefix
      | None \<Rightarrow> want = actual)"

section \<open>How deep a dimension sits\<close>

type_synonym dimension_depth = "(string \<times> nat) list"

definition USIZE_MAX :: nat where "USIZE_MAX = 18446744073709551615"

text \<open>\<open>entry(alias).and_modify(min).or_insert(position)\<close>.\<close>

fun rank_entry :: "string \<Rightarrow> nat \<Rightarrow> dimension_depth \<Rightarrow> dimension_depth" where
  "rank_entry alias position [] = [(alias, position)]"
| "rank_entry alias position ((a, r) # rest) =
     (if a = alias then (a, min r position) # rest else (a, r) # rank_entry alias position rest)"

definition rank_set :: "dimension_depth \<Rightarrow> string list \<Rightarrow> dimension_depth" where
  "rank_set ranks distinguish_by =
     foldl (\<lambda>ranks (position, alias).
              if alias = SERVICE_DIMENSION then ranks else rank_entry alias position ranks)
       ranks (enumerate 0 distinguish_by)"

definition from_sets :: "string list list \<Rightarrow> dimension_depth" where
  "from_sets sets = foldl rank_set [] sets"

definition shipped_default :: dimension_depth where
  "shipped_default =
     from_sets
       [[''k8s-cluster'', ''k8s-namespace'', ''k8s-deployment''],
        [''region'', ''availability-zone'', ''aws-ecs-cluster'', ''aws-ecs-task''],
        [''region'', ''faas-name''],
        [''region'', ''azure-resource-group'', ''azure-cloud-role''],
        [''region'', ''gcp-cloud-run'', ''gcp-instance'']]"

definition rank_of :: "dimension_depth \<Rightarrow> string \<Rightarrow> nat" where
  "rank_of depths alias =
     (if alias = SERVICE_DIMENSION then USIZE_MAX
      else case map_of depths alias of None \<Rightarrow> 0 | Some r \<Rightarrow> r + 1)"

definition depths_is_empty :: "dimension_depth \<Rightarrow> bool" where
  "depths_is_empty depths \<longleftrightarrow> depths = []"

section \<open>How specific a rule is\<close>

definition specificity :: "ownership_rule \<Rightarrow> nat" where
  "specificity r = length (or_dimensions r)"

definition finest_depth :: "ownership_rule \<Rightarrow> dimension_depth \<Rightarrow> nat" where
  "finest_depth r depths =
     (case max_opt (map (\<lambda>(k, _). rank_of depths k) (or_dimensions r)) of Some m \<Rightarrow> m | None \<Rightarrow> 0)"

definition exact_dimensions :: "ownership_rule \<Rightarrow> nat" where
  "exact_dimensions r = length (filter (\<lambda>(_, v). \<not> ends_with_char v star) (or_dimensions r))"

definition literal_chars :: "ownership_rule \<Rightarrow> nat" where
  "literal_chars r = sum_list (map (\<lambda>(_, v). chars_count (trim_end_char v star)) (or_dimensions r))"

definition rule_matches :: "ownership_rule \<Rightarrow> dims \<Rightarrow> bool" where
  "rule_matches r d =
     list_all (\<lambda>(k, v). case map_of d k of Some actual \<Rightarrow> pair_matches v actual | None \<Rightarrow> False)
       (or_dimensions r)"

definition rule_path :: "ownership_rule \<Rightarrow> string" where
  "rule_path r = canonical_path (or_dimensions r)"

definition check_dimension :: "string \<times> string \<Rightarrow> (unit, ownership_error) result" where
  "check_dimension p =
     (case p of (k, raw) \<Rightarrow>
        if trim k = [] then Err EmptyDimensionName
        else (let v = trim raw in
              if v = [] then Err (EmptyDimensionValue k)
              else if v = [star] then Err (WildcardMatchesEverything k)
              else if star \<in> set (trim_end_char v star) then Err (WildcardNotTrailing k)
              else Ok ()))"

definition ownership_validate :: "ownership_rule \<Rightarrow> (unit, ownership_error) result" where
  "ownership_validate r =
     (if or_dimensions r = [] then Err NoDimensions else try_each check_dimension (or_dimensions r))"

section \<open>Decisions\<close>

datatype routing_decision =
    RdExplicit string
  | RdOwnership string string string
  | RdDefault string
  | RdUnrouted

fun decision_team_id :: "routing_decision \<Rightarrow> string option" where
  "decision_team_id (RdExplicit t) = Some t"
| "decision_team_id (RdOwnership t _ _) = Some t"
| "decision_team_id (RdDefault t) = Some t"
| "decision_team_id RdUnrouted = None"

definition decision_is_routed :: "routing_decision \<Rightarrow> bool" where
  "decision_is_routed d \<longleftrightarrow> decision_team_id d \<noteq> None"

fun decision_landed_on_default :: "routing_decision \<Rightarrow> bool" where
  "decision_landed_on_default (RdDefault _) = True"
| "decision_landed_on_default (RdExplicit _) = False"
| "decision_landed_on_default (RdOwnership _ _ _) = False"
| "decision_landed_on_default RdUnrouted = False"

fun decision_reason :: "routing_decision \<Rightarrow> string" where
  "decision_reason (RdExplicit t) = ''routed to '' @ t @ '' by the alert's own setting''"
| "decision_reason (RdOwnership t _ path) = ''routed to '' @ t @ '' by ownership rule '' @ path"
| "decision_reason (RdDefault t) =
     ''no ownership rule matched, so it went to the default team '' @ t"
| "decision_reason RdUnrouted =
     ''no ownership rule matches this signal and no default team is set, so no team was paged''"

record routing_inputs =
  ri_explicit_team_id :: "string option"
  ri_rules :: "ownership_rule list"
  ri_dimensions :: "dims option"
  ri_default_team_id :: "string option"
  ri_depths :: "dimension_depth option"

record routed =
  rd_decision :: routing_decision
  rd_notes :: "string list"

definition routed_plain :: "routing_decision \<Rightarrow> routed" where
  "routed_plain d = \<lparr>rd_decision = d, rd_notes = []\<rparr>"

definition routed_team_id :: "routed \<Rightarrow> string option" where
  "routed_team_id r = decision_team_id (rd_decision r)"

definition routed_is_routed :: "routed \<Rightarrow> bool" where
  "routed_is_routed r = decision_is_routed (rd_decision r)"

definition routed_landed_on_default :: "routed \<Rightarrow> bool" where
  "routed_landed_on_default r = decision_landed_on_default (rd_decision r)"

definition routed_reason :: "routed \<Rightarrow> string" where
  "routed_reason r =
     (if rd_notes r = [] then decision_reason (rd_decision r)
      else join ''; '' (rd_notes r) @ ''; '' @ decision_reason (rd_decision r))"

section \<open>Who owns a signal\<close>

definition ownership_cmp :: "dimension_depth \<Rightarrow> ownership_rule \<Rightarrow> ownership_rule \<Rightarrow> ordering" where
  "ownership_cmp depths a b =
     then_with (then_with (then_with (then_with (then_with
       (cmp (specificity a) (specificity b))
       (cmp (finest_depth a depths) (finest_depth b depths)))
       (cmp (exact_dimensions a) (exact_dimensions b)))
       (cmp (literal_chars a) (literal_chars b)))
       (cmp (rule_path b) (rule_path a)))
       (cmp (or_id b) (or_id a))"

definition resolve_owner_ranked ::
    "ownership_rule list \<Rightarrow> dims \<Rightarrow> dimension_depth \<Rightarrow> ownership_rule option" where
  "resolve_owner_ranked rules d depths =
     max_by (ownership_cmp depths)
       (filter (\<lambda>rule. is_ok (ownership_validate rule) \<and> rule_matches rule d) rules)"

definition resolve_owner :: "ownership_rule list \<Rightarrow> dims \<Rightarrow> ownership_rule option" where
  "resolve_owner rules d = resolve_owner_ranked rules d []"

definition uncovered_note :: "dims \<Rightarrow> string" where
  "uncovered_note d =
     (if d = [] then ''this signal carried no dimensions, so no ownership rule could match it''
      else ''no ownership rule covers '' @ join '', '' (sort (map show_pair d)))"

definition route :: "routing_inputs \<Rightarrow> routed" where
  "route inputs =
     (if not_blank (ri_explicit_team_id inputs)
      then routed_plain (RdExplicit (the (ri_explicit_team_id inputs)))
      else
        (let d = (case ri_dimensions inputs of Some x \<Rightarrow> x | None \<Rightarrow> []);
             depths = (case ri_depths inputs of Some x \<Rightarrow> x | None \<Rightarrow> [])
         in case resolve_owner_ranked (ri_rules inputs) d depths of
              Some rule \<Rightarrow> routed_plain (RdOwnership (or_team_id rule) (or_id rule) (rule_path rule))
            | None \<Rightarrow>
                (let notes = [uncovered_note d] in
                 if not_blank (ri_default_team_id inputs)
                 then \<lparr>rd_decision = RdDefault (the (ri_default_team_id inputs)), rd_notes = notes\<rparr>
                 else \<lparr>rd_decision = RdUnrouted, rd_notes = notes\<rparr>)))"

section \<open>The unrouted queue\<close>

record unrouted_signal =
  us_id :: string
  us_org_id :: string
  us_path :: string
  us_dimensions :: dims
  us_occurrences :: int
  us_first_seen_at :: int
  us_last_seen_at :: int
  us_last_subject_type :: "subject_type option"
  us_last_source_id :: "string option"
  us_last_title :: "string option"
  us_last_priority :: "int option"
  us_defaulted_team_id :: "string option"
  us_dismissed_at :: "int option"

definition us_is_open :: "unrouted_signal \<Rightarrow> bool" where
  "us_is_open s \<longleftrightarrow> us_dismissed_at s = None"

definition us_landed_on_default :: "unrouted_signal \<Rightarrow> bool" where
  "us_landed_on_default s = not_blank (us_defaulted_team_id s)"

definition us_is_covered_by :: "unrouted_signal \<Rightarrow> ownership_rule list \<Rightarrow> bool" where
  "us_is_covered_by s rules \<longleftrightarrow> resolve_owner rules (us_dimensions s) \<noteq> None"

definition us_describe :: "unrouted_signal \<Rightarrow> string" where
  "us_describe s =
     (let what = (case (us_last_subject_type s, us_last_title s) of
                    (Some kind, Some title) \<Rightarrow> subject_type_as_str kind @ '' `'' @ title @ ''`''
                  | (Some kind, None) \<Rightarrow> subject_type_as_str kind
                  | _ \<Rightarrow> ''a signal'');
          place = (if us_path s = []
                    then what @ '' carried no identity dimensions, so no ownership rule could match it''
                    else what @ '' at '' @ us_path s @ '' is owned by no team'')
      in if not_blank (us_defaulted_team_id s)
         then place @ '', so it paged the default team '' @ the (us_defaulted_team_id s)
         else place)"

definition outstanding :: "unrouted_signal list \<Rightarrow> ownership_rule list \<Rightarrow> unrouted_signal list" where
  "outstanding signals rules = filter (\<lambda>s. us_is_open s \<and> \<not> us_is_covered_by s rules) signals"

section \<open>Lemmas\<close>

definition ownership_key ::
    "dimension_depth \<Rightarrow> ownership_rule \<Rightarrow> nat \<times> nat \<times> nat \<times> nat \<times> string down \<times> string down" where
  "ownership_key depths r =
     (specificity r, finest_depth r depths, exact_dimensions r, literal_chars r,
      Down (rule_path r), Down (or_id r))"

interpretation ownership: keyed_cmp "ownership_cmp depths" "ownership_key depths" for depths
  by unfold_locales
     (auto simp: ownership_cmp_def ownership_key_def cmp_def then_with_def less_prod_def')

lemma ownership_key_inj: "distinct (map or_id rules) \<Longrightarrow> inj_on (ownership_key depths) (set rules)"
  by (auto simp: inj_on_def ownership_key_def distinct_map)

lemma resolve_owner_ranked_None:
  "resolve_owner_ranked rules d depths = None \<longleftrightarrow>
     filter (\<lambda>rule. is_ok (ownership_validate rule) \<and> rule_matches rule d) rules = []"
  unfolding resolve_owner_ranked_def by (rule ownership.max_by_None)

lemma sort_key_fst_unique:
  assumes "set d = set d'" "distinct (map fst d)" "distinct (map fst d')"
  shows "sort_key fst d = sort_key fst (d' :: ('k::linorder \<times> 'v) list)"
proof (rule map_sorted_distinct_set_unique [of fst])
  show "inj_on fst (set (sort_key fst d) \<union> set (sort_key fst d'))"
    using assms by (simp add: distinct_map)
  show "distinct (map fst (sort_key fst d))" "distinct (map fst (sort_key fst d'))"
    using assms by (simp_all add: distinct_map)
qed (use assms in simp_all)

lemma map_of_set_eq:
  "set d = set d' \<Longrightarrow> distinct (map fst d) \<Longrightarrow> distinct (map fst d') \<Longrightarrow> map_of d = map_of d'"
  by (rule map_of_inject_set [THEN iffD2])

lemma show_pair_notes:
  assumes "set d = set d'" "distinct (map fst d)" "distinct (map fst d')"
  shows "sort (map show_pair d) = sort (map show_pair d')"
proof -
  have "mset d = mset d'" using assms by (metis distinct_map set_eq_iff_mset_eq_distinct)
  then have "mset (map show_pair d) = mset (map show_pair d')" by simp
  then show ?thesis by (metis mset_sort properties_for_sort sorted_sort)
qed

lemma rule_matches_order_free: "map_of d = map_of d' \<Longrightarrow> rule_matches r d = rule_matches r d'"
  by (simp add: rule_matches_def)

lemma resolve_owner_ranked_order_free:
  assumes "set rules = set rules'" "distinct (map or_id rules)" "map_of d = map_of d'"
  shows "resolve_owner_ranked rules d depths = resolve_owner_ranked rules' d' depths"
proof -
  let ?p = "\<lambda>d rule. is_ok (ownership_validate rule) \<and> rule_matches rule d"
  have "set (filter (?p d) rules) = set (filter (?p d') rules')"
    using assms(1) rule_matches_order_free [OF assms(3)] by auto
  moreover have "inj_on (ownership_key depths) (set (filter (?p d) rules))"
    using ownership_key_inj [OF assms(2)] by (rule inj_on_subset) auto
  ultimately show ?thesis
    unfolding resolve_owner_ranked_def by (rule ownership.max_by_order_free)
qed

section \<open>Properties\<close>

text \<open>
  C36. Every node routes alike: the whole decision, its notes included, does not depend on the
  order the rules are read in nor on the iteration order of the signal's dimensions, as long
  as the rules have distinct ids.
\<close>

theorem route_order_free:
  assumes "set (ri_rules a) = set (ri_rules b)" "distinct (map or_id (ri_rules a))"
    and "ri_dimensions a = Some d" "ri_dimensions b = Some d'"
    and "set d = set d'" "dims_ok d" "dims_ok d'"
    and "ri_explicit_team_id a = ri_explicit_team_id b" "ri_default_team_id a = ri_default_team_id b"
    and "ri_depths a = ri_depths b"
  shows "route a = route b"
proof -
  have keys: "distinct (map fst d)" "distinct (map fst d')" using assms(6,7) by (simp_all add: dims_ok_def)
  have "map_of d = map_of d'" by (rule map_of_set_eq [OF assms(5) keys])
  then have "resolve_owner_ranked (ri_rules a) d depths = resolve_owner_ranked (ri_rules b) d' depths" for depths
    by (rule resolve_owner_ranked_order_free [OF assms(1,2)])
  moreover have "uncovered_note d = uncovered_note d'"
    using show_pair_notes [OF assms(5) keys] assms(5) by (auto simp: uncovered_note_def)
  ultimately show ?thesis using assms(3,4,8-10) by (simp add: route_def Let_def split: option.split)
qed

definition sample_owner :: "string \<Rightarrow> dims \<Rightarrow> ownership_rule" where
  "sample_owner i d =
     \<lparr>or_id = i, or_org_id = ''org'', or_team_id = ''team-'' @ i, or_dimensions = d,
      or_created_at = 0, or_updated_at = 0\<rparr>"

definition sample_inputs :: "ownership_rule list \<Rightarrow> dims \<Rightarrow> routing_inputs" where
  "sample_inputs rules d =
     \<lparr>ri_explicit_team_id = None, ri_rules = rules, ri_dimensions = Some d,
      ri_default_team_id = None, ri_depths = None\<rparr>"

theorem route_order_free_witness:
  "route (sample_inputs [sample_owner ''a'' [(''service'', ''pay'')], sample_owner ''b'' [(''region'', ''eu'')]]
            [(''service'', ''pay''), (''region'', ''eu'')]) =
   route (sample_inputs [sample_owner ''b'' [(''region'', ''eu'')], sample_owner ''a'' [(''service'', ''pay'')]]
            [(''region'', ''eu''), (''service'', ''pay'')])"
  by (rule route_order_free [where d = "[(''service'', ''pay''), (''region'', ''eu'')]"
          and d' = "[(''region'', ''eu''), (''service'', ''pay'')]"])
     (auto simp: sample_inputs_def sample_owner_def dims_ok_def)

text \<open>
  The tiers of a decision: a non-blank team on the alert itself always wins; otherwise the
  owner is a valid matching rule that no other such rule beats on the number of dimensions, nor
  on depth at the same number; otherwise the nominated default; and a signal is unrouted only
  when all three are missing.
\<close>

theorem route_tiers:
  "case rd_decision (route inp) of
     RdExplicit t \<Rightarrow> ri_explicit_team_id inp = Some t \<and> trim t \<noteq> []
   | RdOwnership t i path \<Rightarrow>
       \<not> not_blank (ri_explicit_team_id inp)
       \<and> (\<exists>r. r \<in> set (ri_rules inp) \<and> t = or_team_id r \<and> i = or_id r \<and> path = rule_path r
            \<and> is_ok (ownership_validate r) \<and> rule_matches r (case_option [] (\<lambda>x. x) (ri_dimensions inp))
            \<and> filter (\<lambda>r'. is_ok (ownership_validate r')
                   \<and> rule_matches r' (case_option [] (\<lambda>x. x) (ri_dimensions inp))
                   \<and> (specificity r, finest_depth r (case_option [] (\<lambda>x. x) (ri_depths inp)))
                     < (specificity r', finest_depth r' (case_option [] (\<lambda>x. x) (ri_depths inp))))
                (ri_rules inp) = [])
   | RdDefault t \<Rightarrow>
       \<not> not_blank (ri_explicit_team_id inp) \<and> ri_default_team_id inp = Some t \<and> trim t \<noteq> []
       \<and> resolve_owner (ri_rules inp) (case_option [] (\<lambda>x. x) (ri_dimensions inp)) = None
   | RdUnrouted \<Rightarrow>
       \<not> not_blank (ri_explicit_team_id inp) \<and> \<not> not_blank (ri_default_team_id inp)
       \<and> resolve_owner (ri_rules inp) (case_option [] (\<lambda>x. x) (ri_dimensions inp)) = None"
proof (cases "not_blank (ri_explicit_team_id inp)")
  case True
  then show ?thesis by (auto simp: route_def routed_plain_def not_blank_def split: option.splits)
next
  case False
  let ?d = "case_option [] (\<lambda>x. x) (ri_dimensions inp)"
  let ?ranks = "case_option [] (\<lambda>x. x) (ri_depths inp)"
  show ?thesis
  proof (cases "resolve_owner_ranked (ri_rules inp) ?d ?ranks")
    case None
    then have "resolve_owner (ri_rules inp) ?d = None"
      by (simp add: resolve_owner_def resolve_owner_ranked_None)
    with None False show ?thesis
      by (auto simp: route_def Let_def not_blank_def split: option.splits)
  next
    case (Some r)
    note win = Some [unfolded resolve_owner_ranked_def]
    have r: "r \<in> set (ri_rules inp)" "is_ok (ownership_validate r)" "rule_matches r ?d"
      using ownership.max_by_in [OF win] by auto
    have "\<not> (specificity r, finest_depth r ?ranks) < (specificity r', finest_depth r' ?ranks)"
      if "r' \<in> set (ri_rules inp)" "is_ok (ownership_validate r')" "rule_matches r' ?d" for r'
    proof -
      have "ownership_key ?ranks r' \<le> ownership_key ?ranks r" using ownership.max_by_ge [OF win, of r'] that by simp
      then show ?thesis by (auto simp: ownership_key_def)
    qed
    with r Some False show ?thesis
      by (auto simp: route_def routed_plain_def filter_empty_conv intro!: exI [of _ r])
  qed
qed

text \<open>
  The unrouted queue asks what routing would ask: whatever depths an org has configured, an
  open entry is outstanding exactly when routing a signal with its dimensions and no explicit
  team would still find no owner.
\<close>

theorem outstanding_is_unowned:
  "s \<in> set (outstanding signals rules) \<longleftrightarrow>
     s \<in> set signals \<and> us_dismissed_at s = None
     \<and> rd_decision (route \<lparr>ri_explicit_team_id = None, ri_rules = rules,
           ri_dimensions = Some (us_dimensions s), ri_default_team_id = None, ri_depths = depths\<rparr>) = RdUnrouted"
proof -
  have "us_is_covered_by s rules \<longleftrightarrow>
      resolve_owner_ranked rules (us_dimensions s) (case_option [] (\<lambda>x. x) depths) \<noteq> None"
    by (simp add: us_is_covered_by_def resolve_owner_def resolve_owner_ranked_None)
  then show ?thesis
    by (auto simp: outstanding_def us_is_open_def route_def not_blank_def routed_plain_def Let_def
             split: option.splits)
qed

text \<open>
  A value of several stars passes validation; only one star is taken off when matching, so
  \<open>**\<close> claims the values that begin with a star.
\<close>

lemma double_star_valid:
  "ownership_validate (sample_owner ''x'' [(''host'', ''**'')]) = Ok ()"
  by code_simp

end
