(* ===== verification/Oncall_Team.thy ===== *)
theory Oncall_Team
  imports Oncall_Schedule
begin

text \<open>
  Teams and schedules (\<open>src/config/src/meta/oncall/team.rs\<close>): a team's rotations with the
  covers and absences in force, where a new member goes, what removing one leaves behind, the
  reads that resolve a schedule and the sweep for coverage gaps.

  \<open>Schedule::tz\<close> parses an IANA name with chrono_tz and falls back to UTC: the parser is the
  argument \<open>tz_of\<close>, the fallback the zone \<open>utc\<close> of \<open>Oncall_Rotation\<close>.
\<close>

section \<open>Teams and their members\<close>

record team =
  tm_id :: string
  tm_org_id :: string
  tm_name :: string
  tm_timezone :: string
  tm_description :: "string option"
  tm_channel_destinations :: "string list option"
  tm_created_at :: int
  tm_updated_at :: int

record team_member =
  mb_id :: string
  mb_team_id :: string
  mb_user_email :: string

record schedule =
  sch_id :: string
  sch_org_id :: string
  sch_team_id :: string
  sch_timezone :: string
  sch_rotations :: "rotation list"
  sch_overrides :: "schedule_override list"
  sch_unavailability :: "unavailability list"
  sch_created_at :: int
  sch_updated_at :: int

datatype member_placement =
    AlreadyOnRotation
  | Appended string "rotation list"
  | NoRotationYet
  | NeedsManualPlacement

text \<open>The key people are compared by.\<close>

definition email_key :: "string \<Rightarrow> string" where
  "email_key m = to_ascii_lowercase (trim m)"

definition rule_names :: "string \<Rightarrow> shift_rule \<Rightarrow> bool" where
  "rule_names email r \<longleftrightarrow> list_ex (\<lambda>m. email_key m = email) (sr_members r)"

definition rotation_names_email :: "string \<Rightarrow> rotation \<Rightarrow> bool" where
  "rotation_names_email email rot \<longleftrightarrow> list_ex (rule_names email) (rot_shift_rules rot)"

definition simple_rotation :: "rotation \<Rightarrow> bool" where
  "simple_rotation rot =
     (case rot_shift_rules rot of
        [only] \<Rightarrow> sr_restrictions only = [] \<and> sr_priority only = 0
      | _ \<Rightarrow> False)"

definition append_member :: "string \<Rightarrow> rotation \<Rightarrow> rotation" where
  "append_member email rot =
     rot\<lparr>rot_shift_rules :=
       (case rot_shift_rules rot of
          [] \<Rightarrow> []
        | r # rs \<Rightarrow> r\<lparr>sr_members := sr_members r @ [email]\<rparr> # rs)\<rparr>"

definition place_member :: "rotation list \<Rightarrow> string \<Rightarrow> member_placement" where
  "place_member rotations user_email =
     (let email = email_key user_email in
      if list_ex (rotation_names_email email) rotations then AlreadyOnRotation
      else if rotations = [] then NoRotationYet
      else if list_all simple_rotation rotations
      then Appended (join '', '' (map rot_name rotations)) (map (append_member email) rotations)
      else NeedsManualPlacement)"

record member_removal =
  rm_rotations :: "rotation list"
  rm_emptied_rotations :: "string list"
  rm_changed :: bool
  rm_leaves_no_rotation :: bool

definition coverage_warning :: "member_removal \<Rightarrow> string option" where
  "coverage_warning r =
     (if rm_emptied_rotations r = [] then None
      else (let names = join '', '' (rm_emptied_rotations r) in
            Some (if rm_leaves_no_rotation r
                  then ''removing this member emptied the last rotation ('' @ names
                       @ ''); the team now pages nobody''
                  else ''removing this member emptied the rotation(s) '' @ names
                       @ '', which now staff nobody'')))"

datatype team_error =
    TeamEmptyName
  | AmbiguousRotations
  | InvalidRotation rotation_error
  | DuplicateRotationId string

fun team_error_display :: "team_error \<Rightarrow> string" where
  "team_error_display TeamEmptyName = ''team name cannot be empty''"
| "team_error_display AmbiguousRotations =
     ''two rotations apply at the same time with equal priority and restrictions''"
| "team_error_display (InvalidRotation e) = ''invalid rotation: '' @ rotation_error_display e"
| "team_error_display (DuplicateRotationId i) =
     ''two rotations share the id `'' @ i @ ''`, so a level naming it would be ambiguous''"

definition team_validate :: "team \<Rightarrow> (unit, team_error) result" where
  "team_validate t = (if trim (tm_name t) = [] then Err TeamEmptyName else Ok ())"

section \<open>Reading a schedule\<close>

definition MAX_COVERAGE_PROBES :: nat where "MAX_COVERAGE_PROBES = 2000"

definition sch_tz :: "(string \<Rightarrow> zone option) \<Rightarrow> schedule \<Rightarrow> zone" where
  "sch_tz tz_of s = (case tz_of (sch_timezone s) of Some z \<Rightarrow> z | None \<Rightarrow> utc)"

definition sch_rotation_names :: "schedule \<Rightarrow> string list" where
  "sch_rotation_names s = map rot_name (filter (\<lambda>r. is_ok (rotation_validate r)) (sch_rotations s))"

definition sch_rotation :: "schedule \<Rightarrow> string \<Rightarrow> rotation option" where
  "sch_rotation s rotation_id = List.find (\<lambda>r. rot_id r = rotation_id) (sch_rotations s)"

definition has_several_rotations :: "schedule \<Rightarrow> bool" where
  "has_several_rotations s \<longleftrightarrow> length (filter (\<lambda>r. is_ok (rotation_validate r)) (sch_rotations s)) > 1"

definition primary_rotation :: "schedule \<Rightarrow> rotation option" where
  "primary_rotation s =
     (case List.find (\<lambda>r. eq_ignore_ascii_case (rot_name r) DEFAULT_ROTATION_NAME)
             (filter (\<lambda>r. is_ok (rotation_validate r)) (sch_rotations s)) of
        Some r \<Rightarrow> Some r
      | None \<Rightarrow> List.find (\<lambda>r. is_ok (rotation_validate r)) (sch_rotations s))"

definition on_call_at :: "(string \<Rightarrow> zone option) \<Rightarrow> schedule \<Rightarrow> int \<Rightarrow> on_call_position list" where
  "on_call_at tz_of s at =
     resolve_on_call (sch_rotations s) (sch_overrides s) (sch_unavailability s) at (sch_tz tz_of s)"

definition on_call_in :: "(string \<Rightarrow> zone option) \<Rightarrow> schedule \<Rightarrow> string \<Rightarrow> int \<Rightarrow> string option" where
  "on_call_in tz_of s rotation_id at =
     Option.bind (sch_rotation s rotation_id)
       (\<lambda>r. on_call r (sch_overrides s) (sch_unavailability s) at (sch_tz tz_of s))"

definition everyone_in :: "(string \<Rightarrow> zone option) \<Rightarrow> schedule \<Rightarrow> string \<Rightarrow> int \<Rightarrow> string list" where
  "everyone_in tz_of s rotation_id at =
     (case sch_rotation s rotation_id of
        Some r \<Rightarrow> everyone r (sch_overrides s) (sch_unavailability s) at (sch_tz tz_of s)
      | None \<Rightarrow> [])"

definition sch_everyone_on_call :: "(string \<Rightarrow> zone option) \<Rightarrow> schedule \<Rightarrow> int \<Rightarrow> string list" where
  "sch_everyone_on_call tz_of s at =
     everyone_on_call (sch_rotations s) (sch_overrides s) (sch_unavailability s) at (sch_tz tz_of s)"

definition collisions_at ::
    "(string \<Rightarrow> zone option) \<Rightarrow> schedule \<Rightarrow> int \<Rightarrow> (string \<times> rotation list) list" where
  "collisions_at tz_of s at =
     colliding_rotations (sch_rotations s) (sch_overrides s) (sch_unavailability s) at (sch_tz tz_of s)"

definition resolved_window ::
    "(string \<Rightarrow> zone option) \<Rightarrow> schedule \<Rightarrow> string \<Rightarrow> int \<Rightarrow> int
     \<Rightarrow> (coverage_segment list, grid_error) result" where
  "resolved_window tz_of s rotation_id frm to =
     (case sch_rotation s rotation_id of
        None \<Rightarrow> Ok []
      | Some r \<Rightarrow> resolve_window r (sch_overrides s) (sch_unavailability s) frm to (sch_tz tz_of s))"

definition sch_away_assignments ::
    "(string \<Rightarrow> zone option) \<Rightarrow> schedule \<Rightarrow> int \<Rightarrow> int \<Rightarrow> away_shift list" where
  "sch_away_assignments tz_of s frm to =
     away_assignments (sch_rotations s) (sch_unavailability s) frm to (sch_tz tz_of s) MAX_AWAY_SHIFTS"

definition is_staffed :: "(string \<Rightarrow> zone option) \<Rightarrow> schedule \<Rightarrow> int \<Rightarrow> bool" where
  "is_staffed tz_of s at \<longleftrightarrow>
     Option.bind (primary_rotation s)
       (\<lambda>r. on_call r (sch_overrides s) (sch_unavailability s) at (sch_tz tz_of s)) \<noteq> None"

definition unstaffed_rotations :: "(string \<Rightarrow> zone option) \<Rightarrow> schedule \<Rightarrow> int \<Rightarrow> string list" where
  "unstaffed_rotations tz_of s at =
     (let primary = map_option rot_id (primary_rotation s) in
      map rot_name
        (filter (\<lambda>r. on_call r (sch_overrides s) (sch_unavailability s) at (sch_tz tz_of s) = None)
          (filter (\<lambda>r. Some (rot_id r) \<noteq> primary)
            (filter (\<lambda>r. is_ok (rotation_validate r)) (sch_rotations s)))))"

definition sch_next_handover :: "(string \<Rightarrow> zone option) \<Rightarrow> schedule \<Rightarrow> int \<Rightarrow> int option" where
  "sch_next_handover tz_of s at =
     (let tz = sch_tz tz_of s in
      min_opt (List.map_filter (\<lambda>r. next_handover r at tz)
                 (List.map_filter (\<lambda>r. winning_rule r at tz) (sch_rotations s))))"

text \<open>The sweep's loop: \<open>k\<close> is what is left of its probes.\<close>

fun gap_walk :: "nat \<Rightarrow> (string \<Rightarrow> zone option) \<Rightarrow> schedule \<Rightarrow> int \<Rightarrow> int \<Rightarrow> int \<Rightarrow> int option" where
  "gap_walk 0 tz_of s until step at = None"
| "gap_walk (Suc k) tz_of s until step at =
     (if at < until
      then if \<not> is_staffed tz_of s at then Some at
           else (let capped = saturating_add at step in
                 gap_walk k tz_of s until step
                   (case sch_next_handover tz_of s at of
                      Some nxt \<Rightarrow> if nxt > at then min nxt capped else capped
                    | None \<Rightarrow> capped))
      else None)"

definition first_coverage_gap ::
    "(string \<Rightarrow> zone option) \<Rightarrow> schedule \<Rightarrow> int \<Rightarrow> int \<Rightarrow> int \<Rightarrow> int option" where
  "first_coverage_gap tz_of s frm horizon max_step =
     gap_walk MAX_COVERAGE_PROBES tz_of s (saturating_add frm horizon) (max max_step 1) frm"

section \<open>Leaving a team\<close>

definition names_member :: "schedule \<Rightarrow> string \<Rightarrow> bool" where
  "names_member s user_email \<longleftrightarrow>
     (let email = email_key user_email in
      list_ex (rotation_names_email email) (sch_rotations s)
      \<or> list_ex (\<lambda>o1. email_key (ov_user_email o1) = email) (sch_overrides s)
      \<or> list_ex (\<lambda>u. email_key (un_user_email u) = email) (sch_unavailability s))"

text \<open>The inner loop, over the rules of one rotation: what is kept, and whether anything changed.\<close>

fun keep_rules :: "string \<Rightarrow> shift_rule list \<Rightarrow> shift_rule list \<times> bool" where
  "keep_rules email [] = ([], False)"
| "keep_rules email (r # rs) =
     (let kept = filter (\<lambda>m. email_key m \<noteq> email) (sr_members r);
          rest = keep_rules email rs
      in (if kept = [] then fst rest else r\<lparr>sr_members := kept\<rparr> # fst rest,
          length kept \<noteq> length (sr_members r) \<or> snd rest))"

fun keep_rotations :: "string \<Rightarrow> rotation list \<Rightarrow> rotation list \<times> string list \<times> bool" where
  "keep_rotations email [] = ([], [], False)"
| "keep_rotations email (rot # rots) =
     (let kept = keep_rules email (rot_shift_rules rot);
          rest = keep_rotations email rots
      in case rest of (rotations, emptied, changed) \<Rightarrow>
           if fst kept = [] then (rotations, rot_name rot # emptied, snd kept \<or> changed)
           else (rot\<lparr>rot_shift_rules := fst kept\<rparr> # rotations, emptied, snd kept \<or> changed))"

definition without_member :: "schedule \<Rightarrow> string \<Rightarrow> member_removal" where
  "without_member s user_email =
     (case keep_rotations (email_key user_email) (sch_rotations s) of
        (rotations, emptied, changed) \<Rightarrow>
          \<lparr>rm_rotations = rotations, rm_emptied_rotations = emptied, rm_changed = changed,
           rm_leaves_no_rotation = (changed \<and> rotations = [])\<rparr>)"

section \<open>Validation\<close>

fun check_rule_keys :: "(int \<times> time_window list) list \<Rightarrow> shift_rule list \<Rightarrow> (unit, team_error) result" where
  "check_rule_keys seen [] = Ok ()"
| "check_rule_keys seen (r # rs) =
     (let key = (sr_priority r, sr_restrictions r) in
      if key \<in> set seen then Err AmbiguousRotations else check_rule_keys (key # seen) rs)"

fun check_rotations :: "string set \<Rightarrow> rotation list \<Rightarrow> (unit, team_error) result" where
  "check_rotations seen [] = Ok ()"
| "check_rotations seen (rot # rots) =
     (case rotation_validate rot of
        Inl e \<Rightarrow> Err (InvalidRotation e)
      | Inr _ \<Rightarrow>
          if email_key (rot_id rot) \<in> seen then Err (DuplicateRotationId (rot_id rot))
          else case check_rule_keys [] (rot_shift_rules rot) of
                 Inl e \<Rightarrow> Err e
               | Inr _ \<Rightarrow> check_rotations (insert (email_key (rot_id rot)) seen) rots)"

definition schedule_validate :: "schedule \<Rightarrow> (unit, team_error) result" where
  "schedule_validate s = check_rotations {} (sch_rotations s)"

section \<open>Lemmas\<close>

lemma email_key_idem: "email_key (email_key m) = email_key m"
  by (simp add: email_key_def trim_lower trim_idem lower_idem)

lemma email_key_lower: "to_ascii_lowercase m = email_key x \<Longrightarrow> email_key m = email_key x"
  by (metis email_key_def email_key_idem lower_idem trim_lower)

abbreviation kept_members :: "string \<Rightarrow> shift_rule \<Rightarrow> string list" where
  "kept_members e r \<equiv> filter (\<lambda>m. email_key m \<noteq> e) (sr_members r)"

abbreviation kept_rules :: "string \<Rightarrow> shift_rule list \<Rightarrow> shift_rule list" where
  "kept_rules e rs \<equiv>
     map (\<lambda>r. r\<lparr>sr_members := kept_members e r\<rparr>) (filter (\<lambda>r. kept_members e r \<noteq> []) rs)"

lemma fst_keep_rules: "fst (keep_rules e rs) = kept_rules e rs"
  by (induction rs) (auto simp: Let_def)

lemma fst_keep_rotations:
  "fst (keep_rotations e rots) =
     map (\<lambda>rot. rot\<lparr>rot_shift_rules := kept_rules e (rot_shift_rules rot)\<rparr>)
       (filter (\<lambda>rot. kept_rules e (rot_shift_rules rot) \<noteq> []) rots)"
  by (induction rots) (auto simp: Let_def fst_keep_rules split: prod.splits)

lemma rm_rotations_eq:
  "rm_rotations (without_member s u) = fst (keep_rotations (email_key u) (sch_rotations s))"
  by (simp add: without_member_def split: prod.splits)

lemma rotation_validate_ok:
  "rotation_validate rot = Ok () \<longleftrightarrow>
     trim (rot_name rot) \<noteq> [] \<and> chars_count (rot_name rot) \<le> MAX_ROTATION_NAME_CHARS
     \<and> rot_shift_rules rot \<noteq> [] \<and> (\<forall>r \<in> set (rot_shift_rules rot). rule_validate r = Ok ())"
proof -
  have "(case rule_validate r of Inl e \<Rightarrow> Err (Rule e) | Inr _ \<Rightarrow> Ok ()) = Ok () \<longleftrightarrow> rule_validate r = Ok ()" for r
    by (simp split: sum.splits)
  then show ?thesis by (auto simp: rotation_validate_def try_each_ok)
qed

lemma check_rule_keys_ok:
  "check_rule_keys seen rs = Ok () \<longleftrightarrow>
     distinct (map (\<lambda>r. (sr_priority r, sr_restrictions r)) rs)
     \<and> set seen \<inter> (\<lambda>r. (sr_priority r, sr_restrictions r)) ` set rs = {}"
  by (induction rs arbitrary: seen) (auto simp: Let_def)

lemma check_rotations_ok:
  "check_rotations seen rots = Ok () \<longleftrightarrow>
     (\<forall>rot \<in> set rots. rotation_validate rot = Ok ()
        \<and> distinct (map (\<lambda>r. (sr_priority r, sr_restrictions r)) (rot_shift_rules rot)))
     \<and> distinct (map (\<lambda>rot. email_key (rot_id rot)) rots)
     \<and> seen \<inter> (\<lambda>rot. email_key (rot_id rot)) ` set rots = {}"
proof (induction rots arbitrary: seen)
  case (Cons rot rots)
  have "check_rotations seen (rot # rots) = Ok () \<longleftrightarrow>
      rotation_validate rot = Ok () \<and> email_key (rot_id rot) \<notin> seen
      \<and> check_rule_keys [] (rot_shift_rules rot) = Ok ()
      \<and> check_rotations (insert (email_key (rot_id rot)) seen) rots = Ok ()"
    by (simp split: sum.splits)
  then show ?case by (auto simp: Cons.IH check_rule_keys_ok)
qed simp

lemma kept_rule_valid:
  assumes "rule_validate r = Ok ()" "kept_members e r \<noteq> []"
  shows "rule_validate (r\<lparr>sr_members := kept_members e r\<rparr>) = Ok ()"
  using assms by (simp add: rule_validate_ok distinct_map_filter)

lemma kept_rotation_valid:
  assumes "rotation_validate rot = Ok ()" "kept_rules e (rot_shift_rules rot) \<noteq> []"
  shows "rotation_validate (rot\<lparr>rot_shift_rules := kept_rules e (rot_shift_rules rot)\<rparr>) = Ok ()"
  using assms by (auto simp: rotation_validate_ok intro!: kept_rule_valid)

lemma kept_rule_keys:
  "distinct (map (\<lambda>r. (sr_priority r, sr_restrictions r)) rs) \<Longrightarrow>
   distinct (map (\<lambda>r. (sr_priority r, sr_restrictions r)) (kept_rules e rs))"
  by (simp add: comp_def distinct_map_filter)

lemma kept_none_named: "\<not> rotation_names_email e rot \<Longrightarrow> rotation_validate rot = Ok () \<Longrightarrow>
   kept_rules e (rot_shift_rules rot) = rot_shift_rules rot"
proof -
  assume not: "\<not> rotation_names_email e rot" and ok: "rotation_validate rot = Ok ()"
  have "kept_members e r = sr_members r \<and> sr_members r \<noteq> []" if "r \<in> set (rot_shift_rules rot)" for r
    using that not ok
    by (auto simp: rotation_names_email_def rule_names_def list_ex_iff rotation_validate_ok
        dest!: bspec [of _ _ r] rule_validate_members intro!: filter_True)
  then have "filter (\<lambda>r. kept_members e r \<noteq> []) (rot_shift_rules rot) = rot_shift_rules rot"
    and "map (\<lambda>r. r\<lparr>sr_members := kept_members e r\<rparr>) (rot_shift_rules rot) = rot_shift_rules rot"
    by (auto intro!: filter_True map_idI)
  then show ?thesis by simp
qed

lemma appended_rule_valid:
  assumes "rule_validate r = Ok ()" "\<not> rule_names (email_key u) r"
  shows "rule_validate (r\<lparr>sr_members := sr_members r @ [email_key u]\<rparr>) = Ok ()"
proof -
  have "to_ascii_lowercase (email_key u) = email_key u" by (simp add: email_key_def lower_idem)
  moreover have "email_key u \<notin> to_ascii_lowercase ` set (sr_members r)"
    using assms(2) email_key_lower unfolding rule_names_def list_ex_iff by (metis imageE)
  ultimately show ?thesis using assms(1) by (simp add: rule_validate_ok)
qed

lemma append_member_spec:
  assumes "simple_rotation rot" "rotation_validate rot = Ok ()" "\<not> rotation_names_email (email_key u) rot"
  shows "rotation_validate (append_member (email_key u) rot) = Ok ()"
    "last (sr_members (hd (rot_shift_rules (append_member (email_key u) rot)))) = email_key u"
    "(append_member (email_key u) rot)\<lparr>rot_shift_rules :=
        kept_rules (email_key u) (rot_shift_rules (append_member (email_key u) rot))\<rparr> = rot"
    "kept_rules (email_key u) (rot_shift_rules (append_member (email_key u) rot)) \<noteq> []"
proof -
  obtain r where r: "rot_shift_rules rot = [r]"
    using assms(1) by (auto simp: simple_rotation_def split: list.splits)
  have named: "\<not> rule_names (email_key u) r" using assms(3) r by (simp add: rotation_names_email_def)
  have ok: "rule_validate r = Ok ()" using assms(2) r by (simp add: rotation_validate_ok)
  have keep: "kept_members (email_key u) (r\<lparr>sr_members := sr_members r @ [email_key u]\<rparr>) = sr_members r"
    using named by (auto simp: rule_names_def list_ex_iff email_key_idem intro!: filter_True)
  show "rotation_validate (append_member (email_key u) rot) = Ok ()"
    using assms(2) appended_rule_valid [OF ok named] by (simp add: rotation_validate_ok append_member_def r)
  show "last (sr_members (hd (rot_shift_rules (append_member (email_key u) rot)))) = email_key u"
    by (simp add: append_member_def r)
  show "(append_member (email_key u) rot)\<lparr>rot_shift_rules :=
        kept_rules (email_key u) (rot_shift_rules (append_member (email_key u) rot))\<rparr> = rot"
    using keep rule_validate_members [OF ok] r by (simp add: append_member_def)
  show "kept_rules (email_key u) (rot_shift_rules (append_member (email_key u) rot)) \<noteq> []"
    using keep rule_validate_members [OF ok] r by (simp add: append_member_def)
qed

section \<open>Properties\<close>

text \<open>Everyone a schedule answers with at an instant, for one rotation or for the team.\<close>

definition names_at :: "(string \<Rightarrow> zone option) \<Rightarrow> schedule \<Rightarrow> string \<Rightarrow> int \<Rightarrow> string \<Rightarrow> bool" where
  "names_at tz_of s rid at p \<longleftrightarrow>
     on_call_in tz_of s rid at = Some p \<or> p \<in> set (everyone_in tz_of s rid at) \<or> p \<in> set (sch_everyone_on_call tz_of s at)"

lemma covering_override_sound:
  "covering_override_for ovs rid at = Some ov \<Longrightarrow> ov \<in> set ovs \<and> ov_covers ov at"
  using override_order.max_by_in by (fastforce simp: covering_override_for_def)

lemma order_at_members: "p \<in> set (order_at r at tz) \<Longrightarrow> p \<in> set (sr_members r)"
  by (auto simp: order_at_def Let_def map_filter_def nth_opt_def split: if_splits option.splits)

lemma on_call_sources:
  assumes "on_call rot ovs us at tz = Some p"
  shows "(\<exists>ov \<in> set ovs. ov_covers ov at \<and> ov_user_email ov = p) \<or> (\<exists>r \<in> set (rot_shift_rules rot). p \<in> set (sr_members r))"
proof (cases "covering_override_for ovs (rot_id rot) at")
  case None
  then obtain r where "winning_rule rot at tz = Some r" "List.find (\<lambda>m. \<not> is_unavailable us m at) (order_at r at tz) = Some p"
    using assms by (auto simp: on_call_def available_member_at_def bind_eq_Some_conv)
  then show ?thesis using winning_rule_sound order_at_members by (metis find_Some_iff nth_mem)
next
  case (Some ov)
  then show ?thesis using assms covering_override_sound [OF Some] by (auto simp: on_call_def)
qed

lemma everyone_sources:
  assumes "p \<in> set (everyone rot ovs us at tz)"
  shows "(\<exists>ov \<in> set ovs. ov_covers ov at \<and> ov_user_email ov = p) \<or> (\<exists>r \<in> set (rot_shift_rules rot). p \<in> set (sr_members r))"
  using assms winning_rule_sound covering_override_sound
  by (fastforce simp: everyone_def Let_def split: option.splits if_splits)

lemma position_holder: "position_at rot ovs us at tz = Some q \<Longrightarrow> on_call rot ovs us at tz = Some (oc_user_email q)"
  by (auto simp: position_at_def on_call_def Let_def)

lemma set_dedup_emails: "set (dedup_emails seen es) \<subseteq> set es"
  by (induction seen es rule: dedup_emails.induct) auto

lemma names_at_sources:
  assumes "names_at tz_of s rid at p"
  shows "(\<exists>ov \<in> set (sch_overrides s). ov_covers ov at \<and> ov_user_email ov = p) \<or>
    (\<exists>rot \<in> set (sch_rotations s). \<exists>r \<in> set (rot_shift_rules rot). p \<in> set (sr_members r))"
proof -
  have rot: "sch_rotation s rid = Some rot \<Longrightarrow> rot \<in> set (sch_rotations s)" for rot
    by (auto simp: sch_rotation_def find_Some_iff)
  consider (one) "on_call_in tz_of s rid at = Some p" | (all) "p \<in> set (everyone_in tz_of s rid at)"
    | (team) "p \<in> set (sch_everyone_on_call tz_of s at)"
    using assms by (auto simp: names_at_def)
  then show ?thesis
  proof cases
    case one
    then obtain rt where "sch_rotation s rid = Some rt" "on_call rt (sch_overrides s) (sch_unavailability s) at (sch_tz tz_of s) = Some p"
      by (auto simp: on_call_in_def bind_eq_Some_conv)
    then show ?thesis using rot on_call_sources by blast
  next
    case all
    then obtain rt where "sch_rotation s rid = Some rt" "p \<in> set (everyone rt (sch_overrides s) (sch_unavailability s) at (sch_tz tz_of s))"
      by (cases "sch_rotation s rid") (auto simp: everyone_in_def)
    then show ?thesis using rot everyone_sources by blast
  next
    case team
    then have "p \<in> oc_user_email ` set (resolve_on_call (sch_rotations s) (sch_overrides s) (sch_unavailability s) at (sch_tz tz_of s))"
      using set_dedup_emails [of "{}"] by (force simp: sch_everyone_on_call_def everyone_on_call_def)
    then obtain rot where "rot \<in> set (sch_rotations s)" "on_call rot (sch_overrides s) (sch_unavailability s) at (sch_tz tz_of s) = Some p"
      using position_holder by (fastforce simp: resolve_on_call_def map_filter_def)
    then show ?thesis using on_call_sources by blast
  qed
qed

text \<open>
  C37. Leaving a team: the rotations that remain name the leaver nowhere, a schedule that
  validated still does, and nobody else's place in a handover order moves: every remaining
  roster is the old one with the leaver's entries taken out. In any zone and at any instant the remaining schedule
  answers with the leaver, for one rotation or for the team, only through a cover that was
  left in place and is in force then, so that deleting the leaver's covers too leaves nothing that pages them.
\<close>

theorem leaver_is_gone:
  assumes "schedule_validate s = Ok ()"
  shows "schedule_validate (s\<lparr>sch_rotations := rm_rotations (without_member s u)\<rparr>) = Ok ()
     \<and> \<not> list_ex (rotation_names_email (email_key u)) (rm_rotations (without_member s u))
     \<and> map (\<lambda>rot. map sr_members (rot_shift_rules rot)) (rm_rotations (without_member s u)) =
         filter (\<lambda>ms. ms \<noteq> [])
           (map (\<lambda>rot. filter (\<lambda>ms. ms \<noteq> [])
                    (map (\<lambda>r. filter (\<lambda>m. email_key m \<noteq> email_key u) (sr_members r)) (rot_shift_rules rot)))
              (sch_rotations s))
     \<and> (\<forall>tz_of rid at p. email_key p = email_key u
          \<and> (on_call_in tz_of (s\<lparr>sch_rotations := rm_rotations (without_member s u)\<rparr>) rid at = Some p
             \<or> p \<in> set (everyone_in tz_of (s\<lparr>sch_rotations := rm_rotations (without_member s u)\<rparr>) rid at)
             \<or> p \<in> set (sch_everyone_on_call tz_of (s\<lparr>sch_rotations := rm_rotations (without_member s u)\<rparr>) at))
          \<longrightarrow> (\<exists>ov \<in> set (sch_overrides s). ov_covers ov at \<and> ov_user_email ov = p))"
proof -
  let ?e = "email_key u"
  let ?rots = "rm_rotations (without_member s u)"
  let ?s' = "s\<lparr>sch_rotations := ?rots\<rparr>"
  have rots: "?rots = map (\<lambda>rot. rot\<lparr>rot_shift_rules := kept_rules ?e (rot_shift_rules rot)\<rparr>)
       (filter (\<lambda>rot. kept_rules ?e (rot_shift_rules rot) \<noteq> []) (sch_rotations s))"
    by (simp only: rm_rotations_eq fst_keep_rotations)
  have old: "\<forall>rot \<in> set (sch_rotations s). rotation_validate rot = Ok ()
      \<and> distinct (map (\<lambda>r. (sr_priority r, sr_restrictions r)) (rot_shift_rules rot))"
    "distinct (map (\<lambda>rot. email_key (rot_id rot)) (sch_rotations s))"
    using assms by (simp_all add: schedule_validate_def check_rotations_ok)
  have "\<forall>rot \<in> set ?rots. rotation_validate rot = Ok ()
      \<and> distinct (map (\<lambda>r. (sr_priority r, sr_restrictions r)) (rot_shift_rules rot))"
    unfolding rots using old(1) kept_rotation_valid kept_rule_keys by fastforce
  moreover have "distinct (map (\<lambda>rot. email_key (rot_id rot)) ?rots)"
    unfolding rots using old(2) by (simp add: comp_def distinct_map_filter)
  ultimately have "schedule_validate (s\<lparr>sch_rotations := ?rots\<rparr>) = Ok ()"
    by (simp add: schedule_validate_def check_rotations_ok)
  moreover have "\<not> list_ex (rotation_names_email ?e) ?rots"
    unfolding rots by (auto simp: list_ex_iff rotation_names_email_def rule_names_def)
  moreover have "map (\<lambda>rot. map sr_members (rot_shift_rules rot)) ?rots =
      filter (\<lambda>ms. ms \<noteq> [])
        (map (\<lambda>rot. filter (\<lambda>ms. ms \<noteq> []) (map (kept_members ?e) (rot_shift_rules rot))) (sch_rotations s))"
    unfolding rots by (simp add: filter_map comp_def)
  moreover have "\<exists>ov \<in> set (sch_overrides s). ov_covers ov at \<and> ov_user_email ov = p"
    if "email_key p = ?e" "names_at tz_of ?s' rid at p" for tz_of rid at p
    using names_at_sources [OF that(2)] calculation(2) that(1)
    by (auto simp: list_ex_iff rotation_names_email_def rule_names_def)
  ultimately show ?thesis unfolding names_at_def by blast
qed

text \<open>
  Joining and leaving cancel out: when a new member is appended to the rotations of a team,
  every rotation stays valid and ends with the member, and removing the member again restores
  the rotations exactly.
\<close>

theorem join_then_leave:
  assumes "place_member (sch_rotations s) u = Appended names rots"
    and "schedule_validate s = Ok ()"
  shows "list_all (\<lambda>rot. rotation_validate rot = Ok () \<and> last (sr_members (hd (rot_shift_rules rot))) = email_key u) rots
     \<and> rm_rotations (without_member (s\<lparr>sch_rotations := rots\<rparr>) u) = sch_rotations s"
proof -
  let ?e = "email_key u"
  have rots: "rots = map (append_member ?e) (sch_rotations s)"
    and each: "\<forall>rot \<in> set (sch_rotations s). simple_rotation rot \<and> \<not> rotation_names_email ?e rot"
    using assms(1) by (auto simp: place_member_def Let_def list_ex_iff list_all_iff split: if_splits)
  have ok: "\<forall>rot \<in> set (sch_rotations s). rotation_validate rot = Ok ()"
    using assms(2) by (simp add: schedule_validate_def check_rotations_ok)
  note spec = append_member_spec [of _ u]
  have "list_all (\<lambda>rot. rotation_validate rot = Ok ()
      \<and> last (sr_members (hd (rot_shift_rules rot))) = ?e) rots"
    unfolding rots using each ok spec(1,2) by (auto simp: list_all_iff)
  moreover have "fst (keep_rotations ?e rots) = sch_rotations s"
  proof -
    have "filter (\<lambda>rot. kept_rules ?e (rot_shift_rules rot) \<noteq> []) rots = rots"
      unfolding rots using each ok spec(4) by (intro filter_True) auto
    moreover have "map (\<lambda>rot. rot\<lparr>rot_shift_rules := kept_rules ?e (rot_shift_rules rot)\<rparr>) rots = sch_rotations s"
      unfolding rots map_map comp_def using each ok spec(3) by (intro map_idI) blast
    ultimately show ?thesis by (simp only: fst_keep_rotations)
  qed
  ultimately show ?thesis by (simp add: rm_rotations_eq)
qed

definition sample_schedule :: schedule where
  "sample_schedule =
     \<lparr>sch_id = ''s'', sch_org_id = ''org'', sch_team_id = ''t'', sch_timezone = ''UTC'',
      sch_rotations = [sample_rotation], sch_overrides = [], sch_unavailability = [],
      sch_created_at = 0, sch_updated_at = 0\<rparr>"

lemma sample_schedule_valid: "schedule_validate sample_schedule = Ok ()"
  by code_simp

theorem leaver_is_gone_witness:
  "on_call_in (\<lambda>_. None) sample_schedule (rot_id sample_rotation) 604800000010 = Some ''bo''
   \<and> on_call_in (\<lambda>_. None) (sample_schedule\<lparr>sch_rotations := rm_rotations (without_member sample_schedule '' BO '')\<rparr>)
       (rot_id sample_rotation) 604800000010 \<noteq> Some ''bo''"
proof -
  have "on_call_in (\<lambda>_. None) sample_schedule (rot_id sample_rotation) 604800000010 = Some ''bo''" by code_simp
  moreover have "email_key ''bo'' = email_key '' BO ''" "sch_overrides sample_schedule = []" by code_simp+
  ultimately show ?thesis using leaver_is_gone [OF sample_schedule_valid, of "'' BO ''"] by auto
qed

theorem join_then_leave_witness:
  "\<exists>rots. place_member (sch_rotations sample_schedule) ''Dee '' = Appended ''Primary'' rots
     \<and> rm_rotations (without_member (sample_schedule\<lparr>sch_rotations := rots\<rparr>) ''Dee '') = [sample_rotation]"
proof -
  have p: "place_member (sch_rotations sample_schedule) ''Dee '' =
      Appended ''Primary'' [append_member ''dee'' sample_rotation]"
    by code_simp
  have "sch_rotations sample_schedule = [sample_rotation]" by (simp add: sample_schedule_def)
  then show ?thesis using join_then_leave [OF p sample_schedule_valid] p by simp
qed

end
