(* ===== verification/Oncall_Preset.thy ===== *)
theory Oncall_Preset
  imports Oncall_Team
begin

text \<open>
  Schedule presets (\<open>src/config/src/meta/oncall/preset.rs\<close>): the four shapes a team can start
  from, their validation and the shift rules they build. The catalogue of form descriptions at
  the end of the file is static text and is left out.

  Fields of errors are the request's own field paths, as the source formats them.
\<close>

section \<open>Requests\<close>

definition RESTRICTED_PRIORITY :: int where "RESTRICTED_PRIORITY = 10"
definition CATCH_ALL_PRIORITY :: int where "CATCH_ALL_PRIORITY = 0"
definition DEFAULT_HANDOVER_MICROS :: int where "DEFAULT_HANDOVER_MICROS = MICROS_PER_WEEK"
definition MIN_HANDOVER_MICROS :: int where "MIN_HANDOVER_MICROS = 60 * 60 * 1000000"
definition MAX_HANDOVER_MICROS :: int where "MAX_HANDOVER_MICROS = 366 * MICROS_PER_DAY"
definition MIN_FOLLOW_THE_SUN_GROUPS :: nat where "MIN_FOLLOW_THE_SUN_GROUPS = 2"
definition MAX_FOLLOW_THE_SUN_GROUPS :: nat where "MAX_FOLLOW_THE_SUN_GROUPS = 4"
definition MAX_GROUP_MEMBERS :: nat where "MAX_GROUP_MEMBERS = 100"

lemmas [oncall_defs] =
  RESTRICTED_PRIORITY_def CATCH_ALL_PRIORITY_def DEFAULT_HANDOVER_MICROS_def MIN_HANDOVER_MICROS_def
  MAX_HANDOVER_MICROS_def MIN_FOLLOW_THE_SUN_GROUPS_def MAX_FOLLOW_THE_SUN_GROUPS_def
  MAX_GROUP_MEMBERS_def MINUTES_PER_DAY_def

definition default_business_days :: "nat list" where "default_business_days = [0, 1, 2, 3, 4]"
definition default_business_start :: nat where "default_business_start = 9 * 60"
definition default_business_end :: nat where "default_business_end = 17 * 60"

datatype preset_id = FollowTheSunId | WeekdayWeekendId | SplitTheWeekId | BusinessHoursPlusNightsId

fun preset_id_as_str :: "preset_id \<Rightarrow> string" where
  "preset_id_as_str FollowTheSunId = ''follow_the_sun''"
| "preset_id_as_str WeekdayWeekendId = ''weekday_weekend''"
| "preset_id_as_str SplitTheWeekId = ''split_the_week''"
| "preset_id_as_str BusinessHoursPlusNightsId = ''business_hours_plus_nights''"

record group =
  gr_name :: "string option"
  gr_members :: "string list"

record region_group =
  rg_name :: string
  rg_members :: "string list"
  rg_start_minute :: nat
  rg_end_minute :: nat

datatype preset_spec =
    FollowTheSun "region_group list" "group option"
  | WeekdayWeekend group group
  | SplitTheWeek group group nat nat
  | BusinessHoursPlusNights group group "nat list" nat nat

datatype preset_error =
    GroupCount string nat nat nat
  | EmptyGroup string
  | TooManyMembers string nat nat
  | BlankName string
  | PresetDuplicateMember string string
  | MinuteOutOfRange string nat nat
  | EmptyWindow string nat
  | DayOutOfRange string nat
  | DuplicateDay string nat
  | NoDays string
  | OverlappingWindows string string nat
  | BoundaryAtWeekStart
  | HandoverOutOfRange int int int

fun preset_error_display :: "preset_error \<Rightarrow> string" where
  "preset_error_display (GroupCount field mn mx got) =
     ''`'' @ field @ ''` must hold between '' @ show_nat mn @ '' and '' @ show_nat mx @ '' groups, got '' @ show_nat got"
| "preset_error_display (EmptyGroup field) =
     ''`'' @ field @ ''` has nobody in it, so the layer it builds would page nobody''"
| "preset_error_display (TooManyMembers field mx got) =
     ''`'' @ field @ ''` holds '' @ show_nat got @ '' members, which is more than the '' @ show_nat mx
     @ '' a rotation may have''"
| "preset_error_display (BlankName field) =
     ''`'' @ field @ ''` is blank; a layer needs a name to be told apart from the others on a calendar''"
| "preset_error_display (PresetDuplicateMember field email) =
     ''`'' @ field @ ''` names `'' @ email @ ''` twice, which would double their share of the on-call load''"
| "preset_error_display (MinuteOutOfRange field got mx) =
     ''`'' @ field @ ''` is '' @ show_nat got @ ''; minutes past midnight must be between 0 and '' @ show_nat mx"
| "preset_error_display (EmptyWindow field minute) =
     ''`'' @ field @ ''` starts and ends at minute '' @ show_nat minute
     @ '', so the layer would apply at no instant at all''"
| "preset_error_display (DayOutOfRange field got) =
     ''`'' @ field @ ''` is '' @ show_nat got @ ''; days are 0 (Monday) to 6 (Sunday)''"
| "preset_error_display (DuplicateDay field got) = ''`'' @ field @ ''` names day '' @ show_nat got @ '' twice''"
| "preset_error_display (NoDays field) =
     ''`'' @ field @ ''` is empty; name at least one day, 0 (Monday) to 6 (Sunday)''"
| "preset_error_display (OverlappingWindows fst_name snd_name minute) =
     ''`'' @ fst_name @ ''` and `'' @ snd_name @ ''` both cover minute '' @ show_nat minute
     @ '' of the day; regional layers must not overlap, or which of them holds that hour is arbitrary''"
| "preset_error_display BoundaryAtWeekStart =
     ''`boundary_day` 0 with `boundary_minute` 0 is the start of the week, which gives `first` none of it; split somewhere inside the week''"
| "preset_error_display (HandoverOutOfRange got mn mx) =
     ''`handover_micros` is '' @ show_int got @ ''; it must be between '' @ show_int mn @ '' and '' @ show_int mx
     @ '' microseconds''"

fun preset_spec_id :: "preset_spec \<Rightarrow> preset_id" where
  "preset_spec_id (FollowTheSun _ _) = FollowTheSunId"
| "preset_spec_id (WeekdayWeekend _ _) = WeekdayWeekendId"
| "preset_spec_id (SplitTheWeek _ _ _ _) = SplitTheWeekId"
| "preset_spec_id (BusinessHoursPlusNights _ _ _ _ _) = BusinessHoursPlusNightsId"

fun preset_members :: "preset_spec \<Rightarrow> string list" where
  "preset_members (FollowTheSun groups catch_all) =
     concat (map rg_members groups) @ (case catch_all of Some c \<Rightarrow> gr_members c | None \<Rightarrow> [])"
| "preset_members (WeekdayWeekend weekdays weekend) = gr_members weekdays @ gr_members weekend"
| "preset_members (SplitTheWeek fst_group snd_group _ _) = gr_members fst_group @ gr_members snd_group"
| "preset_members (BusinessHoursPlusNights business_hours after_hours _ _ _) =
     gr_members business_hours @ gr_members after_hours"

definition map_group :: "(string \<Rightarrow> string) \<Rightarrow> group \<Rightarrow> group" where
  "map_group f g = g\<lparr>gr_members := map f (gr_members g)\<rparr>"

fun map_members :: "(string \<Rightarrow> string) \<Rightarrow> preset_spec \<Rightarrow> preset_spec" where
  "map_members f (FollowTheSun groups catch_all) =
     FollowTheSun (map (\<lambda>g. g\<lparr>rg_members := map f (rg_members g)\<rparr>) groups) (map_option (map_group f) catch_all)"
| "map_members f (WeekdayWeekend weekdays weekend) = WeekdayWeekend (map_group f weekdays) (map_group f weekend)"
| "map_members f (SplitTheWeek fst_group snd_group d m) =
     SplitTheWeek (map_group f fst_group) (map_group f snd_group) d m"
| "map_members f (BusinessHoursPlusNights b a days s e) =
     BusinessHoursPlusNights (map_group f b) (map_group f a) days s e"

section \<open>Validation\<close>

fun preset_check_members :: "string set \<Rightarrow> string \<Rightarrow> string list \<Rightarrow> (unit, preset_error) result" where
  "preset_check_members seen field [] = Ok ()"
| "preset_check_members seen field (m # ms) =
     (if email_key m \<in> seen then Err (PresetDuplicateMember field m)
      else preset_check_members (insert (email_key m) seen) field ms)"

definition validate_members :: "string list \<Rightarrow> string \<Rightarrow> (unit, preset_error) result" where
  "validate_members members field =
     (if members = [] then Err (EmptyGroup field)
      else if length members > MAX_GROUP_MEMBERS
      then Err (TooManyMembers field MAX_GROUP_MEMBERS (length members))
      else preset_check_members {} field members)"

definition validate_group :: "group \<Rightarrow> string \<Rightarrow> (unit, preset_error) result" where
  "validate_group g field =
     (if (case gr_name g of Some name \<Rightarrow> trim name = [] | None \<Rightarrow> False) then Err (BlankName (field @ ''.name''))
      else validate_members (gr_members g) (field @ ''.members''))"

definition validate_day :: "nat \<Rightarrow> string \<Rightarrow> (unit, preset_error) result" where
  "validate_day day field = (if day > 6 then Err (DayOutOfRange field day) else Ok ())"

definition validate_window :: "nat \<Rightarrow> nat \<Rightarrow> string \<Rightarrow> string \<Rightarrow> (unit, preset_error) result" where
  "validate_window start_minute end_minute start_field end_field =
     (if start_minute \<ge> MINUTES_PER_DAY
      then Err (MinuteOutOfRange start_field start_minute (MINUTES_PER_DAY - 1))
      else if end_minute > MINUTES_PER_DAY then Err (MinuteOutOfRange end_field end_minute MINUTES_PER_DAY)
      else if start_minute = end_minute then Err (EmptyWindow start_field start_minute)
      else Ok ())"

definition region_window :: "region_group \<Rightarrow> time_window" where
  "region_window g = \<lparr>tw_days = [], tw_start_minute = rg_start_minute g, tw_end_minute = rg_end_minute g\<rparr>"

text \<open>The inner loop over the regions at one minute, with the region that holds it so far.\<close>

fun overlap_at :: "nat \<Rightarrow> string option \<Rightarrow> region_group list \<Rightarrow> (unit, preset_error) result" where
  "overlap_at minute holder [] = Ok ()"
| "overlap_at minute holder (g # gs) =
     (if \<not> covers_local (region_window g) 0 minute then overlap_at minute holder gs
      else case holder of
             None \<Rightarrow> overlap_at minute (Some (rg_name g)) gs
           | Some h \<Rightarrow> Err (OverlappingWindows h (rg_name g) minute))"

definition validate_no_overlap :: "region_group list \<Rightarrow> (unit, preset_error) result" where
  "validate_no_overlap groups = try_each (\<lambda>minute. overlap_at minute None groups) [0..<MINUTES_PER_DAY]"

definition and_then :: "(unit, 'e) result \<Rightarrow> (unit, 'e) result \<Rightarrow> (unit, 'e) result" where
  "and_then a b = (case a of Inl e \<Rightarrow> Err e | Inr _ \<Rightarrow> b)"

definition group_field :: "nat \<Rightarrow> string \<Rightarrow> string" where
  "group_field i suffix = ''groups['' @ show_nat i @ '']'' @ suffix"

definition validate_region :: "nat \<times> region_group \<Rightarrow> (unit, preset_error) result" where
  "validate_region ig =
     (case ig of (i, g) \<Rightarrow>
        if trim (rg_name g) = [] then Err (BlankName (group_field i ''.name''))
        else and_then (validate_members (rg_members g) (group_field i ''.members''))
               (validate_window (rg_start_minute g) (rg_end_minute g)
                  (group_field i ''.start_minute'') (group_field i ''.end_minute'')))"

fun check_days :: "nat set \<Rightarrow> nat list \<Rightarrow> (unit, preset_error) result" where
  "check_days seen [] = Ok ()"
| "check_days seen (d # ds) =
     and_then (validate_day d ''days'')
       (if d \<in> seen then Err (DuplicateDay ''days'' d) else check_days (insert d seen) ds)"

definition preset_validate :: "preset_spec \<Rightarrow> int \<Rightarrow> (unit, preset_error) result" where
  "preset_validate spec handover_micros =
     (if \<not> (MIN_HANDOVER_MICROS \<le> handover_micros \<and> handover_micros \<le> MAX_HANDOVER_MICROS)
      then Err (HandoverOutOfRange handover_micros MIN_HANDOVER_MICROS MAX_HANDOVER_MICROS)
      else case spec of
        FollowTheSun groups catch_all \<Rightarrow>
          if \<not> (MIN_FOLLOW_THE_SUN_GROUPS \<le> length groups \<and> length groups \<le> MAX_FOLLOW_THE_SUN_GROUPS)
          then Err (GroupCount ''groups'' MIN_FOLLOW_THE_SUN_GROUPS MAX_FOLLOW_THE_SUN_GROUPS (length groups))
          else and_then (try_each validate_region (enumerate 0 groups))
                 (and_then (validate_no_overlap groups)
                    (case catch_all of Some c \<Rightarrow> validate_group c ''catch_all'' | None \<Rightarrow> Ok ()))
      | WeekdayWeekend weekdays weekend \<Rightarrow>
          and_then (validate_group weekdays ''weekdays'') (validate_group weekend ''weekend'')
      | SplitTheWeek fst_group snd_group boundary_day boundary_minute \<Rightarrow>
          and_then (validate_group fst_group ''first'')
            (and_then (validate_group snd_group ''second'')
               (and_then (validate_day boundary_day ''boundary_day'')
                  (if boundary_minute \<ge> MINUTES_PER_DAY
                   then Err (MinuteOutOfRange ''boundary_minute'' boundary_minute (MINUTES_PER_DAY - 1))
                   else if boundary_day = 0 \<and> boundary_minute = 0 then Err BoundaryAtWeekStart
                   else Ok ())))
      | BusinessHoursPlusNights business_hours after_hours days start_minute end_minute \<Rightarrow>
          and_then (validate_group business_hours ''business_hours'')
            (and_then (validate_group after_hours ''after_hours'')
               (if days = [] then Err (NoDays ''days'')
                else and_then (check_days {} days)
                       (validate_window start_minute end_minute ''start_minute'' ''end_minute''))))"

section \<open>Building the rules\<close>

definition first_half_windows :: "nat \<Rightarrow> nat \<Rightarrow> time_window list" where
  "first_half_windows boundary_day boundary_minute =
     (if boundary_day > 0
      then [\<lparr>tw_days = [0..<boundary_day], tw_start_minute = 0, tw_end_minute = MINUTES_PER_DAY\<rparr>] else [])
     @ (if boundary_minute > 0
        then [\<lparr>tw_days = [boundary_day], tw_start_minute = 0, tw_end_minute = boundary_minute\<rparr>] else [])"

definition group_name :: "group option \<Rightarrow> string \<Rightarrow> string" where
  "group_name g fallback =
     (case Option.bind g gr_name of
        Some n \<Rightarrow> if trim n \<noteq> [] then trim n else fallback
      | None \<Rightarrow> fallback)"

fun first_spellings :: "string set \<Rightarrow> string list \<Rightarrow> string list" where
  "first_spellings seen [] = []"
| "first_spellings seen (m # ms) =
     (if email_key m \<in> seen then first_spellings seen ms
      else m # first_spellings (insert (email_key m) seen) ms)"

definition preset_everyone :: "string list list \<Rightarrow> string list" where
  "preset_everyone groups = first_spellings {} (concat groups)"

definition week_start :: "int \<Rightarrow> zone \<Rightarrow> int" where
  "week_start at tz =
     (case to_local_micros tz at of
        None \<Rightarrow> at
      | Some local \<Rightarrow>
          (let midnight = (local - local mod MICROS_PER_DAY) - int (z_weekday tz local) * MICROS_PER_DAY
           in case z_from_local tz midnight of
                LSingle dt \<Rightarrow> dt
              | LAmbiguous dt _ \<Rightarrow> dt
              | LNone \<Rightarrow> at))"

definition layer :: "int \<Rightarrow> int \<Rightarrow> string \<Rightarrow> string list \<Rightarrow> int \<Rightarrow> time_window list \<Rightarrow> shift_rule" where
  "layer handover_micros anchor name members priority restrictions =
     \<lparr>sr_name = name, sr_members = members, sr_shift_micros = handover_micros,
      sr_anchor_micros = anchor, sr_priority = priority, sr_restrictions = restrictions,
      sr_starts_at = None, sr_ends_at = None\<rparr>"

definition build_layers :: "(string \<Rightarrow> string list \<Rightarrow> int \<Rightarrow> time_window list \<Rightarrow> shift_rule) \<Rightarrow> preset_spec \<Rightarrow> shift_rule list" where
  "build_layers mk spec =
     (case spec of
        FollowTheSun groups catch_all \<Rightarrow>
          map (\<lambda>g. mk (trim (rg_name g)) (rg_members g) RESTRICTED_PRIORITY [region_window g]) groups
          @ [mk (group_name catch_all ''Follow-the-sun catch-all'')
               (case catch_all of
                  Some c \<Rightarrow> gr_members c
                | None \<Rightarrow> preset_everyone (map rg_members groups))
               CATCH_ALL_PRIORITY []]
      | WeekdayWeekend weekdays weekend \<Rightarrow>
          [mk (group_name (Some weekdays) ''Weekdays'') (gr_members weekdays) RESTRICTED_PRIORITY
             [\<lparr>tw_days = default_business_days, tw_start_minute = 0, tw_end_minute = MINUTES_PER_DAY\<rparr>],
           mk (group_name (Some weekend) ''Weekend'') (gr_members weekend) CATCH_ALL_PRIORITY []]
      | SplitTheWeek fst_group snd_group boundary_day boundary_minute \<Rightarrow>
          [mk (group_name (Some fst_group) ''First half of the week'') (gr_members fst_group)
             RESTRICTED_PRIORITY (first_half_windows boundary_day boundary_minute),
           mk (group_name (Some snd_group) ''Second half of the week'') (gr_members snd_group)
             CATCH_ALL_PRIORITY []]
      | BusinessHoursPlusNights business_hours after_hours days start_minute end_minute \<Rightarrow>
          [mk (group_name (Some business_hours) ''Business hours'') (gr_members business_hours)
             RESTRICTED_PRIORITY
             [\<lparr>tw_days = days, tw_start_minute = start_minute, tw_end_minute = end_minute\<rparr>],
           mk (group_name (Some after_hours) ''Nights and weekends'') (gr_members after_hours)
             CATCH_ALL_PRIORITY []])"

definition build :: "preset_spec \<Rightarrow> zone \<Rightarrow> int \<Rightarrow> int \<Rightarrow> (shift_rule list, preset_error) result" where
  "build spec tz anchor_micros handover_micros =
     (case preset_validate spec handover_micros of
        Inl e \<Rightarrow> Err e
      | Inr _ \<Rightarrow> Ok (build_layers (layer handover_micros (week_start anchor_micros tz)) spec))"

section \<open>Lemmas\<close>

lemma and_then_ok [simp]: "and_then a b = Ok () \<longleftrightarrow> a = Ok () \<and> b = Ok ()"
  by (cases a) (simp_all add: and_then_def)

lemma preset_check_members_ok:
  "preset_check_members seen field ms = Ok () \<longleftrightarrow>
     distinct (map email_key ms) \<and> seen \<inter> email_key ` set ms = {}"
  by (induction ms arbitrary: seen) auto

lemma distinct_keys_lower: "distinct (map email_key ms) \<Longrightarrow> distinct (map to_ascii_lowercase ms)"
proof -
  have "map email_key ms = map trim (map to_ascii_lowercase ms)"
    by (simp add: email_key_def trim_lower)
  then show "distinct (map email_key ms) \<Longrightarrow> distinct (map to_ascii_lowercase ms)"
    by (simp only: distinct_map)
qed

definition good_roster :: "string list \<Rightarrow> bool" where
  "good_roster ms \<longleftrightarrow> ms \<noteq> [] \<and> distinct (map email_key ms)"

lemma validate_members_ok: "validate_members ms field = Ok () \<longleftrightarrow> good_roster ms \<and> length ms \<le> 100"
  by (auto simp: validate_members_def preset_check_members_ok good_roster_def oncall_defs)

lemma validate_group_roster: "validate_group g field = Ok () \<Longrightarrow> good_roster (gr_members g)"
  by (auto simp: validate_group_def validate_members_ok split: if_splits)

lemma group_name_nonblank: "trim fallback \<noteq> [] \<Longrightarrow> trim (group_name g fallback) \<noteq> []"
  by (auto simp: group_name_def split: option.splits)

lemma first_spellings_keys:
  "distinct (map email_key (first_spellings seen ms))
   \<and> seen \<inter> email_key ` set (first_spellings seen ms) = {}
   \<and> email_key ` set (first_spellings seen ms) \<union> seen = email_key ` set ms \<union> seen"
proof (induction ms arbitrary: seen)
  case (Cons m ms)
  show ?case
  proof (cases "email_key m \<in> seen")
    case True
    then show ?thesis using Cons.IH [of seen] by auto
  next
    case False
    then show ?thesis using Cons.IH [of "insert (email_key m) seen"] by auto
  qed
qed simp

lemma everyone_roster:
  assumes "groups \<noteq> []" "\<forall>ms \<in> set groups. ms \<noteq> []"
  shows "good_roster (preset_everyone groups)"
proof -
  have "concat groups \<noteq> []" using assms by (cases groups) auto
  then show ?thesis
    using first_spellings_keys [of "{}" "concat groups"] by (auto simp: good_roster_def preset_everyone_def)
qed

lemma layer_valid:
  assumes "trim n \<noteq> []" "good_roster ms" "0 < h" "list_all valid_window ws"
  shows "rule_validate (layer h a n ms p ws) = Ok ()"
  using assms by (simp add: rule_validate_ok layer_def good_roster_def distinct_keys_lower list_all_iff)

lemma preset_validate_handover: "preset_validate spec h = Ok () \<Longrightarrow> 0 < h"
  by (auto simp: preset_validate_def oncall_defs split: if_splits)

lemma validate_region_ok:
  "validate_region (i, g) = Ok () \<Longrightarrow>
     trim (rg_name g) \<noteq> [] \<and> good_roster (rg_members g) \<and> valid_window (region_window g)"
  by (auto simp: validate_region_def validate_members_ok validate_window_def valid_window_def
      region_window_def MINUTES_PER_DAY_def split: if_splits)

lemma validate_regions_ok:
  "try_each validate_region (enumerate i groups) = Ok () \<Longrightarrow> g \<in> set groups \<Longrightarrow>
     trim (rg_name g) \<noteq> [] \<and> good_roster (rg_members g) \<and> valid_window (region_window g)"
proof -
  assume ok: "try_each validate_region (enumerate i groups) = Ok ()" and "g \<in> set groups"
  then obtain k where "(k, g) \<in> set (enumerate i groups)"
    by (metis (no_types) in_set_conv_nth in_set_enumerate_eq fst_conv snd_conv length_enumerate nth_enumerate_eq nth_mem)
  with ok have "validate_region (k, g) = Ok ()" by (simp add: try_each_ok)
  then show ?thesis by (rule validate_region_ok)
qed

lemma fallbacks_nonblank:
  "trim ''Follow-the-sun catch-all'' \<noteq> []" "trim ''Weekdays'' \<noteq> []" "trim ''Weekend'' \<noteq> []"
  "trim ''First half of the week'' \<noteq> []" "trim ''Second half of the week'' \<noteq> []"
  "trim ''Business hours'' \<noteq> []" "trim ''Nights and weekends'' \<noteq> []"
  by code_simp+

text \<open>The rules a valid request builds are valid, whatever the anchor.\<close>

lemma build_layers_valid:
  assumes "preset_validate spec h = Ok ()" "r \<in> set (build_layers (layer h a) spec)"
  shows "rule_validate r = Ok ()"
proof -
  note h = preset_validate_handover [OF assms(1)]
  show ?thesis
  proof (cases spec)
    case (FollowTheSun groups catch_all)
    then have regions: "try_each validate_region (enumerate 0 groups) = Ok ()" and ne: "groups \<noteq> []"
      and ca: "catch_all = Some c \<Longrightarrow> validate_group c ''catch_all'' = Ok ()" for c
      using assms(1) by (auto simp: preset_validate_def oncall_defs split: if_splits)
    have ev: "good_roster (preset_everyone (map rg_members groups))"
      using ne validate_regions_ok [OF regions] by (intro everyone_roster) (auto simp: good_roster_def)
    from assms(2) FollowTheSun show ?thesis
      using validate_regions_ok [OF regions] ev ca
      by (auto simp: build_layers_def fallbacks_nonblank intro!: layer_valid h group_name_nonblank
          validate_group_roster split: option.splits)
  next
    case (WeekdayWeekend weekdays weekend)
    with assms show ?thesis
      by (auto simp: preset_validate_def build_layers_def fallbacks_nonblank valid_window_def MINUTES_PER_DAY_def
          intro!: layer_valid h group_name_nonblank validate_group_roster split: if_splits)
  next
    case (SplitTheWeek fst_group snd_group d m)
    with assms show ?thesis
      by (auto simp: preset_validate_def build_layers_def fallbacks_nonblank valid_window_def MINUTES_PER_DAY_def
          first_half_windows_def intro!: layer_valid h group_name_nonblank validate_group_roster split: if_splits)
  next
    case (BusinessHoursPlusNights b n days s e)
    with assms show ?thesis
      by (auto simp: preset_validate_def build_layers_def fallbacks_nonblank valid_window_def MINUTES_PER_DAY_def
          validate_window_def
          intro!: layer_valid h group_name_nonblank validate_group_roster split: if_splits)
  qed
qed

text \<open>Every preset is some restricted layers above one that is always in effect.\<close>

lemma build_layers_shape:
  assumes "preset_validate spec h = Ok ()"
  obtains pre n ms where "build_layers (layer h a) spec = pre @ [layer h a n ms CATCH_ALL_PRIORITY []]"
    "\<forall>r \<in> set pre. sr_priority r = RESTRICTED_PRIORITY"
proof (cases spec)
  case (FollowTheSun groups catch_all)
  show ?thesis
    by (rule that [of "map (\<lambda>g. layer h a (trim (rg_name g)) (rg_members g) RESTRICTED_PRIORITY [region_window g]) groups"])
       (auto simp: FollowTheSun build_layers_def layer_def)
qed (rule that [of "[hd (build_layers (layer h a) spec)]"]; simp add: build_layers_def layer_def)+

lemma layer_catch_all: "applies_at (layer h a n ms p []) at tz"
  by (simp add: applies_at_def in_effect_at_def layer_def)

lemma overlap_at_ok:
  "overlap_at minute holder gs = Ok () \<longleftrightarrow>
     length (filter (\<lambda>g. covers_local (region_window g) 0 minute) gs) + (if holder = None then 0 else 1) \<le> 1"
  by (induction gs arbitrary: holder) (auto split: option.splits)

lemma region_window_any_day:
  "covers_local (region_window g) day minute \<longleftrightarrow> covers_local (region_window g) 0 minute"
  by (simp add: covers_local_def region_window_def Let_def)

section \<open>Properties\<close>

text \<open>
  C28. A preset leaves no hour uncovered: every rule it builds is valid, and for a rotation made
  of them a rule is in force at every instant in every time zone. It is one of the restricted
  layers whenever one of those applies, and the last one, the catch-all, otherwise.
\<close>

theorem preset_covers_every_hour:
  assumes "build spec tz anchor handover = Ok rules"
  shows "list_all (\<lambda>r. is_ok (rule_validate r)) rules
     \<and> (case winning_rule (rot\<lparr>rot_shift_rules := rules\<rparr>) at tz' of
          None \<Rightarrow> False
        | Some w \<Rightarrow> if list_ex (\<lambda>r. applies_at r at tz') (butlast rules)
                    then w \<in> set (butlast rules) else w = last rules)"
proof -
  let ?rot = "rot\<lparr>rot_shift_rules := rules\<rparr>"
  from assms have ok: "preset_validate spec handover = Ok ()"
    and rules: "rules = build_layers (layer handover (week_start anchor tz)) spec"
    by (auto simp: build_def split: sum.splits)
  have valid: "is_ok (rule_validate r)" if "r \<in> set rules" for r
    using build_layers_valid [OF ok] that by (simp add: rules is_ok_unit)
  obtain pre n ms where shape: "rules = pre @ [layer handover (week_start anchor tz) n ms CATCH_ALL_PRIORITY []]"
      (is "_ = pre @ [?last]") and prio: "\<forall>r \<in> set pre. sr_priority r = RESTRICTED_PRIORITY"
    using build_layers_shape [OF ok] rules by metis
  have last_applies: "applies_at ?last at tz'" by (rule layer_catch_all)
  then obtain w where w: "winning_rule ?rot at tz' = Some w"
    using valid shape by (cases "winning_rule ?rot at tz'")
      (auto simp: winning_rule_def rule_order.max_by_None filter_empty_conv)
  have w_in: "w \<in> set rules" "applies_at w at tz'" using winning_rule_sound [OF w] by auto
  have "w \<in> set pre" if "r \<in> set pre" "applies_at r at tz'" for r
  proof -
    have "(sr_priority r, length (sr_restrictions r), - sr_anchor_micros r)
        \<le> (sr_priority w, length (sr_restrictions w), - sr_anchor_micros w)"
      using rule_order.max_by_ge [OF w [unfolded winning_rule_def], of r] that valid shape by simp
    then have "sr_priority w \<ge> 10" using prio that by (auto simp: oncall_defs)
    then have "w \<noteq> ?last" by (auto simp: layer_def oncall_defs)
    then show ?thesis using w_in shape by simp
  qed
  then show ?thesis using w w_in valid shape by (auto simp: list_all_iff list_ex_iff)
qed

definition sample_group :: "string \<Rightarrow> group" where
  "sample_group m = \<lparr>gr_name = None, gr_members = [m]\<rparr>"

definition sample_preset :: preset_spec where
  "sample_preset = SplitTheWeek (sample_group ''ana'') (sample_group ''bo'') 3 720"

theorem preset_covers_every_hour_witness:
  "case build sample_preset utc 0 MICROS_PER_WEEK of
     Inl _ \<Rightarrow> False
   | Inr rules \<Rightarrow> winning_rule (rotation_weekly ''r'' ''n'' [] 0\<lparr>rot_shift_rules := rules\<rparr>) 5 utc \<noteq> None"
proof -
  have "is_ok (build sample_preset utc 0 MICROS_PER_WEEK)" by code_simp
  then obtain rules where b: "build sample_preset utc 0 MICROS_PER_WEEK = Ok rules"
    by (cases "build sample_preset utc 0 MICROS_PER_WEEK") (auto simp: is_ok_def)
  from preset_covers_every_hour [OF b, where rot = "rotation_weekly ''r'' ''n'' [] 0" and at = 5 and tz' = utc] show ?thesis
    by (auto simp: b split: option.splits)
qed

text \<open>
  Regional layers never compete: in a follow-the-sun preset that passes validation no
  minute of any day is inside the windows of two regions, windows past midnight included.
\<close>

theorem follow_the_sun_one_region:
  assumes "preset_validate (FollowTheSun groups catch_all) handover = Ok ()" "minute < 1440"
  shows "length (filter (\<lambda>g. covers_local (region_window g) day minute) groups) \<le> 1"
proof -
  have "validate_no_overlap groups = Ok ()" using assms(1) by (auto simp: preset_validate_def split: if_splits)
  then have "overlap_at minute None groups = Ok ()"
    using assms(2) by (auto simp: validate_no_overlap_def try_each_ok MINUTES_PER_DAY_def)
  then show ?thesis unfolding region_window_any_day [of _ day minute] by (simp add: overlap_at_ok)
qed

definition sample_regions :: "region_group list" where
  "sample_regions =
     [\<lparr>rg_name = ''Lisbon'', rg_members = [''ana''], rg_start_minute = 480, rg_end_minute = 1200\<rparr>,
      \<lparr>rg_name = ''Tokyo'', rg_members = [''bo''], rg_start_minute = 1200, rg_end_minute = 480\<rparr>]"

lemma sample_regions_ok: "preset_validate (FollowTheSun sample_regions None) MICROS_PER_WEEK = Ok ()"
proof -
  have "try_each validate_region (enumerate 0 sample_regions) = Ok ()" by code_simp
  moreover have "overlap_at minute None sample_regions = Ok ()" for minute
    by (simp add: overlap_at_ok sample_regions_def region_window_def covers_local_def)
  then have "validate_no_overlap sample_regions = Ok ()" by (simp add: validate_no_overlap_def try_each_ok)
  ultimately show ?thesis by (simp add: preset_validate_def oncall_defs) (simp add: sample_regions_def)
qed

theorem follow_the_sun_one_region_witness:
  "length (filter (\<lambda>g. covers_local (region_window g) 4 480) sample_regions) \<le> 1"
  by (rule follow_the_sun_one_region [OF sample_regions_ok]) simp

text \<open>
  Splitting the week: the first layer's windows cover exactly the minutes of the week before
  the boundary, so the two halves meet there without a gap or an overlap.
\<close>

theorem split_the_week_exact:
  assumes "preset_validate (SplitTheWeek g1 g2 boundary_day boundary_minute) handover = Ok ()"
    and "day < 7" "minute < 1440"
  shows "list_ex (\<lambda>w. covers_local w day minute) (first_half_windows boundary_day boundary_minute) \<longleftrightarrow>
     day * 1440 + minute < boundary_day * 1440 + boundary_minute"
proof -
  have b: "boundary_minute < 1440" using assms(1) by (auto simp: preset_validate_def MINUTES_PER_DAY_def split: if_splits)
  have "list_ex (\<lambda>w. covers_local w day minute) (first_half_windows boundary_day boundary_minute) \<longleftrightarrow>
      day < boundary_day \<or> (day = boundary_day \<and> minute < boundary_minute)"
    using assms(3) by (auto simp: first_half_windows_def covers_local_def MINUTES_PER_DAY_def)
  also have "\<dots> \<longleftrightarrow> day * 1440 + minute < boundary_day * 1440 + boundary_minute"
    using assms(3) b by linarith
  finally show ?thesis .
qed

theorem split_the_week_exact_witness:
  "list_ex (\<lambda>w. covers_local w 2 1439) (first_half_windows 3 0)
   \<and> \<not> list_ex (\<lambda>w. covers_local w 3 0) (first_half_windows 3 0)"
proof -
  have ok: "preset_validate (SplitTheWeek (sample_group ''ana'') (sample_group ''bo'') 3 0) MICROS_PER_WEEK = Ok ()"
    by code_simp
  show ?thesis using split_the_week_exact [OF ok, of 2 1439] split_the_week_exact [OF ok, of 3 0] by simp
qed

end
