(* ===== verification/Oncall_Contact.thy ===== *)
theory Oncall_Contact
  imports OO_Strings "HOL-Library.Product_Lexorder" "HOL-Library.Signed_Division"
begin

text \<open>
  How to reach one person (\<open>src/config/src/meta/oncall/contact.rs\<close>): the profile and which of its
  methods a transport may use, phone numbers in international form, and the pure decisions
  behind verification codes: when one may be texted, what an entered one proves, and how long a
  refused sender waits.

  Unicode lower-casing of e-mail addresses is the argument \<open>lower\<close>. Counters are \<open>u32\<close>, kept as
  \<open>nat\<close> with the wrap-around written out; instants are microseconds as \<open>int\<close>.
\<close>

section \<open>Profiles\<close>

definition CODE_TTL_MICROS :: int where "CODE_TTL_MICROS = 10 * 60 * 1000000"
definition CODE_MAX_ATTEMPTS :: nat where "CODE_MAX_ATTEMPTS = 5"
definition SEND_GAP_MICROS :: int where "SEND_GAP_MICROS = 60 * 1000000"
definition SENDS_PER_USER_PER_DAY :: nat where "SENDS_PER_USER_PER_DAY = 5"
definition SENDS_PER_NUMBER_PER_DAY :: nat where "SENDS_PER_NUMBER_PER_DAY = 10"
definition DAY_MICROS :: int where "DAY_MICROS = 24 * 60 * 60 * 1000000"

lemmas [oncall_defs] =
  CODE_TTL_MICROS_def CODE_MAX_ATTEMPTS_def SEND_GAP_MICROS_def SENDS_PER_USER_PER_DAY_def
  SENDS_PER_NUMBER_PER_DAY_def DAY_MICROS_def

record contact =
  ct_org_id :: string
  ct_user_email :: string
  ct_phone :: "string option"
  ct_phone_verified_at :: "int option"
  ct_push_token :: "string option"
  ct_push_verified_at :: "int option"
  ct_quiet_hours :: "string option"
  ct_updated_at :: int

definition contact_empty :: "string \<Rightarrow> string \<Rightarrow> contact" where
  "contact_empty org_id user_email =
     \<lparr>ct_org_id = org_id, ct_user_email = user_email, ct_phone = None, ct_phone_verified_at = None,
      ct_push_token = None, ct_push_verified_at = None, ct_quiet_hours = None, ct_updated_at = 0\<rparr>"

definition on_file :: "string option \<Rightarrow> bool" where
  "on_file v = (case v of Some s \<Rightarrow> trim s \<noteq> [] | None \<Rightarrow> False)"

definition phone_is_pageable :: "'a contact_scheme \<Rightarrow> bool" where
  "phone_is_pageable c \<longleftrightarrow> on_file (ct_phone c) \<and> ct_phone_verified_at c \<noteq> None"

definition push_is_pageable :: "'a contact_scheme \<Rightarrow> bool" where
  "push_is_pageable c \<longleftrightarrow> on_file (ct_push_token c) \<and> ct_push_verified_at c \<noteq> None"

definition unverified_methods :: "'a contact_scheme \<Rightarrow> string list" where
  "unverified_methods c =
     (if on_file (ct_phone c) \<and> ct_phone_verified_at c = None then [''phone''] else [])
     @ (if on_file (ct_push_token c) \<and> ct_push_verified_at c = None then [''push''] else [])"

section \<open>Verification codes\<close>

record code_row =
  cr_user_email :: string
  cr_target :: string
  cr_has_code :: bool
  cr_attempts :: nat
  cr_sent_at :: int
  cr_sends_today :: nat
  cr_day_started_at :: int

datatype wait_limit = Gap | User | Number

datatype send_decision = Send | Wait int wait_limit

datatype code_check_t = Verified | Wrong nat | Expired | TooManyAttempts | NoPendingCode

datatype contact_error = Invalid string

fun contact_error_display :: "contact_error \<Rightarrow> string" where
  "contact_error_display (Invalid m) = m"

definition to_e164 :: "string \<Rightarrow> (string, contact_error) result" where
  "to_e164 raw =
     (let compact = filter (\<lambda>c. c \<notin> set '' -().'') (trim raw);
          digits = (case strip_prefix ''+'' compact of Some d \<Rightarrow> d | None \<Rightarrow> []);
          valid = 7 \<le> length digits \<and> length digits \<le> 15 \<and> list_all is_digit digits
                  \<and> \<not> starts_with digits ''0''
      in if \<not> valid
         then Err (Invalid (''phone must be in international format: + then country code and number, e.g. +14155550100''))
         else Ok compact)"

text \<open>A \<open>u32\<close> sum wraps; the remainder is taken on integers, where it evaluates fast.\<close>

definition wrap_u32 :: "nat \<Rightarrow> nat" where
  "wrap_u32 n = nat (int n mod 4294967296)"

lemma wrap_u32_mod [simp]: "wrap_u32 n = n mod 4294967296"
  by (simp add: wrap_u32_def nat_mod_distrib)

definition live_rows :: "int \<Rightarrow> code_row list \<Rightarrow> code_row list" where
  "live_rows now rows = filter (\<lambda>r. now - cr_day_started_at r < DAY_MICROS) rows"

definition daily_wait :: "code_row list \<Rightarrow> nat \<Rightarrow> int \<Rightarrow> int option" where
  "daily_wait rows cap now =
     (let live = live_rows now rows;
          sent = wrap_u32 (sum_list (map cr_sends_today live))
      in if sent < cap then None
         else min_opt (map (\<lambda>r. cr_day_started_at r + DAY_MICROS - now) live))"

definition code_send_decision ::
    "(string \<Rightarrow> string) \<Rightarrow> string \<Rightarrow> string \<Rightarrow> code_row list \<Rightarrow> code_row list \<Rightarrow> int \<Rightarrow> send_decision" where
  "code_send_decision lower user_email target user_rows number_rows now =
     (let email = lower user_email;
          mine = filter (\<lambda>r. lower (cr_user_email r) = email) user_rows;
          gap = max_opt (map (\<lambda>r. SEND_GAP_MICROS - (now - cr_sent_at r))
                          (filter (\<lambda>r. cr_target r = target) mine));
          waits = [(gap, Gap),
                   (daily_wait mine SENDS_PER_USER_PER_DAY now, User),
                   (daily_wait (filter (\<lambda>r. cr_target r = target) number_rows) SENDS_PER_NUMBER_PER_DAY now,
                    Number)];
          longest = max_by (\<lambda>a b. cmp (fst a) (fst b))
                      (List.map_filter
                         (\<lambda>(w, limit). case w of
                            Some micros \<Rightarrow> if micros > 0 then Some (micros, limit) else None
                          | None \<Rightarrow> None) waits)
      in case longest of
           Some (micros, limit) \<Rightarrow> Wait micros limit
         | None \<Rightarrow> Send)"

definition next_counts :: "code_row option \<Rightarrow> int \<Rightarrow> nat \<times> int" where
  "next_counts row now =
     (case row of
        Some r \<Rightarrow> if now - cr_day_started_at r < DAY_MICROS
                  then (wrap_u32 (cr_sends_today r + 1), cr_day_started_at r) else (1, now)
      | None \<Rightarrow> (1, now))"

definition code_check :: "code_row option \<Rightarrow> string option \<Rightarrow> bool \<Rightarrow> int \<Rightarrow> code_check_t" where
  "code_check row current_phone code_matches now =
     (case row of
        None \<Rightarrow> NoPendingCode
      | Some r \<Rightarrow>
          if \<not> (cr_has_code r \<and> Some (cr_target r) = current_phone) then NoPendingCode
          else if now - cr_sent_at r \<ge> CODE_TTL_MICROS then Expired
          else if cr_attempts r \<ge> CODE_MAX_ATTEMPTS then TooManyAttempts
          else if code_matches then Verified
          else Wrong (CODE_MAX_ATTEMPTS - cr_attempts r - 1))"

definition wait_message :: "int \<Rightarrow> string \<times> int" where
  "wait_message micros =
     (let secs = max ((micros + 999999) sdiv 1000000) 1;
          minutes = (secs + 59) sdiv 60;
          unit_name = (if minutes = 1 then ''minute'' else ''minutes'')
      in (''Too many codes. Try again in '' @ show_int minutes @ '' '' @ unit_name @ ''.'', secs))"

section \<open>Lemmas\<close>

definition sent_live :: "int \<Rightarrow> code_row list \<Rightarrow> nat" where
  "sent_live now rows = sum_list (map cr_sends_today (live_rows now rows))"

lemma daily_wait_pos: "daily_wait rows cap now = Some w \<Longrightarrow> 0 < w"
  by (auto simp: daily_wait_def live_rows_def Let_def dest!: min_opt_Some split: if_splits)

lemma daily_wait_None: "0 < cap \<Longrightarrow> daily_wait rows cap now = None \<longleftrightarrow> sent_live now rows mod 4294967296 < cap"
  by (auto simp: daily_wait_def sent_live_def Let_def)

definition positive_wait :: "int option \<Rightarrow> bool" where
  "positive_wait w = (case w of Some m \<Rightarrow> m > 0 | None \<Rightarrow> False)"

lemma gap_wait:
  "positive_wait (max_opt (map (\<lambda>r. SEND_GAP_MICROS - (now - cr_sent_at r)) rows)) \<longleftrightarrow>
     (\<exists>r \<in> set rows. now - cr_sent_at r < SEND_GAP_MICROS)"
  using max_opt_spec [of "map (\<lambda>r. SEND_GAP_MICROS - (now - cr_sent_at r)) rows"]
  by (force simp: positive_wait_def split: option.splits)

abbreviation rows_of :: "(string \<Rightarrow> string) \<Rightarrow> string \<Rightarrow> code_row list \<Rightarrow> code_row list" where
  "rows_of lower user_email rows \<equiv> filter (\<lambda>r. lower (cr_user_email r) = lower user_email) rows"

abbreviation rows_to :: "string \<Rightarrow> code_row list \<Rightarrow> code_row list" where
  "rows_to target rows \<equiv> filter (\<lambda>r. cr_target r = target) rows"

lemma send_iff_no_wait:
  "code_send_decision lower u t user_rows number_rows now = Send \<longleftrightarrow>
     (\<forall>r \<in> set (rows_to t (rows_of lower u user_rows)). SEND_GAP_MICROS \<le> now - cr_sent_at r)
     \<and> sent_live now (rows_of lower u user_rows) mod 4294967296 < SENDS_PER_USER_PER_DAY
     \<and> sent_live now (rows_to t number_rows) mod 4294967296 < SENDS_PER_NUMBER_PER_DAY"
proof -
  let ?mine = "rows_of lower u user_rows"
  let ?gap = "max_opt (map (\<lambda>r. SEND_GAP_MICROS - (now - cr_sent_at r)) (rows_to t ?mine))"
  let ?user = "daily_wait ?mine SENDS_PER_USER_PER_DAY now"
  let ?number = "daily_wait (rows_to t number_rows) SENDS_PER_NUMBER_PER_DAY now"
  have dec: "code_send_decision lower u t user_rows number_rows now = Send \<longleftrightarrow>
      \<not> positive_wait ?gap \<and> \<not> positive_wait ?user \<and> \<not> positive_wait ?number"
    by (auto simp: code_send_decision_def Let_def positive_wait_def List.map_filter_simps
        split: option.splits)
  have pos: "positive_wait ?user \<longleftrightarrow> ?user \<noteq> None" "positive_wait ?number \<longleftrightarrow> ?number \<noteq> None"
    using daily_wait_pos by (auto simp: positive_wait_def split: option.splits)
  have caps: "?user = None \<longleftrightarrow> sent_live now ?mine mod 4294967296 < SENDS_PER_USER_PER_DAY"
      "?number = None \<longleftrightarrow> sent_live now (rows_to t number_rows) mod 4294967296 < SENDS_PER_NUMBER_PER_DAY"
    by (simp_all add: daily_wait_None SENDS_PER_USER_PER_DAY_def SENDS_PER_NUMBER_PER_DAY_def)
  have gap: "\<not> positive_wait ?gap \<longleftrightarrow> (\<forall>r \<in> set (rows_to t ?mine). SEND_GAP_MICROS \<le> now - cr_sent_at r)"
    unfolding gap_wait by (auto simp: not_less)
  show ?thesis unfolding dec pos caps gap not_not ..
qed

lemma wait_positive: "code_send_decision lower u t user_rows number_rows now = Wait m l \<Longrightarrow> 0 < m"
  by (auto simp: code_send_decision_def Let_def List.map_filter_simps
      split: option.splits if_splits)

subsection \<open>Numbers in international form\<close>

lemma is_digit_not_space: "is_digit c \<Longrightarrow> c \<notin> set '' -().''"
  by (auto simp: is_digit_def less_eq_char_def)

definition e164 :: "string \<Rightarrow> bool" where
  "e164 n = (case n of
     [] \<Rightarrow> False
   | c # d \<Rightarrow> c = CHR ''+'' \<and> 7 \<le> length d \<and> length d \<le> 15 \<and> list_all is_digit d \<and> hd d \<noteq> CHR ''0'')"

lemma strip_one_visible:
  assumes "list_all (\<lambda>w. w \<noteq> [] \<and> hd w \<noteq> c) ws"
  shows "strip_one ws (c # cs) = None"
proof -
  have "take (length w) (c # cs) \<noteq> w" if "w \<in> set ws" for w
    using assms that by (cases w) (auto simp: list_all_iff)
  then show ?thesis by (simp add: strip_one_None)
qed

definition visible :: "char \<Rightarrow> bool" where
  "visible c \<longleftrightarrow> list_all (\<lambda>w. hd w \<noteq> c) (ws_seqs @ map rev ws_seqs)"

lemma trim_visible:
  assumes "visible (hd s)" "visible (last s)" "s \<noteq> []"
  shows "trim s = s"
proof -
  have ne: "list_all (\<lambda>w. w \<noteq> []) ws_seqs" by (simp add: ws_seqs_def)
  obtain c cs where s: "s = c # cs" using assms(3) by (cases s) auto
  have "strip_one ws_seqs s = None"
    unfolding s by (rule strip_one_visible) (use assms(1) s ne in \<open>auto simp: visible_def list_all_iff\<close>)
  then have start: "trim_start s = s" by (simp add: trim_start_def strip_all_fixed)
  obtain d ds where r: "rev s = d # ds" using assms(3) by (cases "rev s") auto
  then have "d = last s" using assms(3) by (metis hd_rev list.sel(1))
  then have "strip_one (map rev ws_seqs) (rev s) = None"
    unfolding r by (intro strip_one_visible) (use assms(2) ne in \<open>auto simp: visible_def list_all_iff\<close>)
  then show ?thesis using start by (simp add: trim_def trim_end_def strip_all_fixed)
qed

lemma visible_digit: "is_digit c \<or> c = CHR ''+'' \<Longrightarrow> visible c"
  by (auto simp: visible_def ws_seqs_def is_digit_def less_eq_char_def)

lemma to_e164_ok: "to_e164 raw = Ok n \<Longrightarrow> e164 n"
proof -
  assume "to_e164 raw = Ok n"
  then obtain d where "strip_prefix ''+'' n = Some d \<or> d = []" "7 \<le> length d" "length d \<le> 15"
      "list_all is_digit d" "\<not> starts_with d ''0''"
    by (auto simp: to_e164_def Let_def split: if_splits option.splits)
  then have "strip_prefix ''+'' n = Some d" "d \<noteq> []" by auto
  then have "n = CHR ''+'' # d" by (cases n) (auto simp: strip_prefix_def starts_with_def split: if_splits)
  moreover have "hd d \<noteq> CHR ''0''"
    using \<open>\<not> starts_with d ''0''\<close> \<open>d \<noteq> []\<close> by (cases d) (auto simp: starts_with_def)
  ultimately show ?thesis
    using \<open>7 \<le> length d\<close> \<open>length d \<le> 15\<close> \<open>list_all is_digit d\<close> by (simp add: e164_def)
qed

lemma to_e164_id:
  assumes "e164 n"
  shows "to_e164 n = Ok n"
proof -
  obtain d where n: "n = CHR ''+'' # d" and d: "7 \<le> length d" "length d \<le> 15" "list_all is_digit d" "hd d \<noteq> CHR ''0''"
    using assms by (auto simp: e164_def split: list.splits)
  have "is_digit (last d)" using d by (cases "d = []") (auto simp: list_all_iff)
  then have "trim n = n" using d by (intro trim_visible) (auto simp: n visible_digit)
  moreover have "filter (\<lambda>c. c \<notin> set '' -().'') n = n"
    using d is_digit_not_space by (intro filter_True) (auto simp: n list_all_iff)
  ultimately show ?thesis
    using d by (cases d) (simp_all add: to_e164_def n strip_prefix_def starts_with_def)
qed

section \<open>Properties\<close>

text \<open>
  Numbers are stored in one form: what \<open>to_e164\<close> accepts it turns into a plus sign and 7 to
  15 digits that do not begin with a zero, and normalising that again changes nothing.
\<close>

theorem to_e164_canonical:
  "case to_e164 raw of
     Inl e \<Rightarrow> True
   | Inr n \<Rightarrow> e164 n \<and> to_e164 n = Ok n"
  by (auto simp: to_e164_id dest: to_e164_ok split: sum.splits)

text \<open>
  When a code may be texted: exactly when the last one from this person to this number is a
  minute old, this person's running windows hold fewer than five sends and the number's fewer
  than ten (counted in 32 bits, as the code does); a refusal always names a positive wait.
\<close>

theorem code_send_limits:
  "case code_send_decision lower u t user_rows number_rows now of
     Send \<Rightarrow>
       list_all (\<lambda>r. SEND_GAP_MICROS \<le> now - cr_sent_at r) (rows_to t (rows_of lower u user_rows))
       \<and> sent_live now (rows_of lower u user_rows) mod 4294967296 < 5
       \<and> sent_live now (rows_to t number_rows) mod 4294967296 < 10
   | Wait micros limit \<Rightarrow>
       0 < micros
       \<and> (list_ex (\<lambda>r. now - cr_sent_at r < SEND_GAP_MICROS) (rows_to t (rows_of lower u user_rows))
          \<or> 5 \<le> sent_live now (rows_of lower u user_rows) mod 4294967296
          \<or> 10 \<le> sent_live now (rows_to t number_rows) mod 4294967296)"
proof (cases "code_send_decision lower u t user_rows number_rows now")
  case Send
  then show ?thesis using send_iff_no_wait [of lower u t user_rows number_rows now]
    by (auto simp: list_all_iff SENDS_PER_USER_PER_DAY_def SENDS_PER_NUMBER_PER_DAY_def)
next
  case (Wait m l)
  then show ?thesis
    using send_iff_no_wait [of lower u t user_rows number_rows now] wait_positive [OF Wait]
    by (auto simp: list_ex_iff SENDS_PER_USER_PER_DAY_def SENDS_PER_NUMBER_PER_DAY_def not_less not_le)
qed

end
