(* ===== verification/Oncall_Phone.thy ===== *)
theory Oncall_Phone
  imports Oncall_Contact
begin

text \<open>
  The two tables behind phone verification: code rows
  (\<open>src/infra/src/table/oncall_phone_verifications.rs\<close>) and contact profiles
  (\<open>src/infra/src/table/oncall_user_contacts.rs\<close>). Each operation runs in one transaction or is
  one statement, so it is one function on the pair of tables, and a history of the system is a
  sequence of them.

  Outside the sources are Unicode lower-casing (\<open>lower\<close>), the database's own \<open>LOWER\<close>
  (\<open>sql_lower\<close>) and fresh row ids (\<open>new_id\<close>, \<open>ider::uuid\<close>); they are arguments, and what the
  results need of the first two is the locale \<open>lowercasing\<close>. A contact may also arrive from another
  cluster (\<open>put_contact_in\<close> of \<open>src/infra/src/table/super_cluster_oncall.rs\<close>). Lost connections are left out: a
  transaction that fails changes nothing.
\<close>

section \<open>The tables\<close>

record verification_row =
  vr_id :: string
  vr_user_email :: string
  vr_target :: string
  vr_code_hash :: "string option"
  vr_attempts :: int
  vr_sent_at :: int
  vr_sends_today :: int
  vr_day_started_at :: int
  vr_created_at :: int
  vr_updated_at :: int

record profile = contact +
  pf_id :: string

record phone_db =
  db_codes :: "verification_row list"
  db_profiles :: "profile list"

datatype db_error = SeaORMError string

record stored_code =
  sc_row :: code_row
  sc_code_hash :: "string option"

definition to_stored :: "verification_row \<Rightarrow> (stored_code, db_error) result" where
  "to_stored m =
     (if 0 \<le> vr_attempts m \<and> vr_attempts m < 4294967296 \<and> 0 \<le> vr_sends_today m \<and> vr_sends_today m < 4294967296
      then Ok \<lparr>sc_row = \<lparr>cr_user_email = vr_user_email m, cr_target = vr_target m,
                         cr_has_code = vr_code_hash m \<noteq> None, cr_attempts = nat (vr_attempts m),
                         cr_sent_at = vr_sent_at m, cr_sends_today = nat (vr_sends_today m),
                         cr_day_started_at = vr_day_started_at m\<rparr>,
               sc_code_hash = vr_code_hash m\<rparr>
      else Err (SeaORMError (''oncall_phone_verifications '' @ vr_id m @ '': counts out of range'')))"

fun collect_results :: "('a, 'e) result list \<Rightarrow> ('a list, 'e) result" where
  "collect_results [] = Ok []"
| "collect_results (x # xs) =
     (case x of Inl e \<Rightarrow> Err e
      | Inr v \<Rightarrow> (case collect_results xs of Inl e \<Rightarrow> Err e | Inr vs \<Rightarrow> Ok (v # vs)))"

definition list_in :: "(verification_row \<Rightarrow> bool) \<Rightarrow> phone_db \<Rightarrow> (stored_code list, db_error) result" where
  "list_in flt db = collect_results (map to_stored (filter flt (db_codes db)))"

definition list_for_user_in :: "(string \<Rightarrow> string) \<Rightarrow> string \<Rightarrow> phone_db \<Rightarrow> (stored_code list, db_error) result" where
  "list_for_user_in lower user_email = list_in (\<lambda>r. vr_user_email r = lower user_email)"

definition list_for_target_in :: "string \<Rightarrow> phone_db \<Rightarrow> (stored_code list, db_error) result" where
  "list_for_target_in target = list_in (\<lambda>r. vr_target r = target)"

section \<open>Sending a code\<close>

definition store_code_in ::
    "(string \<Rightarrow> string) \<Rightarrow> string \<Rightarrow> string \<Rightarrow> string \<Rightarrow> string \<Rightarrow> int option \<Rightarrow> nat \<Rightarrow> int \<Rightarrow> int
     \<Rightarrow> phone_db \<Rightarrow> bool \<times> phone_db" where
  "store_code_in lower new_id user_email target code_hash expected_sent_at sends_today day_started_at now db =
     (let user_email = lower user_email in
      case expected_sent_at of
        None \<Rightarrow>
          if list_ex (\<lambda>r. vr_user_email r = user_email \<and> vr_target r = target) (db_codes db) then (False, db)
          else (True, db\<lparr>db_codes := db_codes db @
                  [\<lparr>vr_id = new_id, vr_user_email = user_email, vr_target = target,
                    vr_code_hash = Some code_hash, vr_attempts = 0, vr_sent_at = now,
                    vr_sends_today = int sends_today, vr_day_started_at = day_started_at,
                    vr_created_at = now, vr_updated_at = now\<rparr>]\<rparr>)
      | Some expected \<Rightarrow>
          let flt = (\<lambda>r. vr_user_email r = user_email \<and> vr_target r = target \<and> vr_sent_at r = expected);
              upd = (\<lambda>r. r\<lparr>vr_code_hash := Some code_hash, vr_attempts := 0, vr_sent_at := now,
                           vr_sends_today := int sends_today, vr_day_started_at := day_started_at,
                           vr_updated_at := now\<rparr>)
          in (length (filter flt (db_codes db)) = 1,
              db\<lparr>db_codes := map (\<lambda>r. if flt r then upd r else r) (db_codes db)\<rparr>))"

definition profiles_to_lock ::
    "(string \<Rightarrow> string) \<Rightarrow> (string \<Rightarrow> string) \<Rightarrow> string \<Rightarrow> string \<Rightarrow> phone_db \<Rightarrow> profile list" where
  "profiles_to_lock lower sql_lower user_email target db =
     sort_key pf_id (filter (\<lambda>p. sql_lower (ct_user_email p) = lower user_email \<or> ct_phone p = Some target)
                       (db_profiles db))"

text \<open>
  The decision and the send under one lock: nothing for somebody who no longer holds the
  number, and any error leaves the tables as they were.
\<close>

definition reserve_code_in ::
    "(string \<Rightarrow> string) \<Rightarrow> (string \<Rightarrow> string) \<Rightarrow> string \<Rightarrow> string \<Rightarrow> string \<Rightarrow> string \<Rightarrow> int
     \<Rightarrow> phone_db \<Rightarrow> (send_decision option, db_error) result \<times> phone_db" where
  "reserve_code_in lower sql_lower new_id user_email target code_hash now db =
     (let email = lower user_email;
          locked = profiles_to_lock lower sql_lower user_email target db
      in if \<not> list_ex (\<lambda>p. lower (ct_user_email p) = email \<and> ct_phone p = Some target) locked
         then (Ok None, db)
         else case list_for_user_in lower user_email db of
           Inl e \<Rightarrow> (Err e, db)
         | Inr user_stored \<Rightarrow>
             (case list_for_target_in target db of
                Inl e \<Rightarrow> (Err e, db)
              | Inr number_stored \<Rightarrow>
                  (let user_rows = map sc_row user_stored;
                       number_rows = map sc_row number_stored;
                       decision = code_send_decision lower user_email target user_rows number_rows now
                   in case decision of
                        Wait m l \<Rightarrow> (Ok (Some decision), db)
                      | Send \<Rightarrow>
                          (let pair = List.find (\<lambda>r. cr_target r = target) user_rows;
                               (sends_today, day_started_at) = next_counts pair now;
                               expected = map_option cr_sent_at pair;
                               (stored, db') = store_code_in lower new_id user_email target code_hash
                                                 expected sends_today day_started_at now db
                           in if \<not> stored
                              then (Err (SeaORMError (''oncall_phone_verifications: the code row for ''
                                      @ target @ '' changed under its lock'')), db)
                              else (Ok (Some decision), db')))))"

section \<open>Entering a code\<close>

definition claim_attempt_in ::
    "(string \<Rightarrow> string) \<Rightarrow> string \<Rightarrow> string \<Rightarrow> int \<Rightarrow> int \<Rightarrow> phone_db \<Rightarrow> bool \<times> phone_db" where
  "claim_attempt_in lower user_email target sent_at now db =
     (let flt = (\<lambda>r. vr_user_email r = lower user_email \<and> vr_target r = target \<and> vr_sent_at r = sent_at
                   \<and> vr_code_hash r \<noteq> None \<and> vr_attempts r < int CODE_MAX_ATTEMPTS
                   \<and> vr_sent_at r > now - CODE_TTL_MICROS)
      in (length (filter flt (db_codes db)) = 1,
          db\<lparr>db_codes := map (\<lambda>r. if flt r then r\<lparr>vr_attempts := vr_attempts r + 1\<rparr> else r) (db_codes db)\<rparr>))"

definition profile_with_number ::
    "(string \<Rightarrow> string) \<Rightarrow> (string \<Rightarrow> string) \<Rightarrow> string \<Rightarrow> string \<Rightarrow> profile \<Rightarrow> bool" where
  "profile_with_number lower sql_lower user_email target p \<longleftrightarrow>
     sql_lower (ct_user_email p) = lower user_email \<and> ct_phone p = Some target"

definition confirm_in ::
    "(string \<Rightarrow> string) \<Rightarrow> (string \<Rightarrow> string) \<Rightarrow> string \<Rightarrow> string \<Rightarrow> int \<Rightarrow> int
     \<Rightarrow> phone_db \<Rightarrow> (string \<times> string) list option \<times> phone_db" where
  "confirm_in lower sql_lower user_email target sent_at now db =
     (let flt = (\<lambda>r. vr_user_email r = lower user_email \<and> vr_target r = target \<and> vr_sent_at r = sent_at
                   \<and> vr_code_hash r \<noteq> None)
      in if length (filter flt (db_codes db)) \<noteq> 1 then (None, db)
         else
           (let mine = profile_with_number lower sql_lower user_email target;
                codes = map (\<lambda>r. if flt r then r\<lparr>vr_code_hash := None, vr_updated_at := now\<rparr> else r) (db_codes db);
                profiles = map (\<lambda>p. if mine p then p\<lparr>ct_phone_verified_at := Some now\<rparr> else p) (db_profiles db);
                marked = filter (\<lambda>p. mine p \<and> ct_phone_verified_at p = Some now) profiles
            in (Some (map (\<lambda>p. (ct_org_id p, ct_user_email p)) marked),
                db\<lparr>db_codes := codes, db_profiles := profiles\<rparr>)))"

section \<open>Profiles\<close>

record contact_patch =
  cp_phone :: "string option option"
  cp_push_token :: "string option option"
  cp_quiet_hours :: "string option option"

definition contact_patch_is_empty :: "contact_patch \<Rightarrow> bool" where
  "contact_patch_is_empty p \<longleftrightarrow> cp_phone p = None \<and> cp_push_token p = None \<and> cp_quiet_hours p = None"

definition to_contact :: "profile \<Rightarrow> contact" where
  "to_contact m = contact.truncate m"

definition same_person :: "(string \<Rightarrow> string) \<Rightarrow> (string \<Rightarrow> string) \<Rightarrow> string \<Rightarrow> profile \<Rightarrow> bool" where
  "same_person lower sql_lower user_email p \<longleftrightarrow> sql_lower (ct_user_email p) = lower user_email"

definition delete_in ::
    "(string \<Rightarrow> string) \<Rightarrow> (string \<Rightarrow> string) \<Rightarrow> string \<Rightarrow> string \<Rightarrow> phone_db \<Rightarrow> bool \<times> phone_db" where
  "delete_in lower sql_lower org_id user_email db =
     (let flt = (\<lambda>p. ct_org_id p = org_id \<and> same_person lower sql_lower user_email p)
      in (filter flt (db_profiles db) \<noteq> [], db\<lparr>db_profiles := filter (\<lambda>p. \<not> flt p) (db_profiles db)\<rparr>))"

definition proof_on_file_in ::
    "(string \<Rightarrow> string) \<Rightarrow> (string \<Rightarrow> string) \<Rightarrow> string \<Rightarrow> string option \<Rightarrow> profile list \<Rightarrow> int option" where
  "proof_on_file_in lower sql_lower user_email phone ps =
     (case phone of
        None \<Rightarrow> None
      | Some n \<Rightarrow>
          max_opt (List.map_filter ct_phone_verified_at
            (filter (\<lambda>p. sql_lower (ct_user_email p) = lower user_email \<and> ct_phone p = Some n) ps)))"

definition flatten_opt :: "'a option option \<Rightarrow> 'a option" where
  "flatten_opt v = (case v of Some w \<Rightarrow> w | None \<Rightarrow> None)"

definition insert_in ::
    "(string \<Rightarrow> string) \<Rightarrow> (string \<Rightarrow> string) \<Rightarrow> string \<Rightarrow> string \<Rightarrow> string \<Rightarrow> contact_patch \<Rightarrow> int
     \<Rightarrow> profile list \<Rightarrow> profile \<times> profile list" where
  "insert_in lower sql_lower new_id org_id user_email patch now ps =
     (let phone = flatten_opt (cp_phone patch);
          m = \<lparr>ct_org_id = org_id, ct_user_email = user_email, ct_phone = phone,
               ct_phone_verified_at = proof_on_file_in lower sql_lower user_email phone ps,
               ct_push_token = flatten_opt (cp_push_token patch), ct_push_verified_at = None,
               ct_quiet_hours = flatten_opt (cp_quiet_hours patch), ct_updated_at = now, pf_id = new_id\<rparr>
      in (m, ps @ [m]))"

definition patched ::
    "(string \<Rightarrow> string) \<Rightarrow> (string \<Rightarrow> string) \<Rightarrow> profile list \<Rightarrow> profile \<Rightarrow> contact_patch \<Rightarrow> int \<Rightarrow> profile" where
  "patched lower sql_lower ps existing patch now =
     (let m1 = (case cp_phone patch of
                  Some phone \<Rightarrow>
                    if phone \<noteq> ct_phone existing
                    then existing\<lparr>ct_phone_verified_at :=
                             proof_on_file_in lower sql_lower (ct_user_email existing) phone ps,
                           ct_phone := phone\<rparr>
                    else existing
                | None \<Rightarrow> existing);
          m2 = (case cp_push_token patch of
                  Some token \<Rightarrow>
                    if token \<noteq> ct_push_token existing
                    then m1\<lparr>ct_push_token := token, ct_push_verified_at := None\<rparr> else m1
                | None \<Rightarrow> m1);
          m3 = (case cp_quiet_hours patch of Some quiet \<Rightarrow> m2\<lparr>ct_quiet_hours := quiet\<rparr> | None \<Rightarrow> m2)
      in m3\<lparr>ct_updated_at := now\<rparr>)"

text \<open>The row is written back under its primary key.\<close>

definition update_in ::
    "(string \<Rightarrow> string) \<Rightarrow> (string \<Rightarrow> string) \<Rightarrow> profile \<Rightarrow> contact_patch \<Rightarrow> int
     \<Rightarrow> profile list \<Rightarrow> profile \<times> profile list" where
  "update_in lower sql_lower existing patch now ps =
     (let m = patched lower sql_lower ps existing patch now
      in (m, map (\<lambda>p. if pf_id p = pf_id existing then m else p) ps))"

definition pick_rank :: "string \<times> contact \<Rightarrow> bool \<times> int \<times> string" where
  "pick_rank ic = (case ic of (i, c) \<Rightarrow> (phone_is_pageable c, ct_updated_at c, i))"

definition upsert_in ::
    "(string \<Rightarrow> string) \<Rightarrow> (string \<Rightarrow> string) \<Rightarrow> string \<Rightarrow> string \<Rightarrow> string \<Rightarrow> contact_patch \<Rightarrow> int
     \<Rightarrow> phone_db \<Rightarrow> (contact, db_error) result \<times> phone_db" where
  "upsert_in lower sql_lower new_id org_id user_email patch now db =
     (let variants = sort_key pf_id (filter (\<lambda>p. ct_org_id p = org_id \<and> same_person lower sql_lower user_email p)
                                        (db_profiles db));
          (saved, ps) =
            (if variants = []
             then (let (m, ps) = insert_in lower sql_lower new_id org_id (lower user_email) patch now (db_profiles db)
                   in ([m], ps))
             else foldl (\<lambda>(saved, ps) existing.
                            let (m, ps') = update_in lower sql_lower existing patch now ps in (saved @ [m], ps'))
                    ([], db_profiles db) variants)
      in (case max_by (\<lambda>a b. cmp (pick_rank a) (pick_rank b)) (map (\<lambda>m. (pf_id m, to_contact m)) saved) of
            Some (_, contact) \<Rightarrow> Ok contact
          | None \<Rightarrow> Err (SeaORMError (''oncall_user_contacts '' @ org_id @ '': nothing saved'')),
          db\<lparr>db_profiles := ps\<rparr>))"

definition list_for_in ::
    "(string \<Rightarrow> string) \<Rightarrow> (string \<Rightarrow> string) \<Rightarrow> string \<Rightarrow> string list \<Rightarrow> phone_db \<Rightarrow> (string \<rightharpoonup> contact)" where
  "list_for_in lower sql_lower org_id emails db =
     (if emails = [] then Map.empty
      else map_option snd \<circ>
        foldl (\<lambda>picked row.
                 let key = lower (ct_user_email (snd row)) in
                 if (case picked key of None \<Rightarrow> True | Some held \<Rightarrow> pick_rank held < pick_rank row)
                 then picked(key \<mapsto> row) else picked)
          Map.empty
          (map (\<lambda>m. (pf_id m, to_contact m))
             (filter (\<lambda>p. ct_org_id p = org_id \<and> sql_lower (ct_user_email p) \<in> set (map lower emails))
                (db_profiles db))))"

definition get_in ::
    "(string \<Rightarrow> string) \<Rightarrow> (string \<Rightarrow> string) \<Rightarrow> string \<Rightarrow> string \<Rightarrow> phone_db \<Rightarrow> contact option" where
  "get_in lower sql_lower org_id user_email db =
     list_for_in lower sql_lower org_id [user_email] db (lower user_email)"

section \<open>Replication\<close>

text \<open>A contact as another cluster sent it: number and proof are applied as received.\<close>

definition put_contact_in ::
    "(string \<Rightarrow> string) \<Rightarrow> (string \<Rightarrow> string) \<Rightarrow> string \<Rightarrow> string \<Rightarrow> string \<Rightarrow> string option \<Rightarrow> int option \<Rightarrow> int
     \<Rightarrow> phone_db \<Rightarrow> phone_db" where
  "put_contact_in lower sql_lower row_id org_id user_email phone verified_at now db =
     (let flt = (\<lambda>p. ct_org_id p = org_id \<and> same_person lower sql_lower user_email p)
      in if filter flt (db_profiles db) \<noteq> []
         then db\<lparr>db_profiles := map (\<lambda>p. if flt p then p\<lparr>ct_phone := phone, ct_phone_verified_at := verified_at\<rparr> else p)
                (db_profiles db)\<rparr>
         else db\<lparr>db_profiles := db_profiles db @
                [\<lparr>ct_org_id = org_id, ct_user_email = user_email, ct_phone = phone, ct_phone_verified_at = verified_at,
                  ct_push_token = None, ct_push_verified_at = None, ct_quiet_hours = None, ct_updated_at = now, pf_id = row_id\<rparr>]\<rparr>)"

section \<open>Histories\<close>

text \<open>
  A run of the system: the operations of the two tables in any order, each at an instant not
  before the last one's, with a log of the texts sent, the tries counted, the codes spent and the proofs
  received from another cluster. An address another cluster sends is one on which the two lower-casings
  agree, as every plain ASCII address is; all other addresses are stored in lower case.
\<close>

datatype phone_op =
    Reserve string string string string
  | Claim string string int
  | Confirm string string int
  | Upsert string string string contact_patch
  | Delete string string
  | Replicate string string string "string option" "int option"

datatype phone_event = Sent string string | Claimed string string | Confirmed string string | Received string string

fun phone_exec ::
    "(string \<Rightarrow> string) \<Rightarrow> (string \<Rightarrow> string) \<Rightarrow> int \<Rightarrow> phone_op \<Rightarrow> phone_db \<Rightarrow> phone_event list \<times> phone_db" where
  "phone_exec lower sql_lower now (Reserve new_id user_email target code_hash) db =
     (case reserve_code_in lower sql_lower new_id user_email target code_hash now db of (res, db') \<Rightarrow>
        (if res = Ok (Some Send) then [Sent (lower user_email) target] else [], db'))"
| "phone_exec lower sql_lower now (Claim user_email target sent_at) db =
     (case claim_attempt_in lower user_email target sent_at now db of (claimed, db') \<Rightarrow>
        (if claimed then [Claimed (lower user_email) target] else [], db'))"
| "phone_exec lower sql_lower now (Confirm user_email target sent_at) db =
     (case confirm_in lower sql_lower user_email target sent_at now db of (marked, db') \<Rightarrow>
        (if marked \<noteq> None then [Confirmed (lower user_email) target] else [], db'))"
| "phone_exec lower sql_lower now (Upsert new_id org_id user_email patch) db =
     ([], snd (upsert_in lower sql_lower new_id org_id user_email patch now db))"
| "phone_exec lower sql_lower now (Delete org_id user_email) db =
     ([], snd (delete_in lower sql_lower org_id user_email db))"
| "phone_exec lower sql_lower now (Replicate row_id org_id user_email phone verified_at) db =
     ((case phone of Some n \<Rightarrow> [Received (lower user_email) n] | None \<Rightarrow> []),
      put_contact_in lower sql_lower row_id org_id user_email phone verified_at now db)"

definition op_ok :: "(string \<Rightarrow> string) \<Rightarrow> (string \<Rightarrow> string) \<Rightarrow> phone_op \<Rightarrow> bool" where
  "op_ok lower sql_lower op = (case op of Replicate _ _ user_email _ _ \<Rightarrow> sql_lower user_email = lower user_email | _ \<Rightarrow> True)"

inductive phone_run ::
    "(string \<Rightarrow> string) \<Rightarrow> (string \<Rightarrow> string) \<Rightarrow> int \<Rightarrow> phone_event list \<Rightarrow> phone_db \<Rightarrow> bool"
  for lower sql_lower where
  phone_start: "phone_run lower sql_lower now [] \<lparr>db_codes = [], db_profiles = []\<rparr>"
| phone_step: "phone_run lower sql_lower now log db \<Longrightarrow> now \<le> now' \<Longrightarrow> op_ok lower sql_lower op \<Longrightarrow>
     phone_exec lower sql_lower now' op db = (new, db') \<Longrightarrow> phone_run lower sql_lower now' (new @ log) db'"

section \<open>One row at a time\<close>

definition vr_key :: "verification_row \<Rightarrow> string \<times> string" where
  "vr_key r = (vr_user_email r, vr_target r)"

definition row_of :: "verification_row \<Rightarrow> code_row" where
  "row_of m = \<lparr>cr_user_email = vr_user_email m, cr_target = vr_target m,
     cr_has_code = vr_code_hash m \<noteq> None, cr_attempts = nat (vr_attempts m),
     cr_sent_at = vr_sent_at m, cr_sends_today = nat (vr_sends_today m),
     cr_day_started_at = vr_day_started_at m\<rparr>"

lemma to_stored_row: "to_stored m = Ok s \<Longrightarrow> sc_row s = row_of m"
  by (auto simp: to_stored_def row_of_def split: if_splits)

lemma collect_stored: "collect_results (map to_stored ms) = Ok vs \<Longrightarrow> map sc_row vs = map row_of ms"
  by (induction ms arbitrary: vs) (auto simp: to_stored_row split: sum.splits)

text \<open>
  A table keyed by person and number, and an update through a filter that fixes the key: either
  it touches nothing or exactly the one row of that key.
\<close>

lemma keyed_update:
  assumes "distinct (map vr_key rs)" "\<And>r. P r \<Longrightarrow> vr_key r = k"
  obtains (none) "filter P rs = []" "map (\<lambda>r. if P r then f r else r) rs = rs"
  | (one) xs r ys where "rs = xs @ r # ys" "map (\<lambda>r. if P r then f r else r) rs = xs @ f r # ys"
      "filter P rs = [r]" "P r" "k \<notin> vr_key ` set (xs @ ys)"
proof (cases "filter P rs = []")
  case True
  then have "map (\<lambda>r. if P r then f r else r) rs = rs" by (auto simp: filter_empty_conv intro: map_idI)
  with True show ?thesis by (rule that(1))
next
  case False
  then obtain r where r: "r \<in> set rs" "P r" by (auto simp: filter_empty_conv)
  then obtain xs ys where rs: "rs = xs @ r # ys" by (meson split_list)
  have k: "k \<notin> vr_key ` set (xs @ ys)" using assms(1) assms(2) [OF r(2)] by (auto simp: rs)
  then have "\<not> P x" if "x \<in> set (xs @ ys)" for x using assms(2) that by blast
  then have "map (\<lambda>r. if P r then f r else r) rs = xs @ f r # ys" "filter P rs = [r]"
    using r(2) by (auto simp: rs filter_empty_conv intro!: map_idI)
  then show ?thesis using that(2) rs r(2) k by blast
qed

definition spent_since :: "int \<Rightarrow> verification_row list \<Rightarrow> nat" where
  "spent_since now rs = sum_list (map (\<lambda>r. if now - vr_day_started_at r < DAY_MICROS then nat (vr_sends_today r) else 0) rs)"

lemma spent_since_simps [simp]:
  "spent_since now [] = 0"
  "spent_since now (r # rs) =
     (if now - vr_day_started_at r < DAY_MICROS then nat (vr_sends_today r) else 0) + spent_since now rs"
  "spent_since now (rs @ rs') = spent_since now rs + spent_since now rs'"
  by (simp_all add: spent_since_def)

lemma sent_live_rows: "sent_live now (map row_of rs) = spent_since now rs"
  by (induction rs) (simp_all add: sent_live_def live_rows_def row_of_def)

lemma spent_since_mono: "now \<le> now' \<Longrightarrow> spent_since now' rs \<le> spent_since now rs"
  by (induction rs) auto

abbreviation of_user :: "string \<Rightarrow> verification_row list \<Rightarrow> verification_row list" where
  "of_user e rs \<equiv> filter (\<lambda>r. vr_user_email r = e) rs"

abbreviation of_number :: "string \<Rightarrow> verification_row list \<Rightarrow> verification_row list" where
  "of_number n rs \<equiv> filter (\<lambda>r. vr_target r = n) rs"

text \<open>What a send does to the table: the row of its key is written, or a first one added.\<close>

definition code_sent ::
    "int \<Rightarrow> string \<times> string \<Rightarrow> verification_row list \<Rightarrow> verification_row list \<Rightarrow> verification_row list
     \<Rightarrow> verification_row \<Rightarrow> bool" where
  "code_sent now k xs olds ys new \<longleftrightarrow>
     vr_key new = k \<and> k \<notin> vr_key ` set (xs @ ys) \<and> length olds \<le> 1 \<and> (\<forall>old \<in> set olds. vr_key old = k)
     \<and> vr_code_hash new \<noteq> None \<and> vr_attempts new = 0 \<and> vr_sent_at new = now \<and> 0 \<le> vr_sends_today new
     \<and> spent_since now [new] \<le> spent_since now olds + 1"

lemma next_counts_spent:
  "next_counts (map_option row_of old) now = (n, d) \<Longrightarrow> vr_sends_today new = int n \<Longrightarrow>
     vr_day_started_at new = d \<Longrightarrow>
     spent_since now [new] \<le> spent_since now (case old of Some r \<Rightarrow> [r] | None \<Rightarrow> []) + 1"
  by (auto simp: next_counts_def row_of_def DAY_MICROS_def split: option.splits if_splits)

lemma find_unique: "distinct (map vr_key rs) \<Longrightarrow> r \<in> set rs \<Longrightarrow> vr_key r = (e, t) \<Longrightarrow>
    List.find (\<lambda>r. vr_target r = t) (of_user e rs) = Some r"
proof (induction rs)
  case (Cons x rs)
  show ?case
  proof (cases "vr_key x = (e, t)")
    case True
    then have "x = r" using Cons.prems by (force simp: image_iff)
    then show ?thesis using True by (simp add: vr_key_def)
  next
    case False
    then show ?thesis using Cons by (auto simp: vr_key_def)
  qed
qed simp

lemma find_row_of: "List.find (\<lambda>r. cr_target r = t) (map row_of rs) = map_option row_of (List.find (\<lambda>r. vr_target r = t) rs)"
  by (induction rs) (simp_all add: row_of_def)

lemma find_key: "List.find (\<lambda>r. vr_target r = t) (of_user e rs) = Some r \<Longrightarrow> r \<in> set rs \<and> vr_key r = (e, t)"
  by (induction rs) (auto simp: vr_key_def split: if_splits)

lemma find_no_key:
  "List.find (\<lambda>r. vr_target r = t) (of_user e rs) = None \<Longrightarrow> (e, t) \<notin> vr_key ` set rs"
  by (auto simp: find_None_iff vr_key_def)

lemma store_code_effect:
  assumes keys: "distinct (map vr_key (db_codes db))"
    and pair: "pair = List.find (\<lambda>r. vr_target r = t) (of_user (lower u) (db_codes db))"
    and counts: "next_counts (map_option row_of pair) now = (n, d)"
  shows "\<exists>xs olds ys new. fst (store_code_in lower new_id u t h (map_option vr_sent_at pair) n d now db)
     \<and> db_codes db = xs @ olds @ ys
     \<and> snd (store_code_in lower new_id u t h (map_option vr_sent_at pair) n d now db) = db\<lparr>db_codes := xs @ new # ys\<rparr>
     \<and> code_sent now (lower u, t) xs olds ys new"
proof (cases pair)
  case None
  then have fresh: "(lower u, t) \<notin> vr_key ` set (db_codes db)" using find_no_key pair by simp
  let ?new = "\<lparr>vr_id = new_id, vr_user_email = lower u, vr_target = t, vr_code_hash = Some h,
      vr_attempts = 0, vr_sent_at = now, vr_sends_today = int n, vr_day_started_at = d,
      vr_created_at = now, vr_updated_at = now\<rparr>"
  have "spent_since now [?new] \<le> spent_since now [] + 1"
    using next_counts_spent [OF counts, of ?new] None by simp
  then have "code_sent now (lower u, t) (db_codes db) [] [] ?new"
    using fresh by (simp add: code_sent_def vr_key_def)
  moreover have "\<not> list_ex (\<lambda>r. vr_user_email r = lower u \<and> vr_target r = t) (db_codes db)"
    using fresh by (auto simp: list_ex_iff vr_key_def image_iff)
  then have "store_code_in lower new_id u t h (map_option vr_sent_at pair) n d now db
      = (True, db\<lparr>db_codes := db_codes db @ ?new # []\<rparr>)"
    using None by (simp add: store_code_in_def)
  ultimately show ?thesis by (metis append_Nil append_Nil2 fst_conv snd_conv)
next
  case (Some old)
  then have old: "old \<in> set (db_codes db)" "vr_key old = (lower u, t)" using find_key pair by auto
  let ?P = "\<lambda>r. vr_user_email r = lower u \<and> vr_target r = t \<and> vr_sent_at r = vr_sent_at old"
  let ?f = "\<lambda>r. r\<lparr>vr_code_hash := Some h, vr_attempts := 0, vr_sent_at := now,
      vr_sends_today := int n, vr_day_started_at := d, vr_updated_at := now\<rparr>"
  show ?thesis
  proof (rule keyed_update [OF keys, of ?P "(lower u, t)" ?f])
    fix xs r ys
    assume one: "db_codes db = xs @ r # ys" "map (\<lambda>r. if ?P r then ?f r else r) (db_codes db) = xs @ ?f r # ys"
      "filter ?P (db_codes db) = [r]" "?P r" "(lower u, t) \<notin> vr_key ` set (xs @ ys)"
    have "r = old" using one(1,5) old by (force simp: image_iff)
    have "spent_since now [?f r] \<le> spent_since now [r] + 1"
      using next_counts_spent [OF counts, of "?f r"] Some \<open>r = old\<close> by simp
    then have "code_sent now (lower u, t) xs [r] ys (?f r)"
      using one by (simp add: code_sent_def vr_key_def)
    moreover have "store_code_in lower new_id u t h (map_option vr_sent_at pair) n d now db
        = (True, db\<lparr>db_codes := xs @ ?f r # ys\<rparr>)"
      using Some one(2,3) by (simp add: store_code_in_def)
    ultimately show ?thesis using one(1)
      by (intro exI [of _ xs] exI [of _ "[r]"] exI [of _ ys] exI [of _ "?f r"]) simp
  qed (use old in \<open>auto simp: vr_key_def filter_empty_conv\<close>)
qed

section \<open>The invariant of the code table\<close>

definition caps_ok :: "int \<Rightarrow> verification_row list \<Rightarrow> bool" where
  "caps_ok now rs \<longleftrightarrow>
     (\<forall>e. spent_since now (of_user e rs) \<le> SENDS_PER_USER_PER_DAY)
     \<and> (\<forall>n. spent_since now (of_number n rs) \<le> SENDS_PER_NUMBER_PER_DAY)"

definition row_ok :: "phone_event list \<Rightarrow> verification_row \<Rightarrow> bool" where
  "row_ok log r \<longleftrightarrow>
     (let e = vr_user_email r; t = vr_target r in
      0 \<le> vr_attempts r \<and> vr_attempts r \<le> 5
      \<and> count_list log (Confirmed e t) + (if vr_code_hash r = None then 0 else 1) \<le> count_list log (Sent e t)
      \<and> count_list log (Claimed e t) + nat (5 - vr_attempts r) \<le> 5 * count_list log (Sent e t))"

definition codes_ok :: "int \<Rightarrow> phone_event list \<Rightarrow> verification_row list \<Rightarrow> bool" where
  "codes_ok now log rs \<longleftrightarrow>
     distinct (map vr_key rs) \<and> caps_ok now rs \<and> (\<forall>r \<in> set rs. row_ok log r)
     \<and> (\<forall>e t. (e, t) \<notin> vr_key ` set rs \<longrightarrow> Confirmed e t \<notin> set log \<and> Claimed e t \<notin> set log)"

lemma codes_okD:
  assumes "codes_ok now log rs"
  shows "distinct (map vr_key rs)" "caps_ok now rs" "r \<in> set rs \<Longrightarrow> row_ok log r"
    "(e, t) \<notin> vr_key ` set rs \<Longrightarrow> Confirmed e t \<notin> set log \<and> Claimed e t \<notin> set log"
  using assms by (auto simp: codes_ok_def)

lemma codes_ok_later: "codes_ok now log rs \<Longrightarrow> now \<le> now' \<Longrightarrow> codes_ok now' log rs"
  using spent_since_mono order_trans unfolding codes_ok_def caps_ok_def by meson

text \<open>An event of one key says nothing about the rows of the others.\<close>

lemma row_ok_other:
  "row_ok log r \<Longrightarrow> vr_key r \<noteq> (e, t) \<Longrightarrow> ev \<in> {Sent e t, Claimed e t, Confirmed e t} \<Longrightarrow> row_ok (ev # log) r"
  by (auto simp: row_ok_def vr_key_def Let_def)

lemma codes_ok_replace:
  assumes ok: "codes_ok now log (xs @ olds @ ys)" and fresh: "(e, t) \<notin> vr_key ` set (xs @ ys)"
    and olds: "\<forall>old \<in> set olds. vr_key old = (e, t)" and new: "vr_key new = (e, t)" "row_ok (ev # log) new"
    and ev: "ev \<in> {Sent e t, Claimed e t, Confirmed e t}" and caps: "caps_ok now (xs @ new # ys)"
  shows "codes_ok now (ev # log) (xs @ new # ys)"
  unfolding codes_ok_def
proof (intro conjI ballI allI impI caps)
  show "distinct (map vr_key (xs @ new # ys))"
    using codes_okD(1) [OF ok] fresh new by auto
next
  fix r assume "r \<in> set (xs @ new # ys)"
  then consider "r = new" | "r \<in> set (xs @ ys)" by auto
  then show "row_ok (ev # log) r"
  proof cases
    case 2
    then have "vr_key r \<noteq> (e, t)" using fresh by force
    then show ?thesis using codes_okD(3) [OF ok, of r] 2 row_ok_other ev by auto
  qed (use new in simp)
next
  fix e' t' assume not_in: "(e', t') \<notin> vr_key ` set (xs @ new # ys)"
  then have "(e', t') \<noteq> (e, t)" using new by auto
  moreover have "(e', t') \<notin> vr_key ` set (xs @ olds @ ys)" using not_in olds new by auto
  ultimately show "Confirmed e' t' \<notin> set (ev # log)" "Claimed e' t' \<notin> set (ev # log)"
    using codes_okD(4) [OF ok, of e' t'] ev by auto
qed

lemma codes_ok_sent:
  assumes ok: "codes_ok now log (xs @ olds @ ys)" and sent: "code_sent now (e, t) xs olds ys new"
    and user: "spent_since now (of_user e (xs @ olds @ ys)) mod 4294967296 < 5"
    and number: "spent_since now (of_number t (xs @ olds @ ys)) mod 4294967296 < 10"
  shows "codes_ok now (Sent e t # log) (xs @ new # ys)"
proof (rule codes_ok_replace [OF ok])
  have caps: "spent_since now (of_user e' (xs @ olds @ ys)) \<le> 5" "spent_since now (of_number n (xs @ olds @ ys)) \<le> 10" for e' n
    using codes_okD(2) [OF ok] by (auto simp: caps_ok_def SENDS_PER_USER_PER_DAY_def SENDS_PER_NUMBER_PER_DAY_def)
  have lt: "spent_since now (of_user e (xs @ olds @ ys)) < 5" "spent_since now (of_number t (xs @ olds @ ys)) < 10"
    using caps(1) [of e] caps(2) [of t] user number by simp_all
  have olds: "olds = [] \<or> (\<exists>old. olds = [old] \<and> vr_key old = (e, t))"
    using sent by (cases olds) (auto simp: code_sent_def)
  have new: "vr_user_email new = e" "vr_target new = t" "spent_since now [new] \<le> spent_since now olds + 1"
    using sent by (auto simp: code_sent_def vr_key_def)
  have "spent_since now (of_user e' (xs @ new # ys)) \<le> 5" for e'
    using caps(1) [of e'] lt(1) new olds by (auto simp: vr_key_def)
  moreover have "spent_since now (of_number n (xs @ new # ys)) \<le> 10" for n
    using caps(2) [of n] lt(2) new olds by (auto simp: vr_key_def)
  ultimately show "caps_ok now (xs @ new # ys)"
    by (simp add: caps_ok_def SENDS_PER_USER_PER_DAY_def SENDS_PER_NUMBER_PER_DAY_def)
  show "row_ok (Sent e t # log) new"
  proof (cases olds)
    case Nil
    then have "(e, t) \<notin> vr_key ` set (xs @ olds @ ys)" using sent by (simp add: code_sent_def)
    then show ?thesis using codes_okD(4) [OF ok] sent new
      by (auto simp: row_ok_def code_sent_def count_list_0_iff Let_def)
  next
    case (Cons old rest)
    then have "row_ok log old" "vr_user_email old = e" "vr_target old = t"
      using codes_okD(3) [OF ok, of old] sent by (auto simp: code_sent_def vr_key_def)
    then show ?thesis using sent new by (auto simp: row_ok_def code_sent_def Let_def split: if_splits)
  qed
qed (use sent in \<open>auto simp: code_sent_def\<close>)

text \<open>Counting a try and spending a code keep the row's place and its sends.\<close>

lemma caps_ok_same:
  assumes "caps_ok now (xs @ r # ys)" "vr_key r' = vr_key r" "vr_sends_today r' = vr_sends_today r"
    "vr_day_started_at r' = vr_day_started_at r"
  shows "caps_ok now (xs @ r' # ys)"
proof -
  have "spent_since now (of_user e (xs @ r' # ys)) = spent_since now (of_user e (xs @ r # ys))"
    "spent_since now (of_number n (xs @ r' # ys)) = spent_since now (of_number n (xs @ r # ys))" for e n
    using assms(2-4) by (auto simp: vr_key_def)
  then show ?thesis using assms(1) unfolding caps_ok_def by presburger
qed

lemma codes_ok_update:
  assumes ok: "codes_ok now log rs" and key: "\<And>r. P r \<Longrightarrow> vr_key r = (e, t)"
    and upd: "\<And>r. vr_key (f r) = vr_key r" "\<And>r. vr_sends_today (f r) = vr_sends_today r"
      "\<And>r. vr_day_started_at (f r) = vr_day_started_at r"
    and row: "\<And>r. P r \<Longrightarrow> row_ok log r \<Longrightarrow> row_ok (ev # log) (f r)"
    and ev: "ev \<in> {Sent e t, Claimed e t, Confirmed e t}"
  shows "codes_ok now (if length (filter P rs) = 1 then ev # log else log) (map (\<lambda>r. if P r then f r else r) rs)"
proof (rule keyed_update [OF codes_okD(1) [OF ok], of P "(e, t)" f])
  assume "filter P rs = []" "map (\<lambda>r. if P r then f r else r) rs = rs"
  then show ?thesis using ok by simp
next
  fix xs r ys
  assume one: "rs = xs @ r # ys" "map (\<lambda>r. if P r then f r else r) rs = xs @ f r # ys"
    "filter P rs = [r]" "P r" "(e, t) \<notin> vr_key ` set (xs @ ys)"
  have "codes_ok now (ev # log) (xs @ f r # ys)"
  proof (rule codes_ok_replace)
    show "codes_ok now log (xs @ [r] @ ys)" using ok one(1) by simp
    show "caps_ok now (xs @ f r # ys)"
      using codes_okD(2) [OF ok] one(1) upd by (blast intro: caps_ok_same)
    show "row_ok (ev # log) (f r)" using row [OF one(4)] codes_okD(3) [OF ok, of r] one(1) by simp
  qed (use one key upd ev in auto)
  then show ?thesis using one by simp
qed (rule key)

lemma codes_ok_claim:
  assumes "codes_ok now log (db_codes db)" "claim_attempt_in lower u t s now' db = (claimed, db')"
  shows "codes_ok now (if claimed then Claimed (lower u) t # log else log) (db_codes db')"
proof -
  let ?P = "\<lambda>r. vr_user_email r = lower u \<and> vr_target r = t \<and> vr_sent_at r = s \<and> vr_code_hash r \<noteq> None
      \<and> vr_attempts r < int CODE_MAX_ATTEMPTS \<and> vr_sent_at r > now' - CODE_TTL_MICROS"
  have "codes_ok now (if length (filter ?P (db_codes db)) = 1 then Claimed (lower u) t # log else log)
      (map (\<lambda>r. if ?P r then r\<lparr>vr_attempts := vr_attempts r + 1\<rparr> else r) (db_codes db))"
    by (rule codes_ok_update [OF assms(1), where e = "lower u" and t = t])
       (auto simp: vr_key_def row_ok_def Let_def CODE_MAX_ATTEMPTS_def nat_diff_distrib')
  then show ?thesis using assms(2) by (auto simp: claim_attempt_in_def Let_def)
qed

lemma codes_ok_confirm:
  assumes "codes_ok now log (db_codes db)" "confirm_in lower sql_lower u t s now' db = (marked, db')"
  shows "codes_ok now (if marked \<noteq> None then Confirmed (lower u) t # log else log) (db_codes db')"
proof -
  let ?P = "\<lambda>r. vr_user_email r = lower u \<and> vr_target r = t \<and> vr_sent_at r = s \<and> vr_code_hash r \<noteq> None"
  have "codes_ok now (if length (filter ?P (db_codes db)) = 1 then Confirmed (lower u) t # log else log)
      (map (\<lambda>r. if ?P r then r\<lparr>vr_code_hash := None, vr_updated_at := now'\<rparr> else r) (db_codes db))"
    by (rule codes_ok_update [OF assms(1), where e = "lower u" and t = t])
       (auto simp: vr_key_def row_ok_def Let_def)
  then show ?thesis
    using assms(1,2) by (cases "length (filter ?P (db_codes db)) = 1") (auto simp: confirm_in_def Let_def)
qed

lemma codes_ok_received: "codes_ok now log rs \<Longrightarrow> codes_ok now (Received e t # log) rs"
  by (auto simp: codes_ok_def row_ok_def Let_def)

section \<open>What is asked of lower-casing\<close>

text \<open>
  The program's lower-casing is stable, and the database's leaves what it produced alone. The two need not
  agree: SQLite's \<open>LOWER\<close> knows ASCII only.
\<close>

locale lowercasing =
  fixes lower :: "string \<Rightarrow> string" and sql_lower :: "string \<Rightarrow> string"
  assumes stable: "lower (lower s) = lower s" and fixed: "sql_lower (lower s) = lower s"
begin

lemma reserve_effect:
  assumes keys: "distinct (map vr_key (db_codes db))"
    and res: "reserve_code_in lower sql_lower new_id u t h now db = (res, db')"
  shows "if res = Ok (Some Send)
     then (\<exists>xs olds ys new. db_codes db = xs @ olds @ ys \<and> db' = db\<lparr>db_codes := xs @ new # ys\<rparr>
             \<and> code_sent now (lower u, t) xs olds ys new)
          \<and> spent_since now (of_user (lower u) (db_codes db)) mod 4294967296 < 5
          \<and> spent_since now (of_number t (db_codes db)) mod 4294967296 < 10
     else db' = db"
proof (cases "\<exists>us ns. list_for_user_in lower u db = Ok us \<and> list_for_target_in t db = Ok ns
    \<and> code_send_decision lower u t (map sc_row us) (map sc_row ns) now = Send
    \<and> list_ex (\<lambda>p. lower (ct_user_email p) = lower u \<and> ct_phone p = Some t) (profiles_to_lock lower sql_lower u t db)")
  case False
  then have "db' = db \<and> res \<noteq> Ok (Some Send)"
    using res by (auto simp: reserve_code_in_def Let_def split: if_splits sum.splits send_decision.splits prod.splits)
  then show ?thesis by simp
next
  case True
  then obtain us ns where us: "list_for_user_in lower u db = Ok us" and ns: "list_for_target_in t db = Ok ns"
    and send: "code_send_decision lower u t (map sc_row us) (map sc_row ns) now = Send"
    and lock: "list_ex (\<lambda>p. lower (ct_user_email p) = lower u \<and> ct_phone p = Some t) (profiles_to_lock lower sql_lower u t db)"
    by blast
  let ?mine = "of_user (lower u) (db_codes db)" and ?to = "of_number t (db_codes db)"
  have rows: "map sc_row us = map row_of ?mine" "map sc_row ns = map row_of ?to"
    using us ns collect_stored by (auto simp: list_for_user_in_def list_for_target_in_def list_in_def)
  have same: "rows_of lower u (map row_of ?mine) = map row_of ?mine" "rows_to t (map row_of ?to) = map row_of ?to"
    by (auto simp: row_of_def stable intro!: filter_True)
  have caps: "spent_since now ?mine mod 4294967296 < 5" "spent_since now ?to mod 4294967296 < 10"
    using send unfolding send_iff_no_wait rows same sent_live_rows
    by (simp_all add: SENDS_PER_USER_PER_DAY_def SENDS_PER_NUMBER_PER_DAY_def)
  define pair where "pair = List.find (\<lambda>r. vr_target r = t) ?mine"
  have found: "List.find (\<lambda>r. cr_target r = t) (map sc_row us) = map_option row_of pair"
    by (simp only: rows find_row_of pair_def)
  obtain n d where counts: "next_counts (map_option row_of pair) now = (n, d)" by (rule prod.exhaust)
  have sent_at: "map_option cr_sent_at (map_option row_of pair) = map_option vr_sent_at pair"
    by (cases pair) (simp_all add: row_of_def)
  let ?st = "store_code_in lower new_id u t h (map_option vr_sent_at pair) n d now db"
  obtain xs olds ys new where st: "fst ?st" "db_codes db = xs @ olds @ ys" "snd ?st = db\<lparr>db_codes := xs @ new # ys\<rparr>"
      "code_sent now (lower u, t) xs olds ys new"
    using store_code_effect [where lower = lower and u = u, OF keys pair_def counts] by blast
  have "reserve_code_in lower sql_lower new_id u t h now db = (Ok (Some Send), snd ?st)"
    using us ns send lock st(1)
    by (auto simp: reserve_code_in_def Let_def found counts sent_at split: prod.splits)
  then show ?thesis using res st caps by auto
qed

end

section \<open>The invariant of the profiles\<close>

definition evidence :: "phone_event list \<Rightarrow> string \<Rightarrow> string \<Rightarrow> bool" where
  "evidence log e n \<longleftrightarrow> Confirmed e n \<in> set log \<or> Received e n \<in> set log"

definition proved :: "(string \<Rightarrow> string) \<Rightarrow> (string \<Rightarrow> string) \<Rightarrow> phone_event list \<Rightarrow> profile \<Rightarrow> bool" where
  "proved lower sql_lower log p \<longleftrightarrow>
     sql_lower (ct_user_email p) = lower (ct_user_email p) \<and>
     (case ct_phone p of
        None \<Rightarrow> True
      | Some n \<Rightarrow> ct_phone_verified_at p = None \<or> evidence log (lower (ct_user_email p)) n)"

lemma proved_more: "proved lower sql_lower log p \<Longrightarrow> set log \<subseteq> set log' \<Longrightarrow> proved lower sql_lower log' p"
  by (auto simp: proved_def evidence_def split: option.splits)

lemma set_map_filter_Some: "y \<in> set (List.map_filter f xs) \<longleftrightarrow> (\<exists>x \<in> set xs. f x = Some y)"
  by (force simp: List.map_filter_def)

context lowercasing
begin

lemma proof_on_file_proved:
  assumes "\<forall>p \<in> set ps. proved lower sql_lower log p" "\<not> evidence log (lower e) n"
  shows "proof_on_file_in lower sql_lower e (Some n) ps = None"
proof (rule ccontr)
  assume "proof_on_file_in lower sql_lower e (Some n) ps \<noteq> None"
  then obtain p v where "p \<in> set ps" "ct_phone_verified_at p = Some v" "sql_lower (ct_user_email p) = lower e" "ct_phone p = Some n"
    by (auto simp: proof_on_file_in_def set_map_filter_Some dest!: max_opt_in)
  then show False using assms by (force simp: proved_def)
qed

lemma proved_patched:
  assumes "\<forall>p \<in> set ps. proved lower sql_lower log p" "proved lower sql_lower log existing"
  shows "proved lower sql_lower log (patched lower sql_lower ps existing patch now)"
  using assms(2) proof_on_file_proved [OF assms(1), of "ct_user_email existing"]
  by (auto simp: patched_def proved_def Let_def split: option.splits)

lemma proved_updates:
  assumes "\<forall>p \<in> set ps. proved lower sql_lower log p" "\<forall>p \<in> set vs. proved lower sql_lower log p"
  shows "\<forall>p \<in> set (snd (foldl (\<lambda>(saved, ps) existing.
            let (m, ps') = update_in lower sql_lower existing patch now ps in (saved @ [m], ps')) (saved, ps) vs)).
         proved lower sql_lower log p"
  using assms
proof (induction vs arbitrary: saved ps)
  case (Cons v vs)
  obtain m ps' where upd: "update_in lower sql_lower v patch now ps = (m, ps')" by (rule prod.exhaust)
  then have "\<forall>p \<in> set ps'. proved lower sql_lower log p"
    using Cons.prems proved_patched [of ps log v patch now] by (auto simp: update_in_def Let_def)
  then show ?case using Cons.IH [of ps' "saved @ [m]"] Cons.prems(2) upd by simp
qed simp

lemma proved_upsert:
  assumes "\<forall>p \<in> set (db_profiles db). proved lower sql_lower log p"
  shows "\<forall>p \<in> set (db_profiles (snd (upsert_in lower sql_lower new_id org u patch now db))). proved lower sql_lower log p"
proof -
  let ?vs = "sort_key pf_id (filter (\<lambda>p. ct_org_id p = org \<and> same_person lower sql_lower u p) (db_profiles db))"
  have "proved lower sql_lower log (fst (insert_in lower sql_lower new_id org (lower u) patch now (db_profiles db)))"
    using proof_on_file_proved [OF assms, of "lower u"]
    by (auto simp: insert_in_def proved_def fixed stable Let_def split: option.splits)
  then have "\<forall>p \<in> set (snd (insert_in lower sql_lower new_id org (lower u) patch now (db_profiles db))). proved lower sql_lower log p"
    using assms by (simp add: insert_in_def Let_def)
  moreover have "\<forall>p \<in> set (snd (foldl (\<lambda>(saved, ps) existing.
            let (m, ps') = update_in lower sql_lower existing patch now ps in (saved @ [m], ps')) ([], db_profiles db) ?vs)).
         proved lower sql_lower log p"
    by (rule proved_updates) (use assms in auto)
  ultimately show ?thesis by (auto simp: upsert_in_def Let_def split: prod.splits)
qed

lemma proved_confirm:
  assumes "\<forall>p \<in> set (db_profiles db). proved lower sql_lower log p"
    and "confirm_in lower sql_lower u t s now db = (marked, db')"
  shows "\<forall>p \<in> set (db_profiles db'). proved lower sql_lower (if marked \<noteq> None then Confirmed (lower u) t # log else log) p"
  using assms(2) proved_more [OF assms(1) [rule_format], of _ "Confirmed (lower u) t # log"] assms(1)
  by (auto simp: confirm_in_def Let_def profile_with_number_def split: if_splits)
     (auto simp: proved_def evidence_def)

lemma proved_received:
  assumes "\<forall>p \<in> set (db_profiles db). proved lower sql_lower log p" "sql_lower u = lower u"
    and "\<And>n. phone = Some n \<Longrightarrow> Received (lower u) n \<in> set log"
  shows "\<forall>p \<in> set (db_profiles (put_contact_in lower sql_lower i org u phone v now db)). proved lower sql_lower log p"
  using assms
  by (auto simp: put_contact_in_def same_person_def proved_def evidence_def Let_def split: option.splits)

text \<open>The invariant of the whole state, kept by every operation.\<close>

theorem phone_run_invariant:
  assumes "phone_run lower sql_lower now log db"
  shows "codes_ok now log (db_codes db) \<and> (\<forall>p \<in> set (db_profiles db). proved lower sql_lower log p)"
  using assms
proof induction
  case (phone_start now)
  show ?case by (simp add: codes_ok_def caps_ok_def)
next
  case (phone_step now log db now' op new db')
  then have codes: "codes_ok now' log (db_codes db)" and profiles: "\<forall>p \<in> set (db_profiles db). proved lower sql_lower log p"
    using codes_ok_later by auto
  have more: "\<forall>p \<in> set (db_profiles db). proved lower sql_lower (new @ log) p"
    using profiles proved_more [of lower sql_lower log _ "new @ log"] by auto
  note exec = phone_step.hyps(4)
  show ?case
  proof (cases op)
    case (Reserve new_id u t h)
    obtain res where res: "reserve_code_in lower sql_lower new_id u t h now' db = (res, db')"
        "new = (if res = Ok (Some Send) then [Sent (lower u) t] else [])"
      using exec by (auto simp: Reserve split: prod.splits)
    show ?thesis
    proof (cases "res = Ok (Some Send)")
      case True
      then obtain xs olds ys row where eff: "db_codes db = xs @ olds @ ys" "db' = db\<lparr>db_codes := xs @ row # ys\<rparr>"
          "code_sent now' (lower u, t) xs olds ys row"
          "spent_since now' (of_user (lower u) (db_codes db)) mod 4294967296 < 5"
          "spent_since now' (of_number t (db_codes db)) mod 4294967296 < 10"
        using reserve_effect [OF codes_okD(1) [OF codes] res(1)] by auto
      have "codes_ok now' (Sent (lower u) t # log) (xs @ row # ys)"
        using codes_ok_sent [OF codes [unfolded eff(1)] eff(3)] eff(4,5) unfolding eff(1) by simp
      then show ?thesis using True res(2) eff(2) more by simp
    next
      case False
      then show ?thesis using reserve_effect [OF codes_okD(1) [OF codes] res(1)] res(2) codes profiles by simp
    qed
  next
    case (Claim u t s)
    then show ?thesis
      using exec codes_ok_claim [OF codes, of lower u t s now'] more
      by (auto simp: claim_attempt_in_def Let_def split: prod.splits)
  next
    case (Confirm u t s)
    then obtain marked where c: "confirm_in lower sql_lower u t s now' db = (marked, db')"
        "new @ log = (if marked \<noteq> None then Confirmed (lower u) t # log else log)"
      using exec by (auto split: prod.splits)
    show ?thesis unfolding c(2) using codes_ok_confirm [OF codes c(1)] proved_confirm [OF profiles c(1)] by blast
  next
    case (Upsert new_id org u patch)
    then show ?thesis
      using exec codes proved_upsert [OF profiles, of new_id org u patch now']
      by (auto simp: upsert_in_def Let_def split: prod.splits)
  next
    case (Delete org u)
    then show ?thesis using exec codes profiles by (auto simp: delete_in_def Let_def)
  next
    case (Replicate i org u phone v)
    then have new: "new = (case phone of Some n \<Rightarrow> [Received (lower u) n] | None \<Rightarrow> [])"
      and db': "db' = put_contact_in lower sql_lower i org u phone v now' db" using exec by auto
    have "codes_ok now' (new @ log) (db_codes db')"
      using codes codes_ok_received by (auto simp: new db' put_contact_in_def Let_def split: option.splits)
    moreover have "sql_lower u = lower u" using phone_step.hyps(3) Replicate by (simp add: op_ok_def)
    ultimately show ?thesis using proved_received [OF more, of u phone i org v now'] by (simp add: new db')
  qed
qed

end

text \<open>Reading by address also needs the two lower-casings to agree.\<close>

locale agreeing = lowercasing +
  assumes agree: "sql_lower s = lower s"

interpretation ascii: agreeing to_ascii_lowercase to_ascii_lowercase
  by unfold_locales (simp_all add: lower_idem)

section \<open>Reading back what was saved\<close>

interpretation pick: keyed_cmp "\<lambda>a b. cmp (pick_rank a) (pick_rank b)" pick_rank
  by unfold_locales simp

text \<open>The fold of \<open>list_for_in\<close> keeps, under each key, a row of the greatest rank.\<close>

definition pick_row ::
    "(string \<Rightarrow> string) \<Rightarrow> (string \<rightharpoonup> string \<times> contact) \<Rightarrow> string \<times> contact \<Rightarrow> (string \<rightharpoonup> string \<times> contact)" where
  "pick_row lower picked row =
     (let key = lower (ct_user_email (snd row)) in
      if (case picked key of None \<Rightarrow> True | Some held \<Rightarrow> pick_rank held < pick_rank row)
      then picked(key \<mapsto> row) else picked)"

lemma pick_row_fold:
  assumes "\<forall>row \<in> set rows. lower (ct_user_email (snd row)) = k"
  shows "(case picked k of None \<Rightarrow> rows \<noteq> [] | Some _ \<Rightarrow> True) \<Longrightarrow>
     \<exists>m. foldl (pick_row lower) picked rows k = Some m \<and> (m \<in> set rows \<or> picked k = Some m)
       \<and> (\<forall>row \<in> set rows. pick_rank row \<le> pick_rank m)
       \<and> (\<forall>h. picked k = Some h \<longrightarrow> pick_rank h \<le> pick_rank m)"
  using assms
proof (induction rows arbitrary: picked)
  case Nil
  then show ?case by (cases "picked k") auto
next
  case (Cons row rows)
  define h where "h = (case picked k of None \<Rightarrow> row | Some g \<Rightarrow> if pick_rank g < pick_rank row then row else g)"
  have h: "pick_row lower picked row k = Some h" "pick_rank row \<le> pick_rank h"
      "h = row \<or> picked k = Some h" "\<forall>g. picked k = Some g \<longrightarrow> pick_rank g \<le> pick_rank h"
    using Cons.prems(2) by (auto simp: h_def pick_row_def Let_def split: option.splits)
  obtain m where "foldl (pick_row lower) (pick_row lower picked row) rows k = Some m"
      "m \<in> set rows \<or> pick_row lower picked row k = Some m" "\<forall>row \<in> set rows. pick_rank row \<le> pick_rank m"
      "pick_rank h \<le> pick_rank m"
    using Cons.IH [of "pick_row lower picked row"] Cons.prems h(1) by auto
  then show ?case using h by (auto intro: order_trans)
qed

lemma pick_rank_inj: "inj_on pf_id A \<Longrightarrow> inj_on pick_rank ((\<lambda>m. (pf_id m, to_contact m)) ` A)"
  by (auto simp: inj_on_def pick_rank_def)

lemma to_contact_fields [simp]:
  "ct_user_email (to_contact m) = ct_user_email m" "ct_org_id (to_contact m) = ct_org_id m"
  by (simp_all add: to_contact_def contact.defs)

text \<open>Reading a person's profile finds the row that ranks highest among the rows they have.\<close>

context agreeing
begin

lemma get_in_best:
  assumes rows: "rows = filter (\<lambda>p. ct_org_id p = org \<and> same_person lower sql_lower u p) (db_profiles db)"
    and ne: "rows \<noteq> []"
  shows "\<exists>m \<in> set rows. get_in lower sql_lower org u db = Some (to_contact m)
     \<and> (\<forall>p \<in> set rows. pick_rank (pf_id p, to_contact p) \<le> pick_rank (pf_id m, to_contact m))"
proof -
  let ?f = "\<lambda>m. (pf_id m, to_contact m)"
  have "\<exists>r. foldl (pick_row lower) Map.empty (map ?f rows) (lower u) = Some r \<and> r \<in> set (map ?f rows)
      \<and> (\<forall>row \<in> set (map ?f rows). pick_rank row \<le> pick_rank r)"
    using pick_row_fold [of "map ?f rows" lower "lower u" Map.empty] ne
    by (auto simp: rows same_person_def agree)
  moreover have "get_in lower sql_lower org u db =
      map_option snd (foldl (pick_row lower) Map.empty (map ?f rows) (lower u))"
    by (simp add: get_in_def list_for_in_def rows same_person_def pick_row_def [abs_def])
  ultimately show ?thesis by auto
qed

end

lemma find_by_key: "distinct (map f ms) \<Longrightarrow> m \<in> set ms \<Longrightarrow> List.find (\<lambda>x. f x = f m) ms = Some m"
  by (induction ms) force+

text \<open>The loop over the case variants: every variant is replaced by what was saved for it.\<close>

lemma update_loop:
  assumes "distinct (map pf_id vs)" "distinct (map pf_id ps)"
    and "foldl (\<lambda>(saved, ps) existing.
            let (m, ps') = update_in lower sql_lower existing patch now ps in (saved @ [m], ps')) (saved, ps) vs = (out, ps')"
  shows "\<exists>ms. out = saved @ ms \<and> map pf_id ms = map pf_id vs \<and> map ct_org_id ms = map ct_org_id vs
     \<and> map ct_user_email ms = map ct_user_email vs
     \<and> ps' = map (\<lambda>p. case List.find (\<lambda>m. pf_id m = pf_id p) ms of Some m \<Rightarrow> m | None \<Rightarrow> p) ps"
  using assms
proof (induction vs arbitrary: saved ps)
  case Nil
  then show ?case by simp
next
  case (Cons v vs)
  let ?m = "patched lower sql_lower ps v patch now"
  let ?ps = "map (\<lambda>p. if pf_id p = pf_id v then ?m else p) ps"
  have m: "pf_id ?m = pf_id v" "ct_org_id ?m = ct_org_id v" "ct_user_email ?m = ct_user_email v"
    by (auto simp: patched_def Let_def split: option.splits)
  have "map pf_id ?ps = map pf_id ps" by (auto simp: m)
  then have "distinct (map pf_id ?ps)" using Cons.prems(2) by (simp only:)
  moreover have "foldl (\<lambda>(saved, ps) existing.
      let (m, ps') = update_in lower sql_lower existing patch now ps in (saved @ [m], ps')) (saved @ [?m], ?ps) vs = (out, ps')"
    using Cons.prems(3) by (simp add: update_in_def Let_def)
  ultimately obtain ms where ms: "out = (saved @ [?m]) @ ms" "map pf_id ms = map pf_id vs"
      "map ct_org_id ms = map ct_org_id vs" "map ct_user_email ms = map ct_user_email vs"
      "ps' = map (\<lambda>p. case List.find (\<lambda>m. pf_id m = pf_id p) ms of Some m \<Rightarrow> m | None \<Rightarrow> p) ?ps"
    using Cons.IH [of ?ps "saved @ [?m]"] Cons.prems(1) by auto
  have "pf_id v \<notin> set (map pf_id ms)" unfolding ms(2) using Cons.prems(1) by simp
  then have fresh: "List.find (\<lambda>m. pf_id m = pf_id v) ms = None"
    unfolding find_None_iff by (metis image_eqI set_map)
  have "ps' = map (\<lambda>p. case List.find (\<lambda>m. pf_id m = pf_id p) (?m # ms) of Some m \<Rightarrow> m | None \<Rightarrow> p) ps"
    unfolding ms(5) using fresh m by (auto split: option.splits)
  then show ?case using ms m by (intro exI [of _ "?m # ms"]) auto
qed

text \<open>
  A table in which the rows of one selection are replaced, under their keys, by rows with the
  same selected fields: the selection afterwards is exactly the new rows.
\<close>

abbreviation replace_rows :: "profile list \<Rightarrow> profile list \<Rightarrow> profile list" where
  "replace_rows ms ps \<equiv> map (\<lambda>p. case List.find (\<lambda>m. pf_id m = pf_id p) ms of Some m \<Rightarrow> m | None \<Rightarrow> p) ps"

lemma found_iff_selected:
  assumes "distinct (map pf_id ps)" "set (map pf_id ms) = pf_id ` set (filter flt ps)" "p \<in> set ps"
  shows "List.find (\<lambda>m. pf_id m = pf_id p) ms = None \<longleftrightarrow> \<not> flt p"
proof -
  have "(\<exists>m \<in> set ms. pf_id m = pf_id p) \<longleftrightarrow> pf_id p \<in> set (map pf_id ms)"
    unfolding set_map image_iff by (rule bex_cong [OF refl eq_commute])
  also have "\<dots> \<longleftrightarrow> p \<in> set (filter flt ps)"
    unfolding assms(2) using assms(1,3) by (auto simp: distinct_map dest: inj_onD)
  finally show ?thesis using assms(3) unfolding find_None_iff by auto
qed

lemma replace_rows_selected:
  assumes ids: "distinct (map pf_id ps)" and ms: "set (map pf_id ms) = pf_id ` set (filter flt ps)"
    and dist: "distinct (map pf_id ms)" and flt: "\<And>m. m \<in> set ms \<Longrightarrow> flt m"
  shows "set (filter flt (replace_rows ms ps)) = set ms"
proof
  show "set (filter flt (replace_rows ms ps)) \<subseteq> set ms"
  proof
    fix x assume x: "x \<in> set (filter flt (replace_rows ms ps))"
    then obtain p where p: "p \<in> set ps"
        "x = (case List.find (\<lambda>m. pf_id m = pf_id p) ms of Some m \<Rightarrow> m | None \<Rightarrow> p)" by auto
    show "x \<in> set ms"
    proof (cases "List.find (\<lambda>m. pf_id m = pf_id p) ms")
      case None
      then show ?thesis using found_iff_selected [OF ids ms p(1)] x p(2) by simp
    next
      case (Some m)
      then show ?thesis using p(2) by (metis (no_types) find_Some_iff nth_mem option.simps(5))
    qed
  qed
  show "set ms \<subseteq> set (filter flt (replace_rows ms ps))"
  proof
    fix m assume m: "m \<in> set ms"
    then have "pf_id m \<in> pf_id ` set (filter flt ps)" by (simp only: ms [symmetric] set_map imageI)
    then obtain p where p: "p \<in> set ps" "pf_id p = pf_id m" by auto
    have "List.find (\<lambda>x. pf_id x = pf_id p) ms = Some m" using find_by_key [OF dist m] p(2) by simp
    then have "m \<in> set (replace_rows ms ps)" unfolding set_map by (intro image_eqI [OF _ p(1)]) simp
    then show "m \<in> set (filter flt (replace_rows ms ps))" using flt [OF m] by simp
  qed
qed

lemma same_fields_selected:
  assumes "map f ms = map f vs" "map g ms = map g vs" "m \<in> set ms"
  obtains v where "v \<in> set vs" "f m = f v" "g m = g v"
proof -
  have len: "length ms = length vs" using assms(1) by (metis length_map)
  obtain i where i: "i < length ms" "m = ms ! i" using assms(3) by (metis in_set_conv_nth)
  have iv: "i < length vs" using i(1) unfolding len .
  have "map f ms ! i = map f vs ! i" "map g ms ! i = map g vs ! i" by (simp_all only: assms(1,2))
  then have "f m = f (vs ! i)" "g m = g (vs ! i)" by (simp_all only: i(2) nth_map [OF i(1)] nth_map [OF iv])
  then show ?thesis using that nth_mem [OF iv] by blast
qed

context agreeing
begin

text \<open>The rows of the person after a save are exactly the rows that were saved.\<close>

lemma upsert_saved:
  assumes ids: "distinct (map pf_id (db_profiles db))"
  obtains ms db' where
    "upsert_in lower sql_lower new_id org u patch now db =
       (case max_by (\<lambda>a b. cmp (pick_rank a) (pick_rank b)) (map (\<lambda>m. (pf_id m, to_contact m)) ms) of
          Some (_, c) \<Rightarrow> Ok c
        | None \<Rightarrow> Err (SeaORMError (''oncall_user_contacts '' @ org @ '': nothing saved'')), db')"
    "ms \<noteq> []" "distinct (map pf_id ms)"
    "set (filter (\<lambda>p. ct_org_id p = org \<and> same_person lower sql_lower u p) (db_profiles db')) = set ms"
proof -
  define flt where "flt = (\<lambda>p :: profile. ct_org_id p = org \<and> same_person lower sql_lower u p)"
  define vs where "vs = sort_key pf_id (filter flt (db_profiles db))"
  have set_vs: "set vs = set (filter flt (db_profiles db))" by (simp add: vs_def)
  show ?thesis
  proof (cases "vs = []")
    case True
    let ?m = "fst (insert_in lower sql_lower new_id org (lower u) patch now (db_profiles db))"
    have none: "filter flt (db_profiles db) = []" using True set_vs by (metis set_empty)
    have "flt ?m" by (simp add: flt_def insert_in_def Let_def same_person_def agree stable)
    then show ?thesis using True none
      by (intro that [of "[?m]" "db\<lparr>db_profiles := db_profiles db @ [?m]\<rparr>"])
         (simp_all add: upsert_in_def Let_def insert_in_def flt_def vs_def)
  next
    case False
    have "inj_on pf_id (set vs)" using ids by (auto simp: set_vs distinct_map intro: inj_on_subset)
    moreover have "distinct vs" using ids by (simp add: vs_def distinct_map distinct_filter)
    ultimately have vs: "distinct (map pf_id vs)" by (simp add: distinct_map)
    obtain out ps' where loop: "foldl (\<lambda>(saved, ps) existing.
        let (m, ps') = update_in lower sql_lower existing patch now ps in (saved @ [m], ps')) ([], db_profiles db) vs
        = (out, ps')" by (rule prod.exhaust)
    obtain ms where ms: "out = ms" "map pf_id ms = map pf_id vs" "map ct_org_id ms = map ct_org_id vs"
        "map ct_user_email ms = map ct_user_email vs" "ps' = replace_rows ms (db_profiles db)"
      using update_loop [OF vs ids loop] by auto
    have "flt m" if mem: "m \<in> set ms" for m
      by (rule same_fields_selected [OF ms(3,4) mem]) (auto simp: set_vs flt_def same_person_def)
    moreover have "set (map pf_id ms) = pf_id ` set (filter flt (db_profiles db))" by (simp only: ms(2) set_map set_vs)
    moreover have dist: "distinct (map pf_id ms)" using vs by (simp only: ms(2))
    ultimately have "set (filter flt ps') = set ms" unfolding ms(5) using replace_rows_selected [OF ids] by blast
    moreover have "ms \<noteq> []" using False ms(2) by auto
    ultimately show ?thesis
      using False loop ms(1) dist
      by (intro that [of ms "db\<lparr>db_profiles := ps'\<rparr>"]) (simp_all add: upsert_in_def Let_def flt_def vs_def)
  qed
qed

lemma upsert_then_get:
  assumes "distinct (map pf_id (db_profiles db))"
  shows "\<exists>c. fst (upsert_in lower sql_lower new_id org u patch now db) = Ok c
     \<and> get_in lower sql_lower org u (snd (upsert_in lower sql_lower new_id org u patch now db)) = Some c"
proof (rule upsert_saved [OF assms, where new_id = new_id and org = org and u = u and patch = patch and now = now])
  fix ms db'
  let ?f = "\<lambda>m. (pf_id m, to_contact m)"
  assume up: "upsert_in lower sql_lower new_id org u patch now db =
       (case max_by (\<lambda>a b. cmp (pick_rank a) (pick_rank b)) (map ?f ms) of
          Some (_, c) \<Rightarrow> Ok c
        | None \<Rightarrow> Err (SeaORMError (''oncall_user_contacts '' @ org @ '': nothing saved'')), db')"
    and ms: "ms \<noteq> []" "distinct (map pf_id ms)"
    and rows: "set (filter (\<lambda>p. ct_org_id p = org \<and> same_person lower sql_lower u p) (db_profiles db')) = set ms"
  define rs where "rs = filter (\<lambda>p. ct_org_id p = org \<and> same_person lower sql_lower u p) (db_profiles db')"
  have rs: "set rs = set ms" "rs \<noteq> []" using ms(1) rows unfolding rs_def by (metis set_empty)+
  obtain m where m: "m \<in> set ms" "get_in lower sql_lower org u db' = Some (to_contact m)"
      "\<forall>p \<in> set ms. pick_rank (?f p) \<le> pick_rank (?f m)"
    using get_in_best [OF rs_def rs(2)] unfolding rs(1) by blast
  have "inj_on pick_rank (set (map ?f ms))"
    using pick_rank_inj [of "set ms"] ms(2) by (simp add: distinct_map)
  then have "max_by (\<lambda>a b. cmp (pick_rank a) (pick_rank b)) (map ?f ms) = Some (?f m)"
    using m(1,3) by (subst pick.max_by_unique) auto
  then show ?thesis using up m(2) by simp
qed

end

lemma filter_updated: "(\<And>r. \<not> P (f r)) \<Longrightarrow> filter P (map (\<lambda>r. if P r then f r else r) rs) = []"
  by (induction rs) simp_all

lemma filter_one_key:
  "distinct (map k rs) \<Longrightarrow> r \<in> set rs \<Longrightarrow> P r \<Longrightarrow> (\<And>x. P x \<Longrightarrow> k x = k r) \<Longrightarrow> filter P rs = [r]"
proof (induction rs)
  case (Cons x rs)
  show ?case
  proof (cases "x = r")
    case True
    have "filter P rs = []" using Cons.prems True unfolding filter_empty_conv by (metis distinct.simps(2) list.simps(9) image_eqI set_map)
    then show ?thesis using True Cons.prems(3) by simp
  next
    case False
    then have r: "r \<in> set rs" using Cons.prems(2) by simp
    then have "\<not> P x" using Cons.prems(1,4) by (metis distinct.simps(2) list.simps(9) image_eqI set_map)
    moreover have "filter P rs = [r]" by (rule Cons.IH [OF _ r Cons.prems(3)]) (use Cons.prems(1) in simp, erule Cons.prems(4))
    ultimately show ?thesis by simp
  qed
qed simp

lemma filter_one_row:
  assumes "distinct (map vr_key rs)" "r \<in> set rs" "\<And>x. P x \<Longrightarrow> vr_key x = vr_key r"
  shows "length (filter P rs) = 1 \<longleftrightarrow> P r"
proof (cases "P r")
  case True
  have "filter P rs = [r]" by (rule filter_one_key [where k = vr_key and P = P, OF assms(1,2) True]) (rule assms(3))
  then show ?thesis using True by simp
next
  case False
  have "x = r" if "x \<in> set rs" "vr_key x = vr_key r" for x
    using assms(1,2) that by (metis distinct_map inj_onD)
  then have "filter P rs = []" using False assms(3) unfolding filter_empty_conv by blast
  then show ?thesis using False by simp
qed

section \<open>Properties\<close>

text \<open>
  C11. A phone is paged only when it was proved: in every history of the two tables, a profile
  whose phone may be rung belongs to a person who spent here a code texted to exactly that number, every such
  proof using up a text of its own, or for whom another cluster sent that number. Saving, moving between
  organisations and deleting profiles never makes a number pageable.
\<close>

theorem phone_verified_only_by_code:
  assumes "lowercasing lower sql_lower" "phone_run lower sql_lower now log db"
    and "p \<in> set (db_profiles db)" "phone_is_pageable p"
  shows "\<exists>n. ct_phone p = Some n \<and>
     (Received (lower (ct_user_email p)) n \<in> set log \<or>
      Confirmed (lower (ct_user_email p)) n \<in> set log \<and>
      count_list log (Confirmed (lower (ct_user_email p)) n) \<le> count_list log (Sent (lower (ct_user_email p)) n))"
proof -
  let ?e = "lower (ct_user_email p)"
  note inv = lowercasing.phone_run_invariant [OF assms(1,2)]
  obtain n where n: "ct_phone p = Some n" "evidence log ?e n"
    using inv assms(3,4) by (force simp: phone_is_pageable_def on_file_def proved_def split: option.splits)
  have "count_list log (Confirmed ?e n) \<le> count_list log (Sent ?e n)" if "Confirmed ?e n \<in> set log"
  proof -
    have ok: "codes_ok now log (db_codes db)" using inv by simp
    have "(?e, n) \<in> vr_key ` set (db_codes db)" using codes_okD(4) [OF ok, of ?e n] that by blast
    then obtain r where "r \<in> set (db_codes db)" "vr_key r = (?e, n)" by force
    then show ?thesis using ok by (auto simp: codes_ok_def row_ok_def vr_key_def Let_def split: if_splits)
  qed
  then show ?thesis using n by (auto simp: evidence_def)
qed

text \<open>A first history for the examples: a number saved, a code texted, tried and spent.\<close>

definition sample_ops :: "(int \<times> phone_op) list" where
  "sample_ops =
     [(1, Upsert ''c1'' ''org'' ''Ana@x'' \<lparr>cp_phone = Some (Some ''+15550100''), cp_push_token = None, cp_quiet_hours = None\<rparr>),
      (2, Reserve ''v1'' ''ana@X'' ''+15550100'' ''h''),
      (3, Claim ''ana@x'' ''+15550100'' 2),
      (4, Confirm ''ana@x'' ''+15550100'' 2)]"

fun run_ops ::
    "(string \<Rightarrow> string) \<Rightarrow> (string \<Rightarrow> string) \<Rightarrow> (int \<times> phone_op) list \<Rightarrow> phone_event list \<times> phone_db
     \<Rightarrow> phone_event list \<times> phone_db" where
  "run_ops lower sql_lower [] s = s"
| "run_ops lower sql_lower ((now, op) # ops) (log, db) =
     (case phone_exec lower sql_lower now op db of (new, db') \<Rightarrow> run_ops lower sql_lower ops (new @ log, db'))"

lemma run_ops_run:
  assumes "phone_run lower sql_lower now log db" "sorted_wrt (\<le>) (now # map fst ops)"
    "list_all (op_ok lower sql_lower \<circ> snd) ops" "run_ops lower sql_lower ops (log, db) = (log', db')"
  shows "phone_run lower sql_lower (last (now # map fst ops)) log' db'"
  using assms
proof (induction ops arbitrary: now log db)
  case (Cons x ops)
  obtain t op where x: "x = (t, op)" by (rule prod.exhaust)
  obtain new db2 where e: "phone_exec lower sql_lower t op db = (new, db2)" by (rule prod.exhaust)
  have "phone_run lower sql_lower t (new @ log) db2"
    using phone_step [OF Cons.prems(1) _ _ e] Cons.prems(2,3) x by simp
  then show ?case using Cons.IH [of t "new @ log" db2] Cons.prems(2-4) x e by simp
qed simp

definition sample_phone_state :: "phone_event list \<times> phone_db" where
  "sample_phone_state =
     run_ops to_ascii_lowercase to_ascii_lowercase sample_ops ([], \<lparr>db_codes = [], db_profiles = []\<rparr>)"

lemma sample_phone_run:
  "phone_run to_ascii_lowercase to_ascii_lowercase 4 (fst sample_phone_state) (snd sample_phone_state)"
  using run_ops_run [OF phone_start, of 0 sample_ops to_ascii_lowercase to_ascii_lowercase
      "fst sample_phone_state" "snd sample_phone_state"]
  by (simp add: sample_phone_state_def [symmetric]) (simp add: sample_ops_def op_ok_def)

theorem phone_verified_only_by_code_witness:
  "Confirmed ''ana@x'' ''+15550100'' \<in> set (fst sample_phone_state)
   \<and> list_all phone_is_pageable (db_profiles (snd sample_phone_state)) \<and> db_profiles (snd sample_phone_state) \<noteq> []"
proof -
  let ?p = "hd (db_profiles (snd sample_phone_state))"
  have p: "?p \<in> set (db_profiles (snd sample_phone_state))" "phone_is_pageable ?p"
    "list_all phone_is_pageable (db_profiles (snd sample_phone_state))" "db_profiles (snd sample_phone_state) \<noteq> []"
    "to_ascii_lowercase (ct_user_email ?p) = ''ana@x''" "ct_phone ?p = Some ''+15550100''"
    "Received ''ana@x'' ''+15550100'' \<notin> set (fst sample_phone_state)"
    by code_simp+
  from phone_verified_only_by_code [OF ascii.lowercasing_axioms sample_phone_run p(1,2)] show ?thesis
    using p(3-7) by auto
qed

text \<open>
  The count and the answer agree: the one statement that counts a try accepts it exactly when
  the check of the same row would go on to compare the code, so no try is compared uncounted.
\<close>

theorem claim_agrees_with_check:
  assumes "distinct (map vr_key (db_codes db))" "r \<in> set (db_codes db)" "vr_key r = (lower u, t)" "0 \<le> vr_attempts r"
  shows "fst (claim_attempt_in lower u t (vr_sent_at r) now db) =
     (case code_check (Some (row_of r)) (Some t) b now of
        Verified \<Rightarrow> True | Wrong _ \<Rightarrow> True | _ \<Rightarrow> False)"
proof -
  have key: "vr_user_email r = lower u" "vr_target r = t" using assms(3) by (simp_all add: vr_key_def)
  have "fst (claim_attempt_in lower u t (vr_sent_at r) now db) \<longleftrightarrow>
      vr_code_hash r \<noteq> None \<and> vr_attempts r < 5 \<and> now - vr_sent_at r < CODE_TTL_MICROS"
    unfolding claim_attempt_in_def Let_def fst_conv
    by (subst filter_one_row [OF assms(1,2)]) (auto simp: vr_key_def key CODE_MAX_ATTEMPTS_def)
  then show ?thesis
    using assms(4) key by (auto simp: code_check_def row_of_def CODE_MAX_ATTEMPTS_def nat_le_iff not_le)
qed

definition sample_code :: verification_row where
  "sample_code = \<lparr>vr_id = ''v'', vr_user_email = ''ana@x'', vr_target = ''+15550100'', vr_code_hash = Some ''h'',
     vr_attempts = 4, vr_sent_at = 0, vr_sends_today = 1, vr_day_started_at = 0, vr_created_at = 0, vr_updated_at = 0\<rparr>"

theorem claim_agrees_with_check_witness:
  "fst (claim_attempt_in to_ascii_lowercase ''ANA@x'' ''+15550100'' 0 599999999 \<lparr>db_codes = [sample_code], db_profiles = []\<rparr>)"
proof -
  have "vr_key sample_code = (to_ascii_lowercase ''ANA@x'', ''+15550100'')" by code_simp
  from claim_agrees_with_check [where lower = to_ascii_lowercase and u = "''ANA@x''" and r = sample_code,
    OF _ _ this, of "\<lparr>db_codes = [sample_code], db_profiles = []\<rparr>" 599999999 True]
  show ?thesis by (simp add: code_check_def row_of_def) (simp add: sample_code_def CODE_TTL_MICROS_def CODE_MAX_ATTEMPTS_def)
qed

text \<open>
  A code proves a number once: confirming spends it, marks exactly the person's profiles that
  hold the number, and a second confirmation of the same code finds nothing.
\<close>

theorem code_spent_once:
  assumes "distinct (map vr_key (db_codes db))"
    and "confirm_in lower sql_lower u t s now db = (Some marked, db')"
  shows "marked = map (\<lambda>p. (ct_org_id p, ct_user_email p))
       (filter (profile_with_number lower sql_lower u t) (db_profiles db))
     \<and> confirm_in lower sql_lower u t s now' db' = (None, db')"
proof -
  let ?P = "\<lambda>r. vr_user_email r = lower u \<and> vr_target r = t \<and> vr_sent_at r = s \<and> vr_code_hash r \<noteq> None"
  let ?f = "\<lambda>r. r\<lparr>vr_code_hash := None, vr_updated_at := now\<rparr>"
  let ?mine = "profile_with_number lower sql_lower u t"
  from assms(2) have db': "db_codes db' = map (\<lambda>r. if ?P r then ?f r else r) (db_codes db)"
    and marked: "marked = map (\<lambda>p. (ct_org_id p, ct_user_email p))
      (filter (\<lambda>p. ?mine p \<and> ct_phone_verified_at p = Some now)
        (map (\<lambda>p. if ?mine p then p\<lparr>ct_phone_verified_at := Some now\<rparr> else p) (db_profiles db)))"
    by (auto simp: confirm_in_def Let_def split: if_splits)
  have mine: "?mine (p\<lparr>ct_phone_verified_at := v\<rparr>) = ?mine p" for p v
    by (simp add: profile_with_number_def)
  have "map (\<lambda>p. (ct_org_id p, ct_user_email p)) (filter (\<lambda>p. ?mine p \<and> ct_phone_verified_at p = Some now)
        (map (\<lambda>p. if ?mine p then p\<lparr>ct_phone_verified_at := Some now\<rparr> else p) ps))
      = map (\<lambda>p. (ct_org_id p, ct_user_email p)) (filter ?mine ps)" for ps
    by (induction ps) (auto simp: mine)
  then have "marked = map (\<lambda>p. (ct_org_id p, ct_user_email p)) (filter ?mine (db_profiles db))"
    using marked by (simp only:)
  moreover have "filter ?P (db_codes db') = []" unfolding db' by (rule filter_updated) simp
  then have "confirm_in lower sql_lower u t s now' db' = (None, db')" by (simp add: confirm_in_def Let_def)
  ultimately show ?thesis by blast
qed

theorem code_spent_once_witness:
  "confirm_in to_ascii_lowercase to_ascii_lowercase ''ana@x'' ''+15550100'' 0 8
     (snd (confirm_in to_ascii_lowercase to_ascii_lowercase ''ana@x'' ''+15550100'' 0 7
        \<lparr>db_codes = [sample_code], db_profiles = []\<rparr>))
   = (None, snd (confirm_in to_ascii_lowercase to_ascii_lowercase ''ana@x'' ''+15550100'' 0 7
        \<lparr>db_codes = [sample_code], db_profiles = []\<rparr>))"
proof -
  let ?c = "confirm_in to_ascii_lowercase to_ascii_lowercase ''ana@x'' ''+15550100'' 0 7
      \<lparr>db_codes = [sample_code], db_profiles = []\<rparr>"
  have "fst ?c = Some []" by code_simp
  then have c: "?c = (Some [], snd ?c)" by (metis prod.collapse)
  show ?thesis by (rule code_spent_once [OF _ c, THEN conjunct2]) simp
qed

text \<open>
  A save is read back: saving a contact never fails for want of a row, and reading the person
  afterwards, whatever the case of the address, returns the profile the save answered with.
\<close>

theorem contact_read_your_write:
  assumes "agreeing lower sql_lower" "distinct (map pf_id (db_profiles db))"
  shows "\<exists>c. fst (upsert_in lower sql_lower new_id org u patch now db) = Ok c
     \<and> get_in lower sql_lower org u (snd (upsert_in lower sql_lower new_id org u patch now db)) = Some c"
  by (rule agreeing.upsert_then_get [OF assms])

theorem contact_read_your_write_witness:
  "\<exists>c. get_in to_ascii_lowercase to_ascii_lowercase ''org'' ''ANA@x''
     (snd (upsert_in to_ascii_lowercase to_ascii_lowercase ''c2'' ''org'' ''ANA@x''
        \<lparr>cp_phone = None, cp_push_token = Some (Some ''tok''), cp_quiet_hours = None\<rparr> 9 (snd sample_phone_state)))
     = Some c"
proof -
  have "distinct (map pf_id (db_profiles (snd sample_phone_state)))" by code_simp
  from contact_read_your_write [OF ascii.agreeing_axioms this] show ?thesis by blast
qed

text \<open>
  The windows are fixed ones that restart, not rolling ones: nine of these ten texts from one
  person fall within nine minutes.
\<close>

definition burst_ops :: "(int \<times> phone_op) list" where
  "burst_ops =
     (1, Upsert ''c1'' ''org'' ''ana'' \<lparr>cp_phone = Some (Some ''+15550100''), cp_push_token = None, cp_quiet_hours = None\<rparr>)
     # map (\<lambda>now. (now, Reserve ''v'' ''ana'' ''+15550100'' ''h''))
         [1, 86160000001, 86220000001, 86280000001, 86340000001, 86400000001, 86460000001, 86520000001, 86580000001,
          86640000001]"

lemma ten_texts_in_a_day:
  "count_list (fst (run_ops to_ascii_lowercase to_ascii_lowercase burst_ops ([], \<lparr>db_codes = [], db_profiles = []\<rparr>)))
     (Sent ''ana'' ''+15550100'') = 10"
  by code_simp

end
