(* ===== verification/Midx_Bytes.thy ===== *)
theory Midx_Bytes
  imports OO_Prelude "HOL-Library.Word"
begin

text \<open>
  Byte primitives of the metrics index (\<open>src/metrics_index/src/block/compact.rs\<close>): little-endian
  words, LEB128 varints and zigzag.

  \<open>u8\<close>, \<open>u64\<close> and \<open>u128\<close> are words of their width, an \<open>i64\<close> is the 64-bit word of its bits with
  signed comparison and shift. An encoder is the bytes it appends to its output vector; a
  decoder, which in the source advances a position in a slice, takes the bytes from that
  position on and returns the value with the bytes that are left. Errors are the messages.
\<close>

unbundle bit_operations_syntax

type_synonym u8 = "8 word"
type_synonym u64 = "64 word"
type_synonym i64 = "64 word"
type_synonym u128 = "128 word"
type_synonym bytes = "u8 list"
type_synonym 'a decoder = "bytes \<Rightarrow> ('a \<times> bytes, string) result"

section \<open>Results\<close>

definition rbind :: "('a, 'e) result \<Rightarrow> ('a \<Rightarrow> ('b, 'e) result) \<Rightarrow> ('b, 'e) result" where
  "rbind r f = (case r of Inl e \<Rightarrow> Err e | Inr x \<Rightarrow> f x)"

lemma rbind_simps [simp]: "rbind (Ok x) f = f x" "rbind (Err e) f = Err e"
  by (simp_all add: rbind_def)

lemma rbind_Ok: "rbind r f = Ok y \<longleftrightarrow> (\<exists>x. r = Ok x \<and> f x = Ok y)"
  by (cases r) auto

definition ensure :: "bool \<Rightarrow> string \<Rightarrow> (unit, string) result" where
  "ensure b msg = (if b then Ok () else Err msg)"

lemma ensure_simps [simp]: "ensure True msg = Ok ()" "ensure False msg = Err msg"
  by (simp_all add: ensure_def)

lemma ensure_Ok [simp]: "ensure b msg = Ok () \<longleftrightarrow> b"
  by (simp add: ensure_def)

section \<open>Slices and little-endian words\<close>

definition take_bytes :: "nat \<Rightarrow> bytes decoder" where
  "take_bytes n bs = (if n \<le> length bs then Ok (take n bs, drop n bs) else Err ''truncated MIDX data'')"

definition get_byte :: "string \<Rightarrow> u8 decoder" where
  "get_byte msg bs = (case bs of [] \<Rightarrow> Err msg | b # rest \<Rightarrow> Ok (b, rest))"

definition to_le_bytes :: "nat \<Rightarrow> 'a::len word \<Rightarrow> bytes" where
  "to_le_bytes n v = map (\<lambda>i. ucast (drop_bit (8 * i) v)) [0..<n]"

fun from_le_bytes :: "bytes \<Rightarrow> 'a::len word" where
  "from_le_bytes [] = 0"
| "from_le_bytes (b # bs) = ucast b OR push_bit 8 (from_le_bytes bs)"

definition get_u32 :: "32 word decoder" where
  "get_u32 bs = rbind (take_bytes 4 bs) (\<lambda>(d, rest). Ok (from_le_bytes d, rest))"

definition get_u64 :: "u64 decoder" where
  "get_u64 bs = rbind (take_bytes 8 bs) (\<lambda>(d, rest). Ok (from_le_bytes d, rest))"

section \<open>Varints and zigzag\<close>

lemma drop_bit_7_less: "128 \<le> (v :: u64) \<Longrightarrow> unat (drop_bit 7 v) < unat v"
  by (simp add: drop_bit_eq_div unat_div word_le_nat_alt)

function put_varint :: "u64 \<Rightarrow> bytes" where
  "put_varint v = (if v \<ge> 0x80 then (ucast v OR 0x80) # put_varint (drop_bit 7 v) else [ucast v])"
  by pat_completeness auto
termination
  by (relation "measure unat") (simp_all add: drop_bit_7_less)

declare put_varint.simps [simp del]

fun get_varint_from :: "nat list \<Rightarrow> u64 \<Rightarrow> u64 decoder" where
  "get_varint_from [] value bs = Err ''varint overflow''"
| "get_varint_from (shift # shifts) value bs =
     (case bs of
        [] \<Rightarrow> Err ''truncated varint''
      | byte # rest \<Rightarrow>
          if \<not> (shift < 63 \<or> byte \<le> 1) then Err ''varint overflow''
          else (let value = value OR push_bit shift (ucast (byte AND 0x7f)) in
                if byte < 0x80 then Ok (value, rest) else get_varint_from shifts value rest))"

definition get_varint :: "u64 decoder" where
  "get_varint = get_varint_from [0, 7, 14, 21, 28, 35, 42, 49, 56, 63] 0"

definition zigzag :: "i64 \<Rightarrow> u64" where
  "zigzag value = push_bit 1 value XOR signed_drop_bit 63 value"

definition unzigzag :: "u64 \<Rightarrow> i64" where
  "unzigzag value = drop_bit 1 value XOR (- (value AND 1))"

section \<open>Lemmas\<close>

lemma unzigzag_zigzag [simp]: "unzigzag (zigzag v) = v"
proof (cases "bit v 63")
  case True
  have top_bit: "n = 63" if "n < 64" "\<not> n < 63" for n :: nat using that by simp
  from True have s: "signed_drop_bit 63 v = - 1"
    by (intro bit_eqI) (simp add: bit_signed_drop_bit_iff not_le)
  then have z: "zigzag v = NOT (push_bit 1 v)"
    by (simp add: zigzag_def)
  have "zigzag v AND 1 = 1" unfolding z by (intro bit_eqI) (auto simp: bit_simps simp del: push_bit_Suc drop_bit_Suc)
  then show ?thesis
    using True unfolding unzigzag_def z
    by (intro bit_eqI) (auto simp: bit_simps not_le simp del: push_bit_Suc drop_bit_Suc dest: top_bit)
next
  case False
  then have s: "signed_drop_bit 63 v = 0"
    by (intro bit_eqI) (simp add: bit_signed_drop_bit_iff not_le)
  then have z: "zigzag v = push_bit 1 v" by (simp add: zigzag_def)
  have "zigzag v AND 1 = 0" unfolding z by (intro bit_eqI) (auto simp: bit_simps simp del: push_bit_Suc drop_bit_Suc)
  then show ?thesis
    using False unfolding unzigzag_def z
    by (intro bit_eqI) (auto simp: bit_simps not_le simp del: push_bit_Suc drop_bit_Suc intro: le_neq_implies_less)
qed

text \<open>Reading a varint from any shift: the bytes carry the bits of the value above it.\<close>

lemma push_split: "push_bit s (take_bit 7 v) OR push_bit (s + 7) (drop_bit 7 v) = push_bit s (v :: u64)"
proof (rule bit_eqI)
  fix n
  show "bit (push_bit s (take_bit 7 v) OR push_bit (s + 7) (drop_bit 7 v)) n \<longleftrightarrow> bit (push_bit s v) n"
  proof (cases "n < s + 7")
    case False
    then have "7 + (n - (s + 7)) = n - s" by simp
    with False show ?thesis by (auto simp: bit_simps)
  qed (auto simp: bit_simps)
qed

lemma bit_0x80: "bit (0x80 :: 'a::len word) n \<longleftrightarrow> n = 7 \<and> 7 < LENGTH('a)"
proof -
  have "(0x80 :: 'a word) = 2 ^ 7" by simp
  then show ?thesis by (simp only: bit_exp_iff) auto
qed

lemma mask_0x7f: "(0x7f :: 'a::len word) = mask 7"
  by (simp add: mask_eq_exp_minus_1)

lemma take_bit_small: "v < 2 ^ k \<Longrightarrow> take_bit k (v :: 'a::len word) = v"
  by (simp add: take_bit_eq_self_iff_drop_bit_eq_0 drop_bit_eq_div div_word_less)

lemma varint_byte: "ucast (((ucast (v :: u64) :: u8) OR 0x80) AND 0x7f) = (take_bit 7 v :: u64)"
proof (rule bit_eqI)
  fix n
  show "bit (ucast (((ucast v :: u8) OR 0x80) AND 0x7f) :: u64) n \<longleftrightarrow> bit (take_bit 7 v) n"
    unfolding mask_0x7f bit_ucast_iff bit_and_iff bit_or_iff bit_0x80 bit_mask_iff bit_take_bit_iff
    by auto
qed

lemma varint_last: "v < 0x80 \<Longrightarrow> ucast ((ucast (v :: u64) :: u8) AND 0x7f) = v"
proof -
  assume "v < 0x80"
  then have "take_bit 7 v = v" by (intro take_bit_small) simp
  moreover have "ucast ((ucast v :: u8) AND 0x7f) = take_bit 7 v"
    unfolding mask_0x7f by (intro bit_eqI) (auto simp: bit_simps)
  ultimately show ?thesis by simp
qed

lemma not_small: "bit (v :: 'a::len word) k \<Longrightarrow> 2 ^ k \<le> v"
proof (rule ccontr)
  assume b: "bit v k" and "\<not> 2 ^ k \<le> v"
  then have "take_bit k v = v" by (intro take_bit_small) (simp add: not_le)
  then have "bit v k \<longleftrightarrow> bit (take_bit k v) k" by simp
  then show False using b by (simp add: bit_take_bit_iff)
qed

lemma varint_head: "\<not> ((ucast (v :: u64) :: u8) OR 0x80) < 0x80"
  using not_small [of "(ucast v :: u8) OR 0x80" 7] by (simp add: bit_or_iff bit_0x80 not_less)

lemma get_put_varint_from:
  assumes "shifts = map ((*) 7) [k..<10]" "k < 10" "unat v < 2 ^ (64 - 7 * k)"
  shows "get_varint_from shifts acc (put_varint v @ rest) = Ok (acc OR push_bit (7 * k) v, rest)"
  using assms
proof (induction v arbitrary: k shifts acc rule: put_varint.induct)
  case (1 v)
  have shifts: "shifts = 7 * k # map ((*) 7) [Suc k..<10]"
    using "1.prems"(1,2) by (simp add: upt_conv_Cons)
  show ?case
  proof (cases "v \<ge> 0x80")
    case True
    have k: "k < 9"
    proof (rule ccontr)
      assume "\<not> k < 9"
      then have "k = 9" using "1.prems"(2) by simp
      then show False using "1.prems"(3) True by (simp add: word_le_nat_alt)
    qed
    have "unat (drop_bit 7 v) < 2 ^ (64 - 7 * Suc k)"
    proof -
      note "1.prems"(3)
      moreover have "64 - 7 * k = (64 - 7 * Suc k) + 7" using k by simp
      ultimately have "unat v < 2 ^ (64 - 7 * Suc k) * 128" by (simp only: power_add) simp
      then have "unat v div 128 < 2 ^ (64 - 7 * Suc k)" by (simp add: less_mult_imp_div_less)
      then show ?thesis by (simp add: drop_bit_eq_div unat_div)
    qed
    then have "get_varint_from (map ((*) 7) [Suc k..<10]) (acc OR push_bit (7 * k) (take_bit 7 v)) (put_varint (drop_bit 7 v) @ rest)
        = Ok ((acc OR push_bit (7 * k) (take_bit 7 v)) OR push_bit (7 * Suc k) (drop_bit 7 v), rest)"
      using "1.IH" [OF True refl] k by simp
    then show ?thesis
      using True k by (simp add: put_varint.simps [of v] shifts varint_byte varint_head or.assoc push_split add.commute [of 7])
  next
    case False
    then have "ucast v < (0x80 :: u8)"
      by (simp add: word_less_nat_alt unsigned_ucast_eq not_le take_bit_nat_eq_self)
    moreover have "7 * k < 63 \<or> (ucast v :: u8) \<le> 1"
    proof (cases "k < 9")
      case False
      then have "k = 9" using "1.prems"(2) by simp
      then have "unat v < 2" using "1.prems"(3) by simp
      then show ?thesis by (simp add: word_le_nat_alt unsigned_ucast_eq take_bit_nat_eq_self)
    qed simp
    moreover have "put_varint v = [ucast v]" using False by (simp add: put_varint.simps)
    moreover have "ucast ((ucast v :: u8) AND 0x7f) = v" using False by (intro varint_last) (simp add: not_le)
    ultimately show ?thesis using False by (simp add: shifts)
  qed
qed

lemma get_put_varint [simp]: "get_varint (put_varint v @ rest) = Ok (v, rest)"
proof -
  have "[0, 7, 14, 21, 28, 35, 42, 49, 56, 63 :: nat] = map ((*) 7) [0..<10]" by (simp add: upt_rec)
  then show ?thesis
    using get_put_varint_from [of "map ((*) 7) [0..<10]" 0 v 0 rest] unsigned_less [of v, where ?'a = nat]
    by (simp add: get_varint_def)
qed

subsection \<open>Little-endian words\<close>

lemma length_le_bytes [simp]: "length (to_le_bytes n v) = n"
  by (simp add: to_le_bytes_def)

lemma bit_from_le_bytes:
  "bit (from_le_bytes bs :: 'a::len word) i \<longleftrightarrow> i < LENGTH('a) \<and> i div 8 < length bs \<and> bit (bs ! (i div 8)) (i mod 8)"
proof (induction bs arbitrary: i)
  case (Cons b bs)
  show ?case
  proof (cases "i < 8")
    case True
    then show ?thesis by (auto simp: bit_simps)
  next
    case False
    then obtain j where i: "i = 8 + j" by (metis le_Suc_ex not_less)
    have "\<not> bit b i" using False bit_imp_le_length [of b i] by auto
    moreover have "(8 + j) div 8 = Suc (j div 8)" by simp
    ultimately show ?thesis using False Cons.IH [of j] by (auto simp: i bit_simps)
  qed
qed simp

lemma from_to_le_bytes:
  assumes "LENGTH('a) \<le> 8 * n"
  shows "from_le_bytes (to_le_bytes n v) = (v :: 'a::len word)"
proof (rule bit_eqI)
  fix i assume "possible_bit TYPE('a word) i"
  then have i: "i < LENGTH('a)" by simp
  then have "i div 8 < n" using assms by simp
  then show "bit (from_le_bytes (to_le_bytes n v) :: 'a word) i \<longleftrightarrow> bit v i"
    using i by (simp add: bit_from_le_bytes to_le_bytes_def bit_simps)
qed

lemma get_u64_append [simp]: "get_u64 (to_le_bytes 8 v @ rest) = Ok (v, rest)"
  by (simp add: get_u64_def take_bytes_def from_to_le_bytes)

lemma get_u32_append [simp]: "get_u32 (to_le_bytes 4 v @ rest) = Ok (v, rest)"
  by (simp add: get_u32_def take_bytes_def from_to_le_bytes)

lemma take_bytes_append [simp]: "n = length d \<Longrightarrow> take_bytes n (d @ rest) = Ok (d, rest)"
  by (simp add: take_bytes_def)

subsection \<open>Lengths\<close>

lemma put_varint_nonempty [simp]: "put_varint v \<noteq> []"
  by (subst put_varint.simps) simp

lemma length_put_varint_le: "unat v < 2 ^ (7 * k) \<Longrightarrow> 0 < k \<Longrightarrow> length (put_varint v) \<le> k"
proof (induction v arbitrary: k rule: put_varint.induct)
  case (1 v)
  show ?case
  proof (cases "v \<ge> 0x80")
    case True
    then obtain j where k: "k = Suc j" "0 < j"
      using "1.prems" by (cases k; cases "k - 1") (auto simp: word_le_nat_alt)
    have "unat v < 2 ^ (7 * j) * 128" using "1.prems"(1) unfolding k by (simp add: power_add)
    then have "unat (drop_bit 7 v) < 2 ^ (7 * j)"
      by (simp add: drop_bit_eq_div unat_div less_mult_imp_div_less)
    then have "length (put_varint (drop_bit 7 v)) \<le> j" using "1.IH" [OF True] k(2) by simp
    then show ?thesis using True k by (simp add: put_varint.simps [of v])
  next
    case False
    then show ?thesis using "1.prems"(2) by (simp add: put_varint.simps [of v])
  qed
qed

lemma length_put_varint: "length (put_varint v) \<le> 10"
  by (rule length_put_varint_le) (use unsigned_less [of v, where ?'a = nat] in simp_all)

end
