(* ===== verification/Midx_Pack.thy ===== *)
theory Midx_Pack
  imports Midx_Bytes
begin

text \<open>
  Bit and byte packing of the metrics index (\<open>src/metrics_index/src/block/codec/pack.rs\<close>): the
  LSB-first bit writer over a 128-bit accumulator, the bit reader over 16-byte windows and the
  SparsePack chunks. The abstract view of a byte string is the list of its bits; the writer
  refines appending to it and the reader reads from it.
\<close>

section \<open>Bit writer\<close>

record bit_writer =
  bw_out :: bytes
  bw_acc :: u128
  bw_pending :: nat

definition bw_new :: "bytes \<Rightarrow> bit_writer" where
  "bw_new out = \<lparr>bw_out = out, bw_acc = 0, bw_pending = 0\<rparr>"

definition bw_put :: "u64 \<Rightarrow> nat \<Rightarrow> bit_writer \<Rightarrow> bit_writer" where
  "bw_put value width w =
     (let acc = bw_acc w OR push_bit (bw_pending w) (ucast value);
          pending = bw_pending w + width
      in if pending \<ge> 64
         then \<lparr>bw_out = bw_out w @ to_le_bytes 8 (ucast acc :: u64), bw_acc = drop_bit 64 acc,
               bw_pending = pending - 64\<rparr>
         else \<lparr>bw_out = bw_out w, bw_acc = acc, bw_pending = pending\<rparr>)"

definition div_ceil :: "nat \<Rightarrow> nat \<Rightarrow> nat" where
  "div_ceil a b = (a + b - 1) div b"

definition bw_finish :: "bit_writer \<Rightarrow> bytes" where
  "bw_finish w = bw_out w @ take (div_ceil (bw_pending w) 8) (to_le_bytes 8 (ucast (bw_acc w) :: u64))"

section \<open>Bit reader\<close>

definition read_bits :: "bytes \<Rightarrow> nat \<Rightarrow> nat \<Rightarrow> u64" where
  "read_bits data pos width =
     (let byte = pos div 8;
          word = (if byte + 16 \<le> length data then from_le_bytes (take 16 (drop byte data)) :: u128
                  else from_le_bytes (drop byte data @ replicate (16 - (length data - byte)) 0));
          value = ucast (drop_bit (pos mod 8) word) :: u64
      in if width = 64 then value else value AND (push_bit width 1 - 1))"

record bit_reader =
  br_bytes :: bytes
  br_bit :: nat

definition br_new :: "bytes \<Rightarrow> bit_reader" where
  "br_new bs = \<lparr>br_bytes = bs, br_bit = 0\<rparr>"

definition br_read :: "nat \<Rightarrow> bit_reader \<Rightarrow> (u64 \<times> bit_reader, string) result" where
  "br_read width r =
     (if br_bit r + width \<le> length (br_bytes r) * 8
      then Ok (read_bits (br_bytes r) (br_bit r) width, r\<lparr>br_bit := br_bit r + width\<rparr>)
      else Err ''truncated bitstream'')"

definition consumed_bytes :: "bit_reader \<Rightarrow> nat" where
  "consumed_bytes r = div_ceil (br_bit r) 8"

section \<open>SparsePack\<close>

definition CHUNK :: nat where "CHUNK = 64"
definition SPARSE :: u8 where "SPARSE = 0x80"

definition leading_zeros :: "u64 \<Rightarrow> nat" where
  "leading_zeros v = length (takeWhile Not (map (bit v) (rev [0..<64])))"

definition trailing_zeros :: "u64 \<Rightarrow> nat" where
  "trailing_zeros v = length (takeWhile Not (map (bit v) [0..<64]))"

definition count_ones :: "u64 \<Rightarrow> nat" where
  "count_ones v = length (filter (bit v) [0..<64])"

definition put_bits :: "u64 list \<Rightarrow> nat \<Rightarrow> bytes" where
  "put_bits values width = bw_finish (foldl (\<lambda>w v. bw_put v width w) (bw_new []) values)"

definition chunk_mask :: "u64 list \<Rightarrow> u64" where
  "chunk_mask chunk =
     foldl (\<lambda>mask (i, v). mask OR push_bit i (if v \<noteq> 0 then 1 else 0)) 0 (enumerate 0 chunk)"

definition put_chunk :: "u64 list \<Rightarrow> bytes" where
  "put_chunk chunk =
     (let width = 64 - leading_zeros (foldl (OR) 0 chunk);
          nonzero = filter (\<lambda>v. v \<noteq> 0) chunk
      in if width > 0 \<and> 64 + length nonzero * width < length chunk * width
         then (SPARSE OR of_nat width) # to_le_bytes 8 (chunk_mask chunk) @ put_bits nonzero width
         else of_nat width # (if width > 0 then put_bits chunk width else []))"

function put_sparse :: "u64 list \<Rightarrow> bytes" where
  "put_sparse values =
     (if values = [] then [] else put_chunk (take CHUNK values) @ put_sparse (drop CHUNK values))"
  by pat_completeness auto
termination
  by (relation "measure length") (auto simp: CHUNK_def)

declare put_sparse.simps [simp del]

text \<open>The loop over the set bits of the bitmap, lowest first.\<close>

lemma and_dec_less: "(v :: u64) \<noteq> 0 \<Longrightarrow> unat (v AND (v - 1)) < unat v"
proof -
  assume "v \<noteq> 0"
  then have "v - 1 < v" by (simp add: word_less_nat_alt unat_minus_one unat_gt_0)
  moreover have "v AND (v - 1) \<le> v - 1" by (simp add: word_and_le1)
  ultimately show ?thesis by (simp add: word_less_nat_alt word_le_nat_alt)
qed

function scatter :: "bytes \<Rightarrow> nat \<Rightarrow> u64 \<Rightarrow> nat \<Rightarrow> u64 list \<Rightarrow> u64 list" where
  "scatter data width rest j out =
     (if rest = 0 then out
      else scatter data width (rest AND (rest - 1)) (j + 1)
             (out[trailing_zeros rest := read_bits data (j * width) width]))"
  by pat_completeness auto
termination
  by (relation "measure (\<lambda>(_, _, rest, _, _). unat rest)") (simp_all add: and_dec_less)

declare scatter.simps [simp del]

definition get_chunk :: "nat \<Rightarrow> u64 list decoder" where
  "get_chunk len bs =
     rbind (get_byte ''truncated packed chunk'' bs) (\<lambda>(head, bs).
     let width = unat (head AND NOT SPARSE) in
     if head AND SPARSE = 0 then
       rbind (ensure (width \<le> 64) ''invalid packed width'') (\<lambda>_.
       rbind (take_bytes (div_ceil (len * width) 8) bs) (\<lambda>(data, bs).
       if width = 0 then Ok (replicate len 0, bs)
       else Ok (map (\<lambda>i. read_bits data (i * width) width) [0..<len], bs)))
     else
       rbind (ensure (1 \<le> width \<and> width \<le> 64) ''invalid sparse width'') (\<lambda>_.
       rbind (get_u64 bs) (\<lambda>(mask, bs).
       rbind (ensure (len = CHUNK \<or> drop_bit len mask = 0) ''sparse bitmap outside chunk'') (\<lambda>_.
       rbind (take_bytes (div_ceil (count_ones mask * width) 8) bs) (\<lambda>(data, bs).
       Ok (scatter data width mask 0 (replicate len 0), bs))))))"

function get_sparse :: "nat \<Rightarrow> u64 list decoder" where
  "get_sparse left bs =
     (if left = 0 then Ok ([], bs)
      else (let chunk = min left CHUNK in
            rbind (get_chunk chunk bs) (\<lambda>(vs, bs).
            rbind (get_sparse (left - chunk) bs) (\<lambda>(ws, bs). Ok (vs @ ws, bs)))))"
  by pat_completeness auto
termination
  by (relation "measure fst") (auto simp: CHUNK_def)

declare get_sparse.simps [simp del]

section \<open>Bits of a byte string\<close>

definition low_bits :: "nat \<Rightarrow> 'a::len word \<Rightarrow> bool list" where
  "low_bits n v = map (bit v) [0..<n]"

definition bits_of :: "bytes \<Rightarrow> bool list" where
  "bits_of bs = concat (map (low_bits 8) bs)"

lemma length_low_bits [simp]: "length (low_bits n v) = n"
  by (simp add: low_bits_def)

lemma nth_low_bits [simp]: "i < n \<Longrightarrow> low_bits n v ! i = bit v i"
  by (simp add: low_bits_def)

lemma bits_of_simps [simp]:
  "bits_of [] = []" "bits_of (b # bs) = low_bits 8 b @ bits_of bs" "bits_of (bs @ cs) = bits_of bs @ bits_of cs"
  by (simp_all add: bits_of_def)

lemma length_bits_of [simp]: "length (bits_of bs) = 8 * length bs"
  by (induction bs) simp_all

lemma nth_bits_of: "i < 8 * length bs \<Longrightarrow> bits_of bs ! i = bit (bs ! (i div 8)) (i mod 8)"
proof (induction bs arbitrary: i)
  case (Cons b bs)
  show ?case
  proof (cases "i < 8")
    case False
    then obtain j where i: "i = 8 + j" by (metis le_Suc_ex not_less)
    moreover have "(8 + j) div 8 = Suc (j div 8)" by simp
    ultimately show ?thesis using Cons.prems Cons.IH [of j] by (simp add: nth_append)
  qed (simp add: nth_append)
qed simp

lemma bits_of_le_bytes: "bits_of (to_le_bytes n v) = low_bits (8 * n) v"
proof (rule nth_equalityI)
  fix i assume "i < length (bits_of (to_le_bytes n v))"
  then have i: "i < 8 * n" by simp
  then have "i div 8 < n" by simp
  then show "bits_of (to_le_bytes n v) ! i = low_bits (8 * n) v ! i"
    using i by (simp add: nth_bits_of to_le_bytes_def bit_simps)
qed simp

lemma take_bits_of: "bits_of (take n bs) = take (8 * n) (bits_of bs)"
proof (induction bs arbitrary: n)
  case (Cons b bs)
  then show ?case by (cases n) simp_all
qed simp

lemma low_bits_add: "low_bits (m + n) v = low_bits m v @ low_bits n (drop_bit m v)"
  by (rule nth_equalityI) (auto simp: nth_append bit_simps)

lemma low_bits_cong: "(\<And>i. i < n \<Longrightarrow> bit v i = bit w i) \<Longrightarrow> low_bits n v = low_bits n w"
  by (simp add: low_bits_def)

section \<open>The writer refines appending bits\<close>

definition bw_ok :: "bit_writer \<Rightarrow> bool" where
  "bw_ok w \<longleftrightarrow> bw_pending w < 64 \<and> (\<forall>i. bit (bw_acc w) i \<longrightarrow> i < bw_pending w)"

definition bw_bits :: "bit_writer \<Rightarrow> bool list" where
  "bw_bits w = bits_of (bw_out w) @ low_bits (bw_pending w) (bw_acc w)"

definition fits :: "nat \<Rightarrow> u64 \<Rightarrow> bool" where
  "fits width v \<longleftrightarrow> (\<forall>i. bit v i \<longrightarrow> i < width)"

lemma bit_acc:
  "bit (acc OR push_bit p (ucast (v :: u64) :: u128)) i \<longleftrightarrow> bit acc i \<or> (p \<le> i \<and> i < 128 \<and> bit v (i - p))"
  by (auto simp: bit_simps dest: bit_imp_le_length)

lemma bw_put_bits:
  assumes "bw_ok w" "fits width v" "width \<le> 64"
  shows "bw_ok (bw_put v width w) \<and> bw_bits (bw_put v width w) = bw_bits w @ low_bits width v"
proof -
  define acc where "acc = bw_acc w OR push_bit (bw_pending w) (ucast v)"
  let ?p = "bw_pending w"
  have p: "?p < 64" using assms(1) by (simp add: bw_ok_def)
  have bits: "bit acc i \<longleftrightarrow> bit (bw_acc w) i \<or> (?p \<le> i \<and> i < 128 \<and> bit v (i - ?p))" for i
    by (simp add: acc_def bit_acc)
  have above: "bit acc i \<Longrightarrow> i < ?p + width" for i
    using assms(1,2) by (force simp: bits bw_ok_def fits_def)
  have all: "low_bits (?p + width) acc = low_bits ?p (bw_acc w) @ low_bits width v"
    using assms(1) p assms(3) by (intro nth_equalityI) (auto simp: nth_append bits bw_ok_def)
  show ?thesis
  proof (cases "?p + width \<ge> 64")
    case True
    have "low_bits 64 (ucast acc :: u64) = low_bits 64 acc" by (rule low_bits_cong) (simp add: bit_simps)
    moreover have "low_bits (?p + width) acc = low_bits 64 acc @ low_bits (?p + width - 64) (drop_bit 64 acc)"
      using low_bits_add [of 64 "?p + width - 64" acc] True by simp
    ultimately have "bw_bits (bw_put v width w) = bw_bits w @ low_bits width v"
      using True all by (simp add: bw_put_def bw_bits_def Let_def acc_def [symmetric] bits_of_le_bytes)
    moreover have "bw_ok (bw_put v width w)"
      using True p assms(3) by (auto simp: bw_put_def bw_ok_def Let_def acc_def [symmetric] bit_simps dest!: above)
    ultimately show ?thesis by simp
  next
    case False
    then show ?thesis
      using all above by (auto simp: bw_put_def bw_bits_def bw_ok_def Let_def acc_def [symmetric])
  qed
qed

lemma div_ceil_8: "n \<le> 8 * div_ceil n 8" "8 * div_ceil n 8 < n + 8"
  unfolding div_ceil_def by linarith+

lemma bw_finish_bits:
  assumes "bw_ok w"
  shows "bits_of (bw_finish w) = bw_bits w @ replicate (8 * div_ceil (bw_pending w) 8 - bw_pending w) False"
proof -
  let ?p = "bw_pending w" let ?n = "8 * div_ceil ?p 8"
  have n: "?p \<le> ?n" "?n \<le> 64" using div_ceil_8 [of ?p] assms by (auto simp: bw_ok_def div_ceil_def)
  have "take ?n (low_bits 64 (ucast (bw_acc w) :: u64)) = low_bits ?p (bw_acc w) @ replicate (?n - ?p) False"
    using assms n by (intro nth_equalityI) (auto simp: nth_append bit_simps bw_ok_def)
  then show ?thesis by (simp add: bw_finish_def bw_bits_def take_bits_of bits_of_le_bytes)
qed

text \<open>What a client of the writer relies on, and what it gets from a run of writes.\<close>

locale bit_sink =
  fixes ok :: "'w \<Rightarrow> bool" and bits :: "'w \<Rightarrow> bool list" and put :: "u64 \<Rightarrow> nat \<Rightarrow> 'w \<Rightarrow> 'w"
    and finish :: "'w \<Rightarrow> bytes"
  assumes put_ok: "ok w \<Longrightarrow> fits n v \<Longrightarrow> n \<le> 64 \<Longrightarrow> ok (put v n w)"
    and put_bits: "ok w \<Longrightarrow> fits n v \<Longrightarrow> n \<le> 64 \<Longrightarrow> bits (put v n w) = bits w @ low_bits n v"
    and finish_pads: "ok w \<Longrightarrow> \<exists>pad. bits_of (finish w) = bits w @ pad \<and> length pad < 8"
begin

lemma puts:
  assumes "ok w" "\<forall>v \<in> set vs. fits n v" "n \<le> 64"
  shows "ok (foldl (\<lambda>w v. put v n w) w vs)
     \<and> bits (foldl (\<lambda>w v. put v n w) w vs) = bits w @ concat (map (low_bits n) vs)"
  using assms by (induction vs arbitrary: w) (simp_all add: put_ok put_bits)

lemma finish_length: "ok w \<Longrightarrow> length (finish w) = div_ceil (length (bits w)) 8"
proof -
  assume "ok w"
  then obtain pad where pad: "bits_of (finish w) = bits w @ pad" "length pad < 8" using finish_pads by blast
  have "8 * length (finish w) = length (bits w) + length pad"
    using length_bits_of [of "finish w"] unfolding pad(1) by simp
  then show ?thesis using pad(2) unfolding div_ceil_def by linarith
qed

end

interpretation bw: bit_sink bw_ok bw_bits bw_put bw_finish
proof unfold_locales
  fix w assume "bw_ok w"
  then show "\<exists>pad. bits_of (bw_finish w) = bw_bits w @ pad \<and> length pad < 8"
    using bw_finish_bits div_ceil_8 [of "bw_pending w"] by (intro exI [of _ "replicate _ False"]) auto
qed (simp_all add: bw_put_bits)

lemma bw_new_ok [simp]: "bw_ok (bw_new out)" "bw_bits (bw_new out) = bits_of out"
  by (simp_all add: bw_new_def bw_ok_def bw_bits_def low_bits_def)

lemma put_bits_stream:
  assumes "\<forall>v \<in> set vs. fits n v" "n \<le> 64"
  shows "\<exists>pad. bits_of (put_bits vs n) = concat (map (low_bits n) vs) @ pad"
    and "length (put_bits vs n) = div_ceil (length vs * n) 8"
proof -
  let ?w = "foldl (\<lambda>w v. bw_put v n w) (bw_new []) vs"
  have ok: "bw_ok ?w" and bits: "bw_bits ?w = concat (map (low_bits n) vs)"
    using bw.puts [OF _ assms, of "bw_new []"] by simp_all
  show "\<exists>pad. bits_of (put_bits vs n) = concat (map (low_bits n) vs) @ pad"
    unfolding put_bits_def using bw.finish_pads [OF ok] bits by auto
  have "length (concat (map (low_bits n) vs)) = length vs * n" by (induction vs) simp_all
  then show "length (put_bits vs n) = div_ceil (length vs * n) 8"
    unfolding put_bits_def bw.finish_length [OF ok] bits by simp
qed

section \<open>The reader reads bits\<close>

lemma bit_read_bits:
  assumes "pos + width \<le> 8 * length data" "1 \<le> width" "width \<le> 64"
  shows "bit (read_bits data pos width) i \<longleftrightarrow> i < width \<and> bits_of data ! (pos + i)"
proof -
  let ?byte = "pos div 8"
  define word :: u128 where "word = (if ?byte + 16 \<le> length data then from_le_bytes (take 16 (drop ?byte data))
      else from_le_bytes (drop ?byte data @ replicate (16 - (length data - ?byte)) 0))"
  have word: "bit word j \<longleftrightarrow> bits_of data ! (8 * ?byte + j)" if "j < 128" "8 * ?byte + j < 8 * length data" for j
  proof -
    have "?byte + j div 8 < length data" "(8 * ?byte + j) div 8 = ?byte + j div 8" using that by auto
    then show ?thesis using that
      by (auto simp: word_def bit_from_le_bytes nth_append nth_bits_of)
  qed
  have "bit (ucast (drop_bit (pos mod 8) word) :: u64) i \<longleftrightarrow> bits_of data ! (pos + i)" if "i < width"
  proof -
    have e: "8 * ?byte + (pos mod 8 + i) = pos + i" by simp
    have "pos mod 8 + i < 128" using that assms(3) mod_less_divisor [of 8 pos] by linarith
    then have "bit word (pos mod 8 + i) \<longleftrightarrow> bits_of data ! (pos + i)"
      using word [of "pos mod 8 + i"] that assms unfolding e by simp
    then show ?thesis using that assms(3) by (simp add: bit_simps)
  qed
  moreover have "push_bit width 1 - 1 = (mask width :: u64)" by (simp add: mask_eq_exp_minus_1 push_bit_of_1)
  ultimately show ?thesis
    using assms(3) by (auto simp: read_bits_def Let_def word_def [symmetric] bit_simps dest: bit_imp_le_length)
qed

lemma nth_concat_low_bits:
  assumes "i < length vs" "k < n"
  shows "concat (map (low_bits n) vs) ! (i * n + k) = bit (vs ! i) k"
  using assms
proof (induction vs arbitrary: i)
  case (Cons v vs)
  then show ?case by (cases i) (simp_all add: nth_append add.assoc)
qed simp

lemma read_stream:
  assumes "bits_of data = concat (map (low_bits n) vs) @ pad" "i < length vs" "1 \<le> n" "n \<le> 64" "fits n (vs ! i)"
  shows "read_bits data (i * n) n = vs ! i"
proof (rule bit_eqI)
  fix k
  have len: "length (concat (map (low_bits n) vs)) = length vs * n" by (induction vs) simp_all
  have room: "i * n + n \<le> length vs * n"
  proof -
    have "Suc i * n \<le> length vs * n" using assms(2) by (intro mult_le_mono1) simp
    then show ?thesis by simp
  qed
  have "length vs * n \<le> 8 * length data"
    using length_bits_of [of data] unfolding assms(1) by (simp add: len)
  then have "bit (read_bits data (i * n) n) k \<longleftrightarrow> k < n \<and> bits_of data ! (i * n + k)"
    using bit_read_bits [of "i * n" n data k] assms(3,4) room by simp
  also have "\<dots> \<longleftrightarrow> k < n \<and> bit (vs ! i) k"
    using nth_concat_low_bits [OF assms(2), of k n] room unfolding assms(1) by (auto simp: nth_append len)
  also have "\<dots> \<longleftrightarrow> bit (vs ! i) k" using assms(5) by (auto simp: fits_def)
  finally show "bit (read_bits data (i * n) n) k \<longleftrightarrow> bit (vs ! i) k" .
qed

section \<open>Counting zeros\<close>

lemma leading_zeros_fits: "fits (64 - leading_zeros v) v"
  unfolding fits_def
proof (intro allI impI)
  fix i assume b: "bit v i"
  then have i: "i < 64" using bit_imp_le_length [of v i] by simp
  have "\<not> (63 - i) < leading_zeros v"
  proof
    let ?xs = "map (bit v) (rev [0..<64])"
    assume "63 - i < leading_zeros v"
    then have l: "63 - i < length (takeWhile Not ?xs)" by (simp add: leading_zeros_def)
    have "Not (takeWhile Not ?xs ! (63 - i))" using nth_mem [OF l] by (auto dest: set_takeWhileD)
    then have "\<not> ?xs ! (63 - i)" using takeWhile_nth [OF l] by simp
    moreover have "?xs ! (63 - i) = bit v i" using i by (simp add: rev_nth)
    ultimately show False using b by simp
  qed
  then show "i < 64 - leading_zeros v" using i by simp
qed

lemma fits_0: "fits 0 v \<Longrightarrow> v = 0"
  by (intro bit_eqI) (simp add: fits_def)

lemma fits_or: "fits n (v OR w) \<longleftrightarrow> fits n v \<and> fits n w"
  by (auto simp: fits_def bit_or_iff)

lemma fits_foldl_or: "fits n (foldl (OR) acc vs) \<longleftrightarrow> fits n acc \<and> (\<forall>v \<in> set vs. fits n v)"
  by (induction vs arbitrary: acc) (auto simp: fits_or)

lemma trailing_zeros_spec:
  assumes "v \<noteq> 0"
  shows "trailing_zeros v < 64" "bit v (trailing_zeros v)" "i < trailing_zeros v \<Longrightarrow> \<not> bit v i"
proof -
  let ?xs = "map (bit v) [0..<64]"
  obtain j where "bit v j" using assms by (metis bit_0_eq bit_eqI bot_apply bot_bool_def)
  then have "j < 64" "bit v j" using bit_imp_le_length [of v j] by simp_all
  then have "\<exists>x \<in> set ?xs. \<not> Not x" by force
  then have l: "length (takeWhile Not ?xs) < length ?xs"
    by (metis (no_types, lifting) length_takeWhile_le nat_less_le takeWhile_eq_all_conv takeWhile_eq_take take_all_iff order_refl)
  then show "trailing_zeros v < 64" by (simp add: trailing_zeros_def)
  have "\<not> Not (?xs ! length (takeWhile Not ?xs))" by (rule nth_length_takeWhile [OF l])
  then show "bit v (trailing_zeros v)" using l by (simp add: trailing_zeros_def)
  assume i: "i < trailing_zeros v"
  then have "i < length (takeWhile Not ?xs)" by (simp add: trailing_zeros_def)
  then have "Not (?xs ! i)" using takeWhile_nth nth_mem set_takeWhileD by metis
  then show "\<not> bit v i" using i l by (simp add: trailing_zeros_def)
qed

lemma clear_lowest:
  assumes "v \<noteq> 0"
  shows "bit (v AND (v - 1)) i \<longleftrightarrow> bit v i \<and> i \<noteq> trailing_zeros v"
proof -
  let ?t = "trailing_zeros v"
  define hi where "hi = v AND NOT (mask (Suc ?t))"
  have hi: "bit hi n \<longleftrightarrow> bit v n \<and> ?t < n" for n
    by (auto simp: hi_def bit_simps not_less_eq dest: bit_imp_le_length)
  have "v = hi OR 2 ^ ?t"
    using trailing_zeros_spec [OF assms]
    by (intro bit_eqI) (auto simp: bit_or_iff hi bit_exp_iff intro: ccontr dest: linorder_neqE_nat)
  also have "\<dots> = hi + 2 ^ ?t"
    by (rule disjunctive_add [symmetric]) (auto simp: hi bit_exp_iff)
  finally have "v - 1 = hi + (2 ^ ?t - 1)" by simp
  also have "\<dots> = hi + mask ?t" by (simp add: mask_eq_exp_minus_1)
  also have "\<dots> = hi OR mask ?t"
    by (rule disjunctive_add) (auto simp: hi bit_mask_iff)
  finally have "bit (v - 1) i \<longleftrightarrow> (bit v i \<and> ?t < i) \<or> (i < ?t \<and> i < 64)"
    by (simp add: bit_or_iff hi bit_mask_iff) auto
  then show ?thesis
    using trailing_zeros_spec(3) [OF assms, of i] by (auto simp: bit_and_iff)
qed

section \<open>Chunks\<close>

definition rank :: "u64 \<Rightarrow> nat \<Rightarrow> nat" where
  "rank v i = length (filter (bit v) [0..<i])"

lemma rank_clear:
  assumes "v \<noteq> 0" "bit v i"
  shows "i = trailing_zeros v \<Longrightarrow> rank v i = 0"
    and "i \<noteq> trailing_zeros v \<Longrightarrow> rank v i = Suc (rank (v AND (v - 1)) i)"
proof -
  let ?t = "trailing_zeros v"
  have none: "filter (bit v) [0..<?t] = []"
    using trailing_zeros_spec(3) [OF assms(1)] by (auto simp: filter_empty_conv)
  then show "i = ?t \<Longrightarrow> rank v i = 0" by (simp add: rank_def)
  assume "i \<noteq> ?t"
  then have "?t < i" using trailing_zeros_spec(3) [OF assms(1), of i] assms(2) by (metis linorder_neqE_nat)
  then have upt: "[0..<i] = [0..<?t] @ ?t # [Suc ?t..<i]"
    by (metis upt_add_eq_append upt_conv_Cons le_add_diff_inverse less_imp_le_nat zero_le)
  have "filter (bit (v AND (v - 1))) [0..<?t] = []" using none by (auto simp: filter_empty_conv bit_and_iff)
  moreover have "filter (bit (v AND (v - 1))) [Suc ?t..<i] = filter (bit v) [Suc ?t..<i]"
    by (rule filter_cong) (auto simp: clear_lowest [OF assms(1)])
  ultimately show "rank v i = Suc (rank (v AND (v - 1)) i)"
    unfolding rank_def upt using none trailing_zeros_spec(2) [OF assms(1)] by (simp add: clear_lowest [OF assms(1)])
qed

lemma scatter_nth:
  assumes "\<forall>i. bit rest i \<longrightarrow> i < length out"
  shows "length (scatter data n rest j out) = length out
     \<and> (i < length out \<longrightarrow> scatter data n rest j out ! i =
          (if bit rest i then read_bits data ((j + rank rest i) * n) n else out ! i))"
  using assms
proof (induction data n rest j out rule: scatter.induct)
  case (1 data n rest j out)
  show ?case
  proof (cases "rest = 0")
    case True
    then show ?thesis by (simp add: scatter.simps)
  next
    case False
    let ?t = "trailing_zeros rest" let ?rest = "rest AND (rest - 1)"
    let ?out = "out[?t := read_bits data (j * n) n]"
    have IH: "length (scatter data n ?rest (j + 1) ?out) = length out
      \<and> (i < length out \<longrightarrow> scatter data n ?rest (j + 1) ?out ! i =
          (if bit ?rest i then read_bits data ((j + 1 + rank ?rest i) * n) n else ?out ! i))"
      using "1.IH" [OF False] "1.prems" by (simp add: bit_and_iff)
    have t: "?t < length out" using "1.prems" trailing_zeros_spec(2) [OF False] by blast
    show ?thesis
      using IH t rank_clear [OF False, of i] trailing_zeros_spec(2) [OF False]
      by (auto simp: scatter.simps [of data n rest j out] False clear_lowest [OF False] nth_list_update)
  qed
qed

lemma bit_chunk_mask:
  assumes "length chunk \<le> 64"
  shows "bit (chunk_mask chunk) i \<longleftrightarrow> i < length chunk \<and> chunk ! i \<noteq> 0"
proof -
  have "bit (foldl (\<lambda>mask (i, v). mask OR push_bit i (if v \<noteq> 0 then 1 else 0)) acc (enumerate k chunk)) i \<longleftrightarrow>
      bit acc i \<or> (k \<le> i \<and> i < k + length chunk \<and> chunk ! (i - k) \<noteq> 0)"
    if "k + length chunk \<le> 64" for k and acc :: u64 and chunk :: "u64 list"
    using that
  proof (induction chunk arbitrary: k acc)
    case (Cons v chunk)
    have "bit (acc OR push_bit k (if v \<noteq> 0 then 1 else 0)) i \<longleftrightarrow> bit acc i \<or> (i = k \<and> v \<noteq> 0)"
      using Cons.prems by (auto simp: bit_simps)
    then show ?case using Cons.IH [of "Suc k"] Cons.prems
      by (cases "i = k") (auto simp: nth_Cons' Suc_le_eq)
  qed auto
  from this [of 0 chunk 0] show ?thesis using assms by (simp add: chunk_mask_def)
qed

lemma nth_filter_rank:
  assumes "i < length xs" "P (xs ! i)"
  shows "filter P xs ! length (filter P (take i xs)) = xs ! i \<and> length (filter P (take i xs)) < length (filter P xs)"
  using assms
proof (induction xs arbitrary: i)
  case (Cons x xs)
  then show ?case by (cases i) auto
qed simp

lemma rank_chunk_mask:
  assumes "length chunk \<le> 64" "i \<le> length chunk"
  shows "rank (chunk_mask chunk) i = length (filter (\<lambda>v. v \<noteq> 0) (take i chunk))"
  using assms(2)
proof (induction i)
  case (Suc i)
  then have "take (Suc i) chunk = take i chunk @ [chunk ! i]" by (simp add: take_Suc_conv_app_nth)
  then show ?case using Suc assms(1) by (auto simp: rank_def bit_chunk_mask)
qed (simp add: rank_def)

lemma count_ones_rank: "count_ones v = rank v 64"
  by (simp add: count_ones_def rank_def)

lemma chunk_head:
  assumes "width \<le> 64"
  shows "(of_nat width :: u8) AND SPARSE = 0" "unat ((of_nat width :: u8) AND NOT SPARSE) = width"
    "(SPARSE OR of_nat width) AND SPARSE \<noteq> 0" "unat ((SPARSE OR of_nat width) AND NOT SPARSE) = width"
proof -
  let ?w = "of_nat width :: u8"
  have u: "unat ?w = width" using assms by (simp add: unat_of_nat)
  then have "take_bit 7 ?w = ?w" using assms by (intro take_bit_small) (simp add: word_less_nat_alt)
  then have low: "bit ?w i \<Longrightarrow> i < 7" for i by (metis bit_take_bit_iff)
  have bs: "bit SPARSE i \<longleftrightarrow> i = 7" for i unfolding SPARSE_def bit_0x80 by auto
  show "?w AND SPARSE = 0" by (intro bit_eqI) (auto simp: bit_and_iff bs dest: low)
  have "?w AND NOT SPARSE = ?w" "(SPARSE OR ?w) AND NOT SPARSE = ?w"
    by (intro bit_eqI; auto simp: bit_and_iff bit_or_iff bit_not_iff bs dest: low)+
  then show "unat (?w AND NOT SPARSE) = width" "unat ((SPARSE OR ?w) AND NOT SPARSE) = width"
    using u by simp_all
  have "bit ((SPARSE OR ?w) AND SPARSE) 7" by (simp add: bit_and_iff bit_or_iff bs)
  then show "(SPARSE OR ?w) AND SPARSE \<noteq> 0" by auto
qed

lemma get_put_dense:
  assumes "\<forall>v \<in> set chunk. fits width v" "width \<le> 64"
  shows "get_chunk (length chunk) (of_nat width # (if width > 0 then put_bits chunk width else []) @ rest) = Ok (chunk, rest)"
proof (cases "width = 0")
  case True
  then have "\<forall>v \<in> set chunk. v = 0" using assms fits_0 by blast
  then have "replicate (length chunk) 0 = chunk" by (induction chunk) auto
  then show ?thesis using True by (simp add: get_chunk_def get_byte_def Let_def take_bytes_def div_ceil_def)
next
  case False
  obtain pad where pad: "bits_of (put_bits chunk width) = concat (map (low_bits width) chunk) @ pad"
    using put_bits_stream(1) [OF assms] by blast
  have "map (\<lambda>i. read_bits (put_bits chunk width) (i * width) width) [0..<length chunk] = chunk"
    using read_stream [OF pad] assms False by (intro nth_equalityI) simp_all
  then show ?thesis
    using False assms(2) chunk_head [OF assms(2)] put_bits_stream(2) [OF assms]
    by (simp add: get_chunk_def get_byte_def Let_def)
qed

lemma get_put_sparse_chunk:
  assumes "\<forall>v \<in> set chunk. fits width v" "width \<le> 64" "1 \<le> width" "length chunk \<le> 64"
  shows "get_chunk (length chunk) ((SPARSE OR of_nat width) # to_le_bytes 8 (chunk_mask chunk)
           @ put_bits (filter (\<lambda>v. v \<noteq> 0) chunk) width @ rest) = Ok (chunk, rest)"
proof -
  let ?nz = "filter (\<lambda>v. v \<noteq> 0) chunk" let ?mask = "chunk_mask chunk"
  have nz: "\<forall>v \<in> set ?nz. fits width v" using assms(1) by simp
  obtain pad where pad: "bits_of (put_bits ?nz width) = concat (map (low_bits width) ?nz) @ pad"
    using put_bits_stream(1) [OF nz assms(2)] by blast
  have inside: "length chunk = CHUNK \<or> drop_bit (length chunk) ?mask = 0"
    using assms(4) by (auto simp: CHUNK_def bit_simps bit_chunk_mask intro!: bit_eqI)
  have "rank ?mask 64 = rank ?mask (length chunk)"
  proof -
    have "[0..<64] = [0..<length chunk] @ [length chunk..<64]"
      using assms(4) upt_add_eq_append [of 0 "length chunk" "64 - length chunk"] by simp
    moreover have "filter (bit ?mask) [length chunk..<64] = []"
      using assms(4) by (auto simp: filter_empty_conv bit_chunk_mask)
    ultimately show ?thesis by (simp add: rank_def)
  qed
  then have ones: "count_ones ?mask = length ?nz"
    using rank_chunk_mask [OF assms(4), of "length chunk"] by (simp add: count_ones_rank)
  have "scatter (put_bits ?nz width) width ?mask 0 (replicate (length chunk) 0) = chunk"
  proof (rule nth_equalityI)
    have bits: "\<forall>i. bit ?mask i \<longrightarrow> i < length (replicate (length chunk) (0 :: u64))"
      using assms(4) by (simp add: bit_chunk_mask)
    show "length (scatter (put_bits ?nz width) width ?mask 0 (replicate (length chunk) 0)) = length chunk"
      using scatter_nth [OF bits] by simp
    fix i assume "i < length (scatter (put_bits ?nz width) width ?mask 0 (replicate (length chunk) 0))"
    then have i: "i < length chunk" using scatter_nth [OF bits] by simp
    show "scatter (put_bits ?nz width) width ?mask 0 (replicate (length chunk) 0) ! i = chunk ! i"
    proof (cases "chunk ! i = 0")
      case True
      then show ?thesis using scatter_nth [OF bits] i assms(4) by (simp add: bit_chunk_mask)
    next
      case False
      let ?r = "length (filter (\<lambda>v. v \<noteq> 0) (take i chunk))"
      have r: "?nz ! ?r = chunk ! i" "?r < length ?nz"
        using nth_filter_rank [of i chunk "\<lambda>v. v \<noteq> 0"] i False by simp_all
      have "read_bits (put_bits ?nz width) (?r * width) width = chunk ! i"
        using read_stream [OF pad r(2) assms(3,2)] r(1) assms(1) i by simp
      then show ?thesis
        using scatter_nth [OF bits] i False assms(4) by (simp add: bit_chunk_mask rank_chunk_mask)
    qed
  qed
  then show ?thesis
    using chunk_head [OF assms(2)] assms(2,3) inside put_bits_stream(2) [OF nz assms(2)] ones
    by (simp add: get_chunk_def get_byte_def Let_def)
qed

lemma get_put_chunk:
  assumes "length chunk \<le> 64"
  shows "get_chunk (length chunk) (put_chunk chunk @ rest) = Ok (chunk, rest)"
proof -
  define width where "width = 64 - leading_zeros (foldl (OR) 0 chunk)"
  have "\<forall>v \<in> set chunk. fits width v" "width \<le> 64"
    using leading_zeros_fits [of "foldl (OR) 0 chunk"] by (simp_all add: fits_foldl_or width_def)
  then show ?thesis
    using get_put_dense [of chunk width rest] get_put_sparse_chunk [of chunk width rest] assms
    by (simp add: put_chunk_def Let_def width_def [symmetric])
qed

lemma get_put_sparse [simp]: "get_sparse (length vs) (put_sparse vs @ rest) = Ok (vs, rest)"
proof (induction vs arbitrary: rest rule: put_sparse.induct)
  case (1 vs)
  show ?case
  proof (cases "vs = []")
    case True
    then show ?thesis by (simp add: put_sparse.simps get_sparse.simps)
  next
    case False
    have "get_chunk (min (length vs) CHUNK) (put_chunk (take CHUNK vs) @ put_sparse (drop CHUNK vs) @ rest)
        = Ok (take CHUNK vs, put_sparse (drop CHUNK vs) @ rest)"
      using get_put_chunk [of "take CHUNK vs"] by (simp add: CHUNK_def min.commute)
    moreover have "get_sparse (length vs - min (length vs) CHUNK) (put_sparse (drop CHUNK vs) @ rest) = Ok (drop CHUNK vs, rest)"
    proof -
      have "length vs - min (length vs) CHUNK = length (drop CHUNK vs)" by simp
      then show ?thesis using "1.IH" [OF False, of rest] by (simp only:)
    qed
    ultimately show ?thesis
      using False by (simp add: put_sparse.simps [of vs] get_sparse.simps [of "length vs"] Let_def)
  qed
qed

section \<open>The bits a reader has left\<close>

definition br_rest :: "bit_reader \<Rightarrow> bool list" where
  "br_rest r = drop (br_bit r) (bits_of (br_bytes r))"

lemma br_read_rest:
  assumes "br_rest r = low_bits w v @ post" "fits w v" "1 \<le> w" "w \<le> 64"
  shows "br_read w r = Ok (v, r\<lparr>br_bit := br_bit r + w\<rparr>)"
    and "br_rest (r\<lparr>br_bit := br_bit r + w\<rparr>) = post"
proof -
  have room: "br_bit r + w \<le> 8 * length (br_bytes r)"
    using arg_cong [OF assms(1), of length] assms(3) by (simp add: br_rest_def)
  have "read_bits (br_bytes r) (br_bit r) w = v"
  proof (rule bit_eqI)
    fix k
    have "bits_of (br_bytes r) ! (br_bit r + k) = bit v k" if "k < w"
    proof -
      have "bits_of (br_bytes r) ! (br_bit r + k) = br_rest r ! k" using room by (simp add: br_rest_def)
      then show ?thesis using that by (simp add: assms(1) nth_append)
    qed
    then show "bit (read_bits (br_bytes r) (br_bit r) w) k \<longleftrightarrow> bit v k"
      using bit_read_bits [OF room assms(3,4), of k] assms(2) by (auto simp: fits_def)
  qed
  then show "br_read w r = Ok (v, r\<lparr>br_bit := br_bit r + w\<rparr>)"
    using room by (simp add: br_read_def mult.commute)
  have "br_rest (r\<lparr>br_bit := br_bit r + w\<rparr>) = drop w (br_rest r)" by (simp add: br_rest_def add.commute)
  then show "br_rest (r\<lparr>br_bit := br_bit r + w\<rparr>) = post" by (simp add: assms(1))
qed

lemma br_rest_new [simp]: "br_rest (br_new bs) = bits_of bs"
  by (simp add: br_rest_def br_new_def)

section \<open>Lengths\<close>

lemma length_put_chunk: "length (put_chunk chunk) \<le> 1 + 8 * length chunk"
proof -
  define width where "width = 64 - leading_zeros (foldl (OR) 0 chunk)"
  let ?nz = "filter (\<lambda>v. v \<noteq> 0) chunk"
  have f: "\<forall>v \<in> set chunk. fits width v" "width \<le> 64"
    using leading_zeros_fits [of "foldl (OR) 0 chunk"] by (simp_all add: fits_foldl_or width_def)
  have dense: "length (put_bits chunk width) = div_ceil (length chunk * width) 8"
    using put_bits_stream(2) [OF f] .
  have sparse: "length (put_bits ?nz width) = div_ceil (length ?nz * width) 8"
    using f by (intro put_bits_stream(2)) simp_all
  have bound: "length chunk * width \<le> length chunk * 64" using f(2) by simp
  have ceil: "div_ceil n 8 \<le> 8 * k" if "n \<le> k * 64" for n k
    using that unfolding div_ceil_def by linarith
  have mask: "8 + div_ceil n 8 \<le> 8 * k" if "64 + n < m" "m \<le> k * 64" for n m k
    using that unfolding div_ceil_def by linarith
  show ?thesis
    using ceil [OF bound] mask [OF _ bound, of "length ?nz * width"] dense sparse
    by (simp add: put_chunk_def Let_def width_def [symmetric])
qed

lemma length_put_sparse: "length (put_sparse vs) \<le> 8 * length vs + div_ceil (length vs) 64"
proof (induction vs rule: put_sparse.induct)
  case (1 vs)
  show ?case
  proof (cases "vs = []")
    case True
    then show ?thesis by (simp add: put_sparse.simps)
  next
    case False
    have "length vs = length (take CHUNK vs) + length (drop CHUNK vs)" by simp
    moreover have "1 + div_ceil (length (drop CHUNK vs)) 64 \<le> div_ceil (length vs) 64"
    proof -
      have "1 + div_ceil (n - 64) 64 \<le> div_ceil n 64" if "0 < n" for n
      proof (cases "n \<le> 64")
        case True
        then show ?thesis using that by (simp add: div_ceil_def Suc_le_eq div_greater_zero_iff)
      next
        case False
        then obtain m where "n = 64 + m" by (metis le_Suc_ex nat_le_linear)
        then show ?thesis by (simp add: div_ceil_def)
      qed
      then show ?thesis using False by (simp add: CHUNK_def)
    qed
    ultimately show ?thesis
      using 1 [OF False] False length_put_chunk [of "take CHUNK vs"] unfolding put_sparse.simps [of vs] by simp
  qed
qed

section \<open>Properties\<close>

text \<open>
  SparsePack loses nothing and is never far from plain words: unpacking what was packed gives
  the values back whatever follows them, and the packing takes at most the eight bytes of every
  value and one head byte for each chunk of 64.
\<close>

theorem sparse_pack_lossless:
  "get_sparse (length vs) (put_sparse vs @ rest) = Ok (vs, rest)
   \<and> length (put_sparse vs) \<le> 8 * length vs + div_ceil (length vs) 64"
  by (simp add: length_put_sparse)

end
