(* ===== verification/Midx_Time.thy ===== *)
theory Midx_Time
  imports Midx_Pack
begin

text \<open>
  The timestamp encodings of sample blocks (\<open>src/metrics_index/src/block/codec/\<close>): the scaled
  steps of \<open>mod.rs\<close>, \<open>const_step.rs\<close>, \<open>rle.rs\<close> and \<open>dod.rs\<close>. Timestamps are \<open>i64\<close> in
  non-decreasing order, so a step always fits a \<open>u64\<close>.
\<close>

section \<open>Steps\<close>

definition step :: "i64 \<Rightarrow> i64 \<Rightarrow> u64" where
  "step previous nxt = nxt - previous"

definition windows2 :: "'a list \<Rightarrow> ('a \<times> 'a) list" where
  "windows2 xs = zip xs (tl xs)"

function gcd64 :: "u64 \<Rightarrow> u64 \<Rightarrow> u64" where
  "gcd64 a b = (if b = 0 then a else gcd64 b (a mod b))"
  by pat_completeness auto
termination
  by (relation "measure (\<lambda>(_, b). unat b)") (simp_all add: unat_mod unat_gt_0)

declare gcd64.simps [simp del]

definition steps_divisor :: "u64 list \<Rightarrow> u64" where
  "steps_divisor ds = foldl (\<lambda>g d. if g \<noteq> 0 \<and> d mod g = 0 then g else gcd64 g d) 0 ds"

definition scaled_steps :: "i64 list \<Rightarrow> u64 \<times> u64 list" where
  "scaled_steps ts =
     (let ds = map (\<lambda>(a, b). step a b) (windows2 ts);
          divisor = steps_divisor ds
      in (divisor, if divisor > 1 then map (\<lambda>q. q div divisor) ds else ds))"

definition read_divisor :: "u64 decoder" where
  "read_divisor bs =
     rbind (get_varint bs) (\<lambda>(divisor, bs).
     rbind (ensure (divisor > 0) ''zero timestamp step divisor'') (\<lambda>_. Ok (divisor, bs)))"

definition next_timestamp :: "i64 \<Rightarrow> u64 \<Rightarrow> (i64, string) result" where
  "next_timestamp previous s =
     (let nxt = previous + s in
      rbind (ensure (sint nxt \<ge> sint previous) ''decoded timestamps decreased'') (\<lambda>_. Ok nxt))"

section \<open>ConstStep\<close>

definition const_step_fits :: "i64 list \<Rightarrow> bool" where
  "const_step_fits ts =
     (let first = step (ts ! 0) (ts ! (min (length ts) 2 - 1))
      in list_all (\<lambda>(a, b). step a b = first) (windows2 ts))"

definition const_step_decode :: "nat \<Rightarrow> i64 \<Rightarrow> i64 \<Rightarrow> (i64 list \<times> i64, string) result" where
  "const_step_decode rows mn mx =
     (if rows = 1 then Ok ([mn], mn)
      else (let span = step mn mx; steps = of_nat rows - 1 in
            rbind (ensure (span mod steps = 0) ''inexact constant timestamp step'') (\<lambda>_.
            let each = span div steps in
            Ok (map (\<lambda>i. mn + each * of_nat i) [0..<rows], mx))))"

section \<open>Rle\<close>

fun runs_from :: "u64 \<Rightarrow> u64 \<Rightarrow> u64 list \<Rightarrow> (u64 \<times> u64) list" where
  "runs_from q n [] = [(q, n)]"
| "runs_from q n (x # xs) = (if x \<noteq> q then (q, n) # runs_from x (0 + 1) xs else runs_from q (n + 1) xs)"

definition runs_of :: "u64 list \<Rightarrow> (u64 \<times> u64) list" where
  "runs_of quotients = runs_from (quotients ! 0) 0 quotients"

definition varint_len :: "u64 \<Rightarrow> nat" where
  "varint_len v = div_ceil (64 - leading_zeros (v OR 1)) 7"

definition rle_encoded_len :: "u64 \<Rightarrow> u64 list \<Rightarrow> nat" where
  "rle_encoded_len divisor quotients =
     foldl (\<lambda>len (q, n). len + (varint_len q + varint_len n)) (varint_len divisor) (runs_of quotients)"

definition rle_encode :: "u64 \<Rightarrow> u64 list \<Rightarrow> bytes" where
  "rle_encode divisor quotients =
     put_varint divisor @ concat (map (\<lambda>(q, n). put_varint q @ put_varint n) (runs_of quotients))"

fun advance :: "nat \<Rightarrow> i64 \<Rightarrow> u64 \<Rightarrow> (i64 list \<times> i64, string) result" where
  "advance 0 previous s = Ok ([], previous)"
| "advance (Suc n) previous s =
     rbind (next_timestamp previous s) (\<lambda>nxt.
     rbind (advance n nxt s) (\<lambda>(ts, lst). Ok (nxt # ts, lst)))"

function rle_runs :: "u64 \<Rightarrow> nat \<Rightarrow> i64 \<Rightarrow> (i64 list \<times> i64) decoder" where
  "rle_runs divisor left previous bs =
     (if left = 0 then Ok (([], previous), bs)
      else
        rbind (get_varint bs) (\<lambda>(q, bs).
        let s = q * divisor in
        rbind (get_varint bs) (\<lambda>(run, bs).
        if \<not> (run > 0 \<and> run \<le> of_nat left) then Err ''invalid timestamp run''
        else
          rbind (advance (unat run) previous s) (\<lambda>(ts, previous).
          rbind (rle_runs divisor (left - unat run) previous bs) (\<lambda>((ts', lst), bs).
          Ok ((ts @ ts', lst), bs))))))"
  by pat_completeness auto
termination
  by (relation "measure (\<lambda>(_, left, _, _). left)") (auto simp: word_less_nat_alt)

declare rle_runs.simps [simp del]

definition rle_decode :: "nat \<Rightarrow> i64 \<Rightarrow> (i64 list \<times> i64) decoder" where
  "rle_decode rows mn bs =
     rbind (read_divisor bs) (\<lambda>(divisor, bs).
     rbind (rle_runs divisor (rows - 1) mn bs) (\<lambda>((ts, lst), bs). Ok ((mn # ts, lst), bs)))"

section \<open>Dod\<close>

definition dod_encode :: "u64 \<Rightarrow> u64 list \<Rightarrow> bytes" where
  "dod_encode divisor quotients =
     put_varint divisor
     @ put_sparse (quotients ! 0 # map (\<lambda>(a, b). zigzag (b - a)) (windows2 quotients))"

fun dod_steps :: "u64 \<Rightarrow> bool \<Rightarrow> u64 \<Rightarrow> i64 \<Rightarrow> u64 list \<Rightarrow> (i64 list \<times> i64, string) result" where
  "dod_steps divisor first q previous [] = Ok ([], previous)"
| "dod_steps divisor first q previous (v # vs) =
     (let q = (if first then v else q + unzigzag v) in
      rbind (next_timestamp previous (q * divisor)) (\<lambda>nxt.
      rbind (dod_steps divisor False q nxt vs) (\<lambda>(ts, lst). Ok (nxt # ts, lst))))"

definition dod_decode :: "nat \<Rightarrow> i64 \<Rightarrow> (i64 list \<times> i64) decoder" where
  "dod_decode rows mn bs =
     rbind (read_divisor bs) (\<lambda>(divisor, bs).
     rbind (get_sparse (rows - 1) bs) (\<lambda>(sq, bs).
     rbind (dod_steps divisor True 0 mn sq) (\<lambda>(ts, lst). Ok ((mn # ts, lst), bs))))"

section \<open>Lemmas\<close>

definition ordered :: "i64 list \<Rightarrow> bool" where
  "ordered ts \<longleftrightarrow> sorted (map sint ts)"

lemma ordered_Cons [simp]: "ordered (a # b # ts) \<longleftrightarrow> sint a \<le> sint b \<and> ordered (b # ts)"
  by (auto simp: ordered_def)

lemma ordered_simps [simp]: "ordered []" "ordered [a]"
  by (simp_all add: ordered_def)

lemma windows2_simps [simp]:
  "windows2 [] = []" "windows2 [a] = []" "windows2 (a # b # xs) = (a, b) # windows2 (b # xs)"
  by (simp_all add: windows2_def)

lemma length_windows2 [simp]: "length (windows2 xs) = length xs - 1"
  by (cases xs) (simp_all add: windows2_def)

definition steps_of :: "i64 list \<Rightarrow> u64 list" where
  "steps_of ts = map (\<lambda>(a, b). step a b) (windows2 ts)"

lemma steps_of_simps [simp]:
  "steps_of [] = []" "steps_of [a] = []" "steps_of (a # b # ts) = step a b # steps_of (b # ts)"
  by (simp_all add: steps_of_def)

lemma length_steps_of [simp]: "length (steps_of ts) = length ts - 1"
  by (simp add: steps_of_def)

lemma next_timestamp_step: "sint a \<le> sint b \<Longrightarrow> next_timestamp a (step a b) = Ok b"
  by (simp add: next_timestamp_def step_def)

subsection \<open>The divisor\<close>

lemma unat_gcd64: "unat (gcd64 a b) = gcd (unat a) (unat b)"
proof (induction a b rule: gcd64.induct)
  case (1 a b)
  show ?case
  proof (cases "b = 0")
    case True
    then show ?thesis by (simp add: gcd64.simps [of a 0])
  next
    case False
    then have "unat (gcd64 b (a mod b)) = gcd (unat b) (unat a mod unat b)"
      using 1 by (simp add: unat_mod)
    then show ?thesis using False by (simp add: gcd64.simps [of a b] gcd.commute flip: gcd_red_nat)
  qed
qed

lemma divisor_fold:
  fixes g :: u64
  defines "f \<equiv> \<lambda>g d :: u64. if g \<noteq> 0 \<and> d mod g = 0 then g else gcd64 g d"
  shows "unat (foldl f g ds) dvd unat g \<and> (\<forall>d \<in> set ds. unat (foldl f g ds) dvd unat d)
     \<and> (foldl f g ds = 0 \<longrightarrow> g = 0 \<and> (\<forall>d \<in> set ds. d = 0))"
proof (induction ds arbitrary: g)
  case (Cons d ds)
  have step: "unat (f g d) dvd unat g \<and> unat (f g d) dvd unat d \<and> (f g d = 0 \<longrightarrow> g = 0 \<and> d = 0)"
  proof (cases "g \<noteq> 0 \<and> d mod g = 0")
    case True
    then have "unat d mod unat g = 0" by (metis unat_0 unat_mod)
    then show ?thesis using True by (simp add: f_def mod_0_imp_dvd)
  next
    case False
    then have "f g d = gcd64 g d" unfolding f_def by (rule if_not_P)
    moreover have "gcd64 g d = 0 \<Longrightarrow> g = 0 \<and> d = 0"
      using unat_gcd64 [of g d] by (metis gcd_eq_0_iff unat_0 unat_eq_zero)
    ultimately show ?thesis using unat_gcd64 [of g d] by simp
  qed
  then show ?case using Cons.IH [of "f g d"] by (auto intro: dvd_trans)
qed simp

lemma word_div_mult_exact: "unat r dvd unat (x :: u64) \<Longrightarrow> x div r * r = x"
proof -
  assume "unat r dvd unat x"
  then have "unat x mod unat r = 0" by simp
  then have "x mod r = 0" by (metis unat_eq_zero unat_mod)
  then show ?thesis using div_mult_mod_eq [of x r] by simp
qed

lemma scaled_steps_exact:
  assumes "scaled_steps ts = (divisor, quotients)" "\<exists>s \<in> set (steps_of ts). s \<noteq> 0"
  shows "divisor > 0 \<and> map (\<lambda>q. q * divisor) quotients = steps_of ts"
proof -
  have d: "divisor = steps_divisor (steps_of ts)"
    and q: "quotients = (if divisor > 1 then map (\<lambda>q. q div divisor) (steps_of ts) else steps_of ts)"
    using assms(1) by (auto simp: scaled_steps_def steps_of_def Let_def)
  have fold: "\<forall>s \<in> set (steps_of ts). unat divisor dvd unat s" "divisor \<noteq> 0"
    using divisor_fold [of 0 "steps_of ts", folded steps_divisor_def d] assms(2) by blast+
  then have pos: "divisor > 0" by (simp only: word_neq_0_conv)
  show ?thesis
  proof (cases "divisor > 1")
    case True
    then show ?thesis using pos fold(1) by (simp add: q word_div_mult_exact map_idI)
  next
    case False
    then have "unat divisor \<le> 1" "0 < unat divisor"
      using pos unfolding word_less_nat_alt by (simp_all only: unat_1 unat_0 not_less)
    then have "unat divisor = 1" by linarith
    then have "divisor = 1" by (simp only: word_unat_eq_iff unat_1)
    then show ?thesis using q by simp
  qed
qed

subsection \<open>Dod\<close>

definition deltas :: "u64 list \<Rightarrow> u64 list" where
  "deltas qs = map (\<lambda>(a, b). zigzag (b - a)) (windows2 qs)"

lemma deltas_simps [simp]: "deltas [q] = []" "deltas (a # b # qs) = zigzag (b - a) # deltas (b # qs)"
  by (simp_all add: deltas_def)

lemma dod_steps_exact:
  assumes "ordered (t # ts)" "map (\<lambda>q. q * d) qs = steps_of (t # ts)"
  shows "dod_steps d False q t (deltas (q # qs)) = Ok (ts, last (t # ts))"
  using assms
proof (induction qs arbitrary: q t ts)
  case Nil
  then have "ts = []" using length_steps_of [of "t # ts"] by (metis length_0_conv length_Cons diff_Suc_1 length_map list.size(3))
  then show ?case by simp
next
  case (Cons q' qs)
  then obtain t' ts' where ts: "ts = t' # ts'" by (cases ts) auto
  then show ?case using Cons.IH [of t' ts' q'] Cons.prems next_timestamp_step [of t t'] by simp
qed

lemma dod_roundtrip:
  assumes ts: "ordered (t # ts)" "ts \<noteq> []" and d: "divisor > 0"
    and qs: "map (\<lambda>q. q * divisor) quotients = steps_of (t # ts)"
  shows "dod_decode (length (t # ts)) t (dod_encode divisor quotients @ rest) = Ok ((t # ts, last (t # ts)), rest)"
proof -
  obtain q qs' t' ts' where q: "quotients = q # qs'" and t: "ts = t' # ts'"
    using qs ts(2) by (cases quotients; cases ts) auto
  have len: "length (q # deltas (q # qs')) = length ts"
    using arg_cong [OF qs, of length] by (simp add: q deltas_def)
  have "get_sparse (length ts) (put_sparse (q # deltas (q # qs')) @ rest) = Ok (q # deltas (q # qs'), rest)"
    using get_put_sparse [of "q # deltas (q # qs')" rest] unfolding len .
  moreover have "dod_steps divisor True 0 t (q # deltas (q # qs')) = Ok (ts, last (t # ts))"
    using dod_steps_exact [of t' ts' divisor qs' q] ts(1) qs next_timestamp_step [of t t'] by (simp add: q t)
  ultimately show ?thesis
    using d by (simp add: dod_decode_def dod_encode_def read_divisor_def q deltas_def [symmetric])
qed

subsection \<open>Rle\<close>

definition expand :: "(u64 \<times> u64) list \<Rightarrow> u64 list" where
  "expand runs = concat (map (\<lambda>(q, n). replicate (unat n) q) runs)"

definition put_runs :: "(u64 \<times> u64) list \<Rightarrow> bytes" where
  "put_runs runs = concat (map (\<lambda>(q, n). put_varint q @ put_varint n) runs)"

lemma expand_simps [simp]:
  "expand [] = []" "expand ((q, n) # runs) = replicate (unat n) q @ expand runs"
  by (simp_all add: expand_def)

lemma put_runs_simps [simp]:
  "put_runs [] = []" "put_runs ((q, n) # runs) = put_varint q @ put_varint n @ put_runs runs"
  by (simp_all add: put_runs_def)

lemma unat_inc: "unat (n :: u64) + 1 < 2 ^ 64 \<Longrightarrow> unat (n + 1) = unat n + 1"
  by (simp add: unat_word_ariths)

lemma runs_from_expand:
  assumes "unat n + length xs < 2 ^ 64" "0 < unat n"
  shows "expand (runs_from q n xs) = replicate (unat n) q @ xs
     \<and> (\<forall>(q, n) \<in> set (runs_from q n xs). 0 < unat n)"
  using assms
proof (induction xs arbitrary: q n)
  case (Cons x xs)
  show ?case
  proof (cases "x = q")
    case True
    have n: "unat (n + 1) = unat n + 1" using Cons.prems(1) by (intro unat_inc) simp
    have "replicate (unat n + 1) q @ xs = replicate (unat n) q @ x # xs"
      using True by (simp add: replicate_append_same)
    then show ?thesis using True Cons.IH [of "n + 1" q] Cons.prems n by simp
  next
    case False
    then show ?thesis using Cons.IH [of 1 x] Cons.prems by simp
  qed
qed simp

lemma runs_of_expand:
  assumes "qs \<noteq> []" "length qs < 2 ^ 64"
  shows "expand (runs_of qs) = qs" "\<forall>(q, n) \<in> set (runs_of qs). 0 < unat n"
proof -
  obtain q qs' where "qs = q # qs'" using assms(1) by (cases qs) auto
  then show "expand (runs_of qs) = qs" "\<forall>(q, n) \<in> set (runs_of qs). 0 < unat n"
    using runs_from_expand [of 1 qs' q] assms(2) by (simp_all add: runs_of_def)
qed

lemma steps_of_append: "steps_of (t # us @ vs) = steps_of (t # us) @ steps_of (last (t # us) # vs)"
  by (induction us arbitrary: t) simp_all

lemma ordered_append: "ordered (t # us @ vs) \<longleftrightarrow> ordered (t # us) \<and> ordered (last (t # us) # vs)"
  by (induction us arbitrary: t) simp_all

lemma last_split: "last (last (t # us) # vs) = last (t # us @ vs)"
  by simp

lemma advance_exact:
  assumes "ordered (t # us)" "steps_of (t # us) = replicate n s"
  shows "advance n t s = Ok (us, last (t # us))"
  using assms
proof (induction n arbitrary: t us)
  case 0
  then show ?case by (cases us) simp_all
next
  case (Suc n)
  then obtain u us' where us: "us = u # us'" by (cases us) auto
  then have s: "step t u = s" and "steps_of (u # us') = replicate n s" "sint t \<le> sint u" "ordered (u # us')"
    using Suc.prems by simp_all
  then show ?case using Suc.IH [of u us'] next_timestamp_step [of t u] by (simp add: us)
qed

lemma rle_runs_exact:
  assumes "\<forall>(q, n) \<in> set runs. 0 < unat n" "ordered (t # ts)"
    "map (\<lambda>q. q * d) (expand runs) = steps_of (t # ts)" "length ts < 2 ^ 64"
  shows "rle_runs d (length ts) t (put_runs runs @ rest) = Ok ((ts, last (t # ts)), rest)"
  using assms
proof (induction runs arbitrary: t ts)
  case Nil
  then have "ts = []" by (cases ts) simp_all
  then show ?case by (simp add: rle_runs.simps)
next
  case (Cons r runs)
  obtain q n where r: "r = (q, n)" by (cases r)
  have steps: "steps_of (t # ts) = replicate (unat n) (q * d) @ map (\<lambda>q. q * d) (expand runs)"
    using Cons.prems(3) by (simp add: r)
  have n: "0 < unat n" "unat n \<le> length ts"
    using Cons.prems(1) arg_cong [OF steps, of length] by (simp_all add: r)
  let ?us = "take (unat n) ts" let ?vs = "drop (unat n) ts"
  have "steps_of (t # ?us) @ steps_of (last (t # ?us) # ?vs) = steps_of (t # ts)"
    by (metis append_take_drop_id steps_of_append)
  then have us: "steps_of (t # ?us) = replicate (unat n) (q * d)"
    and vs: "steps_of (last (t # ?us) # ?vs) = map (\<lambda>q. q * d) (expand runs)"
    using n(2) unfolding steps by (simp_all add: append_eq_append_conv)
  have ord: "ordered (t # ?us)" "ordered (last (t # ?us) # ?vs)"
    using Cons.prems(2) ordered_append [of t ?us ?vs] by simp_all
  have lst: "last (last (t # ?us) # ?vs) = last (t # ts)"
    using last_split [of t ?us ?vs] by (simp only: append_take_drop_id)
  have run: "0 < n" "n \<le> of_nat (length ts)"
    using n Cons.prems(4) by (simp_all add: word_less_nat_alt word_le_nat_alt unat_of_nat)
  have "rle_runs d (length ts - unat n) (last (t # ?us)) (put_runs runs @ rest)
      = Ok ((?vs, last (t # ts)), rest)"
    using Cons.IH [of "last (t # ?us)" ?vs] Cons.prems(1,4) ord(2) vs by (simp add: lst)
  moreover have "ts \<noteq> []" using n by auto
  ultimately show ?case
    using run advance_exact [OF ord(1) us]
    by (simp add: r rle_runs.simps [of d "length ts"] Let_def)
qed

lemma rle_roundtrip:
  assumes ts: "ordered (t # ts)" "ts \<noteq> []" "length ts < 2 ^ 64" and d: "divisor > 0"
    and qs: "map (\<lambda>q. q * divisor) quotients = steps_of (t # ts)"
  shows "rle_decode (length (t # ts)) t (rle_encode divisor quotients @ rest) = Ok ((t # ts, last (t # ts)), rest)"
proof -
  have len: "length quotients = length ts" using arg_cong [OF qs, of length] by simp
  then have "quotients \<noteq> []" "length quotients < 2 ^ 64" using ts by auto
  from runs_of_expand [OF this]
  have "rle_runs divisor (length ts) t (put_runs (runs_of quotients) @ rest) = Ok ((ts, last (t # ts)), rest)"
    using ts qs by (intro rle_runs_exact) simp_all
  then show ?thesis
    using d by (simp add: rle_decode_def rle_encode_def read_divisor_def put_runs_def [symmetric])
qed

subsection \<open>The predicted length of Rle\<close>

lemma fits_less: "fits n (v :: u64) \<Longrightarrow> n < 64 \<Longrightarrow> v < 2 ^ n"
proof -
  assume f: "fits n v" and n: "n < 64"
  have "take_bit n v = v" using f by (intro bit_eqI) (auto simp: bit_take_bit_iff fits_def)
  then have "v = v mod 2 ^ n" by (simp add: take_bit_eq_mod)
  moreover have "bit ((2 :: u64) ^ n) n" using n by (simp add: bit_exp_iff)
  then have "(2 :: u64) ^ n \<noteq> 0" by (metis bit_0_eq bot_apply bot_bool_def)
  then have "0 < (2 :: u64) ^ n" by (simp only: word_neq_0_conv)
  ultimately show "v < 2 ^ n" by (metis word_mod_less_divisor)
qed

lemma length_put_varint_top:
  assumes "bit (v OR 1) k" "fits (Suc k) (v OR 1)"
  shows "length (put_varint v) = k div 7 + 1"
  using assms
proof (induction v arbitrary: k rule: put_varint.induct)
  case (1 v)
  show ?case
  proof (cases "v \<ge> 0x80")
    case False
    have "k < 7"
    proof (rule ccontr)
      assume "\<not> k < 7"
      then have "bit v k" using "1.prems"(1) by (auto simp: bit_or_iff bit_1_iff)
      moreover have "take_bit 7 v = v" using False by (intro take_bit_small) (simp add: not_le)
      ultimately show False using \<open>\<not> k < 7\<close> by (metis bit_take_bit_iff)
    qed
    then show ?thesis using False by (simp add: put_varint.simps [of v])
  next
    case True
    have "7 \<le> k"
    proof (rule ccontr)
      assume "\<not> 7 \<le> k"
      then have "fits 7 v" using "1.prems"(2) by (auto simp: fits_def bit_or_iff intro: less_le_trans)
      then have "v < 2 ^ 7" by (rule fits_less) simp
      then show False using True by simp
    qed
    then obtain j where k: "k = 7 + j" by (metis le_Suc_ex)
    have bit: "bit v (7 + j)" using "1.prems"(1) by (auto simp: k bit_or_iff bit_1_iff)
    have "bit (drop_bit 7 v OR 1) j" using bit by (simp add: bit_or_iff bit_drop_bit_eq)
    moreover have "fits (Suc j) (drop_bit 7 v OR 1)"
      using "1.prems"(2) by (auto simp: fits_def k bit_or_iff bit_drop_bit_eq bit_1_iff)
    ultimately have "length (put_varint (drop_bit 7 v)) = j div 7 + 1" by (rule "1.IH" [OF True])
    then show ?thesis using True by (simp add: put_varint.simps [of v] k)
  qed
qed

lemma leading_zeros_top:
  assumes "v \<noteq> 0"
  shows "leading_zeros v < 64 \<and> bit v (63 - leading_zeros v)"
proof -
  let ?xs = "map (bit v) (rev [0..<64])"
  obtain j where "bit v j" using assms by (metis bit_0_eq bit_eqI bot_apply bot_bool_def)
  then have "j < 64" "bit v j" using bit_imp_le_length [of v j] by simp_all
  then have "\<exists>x \<in> set ?xs. \<not> Not x" by force
  then have l: "length (takeWhile Not ?xs) < length ?xs"
    by (metis (no_types, lifting) length_takeWhile_le nat_less_le takeWhile_eq_all_conv takeWhile_eq_take take_all_iff order_refl)
  have "\<not> Not (?xs ! length (takeWhile Not ?xs))" by (rule nth_length_takeWhile [OF l])
  then show ?thesis using l by (simp add: leading_zeros_def rev_nth)
qed

lemma varint_len_exact: "varint_len v = length (put_varint v)"
proof -
  let ?w = "v OR 1"
  have "bit ?w 0" by (simp add: bit_or_iff)
  then have "?w \<noteq> 0" by auto
  then have top: "leading_zeros ?w < 64" "bit ?w (63 - leading_zeros ?w)" using leading_zeros_top by blast+
  moreover have "64 - leading_zeros ?w = Suc (63 - leading_zeros ?w)" using top(1) by simp
  ultimately have "length (put_varint v) = (63 - leading_zeros ?w) div 7 + 1"
    using leading_zeros_fits [of ?w] length_put_varint_top [of v] by metis
  then show ?thesis
    unfolding varint_len_def div_ceil_def using top(1) by (simp add: Suc_diff_Suc div_add_self1 flip: Suc_diff_le)
qed

lemma rle_encoded_len_exact: "rle_encoded_len divisor quotients = length (rle_encode divisor quotients)"
proof -
  have "foldl (\<lambda>len (q, n). len + (varint_len q + varint_len n)) k runs = k + length (put_runs runs)" for k runs
    by (induction runs arbitrary: k) (auto simp: varint_len_exact)
  then show ?thesis by (simp add: rle_encoded_len_def rle_encode_def varint_len_exact put_runs_def)
qed

subsection \<open>ConstStep\<close>

lemma uint_step: "sint a \<le> sint b \<Longrightarrow> uint (step a b) = sint b - sint a"
proof -
  assume le: "sint a \<le> sint b"
  have lt: "sint b - sint a < 2 ^ 64" using sint_less [of b] sint_greater_eq [of a] by simp
  have "uint (step a b) = uint (word_of_int (sint b - sint a) :: 64 word)" by (simp add: step_def)
  also have "\<dots> = (sint b - sint a) mod 2 ^ 64" by (simp only: uint_word_of_int) simp
  also have "\<dots> = sint b - sint a" using le lt by (intro mod_pos_pos_trivial) simp_all
  finally show ?thesis .
qed

lemma const_steps:
  assumes "ordered (t # ts)" "steps_of (t # ts) = replicate (length ts) s"
  shows "int (length ts) * uint s = sint (last (t # ts)) - sint t
     \<and> t # ts = map (\<lambda>i. t + s * of_nat i) [0..<length (t # ts)]"
  using assms
proof (induction ts arbitrary: t)
  case (Cons u us)
  have s: "s = u - t" "uint s = sint u - sint t" using Cons.prems uint_step [of t u] by (simp_all add: step_def)
  have IH: "int (length us) * uint s = sint (last (u # us)) - sint u"
    "u # us = map (\<lambda>i. u + s * of_nat i) [0..<length (u # us)]"
    using Cons.IH [of u] Cons.prems by (simp_all del: upt_Suc last.simps)
  have "map (\<lambda>i. t + s * of_nat i) [0..<length (t # u # us)] = t # map (\<lambda>i. t + s * of_nat (Suc i)) [0..<length (u # us)]"
    by (simp only: length_Cons map_upt_Suc) simp
  also have "map (\<lambda>i. t + s * of_nat (Suc i)) [0..<length (u # us)] = map (\<lambda>i. u + s * of_nat i) [0..<length (u # us)]"
    by (rule map_cong) (simp_all add: s(1) algebra_simps)
  finally have "t # u # us = map (\<lambda>i. t + s * of_nat i) [0..<length (t # u # us)]" by (simp only: IH(2) [symmetric])
  moreover have "int (length (u # us)) * uint s = sint (last (t # u # us)) - sint t"
    using IH(1) s(2) by (simp del: last.simps add: last_ConsR distrib_right)
  ultimately show ?case by blast
qed simp

lemma all_equal_replicate: "length xs = n \<Longrightarrow> (\<forall>x \<in> set xs. x = c) \<longleftrightarrow> xs = replicate n c"
  by (induction xs arbitrary: n) auto

lemma const_step_fits_iff:
  "const_step_fits (t # ts) \<longleftrightarrow> (\<exists>s. steps_of (t # ts) = replicate (length ts) s)"
proof (cases ts)
  case (Cons u us)
  have "const_step_fits (t # ts) \<longleftrightarrow> (\<forall>s \<in> set (steps_of (t # ts)). s = step t u)"
    by (auto simp: const_step_fits_def Cons steps_of_def list_all_iff)
  also have "\<dots> \<longleftrightarrow> steps_of (t # ts) = replicate (length ts) (step t u)"
    by (rule all_equal_replicate) (simp add: Cons)
  also have "\<dots> \<longleftrightarrow> (\<exists>s. steps_of (t # ts) = replicate (length ts) s)"
    by (auto simp: Cons)
  finally show ?thesis .
qed (simp add: const_step_fits_def)

lemma const_step_roundtrip:
  assumes "ordered (t # ts)" "const_step_fits (t # ts)" "length ts < 2 ^ 63"
  shows "const_step_decode (length (t # ts)) t (last (t # ts)) = Ok (t # ts, last (t # ts))"
proof (cases "ts = []")
  case False
  obtain s where s: "steps_of (t # ts) = replicate (length ts) s" using assms(2) const_step_fits_iff by blast
  let ?n = "of_nat (length ts) :: u64" let ?span = "step t (last (t # ts))"
  note c = const_steps [OF assms(1) s]
  have "0 \<le> int (length ts) * uint s" by simp
  then have le: "sint t \<le> sint (last (t # ts))" using conjunct1 [OF c] by linarith
  have "uint ?span = int (length ts) * uint s" unfolding uint_step [OF le] by (rule conjunct1 [OF c, symmetric])
  then have "unat ?span = length ts * unat s" by (simp only: unat_eq_nat_uint nat_mult_distrib nat_int of_nat_0_le_iff)
  moreover have n: "unat ?n = length ts" using assms(3) by (simp add: unat_of_nat)
  ultimately have "unat (?span mod ?n) = 0" "unat (?span div ?n) = unat s"
    using False by (simp_all add: unat_mod unat_div)
  then have "?span mod ?n = 0" "?span div ?n = s" by (simp_all only: word_unat_eq_iff unat_0)
  moreover have "of_nat (length (t # ts)) - 1 = ?n" by simp
  ultimately show ?thesis
    using c False unfolding const_step_decode_def Let_def by (simp del: upt_Suc last.simps)
qed (simp add: const_step_decode_def)

end
