(* ===== verification/Midx_Values.thy ===== *)
theory Midx_Values
  imports Midx_Time
begin

text \<open>
  The value encodings of sample blocks (\<open>src/metrics_index/src/block/codec/\<close>): exact integers
  (\<open>mod.rs\<close>), \<open>const_int.rs\<close>, \<open>const_f64.rs\<close>, \<open>int_delta.rs\<close>, \<open>xor.rs\<close> and \<open>alp.rs\<close>.

  Values are the bit patterns of \<open>f64\<close>. Floating-point arithmetic enters through the record
  \<open>f64_ops\<close>, functions on bit patterns about which nothing is assumed: the encoders compare
  bit patterns before they rely on a conversion, and the results hold whatever it computes.
\<close>

section \<open>Floating point\<close>

record f64_ops =
  fo_is_finite :: "u64 \<Rightarrow> bool"
  fo_abs :: "u64 \<Rightarrow> u64"
  fo_trunc :: "u64 \<Rightarrow> u64"
  fo_round :: "u64 \<Rightarrow> u64"
  fo_eq :: "u64 \<Rightarrow> u64 \<Rightarrow> bool"
  fo_le :: "u64 \<Rightarrow> u64 \<Rightarrow> bool"
  fo_gt :: "u64 \<Rightarrow> u64 \<Rightarrow> bool"
  fo_mul :: "u64 \<Rightarrow> u64 \<Rightarrow> u64"
  fo_div :: "u64 \<Rightarrow> u64 \<Rightarrow> u64"
  fo_of_int :: "i64 \<Rightarrow> u64"
  fo_to_int :: "u64 \<Rightarrow> i64"

text \<open>The bits of 9007199254740992.0.\<close>

definition EXACT_LIMIT :: u64 where "EXACT_LIMIT = 0x4340000000000000"

definition exact_int :: "f64_ops \<Rightarrow> u64 \<Rightarrow> i64 option" where
  "exact_int fo b =
     (if \<not> (fo_is_finite fo b \<and> fo_le fo (fo_abs fo b) EXACT_LIMIT \<and> fo_eq fo (fo_trunc fo b) b) then None
      else (let i = fo_to_int fo b in if fo_of_int fo i = b then Some i else None))"

section \<open>Constants and integer deltas\<close>

definition const_int_encode :: "i64 \<Rightarrow> bytes" where
  "const_int_encode value = put_varint (zigzag value)"

definition const_int_decode :: "f64_ops \<Rightarrow> nat \<Rightarrow> u64 list decoder" where
  "const_int_decode fo rows bs =
     rbind (get_varint bs) (\<lambda>(v, bs). Ok (replicate rows (fo_of_int fo (unzigzag v)), bs))"

definition const_f64_encode :: "u64 \<Rightarrow> bytes" where
  "const_f64_encode b = to_le_bytes 8 b"

definition const_f64_decode :: "nat \<Rightarrow> u64 list decoder" where
  "const_f64_decode rows bs = rbind (get_u64 bs) (\<lambda>(b, bs). Ok (replicate rows b, bs))"

definition int_delta_encode :: "i64 list \<Rightarrow> bytes" where
  "int_delta_encode ints =
     put_varint (zigzag (ints ! 0)) @ put_sparse (map (\<lambda>(a, b). zigzag (b - a)) (windows2 ints))"

fun undelta :: "i64 \<Rightarrow> u64 list \<Rightarrow> i64 list" where
  "undelta value [] = []"
| "undelta value (d # ds) = (let value = value + unzigzag d in value # undelta value ds)"

definition int_delta_decode_with :: "(i64 \<Rightarrow> u64) \<Rightarrow> nat \<Rightarrow> u64 list decoder" where
  "int_delta_decode_with to_bits rows bs =
     rbind (get_varint bs) (\<lambda>(v, bs).
     let value = unzigzag v in
     rbind (get_sparse (rows - 1) bs) (\<lambda>(sq, bs).
     Ok (map to_bits (value # undelta value sq), bs)))"

definition int_delta_decode :: "f64_ops \<Rightarrow> nat \<Rightarrow> u64 list decoder" where
  "int_delta_decode fo = int_delta_decode_with (fo_of_int fo)"

section \<open>Xor\<close>

type_synonym window = "(nat \<times> nat) option"

fun xor_put :: "window \<Rightarrow> u64 \<Rightarrow> u64 list \<Rightarrow> bit_writer \<Rightarrow> bit_writer" where
  "xor_put window previous [] w = w"
| "xor_put window previous (b # bs) w =
     (let x = previous XOR b in
      if x = 0 then xor_put window b bs (bw_put 0 1 w)
      else
        (let lead = min (leading_zeros x) 31; trail = trailing_zeros x in
         case (case window of
                 Some (l, t) \<Rightarrow> if lead \<ge> l \<and> trail \<ge> t then Some (l, t) else None
               | None \<Rightarrow> None) of
           Some (l, t) \<Rightarrow> xor_put window b bs (bw_put (drop_bit t x) (64 - l - t) (bw_put 1 2 w))
         | None \<Rightarrow>
             (let sig = 64 - lead - trail in
              xor_put (Some (lead, trail)) b bs
                (bw_put (drop_bit trail x) sig (bw_put (of_nat lead OR push_bit 5 (of_nat (sig - 1))) 11 (bw_put 3 2 w))))))"

definition xor_encode :: "u64 list \<Rightarrow> bytes" where
  "xor_encode bits = to_le_bytes 8 (bits ! 0) @ bw_finish (xor_put None (bits ! 0) (tl bits) (bw_new []))"

definition xor_window :: "window \<Rightarrow> bit_reader \<Rightarrow> ((nat \<times> nat) \<times> window \<times> bit_reader, string) result" where
  "xor_window window r =
     rbind (br_read 1 r) (\<lambda>(flag, r).
     if flag = 1 then
       rbind (br_read 11 r) (\<lambda>(head, r).
       let lead = unat (head AND 31); sig = unat (drop_bit 5 head) + 1 in
       rbind (ensure (lead + sig \<le> 64) ''invalid XOR window'') (\<lambda>_.
       Ok ((lead, 64 - lead - sig), Some (lead, 64 - lead - sig), r)))
     else (case window of
             None \<Rightarrow> Err ''XOR window reused before it was set''
           | Some lt \<Rightarrow> Ok (lt, window, r)))"

fun xor_get :: "window \<Rightarrow> u64 \<Rightarrow> nat \<Rightarrow> bit_reader \<Rightarrow> (u64 list \<times> bit_reader, string) result" where
  "xor_get window value 0 r = Ok ([], r)"
| "xor_get window value (Suc n) r =
     rbind (br_read 1 r) (\<lambda>(changed, r).
     if changed = 1 then
       rbind (xor_window window r) (\<lambda>((lead, trail), window, r).
       rbind (br_read (64 - lead - trail) r) (\<lambda>(d, r).
       let value = value XOR push_bit trail d in
       rbind (xor_get window value n r) (\<lambda>(bs, r). Ok (value # bs, r))))
     else rbind (xor_get window value n r) (\<lambda>(bs, r). Ok (value # bs, r)))"

definition xor_decode :: "nat \<Rightarrow> u64 list decoder" where
  "xor_decode rows bs =
     rbind (get_u64 bs) (\<lambda>(value, bs).
     rbind (xor_get None value (rows - 1) (br_new bs)) (\<lambda>(vs, r).
     Ok (value # vs, drop (consumed_bytes r) bs)))"

section \<open>Alp\<close>

definition MAX_EXPONENT :: nat where "MAX_EXPONENT = 18"
definition PROBE :: nat where "PROBE = 32"

text \<open>The bits of the powers of ten from 1e0 to 1e18.\<close>

definition POW10 :: "u64 list" where
  "POW10 =
     [0x3ff0000000000000, 0x4024000000000000, 0x4059000000000000, 0x408f400000000000, 0x40c3880000000000,
      0x40f86a0000000000, 0x412e848000000000, 0x416312d000000000, 0x4197d78400000000, 0x41cdcd6500000000,
      0x4202a05f20000000, 0x42374876e8000000, 0x426d1a94a2000000, 0x42a2309ce5400000, 0x42d6bcc41e900000,
      0x430c6bf526340000, 0x4341c37937e08000, 0x4376345785d8a000, 0x43abc16d674ec800]"

definition to_decimal :: "f64_ops \<Rightarrow> u64 \<Rightarrow> nat \<Rightarrow> i64 option" where
  "to_decimal fo b exponent =
     (if \<not> fo_is_finite fo b then None
      else (let m = fo_round fo (fo_mul fo b (POW10 ! exponent)) in
            if fo_gt fo (fo_abs fo m) EXACT_LIMIT then None
            else (let m = fo_to_int fo m in
                  if fo_div fo (fo_of_int fo m) (POW10 ! exponent) = b then Some m else None)))"

definition min_exponent :: "f64_ops \<Rightarrow> u64 \<Rightarrow> nat option" where
  "min_exponent fo b =
     (if \<not> fo_is_finite fo b then None
      else List.find (\<lambda>e. to_decimal fo b e \<noteq> None) [0..<MAX_EXPONENT + 1])"

fun count_exponents :: "f64_ops \<Rightarrow> nat \<Rightarrow> nat \<Rightarrow> nat list \<Rightarrow> nat \<Rightarrow> u64 list \<Rightarrow> (nat list \<times> nat) option" where
  "count_exponents fo probe i counts unconvertible [] = Some (counts, unconvertible)"
| "count_exponents fo probe i counts unconvertible (b # bs) =
     (let (counts, unconvertible) =
            (case min_exponent fo b of
               Some e \<Rightarrow> (counts[e := counts ! e + 1], unconvertible)
             | None \<Rightarrow> (counts, unconvertible + 1))
      in if i + 1 = probe \<and> unconvertible * 2 > probe then None
         else count_exponents fo probe (i + 1) counts unconvertible bs)"

text \<open>The first position at which the running total of the counts covers enough values.\<close>

fun covering :: "nat \<Rightarrow> nat \<Rightarrow> nat \<Rightarrow> nat list \<Rightarrow> nat option" where
  "covering cover covered i [] = None"
| "covering cover covered i (c # cs) =
     (if covered + c \<ge> cover then Some i else covering cover (covered + c) (i + 1) cs)"

definition exponents :: "f64_ops \<Rightarrow> u64 list \<Rightarrow> (nat \<times> nat) option" where
  "exponents fo bits =
     (case count_exponents fo (min (length bits) PROBE) 0 (replicate (MAX_EXPONENT + 1) 0) 0 bits of
        None \<Rightarrow> None
      | Some (counts, unconvertible) \<Rightarrow>
          (case List.find (\<lambda>e. counts ! e > 0) (rev [0..<MAX_EXPONENT + 1]) of
             None \<Rightarrow> None
           | Some a \<Rightarrow>
               (let cover = div_ceil (length bits * 9) 10 in
                if length bits - unconvertible < cover then Some (a, a)
                else Some (a, case covering cover 0 0 counts of Some b \<Rightarrow> b | None \<Rightarrow> a))))"

text \<open>The scan for mantissas: those so far, the positions of exceptions and the last mantissa.\<close>

fun alp_scan ::
    "f64_ops \<Rightarrow> nat \<Rightarrow> nat \<Rightarrow> u64 list \<Rightarrow> i64 list \<Rightarrow> nat list \<Rightarrow> i64 option \<Rightarrow> i64 list \<times> nat list \<times> i64 option" where
  "alp_scan fo exponent i [] mantissas exceptions lst = (mantissas, exceptions, lst)"
| "alp_scan fo exponent i (b # bs) mantissas exceptions lst =
     (case to_decimal fo b exponent of
        Some m \<Rightarrow>
          (let mantissas = (if lst = None then replicate (length mantissas) m else mantissas)
           in alp_scan fo exponent (i + 1) bs (mantissas @ [m]) exceptions (Some m))
      | None \<Rightarrow>
          alp_scan fo exponent (i + 1) bs
            (mantissas @ [case lst of Some m \<Rightarrow> m | None \<Rightarrow> 0]) (exceptions @ [i]) lst)"

fun put_exceptions :: "u64 list \<Rightarrow> nat \<Rightarrow> nat list \<Rightarrow> bytes" where
  "put_exceptions bits previous [] = []"
| "put_exceptions bits previous (i # is) =
     put_varint (of_nat (i - previous)) @ to_le_bytes 8 (bits ! i) @ put_exceptions bits i is"

definition alp_encode_with :: "f64_ops \<Rightarrow> u64 list \<Rightarrow> nat \<Rightarrow> bytes option" where
  "alp_encode_with fo bits exponent =
     (case alp_scan fo exponent 0 bits [] [] None of
        (mantissas, exceptions, None) \<Rightarrow> None
      | (mantissas, exceptions, Some _) \<Rightarrow>
          Some (of_nat exponent # put_varint (of_nat (length exceptions)) @ put_exceptions bits 0 exceptions
                @ int_delta_encode mantissas))"

definition alp_encode :: "f64_ops \<Rightarrow> u64 list \<Rightarrow> bytes option" where
  "alp_encode fo bits =
     (case exponents fo bits of
        None \<Rightarrow> None
      | Some (a, b) \<Rightarrow>
          (let ea = alp_encode_with fo bits a;
               eb = (if b \<noteq> a then alp_encode_with fo bits b else None)
           in case (ea, eb) of
                (Some x, Some y) \<Rightarrow> if length y < length x then Some y else Some x
              | (Some x, None) \<Rightarrow> Some x
              | (None, Some y) \<Rightarrow> Some y
              | (None, None) \<Rightarrow> None))"

fun get_exceptions :: "nat \<Rightarrow> nat \<Rightarrow> bool \<Rightarrow> nat \<Rightarrow> (nat \<times> u64) list decoder" where
  "get_exceptions rows 0 first at bs = Ok ([], bs)"
| "get_exceptions rows (Suc n) first at bs =
     rbind (get_varint bs) (\<lambda>(gap, bs).
     rbind (ensure (first \<or> gap > 0) ''ALP exception positions not increasing'') (\<lambda>_.
     let at = at + unat gap in
     rbind (ensure (at < rows) ''ALP exception out of range'') (\<lambda>_.
     rbind (get_u64 bs) (\<lambda>(b, bs).
     rbind (get_exceptions rows n False at bs) (\<lambda>(es, bs). Ok ((at, b) # es, bs))))))"

definition alp_decode :: "f64_ops \<Rightarrow> nat \<Rightarrow> u64 list decoder" where
  "alp_decode fo rows bs =
     rbind (get_byte ''truncated ALP exponent'' bs) (\<lambda>(e, bs).
     let exponent = unat e in
     rbind (ensure (exponent \<le> MAX_EXPONENT) ''invalid ALP exponent'') (\<lambda>_.
     rbind (get_varint bs) (\<lambda>(count, bs).
     rbind (ensure (count < of_nat rows) ''too many ALP exceptions'') (\<lambda>_.
     rbind (get_exceptions rows (unat count) True 0 bs) (\<lambda>(exceptions, bs).
     let scale = POW10 ! exponent in
     rbind (int_delta_decode_with (\<lambda>m. fo_div fo (fo_of_int fo m) scale) rows bs) (\<lambda>(bits, bs).
     Ok (foldl (\<lambda>bits (i, b). bits[i := b]) bits exceptions, bs)))))))"

section \<open>Constants and integer deltas read back\<close>

lemma const_int_roundtrip:
  "const_int_decode fo rows (const_int_encode v @ rest) = Ok (replicate rows (fo_of_int fo v), rest)"
  by (simp add: const_int_decode_def const_int_encode_def)

lemma const_f64_roundtrip: "const_f64_decode rows (const_f64_encode b @ rest) = Ok (replicate rows b, rest)"
  by (simp add: const_f64_decode_def const_f64_encode_def)

lemma undelta_deltas [simp]: "undelta v (deltas (v # vs)) = vs"
  by (induction vs arbitrary: v) (simp_all add: Let_def)

lemma length_deltas [simp]: "length (deltas vs) = length vs - 1"
  by (simp add: deltas_def)

lemma int_delta_roundtrip:
  assumes "ints \<noteq> []"
  shows "int_delta_decode_with f (length ints) (int_delta_encode ints @ rest) = Ok (map f ints, rest)"
proof -
  obtain v vs where ints: "ints = v # vs" using assms by (cases ints) auto
  have "get_sparse (length vs) (put_sparse (deltas (v # vs)) @ rest) = Ok (deltas (v # vs), rest)"
    using get_put_sparse [of "deltas (v # vs)" rest] by simp
  then show ?thesis
    by (simp add: int_delta_decode_with_def int_delta_encode_def ints deltas_def [symmetric] Let_def)
qed

lemma exact_int_bits: "exact_int fo b = Some i \<Longrightarrow> fo_of_int fo i = b"
  by (auto simp: exact_int_def Let_def split: if_splits)

section \<open>Xor reads back\<close>

text \<open>The bits \<open>encode\<close> writes after the first value.\<close>

fun xor_bits :: "window \<Rightarrow> u64 \<Rightarrow> u64 list \<Rightarrow> bool list" where
  "xor_bits window previous [] = []"
| "xor_bits window previous (b # bs) =
     (let x = previous XOR b; lead = min (leading_zeros x) 31; trail = trailing_zeros x in
      if x = 0 then False # xor_bits window b bs
      else (case (case window of
                 Some (l, t) \<Rightarrow> if lead \<ge> l \<and> trail \<ge> t then Some (l, t) else None
               | None \<Rightarrow> None) of
           Some (l, t) \<Rightarrow> [True, False] @ low_bits (64 - l - t) (drop_bit t x) @ xor_bits window b bs
         | None \<Rightarrow> [True, True] @ low_bits 11 (of_nat lead OR push_bit 5 (of_nat (64 - lead - trail - 1)) :: u64)
             @ low_bits (64 - lead - trail) (drop_bit trail x) @ xor_bits (Some (lead, trail)) b bs))"

definition window_ok :: "window \<Rightarrow> bool" where
  "window_ok window \<longleftrightarrow> (\<forall>l t. window = Some (l, t) \<longrightarrow> l \<le> 31 \<and> l + t < 64)"

lemma window_ok_simps [simp]: "window_ok None" "window_ok (Some (l, t)) \<longleftrightarrow> l \<le> 31 \<and> l + t < 64"
  by (simp_all add: window_ok_def)

lemma zeros_disjoint:
  assumes "x \<noteq> 0"
  shows "min (leading_zeros x) 31 \<le> 31" "min (leading_zeros x) 31 + trailing_zeros x < 64"
proof -
  have "\<not> 63 - leading_zeros x < trailing_zeros x"
    using trailing_zeros_spec(3) [OF assms, of "63 - leading_zeros x"] leading_zeros_top [OF assms] by blast
  then show "min (leading_zeros x) 31 + trailing_zeros x < 64" using leading_zeros_top [OF assms] by simp
qed simp

lemma significant_fits:
  assumes "l \<le> leading_zeros x" "t \<le> trailing_zeros x" "x \<noteq> 0"
  shows "fits (64 - l - t) (drop_bit t x)" "push_bit t (drop_bit t x) = x"
proof -
  have "t + i < 64 - l" if "bit x (t + i)" for i
    using that leading_zeros_fits [of x] assms(1) unfolding fits_def by fastforce
  then show "fits (64 - l - t) (drop_bit t x)" by (force simp: fits_def bit_drop_bit_eq)
  have "t \<le> i" if "bit x i" for i
    using that trailing_zeros_spec(3) [OF assms(3), of i] assms(2) by (meson leI less_le_trans)
  then show "push_bit t (drop_bit t x) = x"
    by (intro bit_eqI) (auto simp: bit_push_bit_iff bit_drop_bit_eq dest: bit_imp_le_length)
qed

lemma window_head:
  assumes "lead \<le> 31" "sig \<le> 63"
  defines "head \<equiv> (of_nat lead OR push_bit 5 (of_nat sig)) :: u64"
  shows "fits 11 head" "unat (head AND 31) = lead" "unat (drop_bit 5 head) = sig"
proof -
  have u: "unat (of_nat lead :: u64) = lead" "unat (of_nat sig :: u64) = sig"
    using assms by (simp_all add: unat_of_nat)
  then have "take_bit 5 (of_nat lead :: u64) = of_nat lead" "take_bit 6 (of_nat sig :: u64) = of_nat sig"
    using assms by (auto intro!: take_bit_small simp: word_less_nat_alt)
  then have b: "bit (of_nat lead :: u64) i \<Longrightarrow> i < 5" "bit (of_nat sig :: u64) i \<Longrightarrow> i < 6" for i
    by (metis bit_take_bit_iff)+
  have m: "(31 :: u64) = mask 5" by (simp add: mask_eq_exp_minus_1)
  have h: "bit head i \<longleftrightarrow> bit (of_nat lead :: u64) i \<or> (5 \<le> i \<and> i < 64 \<and> bit (of_nat sig :: u64) (i - 5))" for i
    by (auto simp: head_def bit_or_iff bit_push_bit_iff)
  show "fits 11 head" using b by (force simp: fits_def h)
  have "head AND 31 = of_nat lead"
    unfolding m by (intro bit_eqI) (auto simp: bit_and_iff bit_mask_iff h dest: b)
  then show "unat (head AND 31) = lead" using u by simp
  have "drop_bit 5 head = of_nat sig"
    by (intro bit_eqI) (auto simp: bit_drop_bit_eq h dest: b)
  then show "unat (drop_bit 5 head) = sig" using u by simp
qed

lemma low_bits_flags [simp]:
  "low_bits (Suc 0) (0 :: u64) = [False]" "low_bits (Suc 0) (1 :: u64) = [True]"
  "low_bits 2 (1 :: u64) = [True, False]" "low_bits 2 (3 :: u64) = [True, True]"
  by (simp_all add: low_bits_def upt_rec bit_1_iff bit_numeral_rec)

lemma fits_flags [simp]: "fits (Suc 0) 0" "fits (Suc 0) 1" "fits 2 1" "fits 2 3"
proof -
  have three: "(3 :: u64) = mask 2" by (simp add: mask_eq_exp_minus_1)
  show "fits 2 3" unfolding three fits_def by (simp add: bit_mask_iff)
qed (auto simp: fits_def bit_1_iff)

text \<open>One value: the same window, a new one, or no change.\<close>

definition reuses :: "window \<Rightarrow> u64 \<Rightarrow> (nat \<times> nat) option" where
  "reuses window x =
     (case window of
        Some (l, t) \<Rightarrow> if min (leading_zeros x) 31 \<ge> l \<and> trailing_zeros x \<ge> t then Some (l, t) else None
      | None \<Rightarrow> None)"

lemma reuses_Some:
  assumes "reuses window x = Some (l, t)"
  shows "window = Some (l, t)" "l \<le> leading_zeros x" "t \<le> trailing_zeros x"
  using assms by (auto simp: reuses_def split: option.splits if_splits)

lemma xor_put_bits:
  assumes "bw_ok w" "window_ok window"
  shows "bw_ok (xor_put window previous bs w)
     \<and> bw_bits (xor_put window previous bs w) = bw_bits w @ xor_bits window previous bs"
  using assms
proof (induction bs arbitrary: window previous w)
  case (Cons b bs)
  let ?x = "previous XOR b" let ?l = "min (leading_zeros ?x) 31" let ?t = "trailing_zeros ?x"
  show ?case
  proof (cases "?x = 0")
    case True
    then show ?thesis using Cons.IH [of "bw_put 0 1 w" window b] Cons.prems bw_put_bits [of w 1 0] by (simp add: Let_def)
  next
    case False
    show ?thesis
    proof (cases "reuses window ?x")
      case (Some lt)
      obtain l t where lt: "lt = (l, t)" by (cases lt)
      note r = reuses_Some [OF Some [unfolded lt]]
      have "l + t < 64" using Cons.prems(2) r(1) by simp
      then show ?thesis
        using Some [unfolded reuses_def] False Cons.prems Cons.IH [of "bw_put (drop_bit t ?x) (64 - l - t) (bw_put 1 2 w)" window b]
          bw_put_bits [of w 2 1] bw_put_bits [of "bw_put 1 2 w" "64 - l - t" "drop_bit t ?x"]
          significant_fits(1) [OF r(2,3) False]
        by (simp add: Let_def lt)
    next
      case None
      let ?sig = "64 - ?l - ?t" let ?head = "of_nat ?l OR push_bit 5 (of_nat (?sig - 1)) :: u64"
      let ?w2 = "bw_put ?head 11 (bw_put 3 2 w)"
      note z = zeros_disjoint [OF False]
      have h: "fits 11 ?head" using window_head(1) [of ?l "?sig - 1"] z by simp
      have d: "fits ?sig (drop_bit ?t ?x)" using significant_fits(1) [of ?l ?x ?t] False by simp
      show ?thesis
        using None [unfolded reuses_def] False Cons.prems z h d
          Cons.IH [of "bw_put (drop_bit ?t ?x) ?sig ?w2" "Some (?l, ?t)" b]
          bw_put_bits [of w 2 3] bw_put_bits [of "bw_put 3 2 w" 11 ?head] bw_put_bits [of ?w2 ?sig "drop_bit ?t ?x"]
        by (simp add: Let_def)
    qed
  qed
qed simp

abbreviation br_skip :: "nat \<Rightarrow> bit_reader \<Rightarrow> bit_reader" where
  "br_skip n r \<equiv> r\<lparr>br_bit := br_bit r + n\<rparr>"

lemma br_read_flag:
  assumes "br_rest r = f # post"
  shows "br_read (Suc 0) r = Ok (if f then 1 else 0, br_skip (Suc 0) r)" "br_rest (br_skip (Suc 0) r) = post"
proof -
  have "br_rest r = low_bits (Suc 0) (if f then 1 else 0 :: u64) @ post" using assms by simp
  from br_read_rest [OF this] show "br_read (Suc 0) r = Ok (if f then 1 else 0, br_skip (Suc 0) r)"
    "br_rest (br_skip (Suc 0) r) = post" by simp_all
qed

lemma xor_get_bits:
  assumes "br_rest r = xor_bits window previous bs @ post" "window_ok window"
  shows "xor_get window previous (length bs) r = Ok (bs, br_skip (length (xor_bits window previous bs)) r)"
  using assms
proof (induction bs arbitrary: window previous r)
  case (Cons b bs)
  let ?x = "previous XOR b" let ?l = "min (leading_zeros ?x) 31" let ?t = "trailing_zeros ?x"
  have undo: "previous XOR ?x = b" by (simp flip: xor.assoc)
  show ?case
  proof (cases "?x = 0")
    case True
    then have "previous = b" by (metis xor_self_eq xor.right_neutral undo)
    moreover have "br_rest r = False # xor_bits window b bs @ post" using Cons.prems(1) True by simp
    ultimately show ?thesis
      using br_read_flag [of r False] Cons.IH [of "br_skip (Suc 0) r" window b] Cons.prems(2) True
      by (simp add: Let_def add.commute)
  next
    case False
    show ?thesis
    proof (cases "reuses window ?x")
      case (Some lt)
      obtain l t where lt: "lt = (l, t)" by (cases lt)
      note r = reuses_Some [OF Some [unfolded lt]]
      have lt64: "l + t < 64" using Cons.prems(2) r(1) by simp
      have stream: "xor_bits window previous (b # bs)
          = True # False # low_bits (64 - l - t) (drop_bit t ?x) @ xor_bits window b bs"
        using Some [unfolded reuses_def] False by (simp add: Let_def lt)
      let ?r2 = "br_skip (Suc 0) (br_skip (Suc 0) r)"
      have f1: "br_rest (br_skip (Suc 0) r) = False # low_bits (64 - l - t) (drop_bit t ?x) @ xor_bits window b bs @ post"
        and f0: "br_read (Suc 0) r = Ok (1, br_skip (Suc 0) r)"
        using br_read_flag [of r True] Cons.prems(1) unfolding stream by simp_all
      have f2: "br_rest ?r2 = low_bits (64 - l - t) (drop_bit t ?x) @ xor_bits window b bs @ post"
        and f3: "br_read (Suc 0) (br_skip (Suc 0) r) = Ok (0, ?r2)"
        using br_read_flag [OF f1] by simp_all
      note data = br_read_rest [OF f2 significant_fits(1) [OF r(2,3) False]]
      have "xor_window window (br_skip (Suc 0) r) = Ok ((l, t), window, ?r2)"
        using f3 by (simp add: xor_window_def r(1))
      then show ?thesis
        unfolding stream using f0 data lt64 Cons.IH [of "br_skip (64 - l - t) ?r2" window b] Cons.prems(2) undo
          significant_fits(2) [OF r(2,3) False]
        by (simp add: Let_def add.assoc)
    next
      case None
      let ?sig = "64 - ?l - ?t" let ?head = "of_nat ?l OR push_bit 5 (of_nat (?sig - 1)) :: u64"
      let ?tail = "low_bits ?sig (drop_bit ?t ?x) @ xor_bits (Some (?l, ?t)) b bs"
      note z = zeros_disjoint [OF False]
      have stream: "xor_bits window previous (b # bs) = True # True # low_bits 11 ?head @ ?tail"
        using None [unfolded reuses_def] False by (simp add: Let_def)
      let ?r1 = "br_skip (Suc 0) r" let ?r2 = "br_skip (Suc 0) ?r1" let ?r3 = "br_skip 11 ?r2"
      have f1: "br_rest ?r1 = True # low_bits 11 ?head @ ?tail @ post"
        and f0: "br_read (Suc 0) r = Ok (1, ?r1)"
        using br_read_flag [of r True] Cons.prems(1) unfolding stream by simp_all
      have f2: "br_rest ?r2 = low_bits 11 ?head @ ?tail @ post" and f3: "br_read (Suc 0) ?r1 = Ok (1, ?r2)"
        using br_read_flag [OF f1] by simp_all
      have sig: "?sig - 1 \<le> 63" "1 \<le> ?sig" "?sig \<le> 64" using z by simp_all
      note h = window_head [OF z(1) sig(1)]
      note head = br_read_rest [OF f2 h(1)]
      have rest3: "br_rest ?r3 = low_bits ?sig (drop_bit ?t ?x) @ xor_bits (Some (?l, ?t)) b bs @ post"
        using head(2) by simp
      have d: "fits ?sig (drop_bit ?t ?x)" "push_bit ?t (drop_bit ?t ?x) = ?x"
        using significant_fits [of ?l ?x ?t] False by simp_all
      note data = br_read_rest [OF rest3 d(1) sig(2,3)]
      have win: "?l + (?sig - 1 + 1) \<le> 64" "64 - ?l - (?sig - 1 + 1) = ?t" using z by simp_all
      have "xor_window window ?r1 = Ok ((?l, ?t), Some (?l, ?t), ?r3)"
        using f3 head(1) h(2,3) win by (simp only: xor_window_def) (simp add: Let_def)
      moreover have "xor_get (Some (?l, ?t)) b (length bs) (br_skip ?sig ?r3)
          = Ok (bs, br_skip (length (xor_bits (Some (?l, ?t)) b bs)) (br_skip ?sig ?r3))"
        by (rule Cons.IH [OF data(2)]) (simp add: z)
      ultimately show ?thesis
        unfolding stream using f0 data(1) d(2) undo by (simp add: Let_def add.assoc)
    qed
  qed
qed simp

lemma xor_roundtrip:
  assumes "bits \<noteq> []"
  shows "xor_decode (length bits) (xor_encode bits @ rest) = Ok (bits, rest)"
proof -
  obtain b bs where bits: "bits = b # bs" using assms by (cases bits) auto
  let ?w = "xor_put None b bs (bw_new [])"
  have ok: "bw_ok ?w" and stream: "bw_bits ?w = xor_bits None b bs"
    using xor_put_bits [of "bw_new []" None b bs] by simp_all
  obtain pad where pad: "bits_of (bw_finish ?w) = xor_bits None b bs @ pad"
    using bw.finish_pads [OF ok] stream by auto
  let ?r = "br_new (bw_finish ?w @ rest)"
  have "br_rest ?r = xor_bits None b bs @ pad @ bits_of rest" by (simp add: pad)
  then have "xor_get None b (length bs) ?r = Ok (bs, br_skip (length (xor_bits None b bs)) ?r)"
    by (rule xor_get_bits) simp
  moreover have "consumed_bytes (br_skip (length (xor_bits None b bs)) ?r) = length (bw_finish ?w)"
    by (simp add: consumed_bytes_def br_new_def bw.finish_length [OF ok] stream)
  ultimately show ?thesis by (simp add: xor_decode_def xor_encode_def bits)
qed

lemma length_xor_bits: "length (xor_bits window previous bs) \<le> 77 * length bs"
proof (induction bs arbitrary: window previous)
  case (Cons b bs)
  have "length (xor_bits window previous (b # bs)) \<le> 77 + 77 * length bs"
    using Cons.IH [of window b] Cons.IH [of "Some (min (leading_zeros (previous XOR b)) 31, trailing_zeros (previous XOR b))" b]
    by (auto simp: Let_def split: option.splits)
  then show ?case by simp
qed simp

lemma length_xor_encode:
  assumes "bits \<noteq> []"
  shows "length (xor_encode bits) \<le> 8 + div_ceil (77 * (length bits - 1)) 8"
proof -
  obtain b bs where bits: "bits = b # bs" using assms by (cases bits) auto
  let ?w = "xor_put None b bs (bw_new [])"
  have "bw_ok ?w" "bw_bits ?w = xor_bits None b bs" using xor_put_bits [of "bw_new []" None b bs] by simp_all
  then have "length (bw_finish ?w) = div_ceil (length (xor_bits None b bs)) 8" using bw.finish_length by simp
  also have "\<dots> \<le> div_ceil (77 * length bs) 8"
    unfolding div_ceil_def using length_xor_bits [of None b bs] by (intro div_le_mono) simp
  finally show ?thesis by (simp add: xor_encode_def bits)
qed

section \<open>Alp reads back\<close>

lemma to_decimal_bits: "to_decimal fo b e = Some m \<Longrightarrow> fo_div fo (fo_of_int fo m) (POW10 ! e) = b"
  by (auto simp: to_decimal_def Let_def split: if_splits)

definition failures :: "f64_ops \<Rightarrow> nat \<Rightarrow> u64 list \<Rightarrow> nat list" where
  "failures fo e bits = filter (\<lambda>i. to_decimal fo (bits ! i) e = None) [0..<length bits]"

definition scanned :: "f64_ops \<Rightarrow> nat \<Rightarrow> u64 list \<Rightarrow> i64 list \<Rightarrow> nat list \<Rightarrow> i64 option \<Rightarrow> bool" where
  "scanned fo e bits ms es lst \<longleftrightarrow>
     length ms = length bits \<and> es = failures fo e bits
     \<and> (\<forall>i < length bits. \<forall>m. to_decimal fo (bits ! i) e = Some m \<longrightarrow> ms ! i = m)
     \<and> (lst = None \<longleftrightarrow> (\<forall>i < length bits. to_decimal fo (bits ! i) e = None))"

lemma failures_snoc:
  "failures fo e (bits @ [b]) = failures fo e bits @ (if to_decimal fo b e = None then [length bits] else [])"
proof -
  have "filter (\<lambda>i. to_decimal fo ((bits @ [b]) ! i) e = None) [0..<length bits] = failures fo e bits"
    unfolding failures_def by (rule filter_cong) (simp_all add: nth_append)
  then show ?thesis by (simp add: failures_def [of fo e "bits @ [b]"])
qed

lemma scanned_snoc:
  assumes "scanned fo e bits ms es lst"
  shows "to_decimal fo b e = Some m \<Longrightarrow>
      scanned fo e (bits @ [b]) ((if lst = None then replicate (length ms) m else ms) @ [m]) es (Some m)"
    and "to_decimal fo b e = None \<Longrightarrow>
      scanned fo e (bits @ [b]) (ms @ [case lst of Some m \<Rightarrow> m | None \<Rightarrow> 0]) (es @ [length bits]) lst"
  using assms unfolding scanned_def failures_snoc
  by (auto simp: nth_append less_Suc_eq split: if_splits)

lemma alp_scan_scanned:
  assumes "scanned fo e pre ms es lst" "alp_scan fo e (length pre) bs ms es lst = (ms', es', lst')"
  shows "scanned fo e (pre @ bs) ms' es' lst'"
  using assms
proof (induction bs arbitrary: pre ms es lst)
  case (Cons b bs)
  show ?case
  proof (cases "to_decimal fo b e")
    case None
    then show ?thesis
      using Cons.IH [OF scanned_snoc(2) [OF Cons.prems(1) None]] Cons.prems(2) by simp
  next
    case (Some m)
    then show ?thesis
      using Cons.IH [OF scanned_snoc(1) [OF Cons.prems(1) Some]] Cons.prems(2) by (simp add: Let_def split: if_splits)
  qed
qed simp

lemma get_put_exceptions:
  assumes "sorted_wrt (<) es" "\<forall>i \<in> set es. at \<le> i \<and> i < rows \<and> (first \<or> at < i)" "rows < 2 ^ 64"
  shows "get_exceptions rows (length es) first at (put_exceptions bits at es @ rest)
     = Ok (map (\<lambda>i. (i, bits ! i)) es, rest)"
  using assms
proof (induction es arbitrary: at first)
  case (Cons i es)
  have "i - at < 2 ^ 64" using Cons.prems(2,3) by auto
  then have gap: "unat (of_nat (i - at) :: u64) = i - at" by (simp only: unat_of_nat) simp
  have "first \<or> 0 < (of_nat (i - at) :: u64)" using Cons.prems(2) gap by (auto simp: word_less_nat_alt)
  moreover have "get_exceptions rows (length es) False i (put_exceptions bits i es @ rest)
     = Ok (map (\<lambda>i. (i, bits ! i)) es, rest)"
    using Cons.prems by (intro Cons.IH) auto
  ultimately show ?case using Cons.prems(2) gap by (simp add: Let_def)
qed simp

lemma foldl_updates:
  assumes "\<forall>i \<in> set es. i < length xs"
  shows "length (foldl (\<lambda>xs (i, b). xs[i := b]) xs (map (\<lambda>i. (i, f i)) es)) = length xs
     \<and> (k < length xs \<longrightarrow> foldl (\<lambda>xs (i, b). xs[i := b]) xs (map (\<lambda>i. (i, f i)) es) ! k
          = (if k \<in> set es then f k else xs ! k))"
  using assms by (induction es arbitrary: xs) auto

lemma alp_roundtrip_with:
  assumes "alp_encode_with fo bits e = Some enc" "e \<le> MAX_EXPONENT" "length bits < 2 ^ 64"
  shows "alp_decode fo (length bits) (enc @ rest) = Ok (bits, rest)"
proof -
  obtain ms es m where scan: "alp_scan fo e 0 bits [] [] None = (ms, es, Some m)"
    and enc: "enc = of_nat e # put_varint (of_nat (length es)) @ put_exceptions bits 0 es @ int_delta_encode ms"
    using assms(1) by (auto simp: alp_encode_with_def split: prod.splits option.splits)
  have "scanned fo e ([] @ bits) ms es (Some m)"
    by (rule alp_scan_scanned [where ms = "[]" and es = "[]" and lst = None])
      (use scan in \<open>simp_all add: scanned_def failures_def\<close>)
  then have len: "length ms = length bits" and es: "es = failures fo e bits"
    and good: "\<And>i m. i < length bits \<Longrightarrow> to_decimal fo (bits ! i) e = Some m \<Longrightarrow> ms ! i = m"
    and some: "\<exists>i < length bits. to_decimal fo (bits ! i) e \<noteq> None"
    by (auto simp: scanned_def)
  have inside: "\<forall>i \<in> set es. i < length bits" by (auto simp: es failures_def)
  have count: "length es < length bits"
  proof -
    obtain i where "i < length bits" "to_decimal fo (bits ! i) e \<noteq> None" using some by blast
    then have "length (filter (\<lambda>i. to_decimal fo (bits ! i) e = None) [0..<length bits]) < length [0..<length bits]"
      by (intro length_filter_less [of i]) simp_all
    then show ?thesis by (simp add: es failures_def)
  qed
  have exc: "get_exceptions (length bits) (length es) True 0 (put_exceptions bits 0 es @ int_delta_encode ms @ rest)
      = Ok (map (\<lambda>i. (i, bits ! i)) es, int_delta_encode ms @ rest)"
    using inside assms(3) by (intro get_put_exceptions) (simp_all add: es failures_def sorted_wrt_filter)
  let ?f = "\<lambda>m. fo_div fo (fo_of_int fo m) (POW10 ! e)"
  have ints: "int_delta_decode_with ?f (length bits) (int_delta_encode ms @ rest) = Ok (map ?f ms, rest)"
    using int_delta_roundtrip [of ms ?f rest] len some by (cases ms) auto
  have "foldl (\<lambda>bits (i, b). bits[i := b]) (map ?f ms) (map (\<lambda>i. (i, bits ! i)) es) = bits"
  proof (rule nth_equalityI)
    show "length (foldl (\<lambda>bits (i, b). bits[i := b]) (map ?f ms) (map (\<lambda>i. (i, bits ! i)) es)) = length bits"
      using foldl_updates [of es "map ?f ms"] inside len by simp
    fix k assume "k < length (foldl (\<lambda>bits (i, b). bits[i := b]) (map ?f ms) (map (\<lambda>i. (i, bits ! i)) es))"
    then have k: "k < length bits" using foldl_updates [of es "map ?f ms"] inside len by simp
    have "?f (ms ! k) = bits ! k" if "k \<notin> set es"
      using that k good [of k] to_decimal_bits by (auto simp: es failures_def)
    then show "foldl (\<lambda>bits (i, b). bits[i := b]) (map ?f ms) (map (\<lambda>i. (i, bits ! i)) es) ! k = bits ! k"
      using foldl_updates [of es "map ?f ms" "\<lambda>i. bits ! i" k] inside len k by simp
  qed
  moreover have "unat (of_nat e :: u8) = e" using assms(2) by (simp add: unat_of_nat MAX_EXPONENT_def)
  moreover have "unat (of_nat (length es) :: u64) = length es" "(of_nat (length es) :: u64) < of_nat (length bits)"
    using count assms(3) by (simp_all add: unat_of_nat word_less_nat_alt)
  ultimately show ?thesis
    using assms(2) exc ints by (simp add: alp_decode_def enc get_byte_def Let_def)
qed

lemma count_exponents_length:
  "count_exponents fo probe i counts u bs = Some (counts', u') \<Longrightarrow> length counts' = length counts"
  by (induction bs arbitrary: i counts u) (auto simp: Let_def split: option.splits if_splits prod.splits)

lemma covering_less: "covering cover covered i cs = Some j \<Longrightarrow> j < i + length cs"
  by (induction cs arbitrary: covered i) (force split: if_splits)+

lemma exponents_bound:
  assumes "exponents fo bits = Some (a, b)"
  shows "a \<le> MAX_EXPONENT \<and> b \<le> MAX_EXPONENT"
proof -
  obtain counts u where c: "count_exponents fo (min (length bits) PROBE) 0 (replicate (MAX_EXPONENT + 1) 0) 0 bits = Some (counts, u)"
    using assms by (auto simp: exponents_def split: option.splits)
  then have l: "length counts = MAX_EXPONENT + 1" by (auto dest: count_exponents_length)
  obtain a' where a: "List.find (\<lambda>e. counts ! e > 0) (rev [0..<MAX_EXPONENT + 1]) = Some a'"
    using assms c by (auto simp: exponents_def split: option.splits)
  then have "a' \<in> set (rev [0..<MAX_EXPONENT + 1])" by (metis find_Some_iff nth_mem)
  then have "a' \<le> MAX_EXPONENT" by auto
  then show ?thesis
    using assms c a covering_less [of _ 0 0 counts] l
    by (fastforce simp: exponents_def Let_def split: option.splits if_splits)
qed

lemma alp_roundtrip:
  assumes "alp_encode fo bits = Some enc" "length bits < 2 ^ 64"
  shows "alp_decode fo (length bits) (enc @ rest) = Ok (bits, rest)"
proof -
  obtain a b where e: "exponents fo bits = Some (a, b)" using assms(1) by (auto simp: alp_encode_def split: option.splits)
  then have "alp_encode_with fo bits a = Some enc \<or> alp_encode_with fo bits b = Some enc"
    using assms(1) by (auto simp: alp_encode_def Let_def split: option.splits if_splits)
  then show ?thesis using exponents_bound [OF e] alp_roundtrip_with assms(2) by blast
qed

text \<open>Floating-point operations under which no value converts, for concrete examples.\<close>

definition opaque_f64 :: f64_ops where
  "opaque_f64 = \<lparr>fo_is_finite = (\<lambda>_. False), fo_abs = id, fo_trunc = id, fo_round = id, fo_eq = (=), fo_le = (\<le>),
     fo_gt = (>), fo_mul = (\<lambda>a _. a), fo_div = (\<lambda>a _. a), fo_of_int = id, fo_to_int = id\<rparr>"

end
