(* ===== verification/Midx_Samples.thy ===== *)
theory Midx_Samples
  imports Midx_Values OO_Strings
begin

text \<open>
  Sample blocks (\<open>src/metrics_index/src/block/samples.rs\<close>, the encoding ids of \<open>codec/mod.rs\<close> and
  the block decoder of \<open>reader.rs\<close>): a tag byte naming the encoding of each section, then the
  timestamp section and the value section. The encoder picks the encodings; the decoder takes
  them from the tag and the row count and time bounds from the block's directory entry.
\<close>

section \<open>Encoding ids\<close>

datatype codec = ConstStep | Dod | Rle | ConstInt | ConstF64 | IntDelta | Alp | Xor

fun codec_id :: "codec \<Rightarrow> u8" where
  "codec_id ConstStep = 0"
| "codec_id Dod = 1"
| "codec_id Rle = 2"
| "codec_id ConstInt = 3"
| "codec_id ConstF64 = 4"
| "codec_id IntDelta = 5"
| "codec_id Alp = 6"
| "codec_id Xor = 7"

definition codec_tag :: "codec \<Rightarrow> codec \<Rightarrow> u8" where
  "codec_tag timestamps values = codec_id timestamps OR push_bit 4 (codec_id values)"

definition codec_from_id :: "u8 \<Rightarrow> (codec, string) result" where
  "codec_from_id i =
     (if i = 0 then Ok ConstStep else if i = 1 then Ok Dod else if i = 2 then Ok Rle
      else if i = 3 then Ok ConstInt else if i = 4 then Ok ConstF64 else if i = 5 then Ok IntDelta
      else if i = 6 then Ok Alp else if i = 7 then Ok Xor
      else Err (''reserved sample encoding id '' @ show_nat (unat i)))"

definition codec_name :: "codec \<Rightarrow> string" where
  "codec_name c = (case c of
     ConstStep \<Rightarrow> ''ConstStep'' | Dod \<Rightarrow> ''Dod'' | Rle \<Rightarrow> ''Rle'' | ConstInt \<Rightarrow> ''ConstInt''
   | ConstF64 \<Rightarrow> ''ConstF64'' | IntDelta \<Rightarrow> ''IntDelta'' | Alp \<Rightarrow> ''Alp'' | Xor \<Rightarrow> ''Xor'')"

section \<open>Block metadata\<close>

type_synonym u32 = "32 word"

record block_meta =
  bm_hash :: u64
  bm_row_start :: u64
  bm_row_count :: u32
  bm_min_timestamp :: i64
  bm_max_timestamp :: i64
  bm_block_offset :: u64
  bm_block_length :: u32

definition MAX_BLOCK_ROWS :: nat where "MAX_BLOCK_ROWS = 8192"

definition max_block_len :: "u32 \<Rightarrow> (nat, string) result" where
  "max_block_len row_count =
     rbind (ensure (row_count > 0 \<and> unat row_count \<le> MAX_BLOCK_ROWS) ''invalid block row count'') (\<lambda>_.
     Ok (32 + 18 * unat row_count))"

section \<open>Encoding\<close>

definition encode_timestamps :: "i64 list \<Rightarrow> codec \<times> bytes" where
  "encode_timestamps ts =
     (if const_step_fits ts then (ConstStep, [])
      else (let (divisor, quotients) = scaled_steps ts; out = dod_encode divisor quotients in
            if rle_encoded_len divisor quotients \<ge> length out then (Dod, out)
            else (Rle, rle_encode divisor quotients)))"

definition encode_integers :: "i64 list \<Rightarrow> u64 list \<Rightarrow> codec \<times> bytes" where
  "encode_integers ints bits =
     (let out = int_delta_encode ints in
      if sorted (map sint ints) then (IntDelta, out)
      else (let xor = xor_encode bits in
            if length xor < length out then (Xor, xor) else (IntDelta, out)))"

definition encode_values :: "f64_ops \<Rightarrow> u64 list \<Rightarrow> codec \<times> bytes" where
  "encode_values fo bits =
     (let first = bits ! 0 in
      if list_all (\<lambda>b. b = first) bits then
        (case exact_int fo first of
           Some value \<Rightarrow> (ConstInt, const_int_encode value)
         | None \<Rightarrow> (ConstF64, const_f64_encode first))
      else
        (case those (map (exact_int fo) bits) of
           Some ints \<Rightarrow> encode_integers ints bits
         | None \<Rightarrow>
             (let xor = xor_encode bits in
              case alp_encode fo bits of
                Some out \<Rightarrow> if length out < length xor then (Alp, out) else (Xor, xor)
              | None \<Rightarrow> (Xor, xor))))"

definition encode_block :: "f64_ops \<Rightarrow> i64 list \<Rightarrow> u64 list \<Rightarrow> (bytes, string) result" where
  "encode_block fo ts bits =
     rbind (ensure (ts \<noteq> [] \<and> length ts = length bits \<and> length ts \<le> MAX_BLOCK_ROWS) ''invalid sample block shape'') (\<lambda>_.
     let (timestamps, t) = encode_timestamps ts;
         (values, v) = encode_values fo bits;
         out = codec_tag timestamps values # t @ v
     in rbind (max_block_len (of_nat (length ts))) (\<lambda>limit.
        rbind (ensure (length out \<le> limit) ''sample block exceeds format bound'') (\<lambda>_. Ok out)))"

section \<open>Decoding\<close>

definition decode_timestamps :: "codec \<Rightarrow> block_meta \<Rightarrow> i64 list decoder" where
  "decode_timestamps kind block body =
     (let rows = unat (bm_row_count block); mn = bm_min_timestamp block; mx = bm_max_timestamp block in
      rbind
        (case kind of
           ConstStep \<Rightarrow> rbind (const_step_decode rows mn mx) (\<lambda>r. Ok (r, body))
         | Dod \<Rightarrow> dod_decode rows mn body
         | Rle \<Rightarrow> rle_decode rows mn body
         | _ \<Rightarrow> Err (codec_name kind @ '' is not a timestamp encoding''))
        (\<lambda>((ts, lst), body).
         rbind (ensure (lst = mx) ''decoded timestamp bounds mismatch'') (\<lambda>_. Ok (ts, body))))"

definition decode_values :: "f64_ops \<Rightarrow> codec \<Rightarrow> nat \<Rightarrow> u64 list decoder" where
  "decode_values fo kind rows body =
     (case kind of
        ConstInt \<Rightarrow> const_int_decode fo rows body
      | ConstF64 \<Rightarrow> const_f64_decode rows body
      | IntDelta \<Rightarrow> int_delta_decode fo rows body
      | Alp \<Rightarrow> alp_decode fo rows body
      | Xor \<Rightarrow> xor_decode rows body
      | _ \<Rightarrow> Err (codec_name kind @ '' is not a value encoding''))"

definition sample_decode :: "f64_ops \<Rightarrow> bytes \<Rightarrow> block_meta \<Rightarrow> (i64 list \<times> u64 list, string) result" where
  "sample_decode fo bytes block =
     (let rows = unat (bm_row_count block) in
      rbind (ensure (rows > 0 \<and> rows \<le> MAX_BLOCK_ROWS) ''invalid decoded row count'') (\<lambda>_.
      rbind (ensure (sint (bm_min_timestamp block) \<le> sint (bm_max_timestamp block)) ''invalid time bounds'') (\<lambda>_.
      rbind (get_byte ''empty sample block'' bytes) (\<lambda>(tag, body).
      rbind (codec_from_id (tag AND 0x0f)) (\<lambda>timestamps.
      rbind (decode_timestamps timestamps block body) (\<lambda>(ts, body).
      rbind (codec_from_id (drop_bit 4 tag)) (\<lambda>values.
      rbind (decode_values fo values rows body) (\<lambda>(bits, body).
      rbind (ensure (body = []) ''trailing sample block bytes'') (\<lambda>_. Ok (ts, bits))))))))))"

definition decode_inner :: "f64_ops \<Rightarrow> bytes \<Rightarrow> block_meta \<Rightarrow> (i64 list \<times> u64 list, string) result" where
  "decode_inner fo block_bytes block =
     rbind (max_block_len (bm_row_count block)) (\<lambda>limit.
     rbind (ensure (unat (bm_block_length block) \<le> limit) ''block length exceeds format bound'') (\<lambda>_.
     rbind (ensure (length block_bytes = unat (bm_block_length block)) ''block length mismatch'') (\<lambda>_.
     sample_decode fo block_bytes block)))"

text \<open>The reusable decoder: its buffers hold the block just decoded, and nothing after an error.\<close>

record block_decoder =
  bd_timestamps :: "i64 list"
  bd_value_bits :: "u64 list"

definition block_decoder_decode :: "f64_ops \<Rightarrow> bytes \<Rightarrow> block_meta \<Rightarrow> block_decoder \<Rightarrow> (unit, string) result \<times> block_decoder" where
  "block_decoder_decode fo block_bytes block d =
     (case decode_inner fo block_bytes block of
        Inl e \<Rightarrow> (Err e, d\<lparr>bd_timestamps := [], bd_value_bits := []\<rparr>)
      | Inr (ts, bits) \<Rightarrow> (Ok (), d\<lparr>bd_timestamps := ts, bd_value_bits := bits\<rparr>))"

definition decode_block :: "f64_ops \<Rightarrow> bytes \<Rightarrow> block_meta \<Rightarrow> (i64 list \<times> u64 list, string) result" where
  "decode_block fo block_bytes block =
     (let rows = unat (bm_row_count block) in
      rbind (ensure (rows > 0 \<and> rows \<le> MAX_BLOCK_ROWS) ''invalid decoder capacity'') (\<lambda>_.
      let (r, d) = block_decoder_decode fo block_bytes block \<lparr>bd_timestamps = [], bd_value_bits = []\<rparr>
      in rbind r (\<lambda>_. Ok (bd_timestamps d, bd_value_bits d))))"

section \<open>Tags\<close>

lemma codec_from_id_of [simp]: "codec_from_id (codec_id c) = Ok c"
  by (cases c) (simp_all add: codec_from_id_def)

lemma codec_tag_nibbles [simp]:
  "codec_tag t v AND 0x0f = codec_id t" "drop_bit 4 (codec_tag t v) = codec_id v"
  by (cases t; cases v; simp add: codec_tag_def; code_simp)+

section \<open>Sections read back\<close>

lemma encode_timestamps_roundtrip:
  assumes "ordered ts" "ts \<noteq> []" "length ts \<le> MAX_BLOCK_ROWS" "encode_timestamps ts = (kind, enc)"
    "unat (bm_row_count block) = length ts" "bm_min_timestamp block = hd ts" "bm_max_timestamp block = last ts"
  shows "decode_timestamps kind block (enc @ rest) = Ok (ts, rest)"
proof -
  obtain t us where ts: "ts = t # us" using assms(2) by (cases ts) auto
  have len: "length us < 2 ^ 63" "length us < 2 ^ 64" using assms(3) by (simp_all add: ts MAX_BLOCK_ROWS_def)
  show ?thesis
  proof (cases "const_step_fits ts")
    case True
    then show ?thesis
      using const_step_roundtrip [of t us] assms len
      by (simp add: encode_timestamps_def decode_timestamps_def Let_def ts del: last.simps)
  next
    case False
    obtain divisor quotients where s: "scaled_steps ts = (divisor, quotients)" by (cases "scaled_steps ts")
    have us: "us \<noteq> []" using False by (auto simp: ts const_step_fits_def)
    have "\<exists>s \<in> set (steps_of ts). s \<noteq> 0"
    proof (rule ccontr)
      assume "\<not> ?thesis"
      then have "steps_of ts = replicate (length us) 0"
        using all_equal_replicate [of "steps_of ts" "length us" 0] by (simp add: ts)
      then show False using False const_step_fits_iff ts by blast
    qed
    from scaled_steps_exact [OF s this]
    have d: "divisor > 0" "map (\<lambda>q. q * divisor) quotients = steps_of (t # us)" by (simp_all add: ts)
    have ord: "ordered (t # us)" using assms(1) ts by simp
    show ?thesis
      using assms(4-7) False s dod_roundtrip [OF ord us d] rle_roundtrip [OF ord us len(2) d]
      by (auto simp: encode_timestamps_def decode_timestamps_def Let_def ts simp del: last.simps split: if_splits)
  qed
qed

lemma those_Some: "those xs = Some ys \<longleftrightarrow> xs = map Some ys"
  by (induction xs arbitrary: ys) (auto split: option.splits)

lemma encode_values_roundtrip:
  assumes "bits \<noteq> []" "length bits \<le> MAX_BLOCK_ROWS" "encode_values fo bits = (kind, enc)"
  shows "decode_values fo kind (length bits) (enc @ rest) = Ok (bits, rest)"
proof -
  note roundtrips = const_int_roundtrip const_f64_roundtrip xor_roundtrip [OF assms(1)]
  have len: "length bits < 2 ^ 64" using assms(2) by (simp add: MAX_BLOCK_ROWS_def)
  show ?thesis
  proof (cases "list_all (\<lambda>b. b = bits ! 0) bits")
    case True
    then have "replicate (length bits) (bits ! 0) = bits"
      using all_equal_replicate [of bits "length bits" "bits ! 0"] by (simp add: list_all_iff)
    then show ?thesis
      using True assms(3) exact_int_bits [of fo "bits ! 0"]
      by (auto simp: encode_values_def Let_def decode_values_def roundtrips split: option.splits)
  next
    case False
    show ?thesis
    proof (cases "those (map (exact_int fo) bits)")
      case (Some ints)
      then have m: "map (exact_int fo) bits = map Some ints" by (simp add: those_Some)
      then have l: "length ints = length bits" by (metis length_map)
      have "map (fo_of_int fo) ints = bits"
      proof (rule nth_equalityI)
        fix i assume "i < length (map (fo_of_int fo) ints)"
        then have i: "i < length bits" using l by simp
        then have "exact_int fo (bits ! i) = Some (ints ! i)" using arg_cong [OF m, of "\<lambda>xs. xs ! i"] l by simp
        then show "map (fo_of_int fo) ints ! i = bits ! i" using i l exact_int_bits by simp
      qed (simp add: l)
      moreover have "ints \<noteq> []" using l assms(1) by auto
      ultimately have "int_delta_decode fo (length bits) (int_delta_encode ints @ rest) = Ok (bits, rest)"
        using int_delta_roundtrip [of ints "fo_of_int fo" rest] l by (simp add: int_delta_decode_def)
      then show ?thesis
        using False Some assms(3)
        by (auto simp: encode_values_def encode_integers_def Let_def decode_values_def roundtrips split: if_splits)
    next
      case None
      then show ?thesis
        using False assms(3) alp_roundtrip [OF _ len]
        by (auto simp: encode_values_def Let_def decode_values_def roundtrips split: option.splits if_splits)
    qed
  qed
qed

section \<open>The format bound\<close>

lemma length_dod_encode:
  assumes "quotients \<noteq> []"
  shows "length (dod_encode divisor quotients) \<le> 10 + 8 * length quotients + div_ceil (length quotients) 64"
proof -
  have "length (quotients ! 0 # map (\<lambda>(a, b). zigzag (b - a)) (windows2 quotients)) = length quotients"
    using assms by simp
  then show ?thesis
    unfolding dod_encode_def
    using length_put_varint [of divisor] length_put_sparse [of "quotients ! 0 # map (\<lambda>(a, b). zigzag (b - a)) (windows2 quotients)"]
    by simp
qed

lemma length_encode_timestamps:
  assumes "encode_timestamps ts = (kind, enc)" "ts \<noteq> []"
  shows "length enc \<le> 10 + 8 * (length ts - 1) + div_ceil (length ts - 1) 64"
proof (cases "const_step_fits ts")
  case False
  obtain divisor quotients where s: "scaled_steps ts = (divisor, quotients)" by (cases "scaled_steps ts")
  then have l: "length quotients = length ts - 1" by (auto simp: scaled_steps_def Let_def split: if_splits)
  have "ts \<noteq> [t]" for t using False by (auto simp: const_step_fits_def)
  then have "quotients \<noteq> []" using l assms(2) by (cases ts; cases "tl ts") auto
  then show ?thesis
    using assms(1) False s length_dod_encode [of quotients divisor] l rle_encoded_len_exact [of divisor quotients]
    by (auto simp: encode_timestamps_def Let_def split: if_splits)
qed (use assms in \<open>simp add: encode_timestamps_def\<close>)

lemma length_int_delta_encode:
  "ints \<noteq> [] \<Longrightarrow> length (int_delta_encode ints) \<le> 10 + 8 * (length ints - 1) + div_ceil (length ints - 1) 64"
  using length_put_varint [of "zigzag (ints ! 0)"] length_put_sparse [of "map (\<lambda>(a, b). zigzag (b - a)) (windows2 ints)"]
  by (simp add: int_delta_encode_def)

lemma length_encode_values:
  assumes "encode_values fo bits = (kind, enc)" "bits \<noteq> []"
  shows "length enc \<le> 10 + div_ceil (77 * (length bits - 1)) 8"
proof -
  have ceil: "8 * n + div_ceil n 64 \<le> div_ceil (77 * n) 8" for n
    unfolding div_ceil_def by (cases n) simp_all
  have x: "length (xor_encode bits) \<le> 10 + div_ceil (77 * (length bits - 1)) 8"
    using length_xor_encode [OF assms(2)] by linarith
  have i: "length (int_delta_encode ints) \<le> 10 + div_ceil (77 * (length bits - 1)) 8" if "length ints = length bits" for ints
  proof -
    have "ints \<noteq> []" using assms(2) that by auto
    then show ?thesis using length_int_delta_encode [of ints] ceil [of "length bits - 1"] that by simp
  qed
  have those: "length ints = length bits" if "those (map (exact_int fo) bits) = Some ints" for ints
    using that by (metis length_map those_Some)
  have c: "length (const_int_encode v) \<le> 10 + div_ceil (77 * (length bits - 1)) 8" "length (const_f64_encode b) \<le> 10 + div_ceil (77 * (length bits - 1)) 8" for v b
    using length_put_varint [of "zigzag v"] by (simp_all add: const_int_encode_def const_f64_encode_def)
  show ?thesis
    using assms(1) x i [OF those] c
    by (auto simp: encode_values_def encode_integers_def Let_def split: option.splits if_splits)
qed

lemma encode_block_total:
  assumes "ts \<noteq> []" "length ts = length bits" "length ts \<le> MAX_BLOCK_ROWS"
    "encode_timestamps ts = (kt, t)" "encode_values fo bits = (kv, v)"
  shows "encode_block fo ts bits = Ok (codec_tag kt kv # t @ v)"
    "length (codec_tag kt kv # t @ v) \<le> 32 + 18 * length ts"
proof -
  have u: "unat (of_nat (length ts) :: u32) = length ts" using assms(3) by (simp add: unat_of_nat MAX_BLOCK_ROWS_def)
  then have limit: "max_block_len (of_nat (length ts)) = Ok (32 + 18 * length ts)"
    using assms(1,3) by (simp add: max_block_len_def word_less_nat_alt)
  obtain m where m: "length ts = Suc m" "length bits = Suc m" using assms(1,2) by (cases ts) auto
  then have "length t \<le> 10 + 8 * m + div_ceil m 64" "length v \<le> 10 + div_ceil (77 * m) 8"
    using length_encode_timestamps [OF assms(4,1)] length_encode_values [OF assms(5)] by (cases bits; auto)+
  moreover have "8 * div_ceil (77 * m) 8 \<le> 77 * m + 7" "64 * div_ceil m 64 \<le> m + 63"
    by (simp_all add: div_ceil_def)
  ultimately have "1 + length t + length v \<le> 32 + 18 * length ts" unfolding m by simp
  then show "length (codec_tag kt kv # t @ v) \<le> 32 + 18 * length ts" by simp
  then show "encode_block fo ts bits = Ok (codec_tag kt kv # t @ v)"
    using assms limit by (simp add: encode_block_def Let_def)
qed


text \<open>What the writer encodes, the reader decodes, given the directory entry the writer makes.\<close>

definition describes :: "block_meta \<Rightarrow> i64 list \<Rightarrow> bytes \<Rightarrow> bool" where
  "describes block ts enc \<longleftrightarrow>
     unat (bm_row_count block) = length ts \<and> bm_min_timestamp block = hd ts \<and> bm_max_timestamp block = last ts
     \<and> unat (bm_block_length block) = length enc"

lemma ordered_hd_last: "ordered ts \<Longrightarrow> ts \<noteq> [] \<Longrightarrow> sint (hd ts) \<le> sint (last ts)"
  by (cases ts) (auto simp: ordered_def)

lemma encode_decode_inner:
  assumes "ts \<noteq> []" "ordered ts" "length ts = length bits" "length ts \<le> MAX_BLOCK_ROWS"
  obtains enc where "encode_block fo ts bits = Ok enc" "length enc \<le> 32 + 18 * length ts" "enc \<noteq> []"
    "\<And>block. describes block ts enc \<Longrightarrow> decode_inner fo enc block = Ok (ts, bits)"
proof -
  obtain kt t kv v where e: "encode_timestamps ts = (kt, t)" "encode_values fo bits = (kv, v)"
    by (cases "encode_timestamps ts"; cases "encode_values fo bits")
  let ?enc = "codec_tag kt kv # t @ v"
  note total = encode_block_total [OF assms(1,3,4) e]
  have "decode_inner fo ?enc block = Ok (ts, bits)" if d: "describes block ts ?enc" for block
  proof -
    have rows: "unat (bm_row_count block) = length ts" using d by (simp add: describes_def)
    then have "max_block_len (bm_row_count block) = Ok (32 + 18 * length ts)"
      using assms(1,4) by (simp add: max_block_len_def word_less_nat_alt)
    moreover have "decode_timestamps kt block (t @ v) = Ok (ts, v)"
      using d by (intro encode_timestamps_roundtrip [OF assms(2,1,4) e(1)]) (simp_all add: describes_def)
    moreover have "decode_values fo kv (length ts) v = Ok (bits, [])"
      using encode_values_roundtrip [OF _ _ e(2), of "[]"] assms by (cases bits) auto
    ultimately show ?thesis
      using d total(2) assms(1,4) ordered_hd_last [OF assms(2,1)]
      by (simp add: decode_inner_def sample_decode_def describes_def rows get_byte_def)
  qed
  then show ?thesis using that total by blast
qed

section \<open>Any bytes: an error or rows in order within the bounds\<close>

lemma length_scatter [simp]: "length (scatter data w rest j out) = length out"
  by (induction data w rest j out rule: scatter.induct) (subst scatter.simps, simp)

lemma get_chunk_length: "get_chunk len bs = Ok (vs, rest) \<Longrightarrow> length vs = len"
  by (auto simp: get_chunk_def rbind_Ok Let_def split: if_splits)

lemma get_sparse_length: "get_sparse n bs = Ok (vs, rest) \<Longrightarrow> length vs = n"
proof (induction n bs arbitrary: vs rest rule: get_sparse.induct)
  case (1 n bs)
  show ?case
  proof (cases "n = 0")
    case False
    let ?c = "min n CHUNK"
    obtain us bs' ws where g: "get_chunk ?c bs = Ok (us, bs')" "get_sparse (n - ?c) bs' = Ok (ws, rest)" "vs = us @ ws"
      using "1.prems" False by (auto simp: get_sparse.simps [of n] rbind_Ok Let_def)
    then have "length ws = n - ?c" using "1.IH" [OF False refl] by simp
    then show ?thesis using g(3) get_chunk_length [OF g(1)] by simp
  qed (use "1.prems" in \<open>simp add: get_sparse.simps\<close>)
qed

lemma next_timestamp_Ok: "next_timestamp t s = Ok u \<Longrightarrow> sint t \<le> sint u"
  by (auto simp: next_timestamp_def rbind_Ok Let_def)

lemma advance_Ok:
  "advance n t s = Ok (ts, lst) \<Longrightarrow> length ts = n \<and> ordered (t # ts) \<and> lst = last (t # ts)"
  by (induction n arbitrary: t ts) (auto simp: rbind_Ok dest!: next_timestamp_Ok)

lemma dod_steps_Ok:
  "dod_steps d f q t vs = Ok (ts, lst) \<Longrightarrow> length ts = length vs \<and> ordered (t # ts) \<and> lst = last (t # ts)"
  by (induction vs arbitrary: f q t ts) (auto simp: rbind_Ok Let_def dest!: next_timestamp_Ok)

lemma rle_runs_Ok:
  "rle_runs d n t bs = Ok ((ts, lst), rest) \<Longrightarrow> length ts = n \<and> ordered (t # ts) \<and> lst = last (t # ts)"
proof (induction d n t bs arbitrary: ts lst rest rule: rle_runs.induct)
  case (1 d n t bs)
  show ?case
  proof (cases "n = 0")
    case False
    obtain q bs1 run bs2 us lst' vs where r: "get_varint bs = Ok (q, bs1)" "get_varint bs1 = Ok (run, bs2)"
        "run > 0" "run \<le> of_nat n" "advance (unat run) t (q * d) = Ok (us, lst')"
        "rle_runs d (n - unat run) lst' bs2 = Ok ((vs, lst), rest)" "ts = us @ vs"
      using "1.prems" False by (auto simp: rle_runs.simps [of d n] rbind_Ok Let_def split: if_splits)
    have "unat (of_nat n :: u64) \<le> n" by (simp add: unat_of_nat)
    then have n: "unat run \<le> n" using r(4) unfolding word_le_nat_alt by linarith
    have a: "length us = unat run" "ordered (t # us)" "lst' = last (t # us)" using advance_Ok [OF r(5)] by simp_all
    have b: "length vs = n - unat run" "ordered (lst' # vs)" "lst = last (lst' # vs)"
      using "1.IH" [OF False refl _ r(6)] r(3,4) by simp_all
    show ?thesis using n a b ordered_append [of t us vs] last_split [of t us vs] by (simp add: r(7))
  qed (use "1.prems" in \<open>simp add: rle_runs.simps\<close>)
qed

lemma sint_add_within:
  fixes mn mx w :: i64
  assumes "sint mn + uint w \<le> sint mx"
  shows "sint (mn + w) = sint mn + uint w"
proof -
  let ?k = "sint mn + uint w"
  have "- (2 ^ 63) \<le> ?k" "?k < 2 ^ 63"
    using sint_greater_eq [of mn] sint_less [of mx] assms by (simp_all add: add_increasing2)
  then have "signed_take_bit 63 ?k = ?k" by (intro signed_take_bit_int_eq_self) simp_all
  moreover have "sint (mn + w) = sint (word_of_int ?k :: i64)" by simp
  then have "sint (mn + w) = signed_take_bit 63 ?k" by (simp only: sint_sbintrunc') simp
  ultimately show ?thesis by simp
qed

lemma const_step_Ok:
  assumes ok: "const_step_decode (Suc n) mn mx = Ok (ts, lst)" and "n < 2 ^ 63" "sint mn \<le> sint mx"
  shows "length ts = Suc n \<and> ordered ts \<and> hd ts = mn \<and> lst = last ts"
proof (cases "n = 0")
  case False
  let ?span = "step mn mx" let ?n = "of_nat n :: u64"
  define each where "each = ?span div ?n"
  let ?ts = "map (\<lambda>i. mn + each * of_nat i) [0..<Suc n]"
  have run: "const_step_decode (Suc n) mn mx = (if ?span mod ?n = 0 then Ok (?ts, mx) else Err ''inexact constant timestamp step'')"
    using False by (simp add: const_step_decode_def each_def Let_def ensure_def del: upt_Suc)
  have r1: "?span mod ?n = 0" using ok unfolding run by (rule contrapos_pp) simp
  have "(Ok (?ts, mx) :: (_, string) result) = Ok (ts, lst)" using ok unfolding run if_P [OF r1] .
  then have r: "?span mod ?n = 0" "ts = ?ts" "lst = mx" using r1 by blast+
  have u: "unat ?n = n" using assms(2) by (simp add: unat_of_nat)
  have "unat ?span mod n = 0" using arg_cong [OF r(1), of unat] by (simp only: unat_mod u unat_0)
  then have exact: "unat each * n = unat ?span"
    using div_mult_mod_eq [of "unat ?span" n] by (simp add: each_def unat_div u)
  have small: "unat (each * of_nat i) = unat each * i" if "i \<le> n" for i
  proof -
    have "unat each * i \<le> unat ?span" using that exact by (metis mult_le_mono2)
    then have "unat each * i < 2 ^ 64" using unsigned_less [of ?span, where ?'a = nat] by simp
    moreover have "unat (of_nat i :: u64) = i" using that assms(2) by (simp add: unat_of_nat)
    ultimately show ?thesis by (simp add: unat_word_ariths)
  qed
  have at: "sint (mn + each * of_nat i) = sint mn + int (unat each * i)" if "i \<le> n" for i
  proof -
    have "uint (each * of_nat i) = int (unat each * i)" using small [OF that] by (simp only: uint_nat)
    moreover have "int (unat each * i) \<le> uint ?span"
      using that exact by (simp only: uint_nat) (metis mult_le_mono2 of_nat_le_iff)
    moreover have "uint ?span = sint mx - sint mn" by (rule uint_step [OF assms(3)])
    ultimately show ?thesis using sint_add_within [of mn "each * of_nat i" mx] by simp
  qed
  have "map sint ts = map (\<lambda>i. sint mn + int (unat each * i)) [0..<Suc n]"
    unfolding r(2) map_map by (rule map_cong [OF refl]) (simp only: o_apply, rule at, auto)
  moreover have "sorted (map (\<lambda>i. sint mn + int (unat each * i)) [0..<Suc n])"
    by (simp add: sorted_iff_nth_mono del: upt_Suc of_nat_mult)
  ultimately have "ordered ts" by (simp only: ordered_def)
  moreover have "mn + each * ?n = mx"
  proof -
    have "each * ?n = ?span" using small [of n] exact by (simp add: word_unat_eq_iff)
    then show ?thesis by (simp add: step_def)
  qed
  ultimately show ?thesis using False by (simp add: r(2,3) hd_append hd_map)
qed (use ok in \<open>auto simp: const_step_decode_def\<close>)

lemma decode_timestamps_Ok:
  assumes "decode_timestamps kind block body = Ok (ts, rest)" "0 < unat (bm_row_count block)"
    "sint (bm_min_timestamp block) \<le> sint (bm_max_timestamp block)"
  shows "length ts = unat (bm_row_count block) \<and> ordered ts \<and> hd ts = bm_min_timestamp block
     \<and> last ts = bm_max_timestamp block"
proof -
  obtain n where n: "unat (bm_row_count block) = Suc n" using assms(2) by (cases "unat (bm_row_count block)") auto
  have "Suc n < 2 ^ 32" using unsigned_less [of "bm_row_count block", where ?'a = nat] unfolding n by simp
  then have small: "n < 2 ^ 63" by simp
  note const = const_step_Ok [OF _ small assms(3)]
  from assms(1) show ?thesis
    by (auto simp: decode_timestamps_def n Let_def rbind_Ok rle_decode_def dod_decode_def split: codec.splits
        dest!: const get_sparse_length dod_steps_Ok rle_runs_Ok)
qed

lemma xor_get_length: "xor_get w v n r = Ok (vs, r') \<Longrightarrow> length vs = n"
  by (induction n arbitrary: w v r vs) (auto simp: rbind_Ok Let_def split: if_splits)

lemma undelta_length [simp]: "length (undelta v ds) = length ds"
  by (induction ds arbitrary: v) (simp_all add: Let_def)

lemma int_delta_length: "int_delta_decode_with f (Suc n) bs = Ok (vs, rest) \<Longrightarrow> length vs = Suc n"
  by (auto simp: int_delta_decode_with_def rbind_Ok Let_def dest!: get_sparse_length)

lemma foldl_update_length [simp]: "length (foldl (\<lambda>xs (i, b). xs[i := b]) xs es) = length xs"
  by (induction es arbitrary: xs) auto

lemma decode_values_Ok:
  "decode_values fo kind (Suc n) body = Ok (bits, rest) \<Longrightarrow> length bits = Suc n"
  by (auto simp: decode_values_def const_int_decode_def const_f64_decode_def int_delta_decode_def alp_decode_def
      xor_decode_def rbind_Ok Let_def split: codec.splits dest!: xor_get_length int_delta_length)

lemma sample_decode_Ok:
  assumes "sample_decode fo bytes block = Ok (ts, bits)"
  shows "length ts = unat (bm_row_count block)" "length bits = unat (bm_row_count block)" "ordered ts"
    "ts \<noteq> []" "hd ts = bm_min_timestamp block" "last ts = bm_max_timestamp block"
proof -
  obtain kt kv body rest where r: "0 < unat (bm_row_count block)"
      "sint (bm_min_timestamp block) \<le> sint (bm_max_timestamp block)"
      "decode_timestamps kt block body = Ok (ts, rest)" "decode_values fo kv (unat (bm_row_count block)) rest = Ok (bits, [])"
    using assms by (auto simp: sample_decode_def Let_def rbind_Ok)
  obtain n where n: "unat (bm_row_count block) = Suc n" using r(1) by (cases "unat (bm_row_count block)") auto
  show "length ts = unat (bm_row_count block)" "ordered ts" "hd ts = bm_min_timestamp block"
      "last ts = bm_max_timestamp block" "ts \<noteq> []"
    using decode_timestamps_Ok [OF r(3,1,2)] n by auto
  show "length bits = unat (bm_row_count block)" using r(4) decode_values_Ok n by simp
qed

lemma decode_block_inner:
  "0 < unat (bm_row_count b) \<Longrightarrow> unat (bm_row_count b) \<le> MAX_BLOCK_ROWS \<Longrightarrow> decode_block fo bytes b = decode_inner fo bytes b"
  by (auto simp: decode_block_def block_decoder_decode_def Let_def split: sum.splits)

section \<open>Properties\<close>

text \<open>
  C20. Every block reads back: samples in time order, at most 8192 of them, encode whatever their
  values and whatever the floating-point conversions give, and the decoder, told the row count, the
  first and last timestamp and the length by the directory, returns the same timestamps and the
  same value bits.
\<close>

theorem block_roundtrip:
  assumes "ts \<noteq> []" "ordered ts" "length ts = length bits" "length ts \<le> MAX_BLOCK_ROWS"
  shows "\<exists>enc. encode_block fo ts bits = Ok enc
     \<and> (\<forall>block. describes block ts enc \<longrightarrow> decode_block fo enc block = Ok (ts, bits))"
proof -
  obtain enc where e: "encode_block fo ts bits = Ok enc"
    "\<And>block. describes block ts enc \<Longrightarrow> decode_inner fo enc block = Ok (ts, bits)"
    using encode_decode_inner [OF assms, of fo] by metis
  have "decode_block fo enc block = Ok (ts, bits)" if "describes block ts enc" for block
    using that e(2) assms(1,4) by (simp add: decode_block_inner describes_def)
  then show ?thesis using e(1) by blast
qed

theorem block_roundtrip_witness:
  "\<exists>enc. encode_block opaque_f64 [10, 25, 25] [7, 0x7ff0000000000002, 7] = Ok enc
     \<and> (\<forall>block. describes block [10, 25, 25] enc \<longrightarrow>
          decode_block opaque_f64 enc block = Ok ([10, 25, 25], [7, 0x7ff0000000000002, 7]))"
  by (rule block_roundtrip) (simp_all add: MAX_BLOCK_ROWS_def)

text \<open>
  A block is encoded exactly when its shape is right (between 1 and 8192 timestamps and as
  many values), and then takes at most 32 bytes and 18 for every row: the writer's own check of the
  format bound never fails, so no data can make a flush fail.
\<close>

theorem encode_block_exact:
  "case encode_block fo ts bits of
     Inr enc \<Rightarrow> 0 < length ts \<and> length ts = length bits \<and> length ts \<le> MAX_BLOCK_ROWS
       \<and> 1 \<le> length enc \<and> length enc \<le> 32 + 18 * length ts
   | Inl e \<Rightarrow> e = ''invalid sample block shape'' \<and> \<not> (0 < length ts \<and> length ts = length bits \<and> length ts \<le> MAX_BLOCK_ROWS)"
proof (cases "ts \<noteq> [] \<and> length ts = length bits \<and> length ts \<le> MAX_BLOCK_ROWS")
  case True
  obtain kt t kv v where e: "encode_timestamps ts = (kt, t)" "encode_values fo bits = (kv, v)"
    by (cases "encode_timestamps ts"; cases "encode_values fo bits")
  then show ?thesis using encode_block_total [OF _ _ _ e] True by (cases bits) auto
next
  case False
  then have "encode_block fo ts bits = Err ''invalid sample block shape''"
    unfolding encode_block_def by (simp only: ensure_simps rbind_simps)
  then show ?thesis using False by auto
qed

text \<open>
  C24. Whatever bytes a block holds, decoding gives an error or exactly the rows the directory
  promises: as many timestamps and values as the row count, in time order, from the first to the
  last timestamp of the entry; and after an error the reusable decoder holds no samples.
\<close>

theorem decoded_block_within_entry:
  assumes "block_decoder_decode fo bytes block d = (r, d')"
  shows "(r = Ok () \<longrightarrow>
       length (bd_timestamps d') = unat (bm_row_count block) \<and> length (bd_value_bits d') = unat (bm_row_count block)
       \<and> ordered (bd_timestamps d') \<and> hd (bd_timestamps d') = bm_min_timestamp block
       \<and> last (bd_timestamps d') = bm_max_timestamp block \<and> length bytes = unat (bm_block_length block))
     \<and> (r \<noteq> Ok () \<longrightarrow> bd_timestamps d' = [] \<and> bd_value_bits d' = [])"
proof (cases "decode_inner fo bytes block")
  case (Inl e)
  then show ?thesis using assms by (auto simp: block_decoder_decode_def)
next
  case (Inr x)
  obtain ts bits where x: "x = (ts, bits)" by (cases x)
  have "sample_decode fo bytes block = Ok (ts, bits)" "length bytes = unat (bm_block_length block)"
    using Inr x by (auto simp: decode_inner_def rbind_Ok)
  then show ?thesis using assms Inr x sample_decode_Ok [of fo bytes block ts bits] by (auto simp: block_decoder_decode_def)
qed

theorem decoded_block_within_entry_witness:
  "fst (block_decoder_decode opaque_f64 [0x40, 1, 0, 0, 0, 0, 0, 0, 0]
      \<lparr>bm_hash = 9, bm_row_start = 0, bm_row_count = 3, bm_min_timestamp = 10, bm_max_timestamp = 30,
       bm_block_offset = 0, bm_block_length = 9\<rparr> \<lparr>bd_timestamps = [], bd_value_bits = []\<rparr>) = Ok ()
   \<and> ordered (bd_timestamps (snd (block_decoder_decode opaque_f64 [0x40, 1, 0, 0, 0, 0, 0, 0, 0]
      \<lparr>bm_hash = 9, bm_row_start = 0, bm_row_count = 3, bm_min_timestamp = 10, bm_max_timestamp = 30,
       bm_block_offset = 0, bm_block_length = 9\<rparr> \<lparr>bd_timestamps = [], bd_value_bits = []\<rparr>)))"
  (is "fst ?run = _ \<and> _")
proof -
  have ok: "fst ?run = Ok ()" by code_simp
  have "?run = (fst ?run, snd ?run)" by simp
  from decoded_block_within_entry [OF this] ok show ?thesis by blast
qed

text \<open>
  The timestamp section is the smallest on offer: its length is that of the run lengths or of
  the deltas of deltas, whichever is shorter, and nothing at all for evenly spaced timestamps; the
  length the encoder predicts for the run lengths is the length it would write.
\<close>

theorem timestamps_shortest:
  "(let (divisor, quotients) = scaled_steps ts in
      length (snd (encode_timestamps ts)) =
        (if const_step_fits ts then 0
         else min (length (dod_encode divisor quotients)) (length (rle_encode divisor quotients)))
      \<and> rle_encoded_len divisor quotients = length (rle_encode divisor quotients))"
  by (simp add: encode_timestamps_def rle_encoded_len_exact Let_def min_def split: prod.split)

end
