(* ===== verification/Midx_Directory.thy ===== *)
theory Midx_Directory
  imports Midx_Samples
begin

text \<open>
  The block directory of a metrics index file: its packed form (\<open>src/metrics_index/src/block/directory.rs\<close>),
  the five varint columns the writer makes of it (\<open>directory_columns\<close> of \<open>writer.rs\<close>) and their
  decoding with every check (\<open>decode_directory\<close> of \<open>reader.rs\<close>). A panic of \<open>expect\<close> or of indexing is
  \<open>None\<close>; \<open>u64\<close> additions are checked or wrap where the code's are.
\<close>

section \<open>Packed directory\<close>

record packed_block =
  pb_hash :: u64
  pb_row_start :: u64
  pb_min_timestamp :: i64
  pb_max_timestamp :: i64
  pb_block_offset :: u64

record block_directory =
  bd_entries :: "packed_block list"
  bd_rows :: u64
  bd_blocks_end :: u64

definition u32_try_from :: "u64 \<Rightarrow> u32 option" where
  "u32_try_from v = (if v \<le> 0xffffffff then Some (ucast v) else None)"

definition next_or :: "('a \<Rightarrow> u64) \<Rightarrow> u64 \<Rightarrow> 'a list \<Rightarrow> nat \<Rightarrow> u64" where
  "next_or f end xs i = (if i + 1 < length xs then f (xs ! (i + 1)) else end)"

definition directory_block :: "block_directory \<Rightarrow> nat \<Rightarrow> block_meta option" where
  "directory_block d i =
     (if i < length (bd_entries d) then
        (let entry = bd_entries d ! i;
             next_row = next_or pb_row_start (bd_rows d) (bd_entries d) i;
             next_offset = next_or pb_block_offset (bd_blocks_end d) (bd_entries d) i
         in case (u32_try_from (next_row - pb_row_start entry), u32_try_from (next_offset - pb_block_offset entry)) of
              (Some rows, Some len) \<Rightarrow> Some
                \<lparr>bm_hash = pb_hash entry, bm_row_start = pb_row_start entry, bm_row_count = rows,
                 bm_min_timestamp = pb_min_timestamp entry, bm_max_timestamp = pb_max_timestamp entry,
                 bm_block_offset = pb_block_offset entry, bm_block_length = len\<rparr>
            | _ \<Rightarrow> None)
      else None)"

definition directory_iter :: "block_directory \<Rightarrow> block_meta option list" where
  "directory_iter d = map (directory_block d) [0..<length (bd_entries d)]"

definition row_counts :: "block_directory \<Rightarrow> u32 option list" where
  "row_counts d =
     map (\<lambda>i. u32_try_from (next_or pb_row_start (bd_rows d) (bd_entries d) i - pb_row_start (bd_entries d ! i)))
       [0..<length (bd_entries d)]"

definition builder_new :: "u64 \<Rightarrow> u64 \<Rightarrow> block_directory" where
  "builder_new rows blocks_end = \<lparr>bd_entries = [], bd_rows = rows, bd_blocks_end = blocks_end\<rparr>"

definition builder_push :: "block_meta \<Rightarrow> block_directory \<Rightarrow> block_directory" where
  "builder_push block d =
     d\<lparr>bd_entries := bd_entries d @
        [\<lparr>pb_hash = bm_hash block, pb_row_start = bm_row_start block, pb_min_timestamp = bm_min_timestamp block,
          pb_max_timestamp = bm_max_timestamp block, pb_block_offset = bm_block_offset block\<rparr>]\<rparr>"

definition block_range :: "block_meta \<Rightarrow> u64 \<times> u64" where
  "block_range b =
     (bm_block_offset b,
      if unat (bm_block_offset b) + unat (bm_block_length b) < 2 ^ 64
      then bm_block_offset b + ucast (bm_block_length b) else - 1)"

section \<open>Columns of the writer\<close>

definition DIRECTORY_FIELDS :: nat where "DIRECTORY_FIELDS = 5"

text \<open>Hash delta, row count, zigzag min-time delta, time span, block length.\<close>

fun put_directory :: "u64 \<Rightarrow> i64 \<Rightarrow> block_meta list \<Rightarrow> bytes list \<Rightarrow> bytes list" where
  "put_directory hash mn [] columns = columns"
| "put_directory hash mn (block # blocks) columns =
     put_directory (bm_hash block) (bm_min_timestamp block) blocks
       [columns ! 0 @ put_varint (bm_hash block - hash),
        columns ! 1 @ put_varint (ucast (bm_row_count block)),
        columns ! 2 @ put_varint (zigzag (bm_min_timestamp block - mn)),
        columns ! 3 @ put_varint (bm_max_timestamp block - bm_min_timestamp block),
        columns ! 4 @ put_varint (ucast (bm_block_length block))]"

definition directory_columns :: "block_meta list \<Rightarrow> bytes list" where
  "directory_columns blocks = put_directory 0 0 blocks (replicate DIRECTORY_FIELDS [])"

section \<open>Decoding\<close>

record dir_cursor =
  dc_columns :: "bytes list"
  dc_hash :: u64
  dc_min :: i64
  dc_row :: u64
  dc_offset :: u64
  dc_previous :: "(u64 \<times> i64) option"
  dc_blocks :: block_directory

definition next_field :: "nat \<Rightarrow> dir_cursor \<Rightarrow> (u64 \<times> dir_cursor, string) result" where
  "next_field field c =
     rbind (get_varint (dc_columns c ! field)) (\<lambda>(v, rest). Ok (v, c\<lparr>dc_columns := (dc_columns c)[field := rest]\<rparr>))"

definition or_err :: "'a option \<Rightarrow> string \<Rightarrow> ('a, string) result" where
  "or_err x msg = (case x of Some v \<Rightarrow> Ok v | None \<Rightarrow> Err msg)"

definition checked_add64 :: "u64 \<Rightarrow> u64 \<Rightarrow> u64 option" where
  "checked_add64 a b = (if unat a + unat b < 2 ^ 64 then Some (a + b) else None)"

definition sample_le :: "u64 \<times> i64 \<Rightarrow> u64 \<times> i64 \<Rightarrow> bool" where
  "sample_le p q \<longleftrightarrow> fst p < fst q \<or> (fst p = fst q \<and> sint (snd p) \<le> sint (snd q))"

definition is_none_or :: "('a \<Rightarrow> bool) \<Rightarrow> 'a option \<Rightarrow> bool" where
  "is_none_or P x = (case x of None \<Rightarrow> True | Some v \<Rightarrow> P v)"

text \<open>One turn of the loop: the five fields of a block, the checks on it, and the new position.\<close>

definition read_entry :: "dir_cursor \<Rightarrow> (block_meta \<times> dir_cursor, string) result" where
  "read_entry c =
     rbind (next_field 0 c) (\<lambda>(d, c).
     let hash = dc_hash c + d in
     rbind (next_field 1 c) (\<lambda>(n, c).
     rbind (or_err (u32_try_from n) ''invalid block row count'') (\<lambda>row_count.
     rbind (next_field 2 c) (\<lambda>(d, c).
     let min_timestamp = dc_min c + unzigzag d in
     rbind (next_field 3 c) (\<lambda>(s, c).
     let max_timestamp = min_timestamp + s in
     rbind (next_field 4 c) (\<lambda>(l, c).
     rbind (or_err (u32_try_from l) ''block length exceeds format bound'') (\<lambda>block_length.
     Ok (\<lparr>bm_hash = hash, bm_row_start = dc_row c, bm_row_count = row_count,
          bm_min_timestamp = min_timestamp, bm_max_timestamp = max_timestamp,
          bm_block_offset = dc_offset c, bm_block_length = block_length\<rparr>, c))))))))"

definition check_entry :: "u64 \<Rightarrow> u64 \<Rightarrow> (u64 \<times> i64) option \<Rightarrow> block_meta \<Rightarrow> (u64 \<times> u64, string) result" where
  "check_entry parent_rows blocks_end previous block =
     rbind (ensure (bm_row_count block > 0 \<and> unat (bm_row_count block) \<le> MAX_BLOCK_ROWS) ''invalid block row count'') (\<lambda>_.
     rbind (max_block_len (bm_row_count block)) (\<lambda>limit.
     rbind (ensure (unat (bm_block_length block) \<le> limit) ''block length exceeds format bound'') (\<lambda>_.
     rbind (ensure (bm_block_length block > 0) ''empty sample block'') (\<lambda>_.
     rbind (ensure (sint (bm_min_timestamp block) \<le> sint (bm_max_timestamp block)) ''invalid time bounds'') (\<lambda>_.
     rbind (ensure (is_none_or (\<lambda>p. sample_le p (bm_hash block, bm_min_timestamp block)) previous)
              ''series block ordering decreased'') (\<lambda>_.
     rbind (ensure (bm_row_count block = 1 \<longrightarrow> bm_min_timestamp block = bm_max_timestamp block)
              ''invalid single-sample descriptor'') (\<lambda>_.
     rbind (or_err (checked_add64 (bm_row_start block) (ucast (bm_row_count block))) ''row end overflow'') (\<lambda>next_row.
     rbind (or_err (checked_add64 (bm_block_offset block) (ucast (bm_block_length block))) ''blocks end overflow'') (\<lambda>next_offset.
     rbind (ensure (next_row \<le> parent_rows \<and> next_offset \<le> blocks_end) ''block outside parent bounds'') (\<lambda>_.
     Ok (next_row, next_offset)))))))))))"

definition decode_entry :: "u64 \<Rightarrow> u64 \<Rightarrow> dir_cursor \<Rightarrow> (dir_cursor, string) result" where
  "decode_entry parent_rows blocks_end c =
     rbind (read_entry c) (\<lambda>(block, c).
     rbind (check_entry parent_rows blocks_end (dc_previous c) block) (\<lambda>(next_row, next_offset).
     Ok (c\<lparr>dc_hash := bm_hash block, dc_min := bm_min_timestamp block, dc_row := next_row, dc_offset := next_offset,
           dc_previous := Some (bm_hash block, bm_max_timestamp block), dc_blocks := builder_push block (dc_blocks c)\<rparr>)))"

fun decode_entries :: "u64 \<Rightarrow> u64 \<Rightarrow> nat \<Rightarrow> dir_cursor \<Rightarrow> (dir_cursor, string) result" where
  "decode_entries parent_rows blocks_end 0 c = Ok c"
| "decode_entries parent_rows blocks_end (Suc n) c =
     rbind (decode_entry parent_rows blocks_end c) (decode_entries parent_rows blocks_end n)"

definition decode_directory :: "bytes list \<Rightarrow> nat \<Rightarrow> u64 \<Rightarrow> u64 \<Rightarrow> (block_directory, string) result" where
  "decode_directory columns count parent_rows blocks_end =
     rbind (ensure (length columns = DIRECTORY_FIELDS) ''invalid directory column count'') (\<lambda>_.
     rbind (decode_entries parent_rows blocks_end count
              \<lparr>dc_columns = columns, dc_hash = 0, dc_min = 0, dc_row = 0, dc_offset = 0, dc_previous = None,
               dc_blocks = builder_new parent_rows blocks_end\<rparr>) (\<lambda>c.
     rbind (ensure (list_all (\<lambda>rest. rest = []) (dc_columns c)) ''directory column has unused bytes'') (\<lambda>_.
     rbind (ensure (dc_row c = parent_rows \<and> dc_offset c = blocks_end) ''directory does not tile source rows and blocks'') (\<lambda>_.
     Ok (dc_blocks c)))))"

section \<open>Blocks that tile\<close>

text \<open>The blocks cover rows and bytes from a position on without gaps, each within the format's
  limits and in series order.\<close>

fun tiles :: "nat \<Rightarrow> nat \<Rightarrow> (u64 \<times> i64) option \<Rightarrow> block_meta list \<Rightarrow> bool" where
  "tiles row off prev [] \<longleftrightarrow> True"
| "tiles row off prev (b # bs) \<longleftrightarrow>
     unat (bm_row_start b) = row \<and> unat (bm_block_offset b) = off
     \<and> 0 < unat (bm_row_count b) \<and> unat (bm_row_count b) \<le> MAX_BLOCK_ROWS
     \<and> 0 < unat (bm_block_length b) \<and> unat (bm_block_length b) \<le> 32 + 18 * unat (bm_row_count b)
     \<and> sint (bm_min_timestamp b) \<le> sint (bm_max_timestamp b)
     \<and> is_none_or (\<lambda>p. sample_le p (bm_hash b, bm_min_timestamp b)) prev
     \<and> (unat (bm_row_count b) = 1 \<longrightarrow> bm_min_timestamp b = bm_max_timestamp b)
     \<and> tiles (row + unat (bm_row_count b)) (off + unat (bm_block_length b)) (Some (bm_hash b, bm_max_timestamp b)) bs"

definition row_total :: "block_meta list \<Rightarrow> nat" where
  "row_total bs = sum_list (map (\<lambda>b. unat (bm_row_count b)) bs)"

definition byte_total :: "block_meta list \<Rightarrow> nat" where
  "byte_total bs = sum_list (map (\<lambda>b. unat (bm_block_length b)) bs)"

lemma totals_simps [simp]:
  "row_total [] = 0" "row_total (b # bs) = unat (bm_row_count b) + row_total bs" "row_total (bs @ cs) = row_total bs + row_total cs"
  "byte_total [] = 0" "byte_total (b # bs) = unat (bm_block_length b) + byte_total bs" "byte_total (bs @ cs) = byte_total bs + byte_total cs"
  by (simp_all add: row_total_def byte_total_def)

definition last_sample :: "(u64 \<times> i64) option \<Rightarrow> block_meta list \<Rightarrow> (u64 \<times> i64) option" where
  "last_sample prev bs = (if bs = [] then prev else Some (bm_hash (last bs), bm_max_timestamp (last bs)))"

lemma tiles_app:
  "tiles row off prev (bs @ cs) \<longleftrightarrow>
     tiles row off prev bs \<and> tiles (row + row_total bs) (off + byte_total bs) (last_sample prev bs) cs"
  by (induction bs arbitrary: row off prev) (auto simp: last_sample_def add.assoc)

lemma u32_try_from_ucast [simp]: "u32_try_from (ucast (v :: u32)) = Some v"
proof -
  have "unat v < 2 ^ 32" using unsigned_less [of v, where ?'a = nat] by simp
  then have "(ucast v :: u64) \<le> 0xffffffff"
    by (simp add: word_le_nat_alt unsigned_ucast_eq take_bit_nat_eq_self)
  moreover have "ucast (ucast v :: u64) = v" by (intro bit_eqI) (auto simp: bit_ucast_iff dest: bit_imp_le_length)
  ultimately show ?thesis by (simp add: u32_try_from_def)
qed

lemma unat_ucast_u32 [simp]: "unat (ucast (v :: u32) :: u64) = unat v"
proof -
  have "unat v < 2 ^ 64" using unsigned_less [of v, where ?'a = nat] by simp
  then show ?thesis by (simp add: unsigned_ucast_eq take_bit_nat_eq_self)
qed

section \<open>The packed directory keeps every block\<close>

definition pack_block :: "block_meta \<Rightarrow> packed_block" where
  "pack_block b = \<lparr>pb_hash = bm_hash b, pb_row_start = bm_row_start b, pb_min_timestamp = bm_min_timestamp b,
     pb_max_timestamp = bm_max_timestamp b, pb_block_offset = bm_block_offset b\<rparr>"

lemma pack_block_simps [simp]:
  "pb_hash (pack_block b) = bm_hash b" "pb_row_start (pack_block b) = bm_row_start b"
  "pb_min_timestamp (pack_block b) = bm_min_timestamp b" "pb_max_timestamp (pack_block b) = bm_max_timestamp b"
  "pb_block_offset (pack_block b) = bm_block_offset b"
  by (simp_all add: pack_block_def)

lemma builder_push_pack: "builder_push b d = d\<lparr>bd_entries := bd_entries d @ [pack_block b]\<rparr>"
  by (simp add: builder_push_def pack_block_def)

lemma tiles_nth:
  "tiles row off prev bs \<Longrightarrow> i < length bs \<Longrightarrow>
     unat (bm_row_start (bs ! i)) = row + row_total (take i bs) \<and> unat (bm_block_offset (bs ! i)) = off + byte_total (take i bs)"
proof (induction bs arbitrary: row off prev i)
  case (Cons b bs)
  then show ?case by (cases i) (auto simp: add.assoc)
qed simp

lemma word_diff_eq:
  assumes "unat (b :: u64) = unat a + unat (n :: u32)"
  shows "b - a = ucast n"
proof -
  have "unat a + unat n < 2 ^ 64" using unsigned_less [of b, where ?'a = nat] assms by simp
  then have "unat (a + ucast n) = unat b" using assms by (simp add: unat_word_ariths)
  then have "a + ucast n = b" by (simp only: word_unat_eq_iff)
  then show ?thesis by (simp add: algebra_simps)
qed

lemma directory_block_pack:
  assumes t: "tiles 0 0 prev bs" and i: "i < length bs"
    and ends: "unat rows = row_total bs" "unat bend = byte_total bs"
  shows "directory_block \<lparr>bd_entries = map pack_block bs, bd_rows = rows, bd_blocks_end = bend\<rparr> i = Some (bs ! i)"
proof -
  let ?es = "map pack_block bs"
  have take: "take (Suc i) bs = take i bs @ [bs ! i]" using i by (simp add: take_Suc_conv_app_nth)
  have "unat (next_or pb_row_start rows ?es i) = row_total (take (i + 1) bs)
      \<and> unat (next_or pb_block_offset bend ?es i) = byte_total (take (i + 1) bs)"
    using tiles_nth [OF t, of "i + 1"] ends i by (auto simp: next_or_def not_less)
  then have "next_or pb_row_start rows ?es i - bm_row_start (bs ! i) = ucast (bm_row_count (bs ! i))"
    "next_or pb_block_offset bend ?es i - bm_block_offset (bs ! i) = ucast (bm_block_length (bs ! i))"
    using tiles_nth [OF t i] by (auto intro!: word_diff_eq simp: take)
  then show ?thesis using i by (simp add: directory_block_def Let_def)
qed

section \<open>Any columns: an error or a directory that tiles\<close>

definition cursor_ok :: "u64 \<Rightarrow> u64 \<Rightarrow> block_meta list \<Rightarrow> dir_cursor \<Rightarrow> bool" where
  "cursor_ok rows bend bs c \<longleftrightarrow>
     dc_blocks c = \<lparr>bd_entries = map pack_block bs, bd_rows = rows, bd_blocks_end = bend\<rparr>
     \<and> tiles 0 0 None bs \<and> unat (dc_row c) = row_total bs \<and> unat (dc_offset c) = byte_total bs
     \<and> dc_previous c = last_sample None bs"

lemma next_field_Ok:
  "next_field f c = Ok (v, c') \<Longrightarrow> \<exists>cols. c' = c\<lparr>dc_columns := cols\<rparr>"
  by (auto simp: next_field_def rbind_Ok)

lemma or_err_Ok [simp]: "or_err x msg = Ok v \<longleftrightarrow> x = Some v"
  by (simp add: or_err_def split: option.split)

lemma checked_add64_Some: "checked_add64 a b = Some c \<Longrightarrow> unat c = unat a + unat b"
  by (auto simp: checked_add64_def unat_word_ariths split: if_splits)

lemma max_block_len_Ok: "max_block_len n = Ok k \<Longrightarrow> k = 32 + 18 * unat n"
  by (auto simp: max_block_len_def rbind_Ok)

lemma read_entry_Ok:
  assumes "read_entry c = Ok (b, c')"
  shows "bm_row_start b = dc_row c \<and> bm_block_offset b = dc_offset c \<and> (\<exists>cols. c' = c\<lparr>dc_columns := cols\<rparr>)"
  using assms by (auto simp: read_entry_def rbind_Ok Let_def dest!: next_field_Ok)

lemma check_entry_Ok:
  "check_entry rows bend prev b = Ok (r, off) \<longleftrightarrow>
     0 < unat (bm_row_count b) \<and> unat (bm_row_count b) \<le> MAX_BLOCK_ROWS
     \<and> 0 < unat (bm_block_length b) \<and> unat (bm_block_length b) \<le> 32 + 18 * unat (bm_row_count b)
     \<and> sint (bm_min_timestamp b) \<le> sint (bm_max_timestamp b)
     \<and> is_none_or (\<lambda>p. sample_le p (bm_hash b, bm_min_timestamp b)) prev
     \<and> (unat (bm_row_count b) = 1 \<longrightarrow> bm_min_timestamp b = bm_max_timestamp b)
     \<and> unat r = unat (bm_row_start b) + unat (bm_row_count b) \<and> r \<le> rows
     \<and> unat off = unat (bm_block_offset b) + unat (bm_block_length b) \<and> off \<le> bend"
proof -
  have one: "bm_row_count b = 1 \<longleftrightarrow> unat (bm_row_count b) = 1" by (simp add: word_unat_eq_iff)
  have add: "checked_add64 x (ucast n) = Some y \<longleftrightarrow> unat y = unat x + unat n" for x y and n :: u32
    using unsigned_less [of y, where ?'a = nat]
    by (auto simp: checked_add64_def word_unat_eq_iff unat_word_ariths)
  have pos: "0 < n \<longleftrightarrow> 0 < unat n" for n :: u32 by (simp add: word_less_nat_alt)
  show ?thesis
    unfolding check_entry_def rbind_Ok ensure_Ok or_err_Ok add one pos max_block_len_def by auto
qed

lemma decode_entry_Ok:
  assumes "decode_entry rows bend c = Ok c'" "cursor_ok rows bend bs c"
  shows "\<exists>b. cursor_ok rows bend (bs @ [b]) c'"
proof -
  from assms(1) obtain b c1 r off where r: "read_entry c = Ok (b, c1)" "check_entry rows bend (dc_previous c1) b = Ok (r, off)"
      "c' = c1\<lparr>dc_hash := bm_hash b, dc_min := bm_min_timestamp b, dc_row := r, dc_offset := off,
        dc_previous := Some (bm_hash b, bm_max_timestamp b), dc_blocks := builder_push b (dc_blocks c1)\<rparr>"
    by (auto simp: decode_entry_def rbind_Ok)
  then have "cursor_ok rows bend (bs @ [b]) c'"
    using assms(2) read_entry_Ok [OF r(1)]
    by (auto simp: cursor_ok_def builder_push_pack tiles_app last_sample_def check_entry_Ok)
  then show ?thesis by blast
qed

lemma decode_entries_Ok:
  "decode_entries rows bend n c = Ok c' \<Longrightarrow> cursor_ok rows bend bs c \<Longrightarrow>
     \<exists>ds. length ds = n \<and> cursor_ok rows bend (bs @ ds) c'"
proof (induction n arbitrary: c bs)
  case (Suc n)
  then obtain c1 where c1: "decode_entry rows bend c = Ok c1" "decode_entries rows bend n c1 = Ok c'"
    by (auto simp: rbind_Ok)
  then obtain b where "cursor_ok rows bend (bs @ [b]) c1" using Suc.prems(2) decode_entry_Ok by blast
  from Suc.IH [OF c1(2) this] obtain ds where "length ds = n" "cursor_ok rows bend (bs @ b # ds) c'" by auto
  then show ?case by (intro exI [of _ "b # ds"]) simp
qed (intro exI [of _ "[]"], simp)

lemma decode_directory_Ok:
  assumes "decode_directory columns count rows bend = Ok d"
  obtains bs where "length bs = count" "tiles 0 0 None bs" "row_total bs = unat rows" "byte_total bs = unat bend"
    "d = \<lparr>bd_entries = map pack_block bs, bd_rows = rows, bd_blocks_end = bend\<rparr>"
proof -
  let ?c = "\<lparr>dc_columns = columns, dc_hash = 0, dc_min = 0, dc_row = 0, dc_offset = 0, dc_previous = None,
       dc_blocks = builder_new rows bend\<rparr>"
  obtain c where c: "decode_entries rows bend count ?c = Ok c" "dc_row c = rows" "dc_offset c = bend" "d = dc_blocks c"
    using assms by (auto simp: decode_directory_def rbind_Ok)
  moreover have "cursor_ok rows bend [] ?c" by (simp add: cursor_ok_def builder_new_def last_sample_def)
  ultimately obtain bs where "length bs = count" "cursor_ok rows bend bs c" using decode_entries_Ok by force
  then show ?thesis using c that [of bs] by (simp add: cursor_ok_def)
qed

section \<open>The reader decodes what the writer wrote\<close>

fun entry_fields :: "u64 \<Rightarrow> i64 \<Rightarrow> block_meta list \<Rightarrow> u64 list list" where
  "entry_fields hash mn [] = []"
| "entry_fields hash mn (b # bs) =
     [bm_hash b - hash, ucast (bm_row_count b), zigzag (bm_min_timestamp b - mn),
      bm_max_timestamp b - bm_min_timestamp b, ucast (bm_block_length b)]
     # entry_fields (bm_hash b) (bm_min_timestamp b) bs"

definition column_of :: "nat \<Rightarrow> u64 list list \<Rightarrow> bytes" where
  "column_of i fs = concat (map (\<lambda>f. put_varint (f ! i)) fs)"

lemma column_of_simps [simp]: "column_of i [] = []" "column_of i (f # fs) = put_varint (f ! i) @ column_of i fs"
  by (simp_all add: column_of_def)

lemma put_directory_columns:
  "put_directory hash mn bs [c0, c1, c2, c3, c4] =
     (let fs = entry_fields hash mn bs in
      [c0 @ column_of 0 fs, c1 @ column_of 1 fs, c2 @ column_of 2 fs, c3 @ column_of 3 fs, c4 @ column_of 4 fs])"
  by (induction bs arbitrary: hash mn c0 c1 c2 c3 c4) (simp_all add: Let_def numeral_2_eq_2 numeral_3_eq_3)

lemma read_entry_fields:
  assumes "dc_columns c = map (\<lambda>i. put_varint (f ! i) @ rest ! i) [0..<5]" "length rest = 5"
    "f = [bm_hash b - dc_hash c, ucast (bm_row_count b), zigzag (bm_min_timestamp b - dc_min c),
          bm_max_timestamp b - bm_min_timestamp b, ucast (bm_block_length b)]"
    "bm_row_start b = dc_row c" "bm_block_offset b = dc_offset c"
  shows "read_entry c = Ok (b, c\<lparr>dc_columns := rest\<rparr>)"
proof -
  obtain r0 r1 r2 r3 r4 where rest: "rest = [r0, r1, r2, r3, r4]"
    using assms(2) by (auto simp: length_Suc_conv numeral_eq_Suc)
  have cols: "dc_columns c = [put_varint (bm_hash b - dc_hash c) @ r0, put_varint (ucast (bm_row_count b)) @ r1,
      put_varint (zigzag (bm_min_timestamp b - dc_min c)) @ r2,
      put_varint (bm_max_timestamp b - bm_min_timestamp b) @ r3, put_varint (ucast (bm_block_length b)) @ r4]"
    unfolding assms(1,3) rest by (simp add: upt_rec)
  show ?thesis
    using assms(4,5) by (simp add: read_entry_def next_field_def cols rest or_err_def Let_def)
qed

lemma decode_entries_fields:
  assumes "tiles (unat (dc_row c)) (unat (dc_offset c)) (dc_previous c) bs"
    "unat (dc_row c) + row_total bs \<le> unat rows" "unat (dc_offset c) + byte_total bs \<le> unat bend"
    "dc_columns c = map (\<lambda>i. column_of i (entry_fields (dc_hash c) (dc_min c) bs)) [0..<5]"
  shows "\<exists>c'. decode_entries rows bend (length bs) c = Ok c' \<and> dc_columns c' = replicate 5 []
     \<and> unat (dc_row c') = unat (dc_row c) + row_total bs \<and> unat (dc_offset c') = unat (dc_offset c) + byte_total bs
     \<and> dc_blocks c' = (dc_blocks c)\<lparr>bd_entries := bd_entries (dc_blocks c) @ map pack_block bs\<rparr>"
  using assms
proof (induction bs arbitrary: c)
  case Nil
  then show ?case by (simp add: map_replicate_const)
next
  case (Cons b bs)
  define rest where "rest = map (\<lambda>i. column_of i (entry_fields (bm_hash b) (bm_min_timestamp b) bs)) [0..<5]"
  let ?f = "[bm_hash b - dc_hash c, ucast (bm_row_count b), zigzag (bm_min_timestamp b - dc_min c),
          bm_max_timestamp b - bm_min_timestamp b, ucast (bm_block_length b)] :: u64 list"
  have start: "bm_row_start b = dc_row c" "bm_block_offset b = dc_offset c"
    using Cons.prems(1) by (simp_all add: word_unat_eq_iff)
  have read: "read_entry c = Ok (b, c\<lparr>dc_columns := rest\<rparr>)"
    using Cons.prems(4) start by (intro read_entry_fields [where f = ?f]) (simp_all add: rest_def)
  define r off where "r = dc_row c + ucast (bm_row_count b)" and "off = dc_offset c + ucast (bm_block_length b)"
  have bounds: "unat (dc_row c) + unat (bm_row_count b) < 2 ^ 64" "unat (dc_offset c) + unat (bm_block_length b) < 2 ^ 64"
    using Cons.prems(2,3) unsigned_less [of rows, where ?'a = nat] unsigned_less [of bend, where ?'a = nat] by simp_all
  have r: "unat r = unat (dc_row c) + unat (bm_row_count b)" "unat off = unat (dc_offset c) + unat (bm_block_length b)"
    unfolding r_def off_def using bounds by (simp_all add: unat_word_ariths)
  have check: "check_entry rows bend (dc_previous c) b = Ok (r, off)"
    using Cons.prems(1-3) r by (simp add: check_entry_Ok start word_le_nat_alt)
  let ?c = "c\<lparr>dc_columns := rest, dc_hash := bm_hash b, dc_min := bm_min_timestamp b, dc_row := r, dc_offset := off,
        dc_previous := Some (bm_hash b, bm_max_timestamp b), dc_blocks := builder_push b (dc_blocks c)\<rparr>"
  have "decode_entry rows bend c = Ok ?c" by (simp add: decode_entry_def read check)
  moreover obtain c' where "decode_entries rows bend (length bs) ?c = Ok c'" "dc_columns c' = replicate 5 []"
     "unat (dc_row c') = unat r + row_total bs" "unat (dc_offset c') = unat off + byte_total bs"
     "dc_blocks c' = (builder_push b (dc_blocks c))\<lparr>bd_entries := bd_entries (builder_push b (dc_blocks c)) @ map pack_block bs\<rparr>"
    using Cons.IH [of ?c] Cons.prems(1-3) r by (auto simp: rest_def)
  ultimately show ?case using r by (simp add: builder_push_pack)
qed

lemma decode_directory_columns:
  assumes "tiles 0 0 None bs" "row_total bs = unat rows" "byte_total bs = unat bend"
  shows "decode_directory (directory_columns bs) (length bs) rows bend
     = Ok \<lparr>bd_entries = map pack_block bs, bd_rows = rows, bd_blocks_end = bend\<rparr>"
proof -
  have cols: "directory_columns bs = map (\<lambda>i. column_of i (entry_fields 0 0 bs)) [0..<5]"
  proof -
    have "replicate DIRECTORY_FIELDS [] = [[], [], [], [], [] :: bytes]"
      by (simp add: DIRECTORY_FIELDS_def numeral_eq_Suc)
    then show ?thesis by (simp add: directory_columns_def put_directory_columns Let_def upt_rec numeral_eq_Suc)
  qed
  let ?c = "\<lparr>dc_columns = directory_columns bs, dc_hash = 0, dc_min = 0, dc_row = 0, dc_offset = 0, dc_previous = None,
       dc_blocks = builder_new rows bend\<rparr>"
  obtain c' where "decode_entries rows bend (length bs) ?c = Ok c'" "dc_columns c' = replicate 5 []"
     "unat (dc_row c') = unat rows" "unat (dc_offset c') = unat bend"
     "dc_blocks c' = (builder_new rows bend)\<lparr>bd_entries := map pack_block bs\<rparr>"
    using decode_entries_fields [of ?c bs rows bend] assms by (auto simp: cols builder_new_def)
  moreover have "length (directory_columns bs) = DIRECTORY_FIELDS" by (simp add: cols DIRECTORY_FIELDS_def)
  ultimately show ?thesis
    by (simp add: decode_directory_def builder_new_def list_all_iff word_unat_eq_iff)
qed

lemma directory_block_rows:
  "directory_block d i = Some b \<Longrightarrow>
     u32_try_from (next_or pb_row_start (bd_rows d) (bd_entries d) i - pb_row_start (bd_entries d ! i)) = Some (bm_row_count b)"
  by (auto simp: directory_block_def Let_def split: if_splits option.splits)

section \<open>Properties\<close>

text \<open>
  C27. Whatever the five columns hold, decoding the directory gives an error or blocks that tile the
  file: no lookup in the packed directory panics, the rows and the bytes of the blocks follow each
  other from zero to the parent's row count and the end of the sample blocks without gap or
  overlap, every block is within the format's limits, and the series are in order.
\<close>

theorem directory_tiles_file:
  assumes "decode_directory columns count parent_rows blocks_end = Ok d"
  shows "\<exists>bs. length bs = count \<and> directory_iter d = map Some bs
     \<and> row_counts d = map (\<lambda>b. Some (bm_row_count b)) bs
     \<and> tiles 0 0 None bs \<and> row_total bs = unat parent_rows \<and> byte_total bs = unat blocks_end"
proof -
  obtain bs where bs: "length bs = count" "tiles 0 0 None bs" "row_total bs = unat parent_rows" "byte_total bs = unat blocks_end"
    "d = \<lparr>bd_entries = map pack_block bs, bd_rows = parent_rows, bd_blocks_end = blocks_end\<rparr>"
    using assms by (rule decode_directory_Ok)
  have block: "directory_block d i = Some (bs ! i)" if "i < length bs" for i
    using directory_block_pack [OF bs(2) that] bs(3-5) by simp
  have "directory_iter d = map Some bs"
    using block by (intro nth_equalityI) (simp_all add: directory_iter_def bs(5))
  moreover have "row_counts d = map (\<lambda>b. Some (bm_row_count b)) bs"
  proof (rule nth_equalityI)
    fix i assume "i < length (row_counts d)"
    then have i: "i < length bs" by (simp add: row_counts_def bs(5))
    show "row_counts d ! i = map (\<lambda>b. Some (bm_row_count b)) bs ! i"
      using directory_block_rows [OF block [OF i]] i by (simp add: row_counts_def bs(5))
  qed (simp add: row_counts_def bs(5))
  ultimately show ?thesis using bs by blast
qed

definition example_blocks :: "block_meta list" where
  "example_blocks =
     [\<lparr>bm_hash = 7, bm_row_start = 0, bm_row_count = 2, bm_min_timestamp = 10, bm_max_timestamp = 15,
       bm_block_offset = 0, bm_block_length = 9\<rparr>,
      \<lparr>bm_hash = 7, bm_row_start = 2, bm_row_count = 1, bm_min_timestamp = 15, bm_max_timestamp = 15,
       bm_block_offset = 9, bm_block_length = 12\<rparr>]"

theorem directory_tiles_file_witness:
  "\<exists>d bs. decode_directory (directory_columns example_blocks) 2 3 21 = Ok d
     \<and> directory_iter d = map Some bs \<and> row_total bs = 3 \<and> byte_total bs = 21"
proof -
  have "tiles 0 0 None example_blocks" "row_total example_blocks = 3" "byte_total example_blocks = 21" "length example_blocks = 2"
    by (simp_all add: example_blocks_def MAX_BLOCK_ROWS_def is_none_or_def sample_le_def)
  then obtain d where d: "decode_directory (directory_columns example_blocks) 2 3 21 = Ok d"
    using decode_directory_columns [of example_blocks 3 21] by simp
  from directory_tiles_file [OF d] show ?thesis using d by auto
qed

end
