(* ===== verification/Midx_Writer.thy ===== *)
theory Midx_Writer
  imports Midx_Directory
begin

text \<open>
  The block writer (\<open>BlockWriter\<close> of \<open>src/metrics_index/src/block/writer.rs\<close>) and what a reader gets
  back. The state is the writer's fields that rows change; the output is the bytes written so
  far. A batch is the rows Arrow gives for it: hash, timestamp, value bits or \<open>None\<close> for a NULL,
  and the identity labels. Where a method fails half way, the state is the one the method had
  reached, since the writer keeps it.

  The sink of the writer (any \<open>Write\<close>; a file in production) is the field \<open>mw_sink\<close>: given what it holds and
  the bytes handed to \<open>write_all\<close>, what it holds then and the error it reports, if any. \<open>append_sink\<close> is
  the one that never fails. What the lookups of the columns in the Arrow schema answer is an argument of \<open>writer_new\<close>.
\<close>

record sample_row =
  sr_hash :: u64
  sr_time :: i64
  sr_value :: "u64 option"
  sr_labels :: "string option list"

record batch =
  ba_schema_matches :: bool
  ba_null_keys :: bool
  ba_rows :: "sample_row list"

type_synonym sink = "bytes \<Rightarrow> bytes \<Rightarrow> bytes \<times> string option"

definition append_sink :: sink where
  "append_sink out chunk = (out @ chunk, None)"

record block_writer =
  mw_sink :: sink
  mw_output :: bytes
  mw_max_block_rows :: nat
  mw_previous :: "(u64 \<times> i64) option"
  mw_current_hash :: "u64 option"
  mw_current_labels :: "string option list"
  mw_timestamps :: "i64 list"
  mw_values :: "u64 list"
  mw_rows :: u64
  mw_offset :: u64
  mw_blocks :: "block_meta list"
  mw_labels :: "string option list list"
  mw_failed :: bool

text \<open>The bits of the stale marker.\<close>

definition STALE_NAN_BITS :: u64 where "STALE_NAN_BITS = 0x7ff0000000000002"

definition writer_new :: "(unit, string) result \<Rightarrow> sink \<Rightarrow> nat \<Rightarrow> (block_writer, string) result" where
  "writer_new columns sink max_block_rows =
     rbind (ensure (max_block_rows > 0 \<and> max_block_rows \<le> MAX_BLOCK_ROWS) ''invalid max block rows'') (\<lambda>_.
     rbind columns (\<lambda>_.
     Ok \<lparr>mw_sink = sink, mw_output = [], mw_max_block_rows = max_block_rows, mw_previous = None, mw_current_hash = None,
         mw_current_labels = [], mw_timestamps = [], mw_values = [], mw_rows = 0, mw_offset = 0, mw_blocks = [],
         mw_labels = [], mw_failed = False\<rparr>))"

type_synonym 'a writing = "block_writer \<Rightarrow> ('a, string) result \<times> block_writer"

definition wbind :: "'a writing \<Rightarrow> ('a \<Rightarrow> 'b writing) \<Rightarrow> 'b writing" where
  "wbind m f w = (case m w of (Inl e, w) \<Rightarrow> (Err e, w) | (Inr x, w) \<Rightarrow> f x w)"

definition wlift :: "('a, string) result \<Rightarrow> 'a writing" where
  "wlift r w = (r, w)"

definition wmod :: "(block_writer \<Rightarrow> block_writer) \<Rightarrow> unit writing" where
  "wmod f w = (Ok (), f w)"

definition u32_of_len :: "nat \<Rightarrow> (u32, string) result" where
  "u32_of_len n = (if n < 2 ^ 32 then Ok (of_nat n) else Err ''out of range integral type conversion attempted'')"

definition write_all :: "bytes \<Rightarrow> unit writing" where
  "write_all chunk w =
     (case mw_sink w (mw_output w) chunk of
        (out, e) \<Rightarrow> (case e of Some e \<Rightarrow> Err e | None \<Rightarrow> Ok (), w\<lparr>mw_output := out\<rparr>))"

definition flush_block :: "f64_ops \<Rightarrow> unit writing" where
  "flush_block fo w =
     (if mw_timestamps w = [] then (Ok (), w)
      else (let count = length (mw_timestamps w) in
        wbind (wlift (encode_block fo (mw_timestamps w) (mw_values w))) (\<lambda>block_bytes.
        wbind (wlift (u32_of_len (length block_bytes))) (\<lambda>block_length.
        wbind (wlift (or_err (mw_current_hash w) ''missing series hash'')) (\<lambda>hash.
        wbind (wlift (if count \<le> unat (mw_rows w) then Ok (mw_rows w - of_nat count) else Err ''row start underflow'')) (\<lambda>row_start.
        wbind (wlift (u32_of_len count)) (\<lambda>row_count.
        let meta = \<lparr>bm_hash = hash, bm_row_start = row_start, bm_row_count = row_count,
                    bm_min_timestamp = mw_timestamps w ! 0, bm_max_timestamp = mw_timestamps w ! (count - 1),
                    bm_block_offset = mw_offset w, bm_block_length = block_length\<rparr> in
        wbind (wlift (or_err (checked_add64 (mw_offset w) (ucast block_length)) ''block offset overflow'')) (\<lambda>offset.
        wbind (wmod (\<lambda>w. w\<lparr>mw_offset := offset\<rparr>)) (\<lambda>_.
        wbind (write_all block_bytes) (\<lambda>_.
        wmod (\<lambda>w. w\<lparr>mw_blocks := mw_blocks w @ [meta], mw_labels := mw_labels w @ [mw_current_labels w],
                    mw_timestamps := [], mw_values := []\<rparr>))))))))) w))"

definition write_row :: "f64_ops \<Rightarrow> sample_row \<Rightarrow> unit writing" where
  "write_row fo r w =
     wbind (wlift (ensure (is_none_or (\<lambda>p. sample_le p (sr_hash r, sr_time r)) (mw_previous w))
                     ''source hash/timestamp order decreased'')) (\<lambda>_.
     wbind (if mw_current_hash w \<noteq> Some (sr_hash r)
            then wbind (flush_block fo) (\<lambda>_.
                 wmod (\<lambda>w. w\<lparr>mw_current_labels := sr_labels r, mw_current_hash := Some (sr_hash r)\<rparr>))
            else wlift (ensure (sr_labels r = mw_current_labels w) ''identity label changes within one series hash'')) (\<lambda>_.
     wbind (wmod (\<lambda>w. w\<lparr>mw_timestamps := mw_timestamps w @ [sr_time r],
                        mw_values := mw_values w @ [case sr_value r of Some b \<Rightarrow> b | None \<Rightarrow> STALE_NAN_BITS]\<rparr>)) (\<lambda>_.
     wbind (\<lambda>w. wlift (or_err (checked_add64 (mw_rows w) 1) ''row count overflow'') w) (\<lambda>rows.
     wbind (wmod (\<lambda>w. w\<lparr>mw_rows := rows, mw_previous := Some (sr_hash r, sr_time r)\<rparr>)) (\<lambda>_.
     \<lambda>w. if length (mw_timestamps w) = mw_max_block_rows w then flush_block fo w else (Ok (), w)))))) w"

fun write_rows :: "f64_ops \<Rightarrow> sample_row list \<Rightarrow> unit writing" where
  "write_rows fo [] w = (Ok (), w)"
| "write_rows fo (r # rs) w = wbind (write_row fo r) (\<lambda>_. write_rows fo rs) w"

definition write_inner :: "f64_ops \<Rightarrow> batch \<Rightarrow> unit writing" where
  "write_inner fo b =
     wbind (wlift (ensure (ba_schema_matches b) ''source schema changed'')) (\<lambda>_.
     wbind (wlift (ensure (\<not> ba_null_keys b) ''nullable samples unsupported'')) (\<lambda>_.
     write_rows fo (ba_rows b)))"

definition write_batch :: "f64_ops \<Rightarrow> batch \<Rightarrow> unit writing" where
  "write_batch fo b w =
     (if mw_failed w then (Err ''writer is poisoned by an earlier failure'', w)
      else (case write_inner fo b w of
              (Inl e, w) \<Rightarrow> (Err e, w\<lparr>mw_failed := True\<rparr>)
            | (Inr x, w) \<Rightarrow> (Ok x, w)))"

fun write_batches :: "f64_ops \<Rightarrow> batch list \<Rightarrow> unit writing" where
  "write_batches fo [] w = (Ok (), w)"
| "write_batches fo (b # bs) w = wbind (write_batch fo b) (\<lambda>_. write_batches fo bs) w"

record parent_metadata =
  pm_rows :: u64
  pm_compressed_size :: u64

text \<open>The part of \<open>finish\<close> before the columns are compressed: the guards, the last block and the
  raw directory columns.\<close>

definition writer_finish :: "f64_ops \<Rightarrow> parent_metadata \<Rightarrow> bool \<Rightarrow> u32 option \<Rightarrow> (bytes list \<times> nat) writing" where
  "writer_finish fo parent schema_matches row_group_size w =
     wbind (wlift (ensure (\<not> mw_failed w) ''writer is poisoned'')) (\<lambda>_.
     wbind (wlift (ensure (pm_rows parent > 0 \<and> pm_compressed_size parent > 0) ''empty parent unsupported'')) (\<lambda>_.
     wbind (wlift (ensure (mw_rows w = pm_rows parent) ''source/parent row count mismatch'')) (\<lambda>_.
     wbind (wlift (ensure (row_group_size \<noteq> Some 0) ''invalid parent row group size'')) (\<lambda>_.
     wbind (wlift (ensure schema_matches ''stored source schema changed'')) (\<lambda>_.
     wbind (flush_block fo) (\<lambda>_.
     wbind (wmod (\<lambda>w. w\<lparr>mw_current_labels := []\<rparr>)) (\<lambda>_.
     wbind (\<lambda>w. wlift (ensure (mw_blocks w \<noteq> []) ''MIDX without sample blocks'') w) (\<lambda>_.
     \<lambda>w. (Ok (directory_columns (mw_blocks w), length (mw_blocks w)), w))))))))) w"

section \<open>Segments: what the writer has flushed\<close>

text \<open>A ghost description of a run: the runs of rows of one series that became blocks.\<close>

record segment =
  sg_hash :: u64
  sg_labels :: "string option list"
  sg_times :: "i64 list"
  sg_bits :: "u64 list"

type_synonym sample = "u64 \<times> string option list \<times> i64 \<times> u64"

definition value_bits :: "sample_row \<Rightarrow> u64" where
  "value_bits r = (case sr_value r of Some b \<Rightarrow> b | None \<Rightarrow> STALE_NAN_BITS)"

definition sample_of :: "sample_row \<Rightarrow> sample" where
  "sample_of r = (sr_hash r, sr_labels r, sr_time r, value_bits r)"

definition samples :: "u64 \<Rightarrow> string option list \<Rightarrow> i64 list \<Rightarrow> u64 list \<Rightarrow> sample list" where
  "samples h ls ts bs = map (\<lambda>(t, b). (h, ls, t, b)) (zip ts bs)"

definition seg_samples :: "segment \<Rightarrow> sample list" where
  "seg_samples s = samples (sg_hash s) (sg_labels s) (sg_times s) (sg_bits s)"

definition seg_ok :: "segment \<Rightarrow> bool" where
  "seg_ok s \<longleftrightarrow> sg_times s \<noteq> [] \<and> ordered (sg_times s) \<and> length (sg_times s) = length (sg_bits s)
     \<and> length (sg_times s) \<le> MAX_BLOCK_ROWS"

definition encoded :: "f64_ops \<Rightarrow> segment \<Rightarrow> bytes" where
  "encoded fo s = (case encode_block fo (sg_times s) (sg_bits s) of Inr enc \<Rightarrow> enc | Inl _ \<Rightarrow> [])"

definition seg_meta :: "f64_ops \<Rightarrow> nat \<Rightarrow> nat \<Rightarrow> segment \<Rightarrow> block_meta" where
  "seg_meta fo row off s =
     \<lparr>bm_hash = sg_hash s, bm_row_start = of_nat row, bm_row_count = of_nat (length (sg_times s)),
      bm_min_timestamp = hd (sg_times s), bm_max_timestamp = last (sg_times s),
      bm_block_offset = of_nat off, bm_block_length = of_nat (length (encoded fo s))\<rparr>"

fun metas :: "f64_ops \<Rightarrow> nat \<Rightarrow> nat \<Rightarrow> segment list \<Rightarrow> block_meta list" where
  "metas fo row off [] = []"
| "metas fo row off (s # ss) =
     seg_meta fo row off s # metas fo (row + length (sg_times s)) (off + length (encoded fo s)) ss"

definition seg_rows :: "segment list \<Rightarrow> nat" where
  "seg_rows ss = sum_list (map (\<lambda>s. length (sg_times s)) ss)"

definition seg_out :: "f64_ops \<Rightarrow> segment list \<Rightarrow> bytes" where
  "seg_out fo ss = concat (map (encoded fo) ss)"

lemma seg_list_simps [simp]:
  "seg_rows [] = 0" "seg_rows (s # ss) = length (sg_times s) + seg_rows ss" "seg_rows (ss @ us) = seg_rows ss + seg_rows us"
  "seg_out fo [] = []" "seg_out fo (s # ss) = encoded fo s @ seg_out fo ss" "seg_out fo (ss @ us) = seg_out fo ss @ seg_out fo us"
  by (simp_all add: seg_rows_def seg_out_def)

lemma metas_append:
  "metas fo row off (ss @ us) = metas fo row off ss @ metas fo (row + seg_rows ss) (off + length (seg_out fo ss)) us"
  by (induction ss arbitrary: row off) (simp_all add: add.assoc)

lemma length_metas [simp]: "length (metas fo row off ss) = length ss"
  by (induction ss arbitrary: row off) simp_all

lemma length_samples [simp]: "length ts = length bs \<Longrightarrow> length (samples h ls ts bs) = length ts"
  by (simp add: samples_def)

lemma samples_snoc:
  "length ts = length bs \<Longrightarrow> samples h ls (ts @ [t]) (bs @ [b]) = samples h ls ts bs @ [(h, ls, t, b)]"
  by (simp add: samples_def)

lemma encoded_ok:
  assumes "seg_ok s"
  shows "encode_block fo (sg_times s) (sg_bits s) = Ok (encoded fo s)"
    "length (encoded fo s) \<le> 32 + 18 * length (sg_times s)" "encoded fo s \<noteq> []"
    "\<And>block. describes block (sg_times s) (encoded fo s) \<Longrightarrow> decode_inner fo (encoded fo s) block = Ok (sg_times s, sg_bits s)"
  using assms by (auto simp: seg_ok_def encoded_def elim!: encode_decode_inner [where fo = fo])

lemma encoded_small:
  assumes "seg_ok s"
  shows "length (encoded fo s) < 2 ^ 32" "unat (of_nat (length (encoded fo s)) :: u32) = length (encoded fo s)"
    "unat (of_nat (length (sg_times s)) :: u32) = length (sg_times s)"
proof -
  show l: "length (encoded fo s) < 2 ^ 32"
    using encoded_ok(2) [OF assms, of fo] assms by (simp add: seg_ok_def MAX_BLOCK_ROWS_def)
  then show "unat (of_nat (length (encoded fo s)) :: u32) = length (encoded fo s)" by (simp add: unat_of_nat)
  show "unat (of_nat (length (sg_times s)) :: u32) = length (sg_times s)"
    using assms by (simp add: unat_of_nat seg_ok_def MAX_BLOCK_ROWS_def)
qed

section \<open>The invariant of the writer\<close>

definition row_key :: "sample_row \<Rightarrow> u64 \<times> i64" where
  "row_key r = (sr_hash r, sr_time r)"

definition winv :: "f64_ops \<Rightarrow> segment list \<Rightarrow> sample_row list \<Rightarrow> block_writer \<Rightarrow> bool" where
  "winv fo ss rs w \<longleftrightarrow>
     mw_sink w = append_sink \<and> (\<forall>s \<in> set ss. seg_ok s) \<and> mw_output w = seg_out fo ss \<and> mw_blocks w = metas fo 0 0 ss
     \<and> mw_labels w = map sg_labels ss \<and> mw_offset w = of_nat (length (seg_out fo ss))
     \<and> length (seg_out fo ss) + 50 * length (mw_timestamps w) \<le> 50 * length rs
     \<and> mw_rows w = of_nat (length rs) \<and> \<not> mw_failed w
     \<and> 0 < mw_max_block_rows w \<and> mw_max_block_rows w \<le> MAX_BLOCK_ROWS
     \<and> length (mw_timestamps w) = length (mw_values w) \<and> length (mw_timestamps w) \<le> mw_max_block_rows w
     \<and> mw_previous w = (if rs = [] then None else Some (row_key (last rs)))
     \<and> mw_current_hash w = (if rs = [] then None else Some (sr_hash (last rs)))
     \<and> (rs \<noteq> [] \<longrightarrow> mw_current_labels w = sr_labels (last rs))
     \<and> (rs = [] \<longrightarrow> mw_timestamps w = [])
     \<and> sorted_wrt sample_le (map row_key rs)
     \<and> (mw_timestamps w \<noteq> [] \<longrightarrow> ordered (mw_timestamps w) \<and> last (mw_timestamps w) = sr_time (last rs))
     \<and> map sample_of rs = concat (map seg_samples ss)
         @ samples (sr_hash (last rs)) (sr_labels (last rs)) (mw_timestamps w) (mw_values w)"

definition pending :: "sample_row list \<Rightarrow> block_writer \<Rightarrow> segment" where
  "pending rs w = \<lparr>sg_hash = sr_hash (last rs), sg_labels = sr_labels (last rs),
     sg_times = mw_timestamps w, sg_bits = mw_values w\<rparr>"

definition flushed :: "f64_ops \<Rightarrow> sample_row list \<Rightarrow> block_writer \<Rightarrow> block_writer" where
  "flushed fo rs w =
     (let s = pending rs w in
      w\<lparr>mw_offset := mw_offset w + of_nat (length (encoded fo s)), mw_output := mw_output w @ encoded fo s,
        mw_blocks := mw_blocks w @ [seg_meta fo (length rs - length (mw_timestamps w)) (length (mw_output w)) s],
        mw_labels := mw_labels w @ [mw_current_labels w], mw_timestamps := [], mw_values := []\<rparr>)"

lemma length_seg_samples: "seg_ok s \<Longrightarrow> length (seg_samples s) = length (sg_times s)"
  by (simp add: seg_samples_def seg_ok_def)

lemma length_concat_seg_samples:
  "\<forall>s \<in> set ss. seg_ok s \<Longrightarrow> length (concat (map seg_samples ss)) = seg_rows ss"
  by (induction ss) (simp_all add: length_seg_samples)

lemma winv_rows:
  assumes "winv fo ss rs w"
  shows "length rs = seg_rows ss + length (mw_timestamps w)"
proof -
  have "length (map sample_of rs) = length (concat (map seg_samples ss)) + length (mw_timestamps w)"
    using assms unfolding winv_def by (metis length_append length_samples)
  then show ?thesis using assms length_concat_seg_samples [of ss] by (simp add: winv_def)
qed

lemma flush_block_winv:
  assumes inv: "winv fo ss rs w" and ts: "mw_timestamps w \<noteq> []" and size: "50 * length rs < 2 ^ 64"
  shows "flush_block fo w = (Ok (), flushed fo rs w)" "winv fo (ss @ [pending rs w]) rs (flushed fo rs w)"
proof -
  let ?s = "pending rs w" let ?n = "length (mw_timestamps w)"
  have rs: "rs \<noteq> []" and ord: "ordered (mw_timestamps w)" using inv ts by (auto simp: winv_def)
  have s: "seg_ok ?s" using inv ts by (auto simp: winv_def seg_ok_def pending_def)
  note enc = encoded_ok [OF s, where fo = fo] and small = encoded_small(1,2) [OF s, where fo = fo]
  have rows: "length rs = seg_rows ss + ?n" by (rule winv_rows [OF inv])
  have u: "unat (of_nat (length rs) :: u64) = length rs" using size by (simp add: unat_of_nat)
  have out: "length (seg_out fo ss) + length (encoded fo ?s) \<le> 50 * length rs"
  proof -
    have "length (encoded fo ?s) \<le> 50 * ?n" using enc(2) ts by (cases "mw_timestamps w") (auto simp: pending_def)
    then show ?thesis using inv by (simp add: winv_def)
  qed
  have off: "unat (mw_offset w) = length (seg_out fo ss)"
    using inv out size by (simp add: winv_def unat_of_nat)
  have add: "checked_add64 (mw_offset w) (ucast (of_nat (length (encoded fo ?s)) :: u32))
      = Some (mw_offset w + of_nat (length (encoded fo ?s)))"
  proof -
    have "ucast (of_nat (length (encoded fo ?s)) :: u32) = (of_nat (length (encoded fo ?s)) :: u64)"
      using small(1,2) by (simp add: word_unat_eq_iff unat_of_nat)
    then show ?thesis using out size small(2) off by (simp add: checked_add64_def unat_of_nat)
  qed
  have start: "of_nat (length rs) - of_nat ?n = (of_nat (length rs - ?n) :: u64)" using rows by simp
  have cnt: "?n < 2 ^ 32" using inv by (simp add: winv_def MAX_BLOCK_ROWS_def)
  show f: "flush_block fo w = (Ok (), flushed fo rs w)"
    using inv ts rs enc(1) small(1) add u rows start cnt
    by (simp add: flush_block_def flushed_def Let_def wbind_def wlift_def wmod_def write_all_def append_sink_def u32_of_len_def or_err_def winv_def
        pending_def seg_meta_def hd_conv_nth last_conv_nth)
  have "mw_offset (flushed fo rs w) = of_nat (length (seg_out fo (ss @ [?s])))"
    using inv by (simp add: flushed_def Let_def winv_def)
  then show "winv fo (ss @ [?s]) rs (flushed fo rs w)"
    using inv s out rs rows unfolding winv_def
    by (auto simp: flushed_def Let_def metas_append pending_def seg_samples_def samples_def)
qed

section \<open>One row\<close>

definition row_ok :: "sample_row list \<Rightarrow> sample_row \<Rightarrow> bool" where
  "row_ok rs r \<longleftrightarrow>
     rs = [] \<or> (sample_le (row_key (last rs)) (row_key r)
                 \<and> (sr_hash (last rs) = sr_hash r \<longrightarrow> sr_labels r = sr_labels (last rs)))"

definition pushed :: "sample_row \<Rightarrow> block_writer \<Rightarrow> block_writer" where
  "pushed r w =
     w\<lparr>mw_current_labels := sr_labels r, mw_current_hash := Some (sr_hash r),
       mw_timestamps := mw_timestamps w @ [sr_time r], mw_values := mw_values w @ [value_bits r],
       mw_rows := mw_rows w + 1, mw_previous := Some (row_key r)\<rparr>"

lemma sample_le_refl [simp]: "sample_le p p"
  by (simp add: sample_le_def)

lemma sample_le_trans: "sample_le p q \<Longrightarrow> sample_le q r \<Longrightarrow> sample_le p r"
  by (auto simp: sample_le_def)

lemma sorted_sample_snoc:
  assumes "sorted_wrt sample_le ks" "ks = [] \<or> sample_le (last ks) k"
  shows "sorted_wrt sample_le (ks @ [k])"
proof (cases "ks = []")
  case False
  then obtain us u where ks: "ks = us @ [u]" by (metis rev_exhaust)
  have u: "sample_le u k" using assms(2) ks by simp
  have "\<forall>x \<in> set ks. sample_le x k"
  proof
    fix x assume "x \<in> set ks"
    then have "x = u \<or> sample_le x u" using assms(1) by (auto simp: ks sorted_wrt_append)
    then show "sample_le x k" using u sample_le_trans by blast
  qed
  then show ?thesis using assms(1) by (simp add: sorted_wrt_append)
qed simp

lemma ordered_snoc: "ordered (ts @ [t]) \<longleftrightarrow> ordered ts \<and> (ts = [] \<or> sint (last ts) \<le> sint t)"
  by (induction ts rule: induct_list012) auto

lemma pushed_winv:
  assumes inv: "winv fo ss rs w" and ok: "row_ok rs r"
    and new: "rs = [] \<or> sr_hash (last rs) \<noteq> sr_hash r \<Longrightarrow> mw_timestamps w = []"
    and room: "length (mw_timestamps w) < mw_max_block_rows w"
  shows "winv fo ss (rs @ [r]) (pushed r w)"
proof -
  have "map row_key rs = [] \<or> sample_le (last (map row_key rs)) (row_key r)"
    using ok by (cases "rs = []") (simp_all add: row_ok_def last_map)
  then have sorted: "sorted_wrt sample_le (map row_key (rs @ [r]))"
    using inv sorted_sample_snoc [of "map row_key rs" "row_key r"] by (simp add: winv_def)
  have ord: "ordered (mw_timestamps w @ [sr_time r])"
  proof (cases "mw_timestamps w = []")
    case False
    then have "sr_hash (last rs) = sr_hash r" "rs \<noteq> []" using new by auto
    then show ?thesis
      using inv ok False by (auto simp: winv_def row_ok_def ordered_snoc sample_le_def row_key_def)
  qed simp
  have samples: "samples (sr_hash r) (sr_labels r) (mw_timestamps w) (mw_values w)
      = samples (sr_hash (last rs)) (sr_labels (last rs)) (mw_timestamps w) (mw_values w)"
  proof (cases "mw_timestamps w = []")
    case False
    then have "sr_hash (last rs) = sr_hash r" "rs \<noteq> []" using new by auto
    then show ?thesis using ok by (simp add: row_ok_def)
  qed (simp add: samples_def)
  have "map sample_of (rs @ [r]) = concat (map seg_samples ss)
      @ samples (sr_hash r) (sr_labels r) (mw_timestamps w @ [sr_time r]) (mw_values w @ [value_bits r])"
    using inv by (simp add: winv_def samples_snoc samples sample_of_def)
  then show ?thesis
    using inv sorted ord room unfolding winv_def by (simp add: pushed_def)
qed

lemma write_row_exact:
  assumes inv: "winv fo ss rs w" and room: "length (mw_timestamps w) < mw_max_block_rows w"
    and size: "50 * (length rs + 1) < 2 ^ 64"
  shows "if row_ok rs r
     then \<exists>ss' w'. write_row fo r w = (Ok (), w') \<and> winv fo ss' (rs @ [r]) w'
        \<and> length (mw_timestamps w') < mw_max_block_rows w' \<and> mw_max_block_rows w' = mw_max_block_rows w
     else \<exists>e w'. write_row fo r w = (Err e, w')"
proof (cases "row_ok rs r")
  case False
  then have rs: "rs \<noteq> []" by (simp add: row_ok_def)
  have "\<exists>e. write_row fo r w = (Err e, w)"
    using False inv rs
    by (auto simp: row_ok_def winv_def write_row_def wbind_def wlift_def is_none_or_def row_key_def ensure_def)
  then show ?thesis using False by auto
next
  case True
  have prev: "is_none_or (\<lambda>p. sample_le p (sr_hash r, sr_time r)) (mw_previous w)"
    using True inv by (auto simp: winv_def row_ok_def is_none_or_def row_key_def)
  define fresh where "fresh \<longleftrightarrow> mw_current_hash w \<noteq> Some (sr_hash r)"
  have fresh: "fresh \<longleftrightarrow> rs = [] \<or> sr_hash (last rs) \<noteq> sr_hash r" using inv by (auto simp: fresh_def winv_def)
  define w1 where "w1 = (if fresh \<and> mw_timestamps w \<noteq> [] then flushed fo rs w else w)"
  have max1: "mw_max_block_rows w1 = mw_max_block_rows w" by (simp add: w1_def flushed_def Let_def)
  have rows1: "mw_rows w1 = mw_rows w" by (simp add: w1_def flushed_def Let_def)
  obtain ss1 where inv1: "winv fo ss1 rs w1" and empty1: "fresh \<Longrightarrow> mw_timestamps w1 = []"
    and same1: "\<not> fresh \<Longrightarrow> w1 = w"
    using inv flush_block_winv(2) [OF inv] size by (cases "fresh \<and> mw_timestamps w \<noteq> []") (auto simp: w1_def flushed_def Let_def)
  have flush1: "flush_block fo w = (Ok (), w1)" if fresh
    using that flush_block_winv(1) [OF inv] size by (auto simp: w1_def flush_block_def)
  have room1: "length (mw_timestamps w1) < mw_max_block_rows w1"
    using room empty1 same1 max1 by (cases fresh) auto
  have inv2: "winv fo ss1 (rs @ [r]) (pushed r w1)"
    using pushed_winv [OF inv1 True _ room1] empty1 fresh by blast
  have n: "checked_add64 (mw_rows w) 1 = Some (mw_rows w + 1)"
    using inv size by (simp add: winv_def checked_add64_def unat_of_nat)
  have lab: "\<not> fresh \<Longrightarrow> sr_labels r = mw_current_labels w \<and> mw_current_hash w = Some (sr_hash r)"
    using inv True fresh by (auto simp: winv_def row_ok_def)
  define w2 where "w2 = pushed r w1"
  have again: "pushed r w = w\<lparr>mw_timestamps := mw_timestamps w @ [sr_time r], mw_values := mw_values w @ [value_bits r],
      mw_rows := mw_rows w + 1, mw_previous := Some (row_key r)\<rparr>" if "\<not> fresh"
    using lab [OF that] by (cases w) (simp add: pushed_def)
  have run: "write_row fo r w = (if length (mw_timestamps w2) = mw_max_block_rows w2 then flush_block fo w2 else (Ok (), w2))"
  proof (cases fresh)
    case True
    then show ?thesis
      using prev flush1 n rows1 unfolding w2_def
      by (simp add: write_row_def wbind_def wlift_def wmod_def fresh_def [symmetric] pushed_def value_bits_def or_err_def row_key_def)
  next
    case False
    show ?thesis
      using False prev n lab [OF False] unfolding w2_def same1 [OF False] again [OF False]
      by (simp add: write_row_def wbind_def wlift_def wmod_def value_bits_def or_err_def row_key_def)
  qed
  show ?thesis
  proof (cases "length (mw_timestamps w2) = mw_max_block_rows w2")
    case False
    then show ?thesis
      using True run inv2 max1 room1 by (auto simp: w2_def pushed_def)
  next
    case full: True
    have ne: "mw_timestamps w2 \<noteq> []" by (simp add: w2_def pushed_def)
    have "50 * length (rs @ [r]) < 2 ^ 64" using size by simp
    note fl = flush_block_winv [OF inv2 [folded w2_def] ne this]
    have "length (mw_timestamps (flushed fo (rs @ [r]) w2)) < mw_max_block_rows (flushed fo (rs @ [r]) w2)"
      "mw_max_block_rows (flushed fo (rs @ [r]) w2) = mw_max_block_rows w"
      using inv2 max1 by (simp_all add: flushed_def Let_def w2_def pushed_def winv_def)
    then show ?thesis using True run full fl by auto
  qed
qed

section \<open>Runs\<close>

text \<open>Rows are acceptable when each is after the rows before it.\<close>

fun rows_ok :: "sample_row list \<Rightarrow> sample_row list \<Rightarrow> bool" where
  "rows_ok rs [] \<longleftrightarrow> True"
| "rows_ok rs (r # us) \<longleftrightarrow> row_ok rs r \<and> rows_ok (rs @ [r]) us"

lemma rows_ok_append: "rows_ok rs (us @ vs) \<longleftrightarrow> rows_ok rs us \<and> rows_ok (rs @ us) vs"
  by (induction us arbitrary: rs) auto

lemma write_rows_exact:
  assumes "winv fo ss rs w" "length (mw_timestamps w) < mw_max_block_rows w" "50 * (length rs + length us) < 2 ^ 64"
  shows "if rows_ok rs us
     then \<exists>ss' w'. write_rows fo us w = (Ok (), w') \<and> winv fo ss' (rs @ us) w'
        \<and> length (mw_timestamps w') < mw_max_block_rows w' \<and> mw_max_block_rows w' = mw_max_block_rows w
     else \<exists>e w'. write_rows fo us w = (Err e, w')"
  using assms
proof (induction us arbitrary: rs ss w)
  case Nil
  then show ?case by auto
next
  case (Cons r us)
  have "50 * (length rs + 1) < 2 ^ 64" using Cons.prems(3) by simp
  note row = write_row_exact [OF Cons.prems(1,2) this, of r]
  show ?case
  proof (cases "row_ok rs r")
    case False
    then show ?thesis using row by (auto simp: wbind_def)
  next
    case True
    then obtain ss1 w1 where w1: "write_row fo r w = (Ok (), w1)" "winv fo ss1 (rs @ [r]) w1"
      "length (mw_timestamps w1) < mw_max_block_rows w1" "mw_max_block_rows w1 = mw_max_block_rows w"
      using row by auto
    have "50 * (length (rs @ [r]) + length us) < 2 ^ 64" using Cons.prems(3) by simp
    from Cons.IH [OF w1(2,3) this] show ?thesis using True w1(1,4) by (auto simp: wbind_def split: if_splits)
  qed
qed

definition batch_ok :: "batch \<Rightarrow> bool" where
  "batch_ok b \<longleftrightarrow> ba_schema_matches b \<and> \<not> ba_null_keys b"

lemma write_batches_exact:
  assumes "winv fo ss rs w" "length (mw_timestamps w) < mw_max_block_rows w"
    "50 * (length rs + length (concat (map ba_rows bs))) < 2 ^ 64"
  shows "if (\<forall>b \<in> set bs. batch_ok b) \<and> rows_ok rs (concat (map ba_rows bs))
     then \<exists>ss' w'. write_batches fo bs w = (Ok (), w') \<and> winv fo ss' (rs @ concat (map ba_rows bs)) w'
     else \<exists>e w'. write_batches fo bs w = (Err e, w')"
  using assms
proof (induction bs arbitrary: rs ss w)
  case Nil
  then show ?case by auto
next
  case (Cons b bs)
  have nf: "\<not> mw_failed w" using Cons.prems(1) by (simp add: winv_def)
  show ?case
  proof (cases "batch_ok b")
    case False
    then have "\<exists>e w'. write_batch fo b w = (Err e, w')"
      using nf by (auto simp: write_batch_def write_inner_def batch_ok_def wbind_def wlift_def ensure_def)
    then show ?thesis using False by (auto simp: wbind_def)
  next
    case True
    have "50 * (length rs + length (ba_rows b)) < 2 ^ 64" using Cons.prems(3) by simp
    note rows = write_rows_exact [OF Cons.prems(1,2) this]
    have inner: "write_batch fo b w = (case write_rows fo (ba_rows b) w of
        (Inl e, w) \<Rightarrow> (Err e, w\<lparr>mw_failed := True\<rparr>) | (Inr x, w) \<Rightarrow> (Ok x, w))"
      using nf True by (simp add: write_batch_def write_inner_def batch_ok_def wbind_def wlift_def)
    show ?thesis
    proof (cases "rows_ok rs (ba_rows b)")
      case False
      then show ?thesis using rows by (auto simp: inner wbind_def rows_ok_append)
    next
      case okb: True
      then obtain ss1 w1 where w1: "write_rows fo (ba_rows b) w = (Ok (), w1)" "winv fo ss1 (rs @ ba_rows b) w1"
        "length (mw_timestamps w1) < mw_max_block_rows w1"
        using rows by auto
      have "50 * (length (rs @ ba_rows b) + length (concat (map ba_rows bs))) < 2 ^ 64" using Cons.prems(3) by simp
      from Cons.IH [OF w1(2,3) this] show ?thesis
        using True okb w1(1) by (auto simp: inner wbind_def rows_ok_append split: if_splits)
    qed
  qed
qed

lemma writer_new_winv:
  assumes "writer_new cols append_sink n = Ok w"
  shows "winv fo [] [] w" "length (mw_timestamps w) < mw_max_block_rows w"
  using assms by (auto simp: writer_new_def rbind_Ok winv_def samples_def)

section \<open>The blocks tile and decode\<close>

lemma samples_keys:
  "length ts = length bs \<Longrightarrow> map (\<lambda>(h, ls, t, b). (h, t)) (samples h ls ts bs) = map (Pair h) ts"
  by (induction ts bs rule: list_induct2) (simp_all add: samples_def)

lemma seg_samples_keys:
  "seg_ok s \<Longrightarrow> map (\<lambda>(h, ls, t, b). (h, t)) (seg_samples s) = map (Pair (sg_hash s)) (sg_times s)"
  by (simp add: seg_samples_def seg_ok_def samples_keys)

lemma row_keys_of_samples: "map row_key rs = map (\<lambda>(h, ls, t, b). (h, t)) (map sample_of rs)"
  by (simp add: sample_of_def row_key_def)

lemma metas_tiles:
  assumes "\<forall>s \<in> set ss. seg_ok s" "row + seg_rows ss < 2 ^ 64" "off + length (seg_out fo ss) < 2 ^ 64"
    "sorted_wrt sample_le (concat (map (\<lambda>s. map (Pair (sg_hash s)) (sg_times s)) ss))"
    "is_none_or (\<lambda>p. \<forall>k \<in> set (concat (map (\<lambda>s. map (Pair (sg_hash s)) (sg_times s)) ss)). sample_le p k) prev"
  shows "tiles row off prev (metas fo row off ss) \<and> row_total (metas fo row off ss) = seg_rows ss
     \<and> byte_total (metas fo row off ss) = length (seg_out fo ss)"
  using assms
proof (induction ss arbitrary: row off prev)
  case (Cons s ss)
  have s: "seg_ok s" using Cons.prems(1) by simp
  note enc = encoded_ok [OF s, where fo = fo] and small = encoded_small(1,2) [OF s, where fo = fo]
    and rows = encoded_small(3) [OF s]
  have ts: "sg_times s \<noteq> []" "ordered (sg_times s)" "length (sg_times s) \<le> MAX_BLOCK_ROWS"
    using s by (simp_all add: seg_ok_def)
  let ?rest = "concat (map (\<lambda>s. map (Pair (sg_hash s)) (sg_times s)) ss)"
  have srt: "sorted_wrt sample_le ?rest" "\<forall>t \<in> set (sg_times s). \<forall>k \<in> set ?rest. sample_le (sg_hash s, t) k"
    using Cons.prems(4) by (auto simp: sorted_wrt_append)
  have IH: "tiles (row + length (sg_times s)) (off + length (encoded fo s)) (Some (sg_hash s, last (sg_times s)))
        (metas fo (row + length (sg_times s)) (off + length (encoded fo s)) ss)
      \<and> row_total (metas fo (row + length (sg_times s)) (off + length (encoded fo s)) ss) = seg_rows ss
      \<and> byte_total (metas fo (row + length (sg_times s)) (off + length (encoded fo s)) ss) = length (seg_out fo ss)"
    using Cons.prems(1-3) srt ts(1) by (intro Cons.IH) (auto simp: is_none_or_def)
  have first: "is_none_or (\<lambda>p. sample_le p (sg_hash s, hd (sg_times s))) prev"
    using Cons.prems(5) ts(1) by (auto simp: is_none_or_def split: option.splits)
  have one: "length (sg_times s) = 1 \<Longrightarrow> hd (sg_times s) = last (sg_times s)"
    by (cases "sg_times s") auto
  have u: "unat (of_nat row :: u64) = row" "unat (of_nat off :: u64) = off"
    using Cons.prems(2,3) by (simp_all add: unat_of_nat)
  show ?case
    using IH first one ts small rows enc(2,3) u ordered_hd_last [OF ts(2,1)]
    by (simp add: seg_meta_def)
qed simp

lemma winv_sorted: "winv fo ss rs w \<Longrightarrow> sorted_wrt sample_le (map row_key rs)"
  by (simp add: winv_def)

lemma winv_samples:
  "winv fo ss rs w \<Longrightarrow> map sample_of rs = concat (map seg_samples ss)
     @ samples (sr_hash (last rs)) (sr_labels (last rs)) (mw_timestamps w) (mw_values w)"
  by (simp add: winv_def)

lemma winv_tiles:
  assumes "winv fo ss rs w" "50 * length rs < 2 ^ 64"
  shows "tiles 0 0 None (mw_blocks w)" "row_total (mw_blocks w) = seg_rows ss"
    "byte_total (mw_blocks w) = length (mw_output w)"
proof -
  let ?keys = "\<lambda>ss. concat (map (\<lambda>s. map (Pair (sg_hash s)) (sg_times s)) ss)"
  have ok: "\<forall>s \<in> set ss. seg_ok s" using assms(1) by (simp add: winv_def)
  then have "map (\<lambda>(h, ls, t, b). (h, t)) (concat (map seg_samples ss)) = ?keys ss"
    by (induction ss) (simp_all add: seg_samples_keys)
  moreover have "sorted_wrt sample_le (map (\<lambda>(h, ls, t, b). (h, t)) (concat (map seg_samples ss)
      @ samples (sr_hash (last rs)) (sr_labels (last rs)) (mw_timestamps w) (mw_values w)))"
    using winv_sorted [OF assms(1)] unfolding row_keys_of_samples winv_samples [OF assms(1)] .
  ultimately have "sorted_wrt sample_le (?keys ss)" by (simp add: sorted_wrt_append)
  moreover have "length (seg_out fo ss) < 2 ^ 64" "seg_rows ss < 2 ^ 64"
    using assms winv_rows [OF assms(1)] by (auto simp: winv_def)
  ultimately have "tiles 0 0 None (metas fo 0 0 ss) \<and> row_total (metas fo 0 0 ss) = seg_rows ss
     \<and> byte_total (metas fo 0 0 ss) = length (seg_out fo ss)"
    using ok by (intro metas_tiles) (simp_all add: is_none_or_def)
  then show "tiles 0 0 None (mw_blocks w)" "row_total (mw_blocks w) = seg_rows ss"
    "byte_total (mw_blocks w) = length (mw_output w)"
    using assms(1) by (simp_all add: winv_def)
qed

section \<open>Reading back\<close>

text \<open>What a query does with one block: the entry of the directory, the bytes of its range, the samples.\<close>

definition slice :: "bytes \<Rightarrow> u64 \<times> u64 \<Rightarrow> bytes" where
  "slice file r = take (unat (snd r) - unat (fst r)) (drop (unat (fst r)) file)"

definition read_block :: "f64_ops \<Rightarrow> bytes \<Rightarrow> block_directory \<Rightarrow> string option list \<Rightarrow> nat \<Rightarrow> (sample list, string) result" where
  "read_block fo file d ls i =
     (case directory_block d i of
        None \<Rightarrow> Err ''validated block row span''
      | Some b \<Rightarrow> rbind (decode_block fo (slice file (block_range b)) b) (\<lambda>(ts, bits). Ok (samples (bm_hash b) ls ts bits)))"

lemma metas_nth:
  "i < length ss \<Longrightarrow>
     metas fo row off ss ! i = seg_meta fo (row + seg_rows (take i ss)) (off + length (seg_out fo (take i ss))) (ss ! i)"
proof (induction ss arbitrary: row off i)
  case (Cons s ss)
  then show ?case by (cases i) (simp_all add: add.assoc)
qed simp

lemma read_block_segment:
  assumes ok: "\<forall>s \<in> set ss. seg_ok s" and i: "i < length ss" and size: "length (seg_out fo ss) < 2 ^ 64" "seg_rows ss < 2 ^ 64"
    and t: "tiles 0 0 None (metas fo 0 0 ss)" "row_total (metas fo 0 0 ss) = seg_rows ss"
      "byte_total (metas fo 0 0 ss) = length (seg_out fo ss)"
  shows "read_block fo (seg_out fo ss @ rest)
      \<lparr>bd_entries = map pack_block (metas fo 0 0 ss), bd_rows = of_nat (seg_rows ss), bd_blocks_end = of_nat (length (seg_out fo ss))\<rparr>
      (sg_labels (ss ! i)) i = Ok (seg_samples (ss ! i))"
proof -
  let ?s = "ss ! i" let ?b = "metas fo 0 0 ss ! i"
  have s: "seg_ok ?s" using ok i by simp
  note enc = encoded_ok [OF s, where fo = fo] and small = encoded_small(1,2) [OF s, where fo = fo]
    and rows = encoded_small(3) [OF s]
  have b: "?b = seg_meta fo (seg_rows (take i ss)) (length (seg_out fo (take i ss))) ?s" using metas_nth [OF i] by simp
  have split: "seg_out fo ss = seg_out fo (take i ss) @ encoded fo ?s @ seg_out fo (drop (Suc i) ss)"
    using id_take_nth_drop [OF i] by (metis seg_list_simps(5,6))
  then have len: "length (seg_out fo (take i ss)) + length (encoded fo ?s) < 2 ^ 64"
    using size(1) by (metis length_append add.assoc add_lessD1)
  then have "unat (of_nat (length (seg_out fo (take i ss))) :: u64) = length (seg_out fo (take i ss))" by (simp add: unat_of_nat)
  then have range: "unat (fst (block_range ?b)) = length (seg_out fo (take i ss))"
      "unat (snd (block_range ?b)) = length (seg_out fo (take i ss)) + length (encoded fo ?s)"
    using len small(2) by (simp_all add: block_range_def b seg_meta_def unat_word_ariths)
  have "seg_out fo ss @ rest = seg_out fo (take i ss) @ encoded fo ?s @ (seg_out fo (drop (Suc i) ss) @ rest)"
    by (subst split) simp
  then have slice: "slice (seg_out fo ss @ rest) (block_range ?b) = encoded fo ?s"
    unfolding slice_def range by simp
  have "directory_block \<lparr>bd_entries = map pack_block (metas fo 0 0 ss), bd_rows = of_nat (seg_rows ss),
      bd_blocks_end = of_nat (length (seg_out fo ss))\<rparr> i = Some ?b"
    using t size i by (intro directory_block_pack) (simp_all add: unat_of_nat)
  moreover have "describes ?b (sg_times ?s) (encoded fo ?s)"
    using rows small(2) by (simp add: describes_def b seg_meta_def)
  moreover have "sg_times ?s \<noteq> []" "length (sg_times ?s) \<le> MAX_BLOCK_ROWS" using s by (simp_all add: seg_ok_def)
  then have "0 < unat (bm_row_count ?b)" "unat (bm_row_count ?b) \<le> MAX_BLOCK_ROWS"
    using rows by (simp_all add: b seg_meta_def)
  moreover have "bm_hash ?b = sg_hash ?s" by (simp add: b seg_meta_def)
  ultimately show ?thesis
    using enc(4) slice by (simp add: read_block_def decode_block_inner seg_samples_def)
qed

lemma writer_finish_winv:
  assumes inv: "winv fo ss rs w" and size: "50 * length rs < 2 ^ 64" and rs: "rs \<noteq> []"
    and parent: "pm_rows parent = of_nat (length rs)" "pm_compressed_size parent > 0" "row_group_size \<noteq> Some 0"
  obtains ss' w' where "writer_finish fo parent True row_group_size w = (Ok (directory_columns (mw_blocks w'), length (mw_blocks w')), w')"
    "mw_blocks w' = metas fo 0 0 ss'" "mw_output w' = seg_out fo ss'" "mw_labels w' = map sg_labels ss'"
    "winv fo ss' rs (w'\<lparr>mw_current_labels := sr_labels (last rs)\<rparr>)" "seg_rows ss' = length rs"
    "map sample_of rs = concat (map seg_samples ss')"
proof -
  define w1 where "w1 = (if mw_timestamps w = [] then w else flushed fo rs w)"
  obtain ss' where inv1: "winv fo ss' rs w1" and fl: "flush_block fo w = (Ok (), w1)" and e: "mw_timestamps w1 = []"
    using inv flush_block_winv [OF inv _ size]
    by (cases "mw_timestamps w = []") (auto simp: w1_def flush_block_def flushed_def Let_def)
  let ?w = "w1\<lparr>mw_current_labels := []\<rparr>"
  have rows: "seg_rows ss' = length rs" using winv_rows [OF inv1] e by simp
  then have "ss' \<noteq> []" using rs by auto
  then have ne: "mw_blocks w1 \<noteq> []" using inv1 length_metas [of fo 0 0 ss'] by (auto simp: winv_def simp del: length_metas)
  have pos: "0 < pm_rows parent"
    using parent(1) rs size by (simp add: word_less_nat_alt unat_of_nat)
  have "writer_finish fo parent True row_group_size w = (Ok (directory_columns (mw_blocks ?w), length (mw_blocks ?w)), ?w)"
    using inv fl ne pos parent by (simp add: writer_finish_def wbind_def wlift_def wmod_def winv_def)
  moreover have "?w\<lparr>mw_current_labels := sr_labels (last rs)\<rparr> = w1" using inv1 rs by (simp add: winv_def)
  ultimately show ?thesis
    using that [of ?w ss'] inv1 rows e by (simp add: winv_def samples_def)
qed

text \<open>
  C6. A metrics index holds exactly the rows written into it: whatever the floating-point unit computes,
  a writer into a sink that does not fail, given batches of rows in series order with one set of labels
  per series, accepts them all, and the directory columns it finishes with decode to a directory whose blocks, each read from
  its byte range, give back every row in order: hash, labels, timestamp and value bits, a NULL as
  the stale marker. (Bounded only by the 64-bit file offset.)
\<close>

theorem written_rows_read_back:
  assumes new: "writer_new cols append_sink max_block_rows = Ok w"
    and batches: "\<forall>b \<in> set bs. batch_ok b" "rows_ok [] (concat (map ba_rows bs))" "concat (map ba_rows bs) \<noteq> []"
    and size: "50 * length (concat (map ba_rows bs)) < 2 ^ 64"
    and parent: "pm_rows parent = of_nat (length (concat (map ba_rows bs)))" "pm_compressed_size parent > 0" "row_group_size \<noteq> Some 0"
  shows "\<exists>w1 w2 columns count d blocks.
      write_batches fo bs w = (Ok (), w1)
    \<and> writer_finish fo parent True row_group_size w1 = (Ok (columns, count), w2)
    \<and> decode_directory columns count (pm_rows parent) (of_nat (length (mw_output w2))) = Ok d
    \<and> length blocks = count
    \<and> (\<forall>i < count. read_block fo (mw_output w2 @ rest) d (mw_labels w2 ! i) i = Ok (blocks ! i))
    \<and> concat blocks = map sample_of (concat (map ba_rows bs))"
proof -
  let ?rs = "concat (map ba_rows bs)"
  obtain ss w1 where w1: "write_batches fo bs w = (Ok (), w1)" "winv fo ss ?rs w1"
    using write_batches_exact [OF writer_new_winv [OF new], of bs fo] batches size by auto
  obtain ss' w2 where f: "writer_finish fo parent True row_group_size w1 = (Ok (directory_columns (mw_blocks w2), length (mw_blocks w2)), w2)"
    "mw_blocks w2 = metas fo 0 0 ss'" "mw_output w2 = seg_out fo ss'" "mw_labels w2 = map sg_labels ss'"
    "winv fo ss' ?rs (w2\<lparr>mw_current_labels := sr_labels (last ?rs)\<rparr>)" "seg_rows ss' = length ?rs"
    "map sample_of ?rs = concat (map seg_samples ss')"
    using writer_finish_winv [OF w1(2) size batches(3) parent] by metis
  have t: "tiles 0 0 None (metas fo 0 0 ss')" "row_total (metas fo 0 0 ss') = seg_rows ss'"
    "byte_total (metas fo 0 0 ss') = length (seg_out fo ss')"
    using winv_tiles [OF f(5) size] by (simp_all add: f(2,3))
  have ok: "\<forall>s \<in> set ss'. seg_ok s" and out: "length (seg_out fo ss') < 2 ^ 64"
    using f(5) size by (simp_all add: winv_def)
  have rows: "seg_rows ss' < 2 ^ 64" using f(6) size by simp
  let ?d = "\<lparr>bd_entries = map pack_block (metas fo 0 0 ss'), bd_rows = of_nat (seg_rows ss'),
      bd_blocks_end = of_nat (length (seg_out fo ss'))\<rparr>"
  have d: "decode_directory (directory_columns (mw_blocks w2)) (length (mw_blocks w2)) (pm_rows parent)
      (of_nat (length (mw_output w2))) = Ok ?d"
    using decode_directory_columns [OF t(1)] t(2,3) out rows parent(1) f(2,3,6) by (simp add: unat_of_nat)
  have "\<forall>i < length ss'. read_block fo (mw_output w2 @ rest) ?d (mw_labels w2 ! i) i = Ok (map seg_samples ss' ! i)"
    using read_block_segment [OF ok _ out rows t] by (simp add: f(3,4))
  then show ?thesis
    using w1(1) f(1,2,7) d by (intro exI [of _ w1] exI [of _ w2] exI [of _ "map seg_samples ss'"] exI) auto
qed

definition example_row :: "u64 \<Rightarrow> i64 \<Rightarrow> u64 option \<Rightarrow> sample_row" where
  "example_row h t v = \<lparr>sr_hash = h, sr_time = t, sr_value = v, sr_labels = [Some ''api'']\<rparr>"

definition example_batch :: batch where
  "example_batch = \<lparr>ba_schema_matches = True, ba_null_keys = False,
     ba_rows = [example_row 1 10 (Some 5), example_row 1 20 None, example_row 1 20 (Some 6), example_row 4 (- 3) (Some 5)]\<rparr>"

lemma example_batch_ok:
  "batch_ok example_batch" "rows_ok [] (ba_rows example_batch)" "length (ba_rows example_batch) = 4"
  by (simp_all add: example_batch_def batch_ok_def example_row_def row_ok_def row_key_def sample_le_def)

theorem written_rows_read_back_witness:
  "\<exists>w w1 w2 columns count d blocks.
      writer_new (Ok ()) append_sink 2 = Ok w \<and> write_batches opaque_f64 [example_batch] w = (Ok (), w1)
    \<and> writer_finish opaque_f64 \<lparr>pm_rows = 4, pm_compressed_size = 100\<rparr> True None w1 = (Ok (columns, count), w2)
    \<and> decode_directory columns count 4 (of_nat (length (mw_output w2))) = Ok d
    \<and> (\<forall>i < count. read_block opaque_f64 (mw_output w2) d (mw_labels w2 ! i) i = Ok (blocks ! i))
    \<and> concat blocks = map sample_of (ba_rows example_batch)"
proof -
  obtain w where w: "writer_new (Ok ()) append_sink 2 = Ok w" by (simp add: writer_new_def MAX_BLOCK_ROWS_def)
  have ne: "ba_rows example_batch \<noteq> []" using example_batch_ok(3) by auto
  show ?thesis
    using written_rows_read_back [OF w, of "[example_batch]" "\<lparr>pm_rows = 4, pm_compressed_size = 100\<rparr>" None opaque_f64 "[]"]
      example_batch_ok ne w by auto
qed

text \<open>
  Into a sink that does not fail the writer takes exactly what it can store: a run of batches
  succeeds exactly when each has the writer's schema and non-null keys, the rows never step back in
  hash and time, and no label changes within one series.
\<close>

theorem writer_accepts_exactly:
  assumes "writer_new cols append_sink max_block_rows = Ok w" "50 * length (concat (map ba_rows bs)) < 2 ^ 64"
  shows "fst (write_batches fo bs w) = Ok () \<longleftrightarrow> (\<forall>b \<in> set bs. batch_ok b) \<and> rows_ok [] (concat (map ba_rows bs))"
  using write_batches_exact [OF writer_new_winv [OF assms(1)], of bs fo] assms(2) by (auto split: if_splits)

text \<open>
  Whatever failed, the sink included, it fails for good: after a refusal every further write and
  the final write are refused too, so no partial index is ever finished.
\<close>

theorem refusal_is_final:
  assumes "write_batches fo bs w = (r, w')" "r \<noteq> Ok ()"
  shows "write_batch fo b w' = (Err ''writer is poisoned by an earlier failure'', w')
     \<and> writer_finish fo parent sm rgs w' = (Err ''writer is poisoned'', w')"
proof -
  have "write_batches fo bs w = (r, w') \<Longrightarrow> r \<noteq> Ok () \<Longrightarrow> mw_failed w'" for w
  proof (induction bs arbitrary: w)
    case (Cons b bs)
    have "write_batch fo b w = (r1, w1) \<Longrightarrow> r1 \<noteq> Ok () \<Longrightarrow> mw_failed w1" for r1 w1
      by (auto simp: write_batch_def split: if_splits prod.splits sum.splits)
    then show ?case using Cons by (auto simp: wbind_def split: prod.splits sum.splits)
  qed simp
  then show ?thesis
    using assms by (simp add: write_batch_def writer_finish_def wbind_def wlift_def)
qed

end
