(* ===== verification/Alert_Level.thy ===== *)
theory Alert_Level
  imports OO_Strings Complex_Main "HOL-Library.Log_Nat"
begin

text \<open>
  Levels of an alert evaluation (\<open>src/config/src/meta/alerts/level.rs\<close>): classification against a
  critical and a warning threshold, validation of the pair, the number of rows a search must fetch
  and the decision to deliver. \<open>f64\<close> is a real number, an infinity or a NaN with the comparisons of
  IEEE 754; the conversion of an integer rounds to nearest, ties to even, at 53 bits.
\<close>

section \<open>Floating point\<close>

datatype f64 = NaN | NegInf | Fin real | PosInf

fun f64_lt :: "f64 \<Rightarrow> f64 \<Rightarrow> bool" where
  "f64_lt (Fin a) (Fin b) = (a < b)"
| "f64_lt NegInf (Fin b) = True"
| "f64_lt NegInf PosInf = True"
| "f64_lt (Fin a) PosInf = True"
| "f64_lt _ _ = False"

definition f64_eq :: "f64 \<Rightarrow> f64 \<Rightarrow> bool" where
  "f64_eq a b \<longleftrightarrow> a = b \<and> a \<noteq> NaN"

definition f64_le :: "f64 \<Rightarrow> f64 \<Rightarrow> bool" where
  "f64_le a b \<longleftrightarrow> f64_lt a b \<or> f64_eq a b"

definition round_even53 :: "nat \<Rightarrow> nat" where
  "round_even53 n =
     (let e = floorlog 2 n - 53; q = n div 2 ^ e; r = n mod 2 ^ e
      in (if 2 * r > 2 ^ e \<or> (2 * r = 2 ^ e \<and> odd q) then q + 1 else q) * 2 ^ e)"

definition as_f64 :: "int \<Rightarrow> f64" where
  "as_f64 i = Fin (of_int (sgn i * int (round_even53 (nat \<bar>i\<bar>))))"

text \<open>\<open>f64::max\<close> and \<open>f64::min\<close> prefer a number to a NaN.\<close>

definition f64_max :: "f64 \<Rightarrow> f64 \<Rightarrow> f64" where
  "f64_max a b = (if a = NaN then b else if b = NaN then a else if f64_lt a b then b else a)"

definition f64_min :: "f64 \<Rightarrow> f64 \<Rightarrow> f64" where
  "f64_min a b = (if a = NaN then b else if b = NaN then a else if f64_lt b a then b else a)"

section \<open>Operators and trigger conditions\<close>

datatype operator = EqualTo | NotEqualTo | GreaterThan | GreaterThanEquals | LessThan | LessThanEquals
  | Contains | NotContains | IsNull | IsNotNull | IsEmpty | IsNotEmpty

datatype frequency_type = Cron | Minutes

record trigger_condition =
  tc_period :: int
  tc_operator :: operator
  tc_threshold :: int
  tc_warning_threshold :: "int option"
  tc_notify_on_warning :: "bool option"
  tc_frequency :: int
  tc_cron :: string
  tc_frequency_type :: frequency_type
  tc_silence :: int
  tc_timezone :: "string option"
  tc_tolerance_in_secs :: "int option"
  tc_align_time :: bool

section \<open>Levels\<close>

datatype alert_level = LOk | LWarning | LCritical | LNoData

fun level_to_i32 :: "alert_level \<Rightarrow> int" where
  "level_to_i32 LOk = 0"
| "level_to_i32 LWarning = 1"
| "level_to_i32 LCritical = 2"
| "level_to_i32 LNoData = 3"

definition level_from_i32 :: "int \<Rightarrow> alert_level option" where
  "level_from_i32 v =
     (if v = 0 then Some LOk else if v = 1 then Some LWarning else if v = 2 then Some LCritical
      else if v = 3 then Some LNoData else None)"

fun severity_rank :: "alert_level \<Rightarrow> nat" where
  "severity_rank LOk = 0"
| "severity_rank LNoData = 1"
| "severity_rank LWarning = 2"
| "severity_rank LCritical = 3"

definition level_is_firing :: "alert_level \<Rightarrow> bool" where
  "level_is_firing l \<longleftrightarrow> l = LWarning \<or> l = LCritical"

definition most_severe :: "alert_level list \<Rightarrow> alert_level option" where
  "most_severe ls = max_by (\<lambda>a b. cmp (severity_rank a) (severity_rank b)) ls"

fun level_as_str :: "alert_level \<Rightarrow> string" where
  "level_as_str LOk = ''ok''"
| "level_as_str LWarning = ''warning''"
| "level_as_str LCritical = ''critical''"
| "level_as_str LNoData = ''no_data''"

lemma level_from_to: "level_from_i32 (level_to_i32 l) = Some l"
  by (cases l) (simp_all add: level_from_i32_def)

interpretation level: durable_enum level_to_i32 level_from_i32 level_as_str
proof
  fix x y :: alert_level and v
  show "level_from_i32 (level_to_i32 x) = Some x" by (rule level_from_to)
  show "level_from_i32 v = Some x \<Longrightarrow> level_to_i32 x = v" by (auto simp: level_from_i32_def split: if_splits)
  show "level_as_str x = level_as_str y \<Longrightarrow> x = y" by (cases x; cases y) simp_all
qed

section \<open>Classification\<close>

datatype threshold_error = WarningNotLessSevere | OperatorNotOrderable operator

datatype direction = DGreater | DLess | DUnordered

definition direction :: "operator \<Rightarrow> direction" where
  "direction op =
     (case op of GreaterThan \<Rightarrow> DGreater | GreaterThanEquals \<Rightarrow> DGreater
      | LessThan \<Rightarrow> DLess | LessThanEquals \<Rightarrow> DLess | _ \<Rightarrow> DUnordered)"

definition compare :: "f64 \<Rightarrow> operator \<Rightarrow> f64 \<Rightarrow> bool" where
  "compare actual op threshold =
     (case op of
        EqualTo \<Rightarrow> f64_eq actual threshold
      | NotEqualTo \<Rightarrow> \<not> f64_eq actual threshold
      | GreaterThan \<Rightarrow> f64_lt threshold actual
      | GreaterThanEquals \<Rightarrow> f64_le threshold actual
      | LessThan \<Rightarrow> f64_lt actual threshold
      | LessThanEquals \<Rightarrow> f64_le actual threshold
      | _ \<Rightarrow> False)"

definition evaluate_level_values :: "f64 \<Rightarrow> operator \<Rightarrow> f64 \<Rightarrow> f64 option \<Rightarrow> alert_level option" where
  "evaluate_level_values actual op critical warning =
     (if compare actual op critical then Some LCritical
      else case warning of
             Some w \<Rightarrow> if compare actual op w then Some LWarning else None
           | None \<Rightarrow> None)"

definition evaluate_level :: "f64 \<Rightarrow> trigger_condition \<Rightarrow> alert_level option" where
  "evaluate_level actual tc =
     evaluate_level_values actual (tc_operator tc) (as_f64 (tc_threshold tc)) (map_option as_f64 (tc_warning_threshold tc))"

definition level_for_successful_evaluation :: "alert_level option \<Rightarrow> alert_level" where
  "level_for_successful_evaluation matched = (case matched of Some l \<Rightarrow> l | None \<Rightarrow> LOk)"

definition level_for_completed_evaluation :: "bool \<Rightarrow> alert_level option \<Rightarrow> alert_level option" where
  "level_for_completed_evaluation frozen matched =
     (if frozen then None else Some (level_for_successful_evaluation matched))"

section \<open>Delivery\<close>

datatype delivery_decision = Deliver | DeliverEscalation | SuppressedBySilence | SuppressedByWarningPolicy
  | NotFiring | SuppressedByPending | SuppressedByDowntime string

definition should_deliver :: "delivery_decision \<Rightarrow> bool" where
  "should_deliver d \<longleftrightarrow> d = Deliver \<or> d = DeliverEscalation"

definition resets_silence :: "delivery_decision \<Rightarrow> bool" where
  "resets_silence d = should_deliver d"

definition downtime_id :: "delivery_decision \<Rightarrow> string option" where
  "downtime_id d = (case d of SuppressedByDowntime i \<Rightarrow> Some i | _ \<Rightarrow> None)"

definition delivery_decision :: "alert_level \<Rightarrow> alert_level option \<Rightarrow> int option \<Rightarrow> int \<Rightarrow> bool option \<Rightarrow> delivery_decision" where
  "delivery_decision level last_notified silenced_until now notify_on_warning =
     (if \<not> level_is_firing level then NotFiring
      else if level = LWarning \<and> \<not> (case notify_on_warning of Some b \<Rightarrow> b | None \<Rightarrow> True) then SuppressedByWarningPolicy
      else
        (let escalated = (case last_notified of None \<Rightarrow> True | Some prev \<Rightarrow> severity_rank level > severity_rank prev);
             silenced = (case silenced_until of None \<Rightarrow> False | Some until \<Rightarrow> now < until)
         in case (silenced, escalated) of
              (True, True) \<Rightarrow> DeliverEscalation
            | (True, False) \<Rightarrow> SuppressedBySilence
            | (False, True) \<Rightarrow> DeliverEscalation
            | (False, False) \<Rightarrow> Deliver))"

section \<open>Sizing a search\<close>

definition PAYLOAD_SAMPLE_ROWS :: int where "PAYLOAD_SAMPLE_ROWS = 100"

datatype evaluation_strategy = SingleQuery int | CountPlusSample int

definition sentinel :: "operator \<Rightarrow> int \<Rightarrow> int" where
  "sentinel op threshold =
     (case op of
        GreaterThan \<Rightarrow> saturating_add threshold 1
      | EqualTo \<Rightarrow> saturating_add threshold 1
      | NotEqualTo \<Rightarrow> saturating_add threshold 1
      | LessThanEquals \<Rightarrow> saturating_add threshold 1
      | GreaterThanEquals \<Rightarrow> threshold
      | LessThan \<Rightarrow> threshold
      | _ \<Rightarrow> 0)"

definition required_search_size :: "trigger_condition \<Rightarrow> int" where
  "required_search_size tc =
     (let size = sentinel (tc_operator tc) (tc_threshold tc);
          size = (case tc_warning_threshold tc of
                    Some w \<Rightarrow> max size (sentinel (tc_operator tc) w)
                  | None \<Rightarrow> size)
      in max size 100)"

definition evaluation_strategy :: "trigger_condition \<Rightarrow> int \<Rightarrow> evaluation_strategy" where
  "evaluation_strategy tc cutoff =
     (let size = required_search_size tc
      in if size \<le> max cutoff 100 then SingleQuery size else CountPlusSample PAYLOAD_SAMPLE_ROWS)"

definition count_query_sql :: "string \<Rightarrow> string" where
  "count_query_sql sql =
     (let sql = trim_end (trim_end_char (trim sql) CHR '';'')
      in ''SELECT COUNT(*) AS zo_alert_count FROM ('' @ sql @ '') AS zo_alert_subquery'')"

definition f64_partial_cmp :: "f64 \<Rightarrow> f64 \<Rightarrow> ordering" where
  "f64_partial_cmp a b = (if f64_lt a b then Less else if f64_lt b a then Greater else Equal)"

fun min_by_from :: "('a \<Rightarrow> 'a \<Rightarrow> ordering) \<Rightarrow> 'a \<Rightarrow> 'a list \<Rightarrow> 'a" where
  "min_by_from c m [] = m"
| "min_by_from c m (x # xs) = min_by_from c (if c m x = Greater then x else m) xs"

fun min_by :: "('a \<Rightarrow> 'a \<Rightarrow> ordering) \<Rightarrow> 'a list \<Rightarrow> 'a option" where
  "min_by c [] = None"
| "min_by c (x # xs) = Some (min_by_from c x xs)"

definition worst_observed_value :: "f64 list \<Rightarrow> operator \<Rightarrow> f64 option" where
  "worst_observed_value values op =
     (if op = LessThan \<or> op = LessThanEquals then min_by f64_partial_cmp values else max_by f64_partial_cmp values)"

section \<open>Validation\<close>

definition validate_thresholds_f64 :: "operator \<Rightarrow> f64 \<Rightarrow> f64 option \<Rightarrow> (unit, threshold_error) result" where
  "validate_thresholds_f64 op critical warning =
     (case warning of
        None \<Rightarrow> Ok ()
      | Some w \<Rightarrow>
          (case direction op of
             DGreater \<Rightarrow> if f64_lt w critical then Ok () else Err WarningNotLessSevere
           | DLess \<Rightarrow> if f64_lt critical w then Ok () else Err WarningNotLessSevere
           | DUnordered \<Rightarrow> Err (OperatorNotOrderable op)))"

definition validate_thresholds :: "operator \<Rightarrow> int \<Rightarrow> int option \<Rightarrow> (unit, threshold_error) result" where
  "validate_thresholds op critical warning = validate_thresholds_f64 op (as_f64 critical) (map_option as_f64 warning)"

section \<open>Conversion of integers\<close>

lemma f64_lt_cases:
  "f64_lt a b \<longleftrightarrow> (case a of NaN \<Rightarrow> False | PosInf \<Rightarrow> False | NegInf \<Rightarrow> b \<noteq> NaN \<and> b \<noteq> NegInf
     | Fin x \<Rightarrow> (case b of Fin y \<Rightarrow> x < y | PosInf \<Rightarrow> True | _ \<Rightarrow> False))"
  by (cases a; cases b) auto

lemma f64_lt_trans: "f64_lt a b \<Longrightarrow> f64_lt b c \<Longrightarrow> f64_lt a c"
  by (cases a; cases b; cases c) auto

lemma f64_lt_total: "a \<noteq> NaN \<Longrightarrow> b \<noteq> NaN \<Longrightarrow> \<not> f64_lt a b \<Longrightarrow> a = b \<or> f64_lt b a"
  by (cases a; cases b) auto

lemma f64_lt_irrefl [simp]: "\<not> f64_lt a a"
  by (cases a) auto

lemma f64_lt_NaN: "f64_lt a b \<Longrightarrow> a \<noteq> NaN \<and> b \<noteq> NaN"
  by (cases a; cases b) auto

text \<open>Up to 53 bits the conversion is exact.\<close>

lemma round_even53_small: "n \<le> 2 ^ 53 \<Longrightarrow> round_even53 n = n"
proof (cases "n = 2 ^ 53")
  case True
  have "floorlog 2 (2 ^ 53 :: nat) = 54" using floorlog_power [of 1 2 53] by (simp add: floorlog_def)
  then show ?thesis unfolding True round_even53_def by simp
next
  case False
  moreover assume "n \<le> 2 ^ 53"
  ultimately have "n < 2 ^ 53" by simp
  then have "floorlog 2 n \<le> 53" by (simp add: floorlog_le_iff)
  then have "floorlog 2 n - 53 = 0" by simp
  then show ?thesis by (simp add: round_even53_def)
qed

lemma as_f64_exact: "\<bar>i\<bar> \<le> 2 ^ 53 \<Longrightarrow> as_f64 i = Fin (of_int i)"
proof -
  assume "\<bar>i\<bar> \<le> 2 ^ 53"
  then have "nat \<bar>i\<bar> \<le> 2 ^ 53" by (simp add: nat_le_iff)
  then show ?thesis by (simp add: as_f64_def round_even53_small) (metis mult.commute abs_mult_sgn of_int_abs of_int_mult)
qed

lemma as_f64_compare:
  assumes "\<bar>a\<bar> \<le> 2 ^ 53" "\<bar>b\<bar> \<le> 2 ^ 53"
  shows "compare (as_f64 a) op (as_f64 b) =
    (case op of EqualTo \<Rightarrow> a = b | NotEqualTo \<Rightarrow> a \<noteq> b | GreaterThan \<Rightarrow> b < a | GreaterThanEquals \<Rightarrow> b \<le> a
     | LessThan \<Rightarrow> a < b | LessThanEquals \<Rightarrow> a \<le> b | _ \<Rightarrow> False)"
  by (cases op) (auto simp: compare_def as_f64_exact [OF assms(1)] as_f64_exact [OF assms(2)] f64_le_def f64_eq_def)

section \<open>The fetched rows decide\<close>

lemma sentinel_decides:
  assumes n: "0 \<le> n" "n \<le> 2 ^ 53" and t: "\<bar>t\<bar> < 2 ^ 53"
    and s: "sentinel op t \<le> s" "0 \<le> s"
  shows "compare (as_f64 (min n s)) op (as_f64 t) = compare (as_f64 n) op (as_f64 t)"
proof -
  have "saturating_add t 1 = t + 1" using t by (auto simp: i64_defs)
  moreover have "\<bar>min n s\<bar> \<le> 2 ^ 53" "\<bar>n\<bar> \<le> 2 ^ 53" "\<bar>t\<bar> \<le> 2 ^ 53" using n t s by auto
  ultimately show ?thesis using s(1)
    by (simp only: as_f64_compare) (cases op; simp add: sentinel_def min_def)
qed

lemma required_search_size_ge:
  "sentinel (tc_operator tc) (tc_threshold tc) \<le> required_search_size tc"
  "tc_warning_threshold tc = Some w \<Longrightarrow> sentinel (tc_operator tc) w \<le> required_search_size tc"
  "100 \<le> required_search_size tc"
  by (auto simp: required_search_size_def Let_def split: option.splits)

text \<open>
  Fetching no more than \<open>required_search_size\<close> rows classifies as fetching them all would: for
  every operator, a critical threshold and an optional warning threshold below 2^53 in magnitude and
  any number of matching rows up to 2^53, the level computed from the truncated row count is the level
  computed from the true count.
\<close>

theorem search_size_classifies:
  assumes "0 \<le> n" "n \<le> 2 ^ 53" "\<bar>tc_threshold tc\<bar> < 2 ^ 53"
    and "\<forall>w. tc_warning_threshold tc = Some w \<longrightarrow> \<bar>w\<bar> < 2 ^ 53"
  shows "evaluate_level (as_f64 (min n (required_search_size tc))) tc = evaluate_level (as_f64 n) tc"
proof -
  have "0 \<le> required_search_size tc" using required_search_size_ge(3) [of tc] by simp
  note dec = sentinel_decides [OF assms(1,2) _ _ this]
  show ?thesis
    using dec [OF assms(3) required_search_size_ge(1)] dec [OF _ required_search_size_ge(2)] assms(4)
    by (cases "tc_warning_threshold tc") (simp_all add: evaluate_level_def evaluate_level_values_def)
qed

definition tc_example :: trigger_condition where
  "tc_example =
     \<lparr>tc_period = 10, tc_operator = GreaterThan, tc_threshold = 250, tc_warning_threshold = Some 100,
      tc_notify_on_warning = None, tc_frequency = 60, tc_cron = [], tc_frequency_type = Minutes,
      tc_silence = 5, tc_timezone = None, tc_tolerance_in_secs = None, tc_align_time = True\<rparr>"

theorem search_size_classifies_witness:
  "required_search_size tc_example = 251 \<and>
   evaluate_level (as_f64 (min 1000 (required_search_size tc_example))) tc_example = evaluate_level (as_f64 1000) tc_example"
  by (intro conjI search_size_classifies) (simp_all add: tc_example_def required_search_size_def sentinel_def i64_defs Let_def)

section \<open>Validated pairs\<close>

lemma warning_reached_at_a_threshold:
  assumes "c \<noteq> NaN" "direction op \<noteq> DUnordered"
  shows "validate_thresholds_f64 op c (Some w) = Ok () \<longleftrightarrow>
    (\<exists>a. evaluate_level_values a op c (Some w) = Some LWarning)" (is "?l \<longleftrightarrow> ?r")
proof
  assume ?l
  then have "evaluate_level_values (if op = GreaterThan \<or> op = LessThan then c else w) op c (Some w) = Some LWarning"
    using assms
    by (cases op) (auto simp: evaluate_level_values_def compare_def direction_def validate_thresholds_f64_def
          f64_le_def f64_eq_def dest: f64_lt_NaN f64_lt_trans split: if_splits)
  then show ?r by blast
next
  assume ?r
  then show ?l using assms
    by (cases op) (auto simp: evaluate_level_values_def compare_def direction_def validate_thresholds_f64_def
          f64_le_def f64_eq_def dest: f64_lt_NaN f64_lt_trans f64_lt_total split: if_splits)
qed

text \<open>
  C40. A pair of thresholds is accepted exactly when it makes sense: the operator orders severities, some
  observed value is classified as a warning, and every value that is critical also meets the warning
  threshold. The critical threshold is any \<open>f64\<close>, infinities included, other than NaN.
\<close>

theorem validate_thresholds_exact:
  assumes "c \<noteq> NaN"
  shows "validate_thresholds_f64 op c (Some w) = Ok () \<longleftrightarrow>
    direction op \<noteq> DUnordered \<and> (\<exists>a. evaluate_level_values a op c (Some w) = Some LWarning) \<and>
    (\<forall>a. compare a op c \<longrightarrow> compare a op w)"
proof (cases "direction op = DUnordered")
  case True
  then show ?thesis by (simp add: validate_thresholds_f64_def)
next
  case False
  have "compare a op w" if "validate_thresholds_f64 op c (Some w) = Ok ()" "compare a op c" for a
    using that False
    by (cases op) (auto simp: compare_def direction_def validate_thresholds_f64_def f64_le_def f64_eq_def
          dest: f64_lt_trans split: if_splits)
  with False show ?thesis using warning_reached_at_a_threshold [OF assms False] by blast
qed

theorem validate_thresholds_exact_witness:
  "validate_thresholds_f64 LessThan (Fin 10) (Some (Fin 20)) = Ok () \<and>
   (\<exists>a. evaluate_level_values a LessThan (Fin 10) (Some (Fin 20)) = Some LWarning)"
  using validate_thresholds_exact [of "Fin 10" LessThan "Fin 20"] by (simp add: validate_thresholds_f64_def direction_def)

end
