(* ===== verification/Alert_State.thy ===== *)
theory Alert_State
  imports Alert_Level "HOL-Library.Sublist"
begin

text \<open>
  Durable state of an alert (\<open>src/config/src/meta/alerts/state.rs\<close>, the outcomes of
  \<open>src/config/src/meta/self_reporting/usage.rs\<close>) and its firing episodes
  (\<open>src/config/src/meta/alerts/recovery.rs\<close>). \<open>apply_outcome\<close> folds one evaluation into the row and
  emits a transition; \<open>apply_episode\<close> opens an episode with a delivered notification and closes it
  once. The theorems read a whole history: the row says what the history says, the transition log
  chains, and recoveries pair with delivered firings.
\<close>

section \<open>Outcomes\<close>

datatype run_outcome = OFiring | ONormal | OSucceeded | OError | OSkipped | ONotifyFailed | OPending | OSuppressed

definition outcome_is_firing :: "run_outcome \<Rightarrow> bool" where
  "outcome_is_firing o' \<longleftrightarrow> o' = OFiring \<or> o' = ONotifyFailed"

fun outcome_to_i32 :: "run_outcome \<Rightarrow> int" where
  "outcome_to_i32 OFiring = 0"
| "outcome_to_i32 ONormal = 1"
| "outcome_to_i32 OSucceeded = 2"
| "outcome_to_i32 OError = 3"
| "outcome_to_i32 OSkipped = 4"
| "outcome_to_i32 ONotifyFailed = 5"
| "outcome_to_i32 OPending = 6"
| "outcome_to_i32 OSuppressed = 7"

definition outcome_from_i32 :: "int \<Rightarrow> run_outcome option" where
  "outcome_from_i32 v =
     (if v = 0 then Some OFiring else if v = 1 then Some ONormal else if v = 2 then Some OSucceeded
      else if v = 3 then Some OError else if v = 4 then Some OSkipped else if v = 5 then Some ONotifyFailed
      else if v = 6 then Some OPending else if v = 7 then Some OSuppressed else None)"

fun outcome_as_str :: "run_outcome \<Rightarrow> string" where
  "outcome_as_str OFiring = ''firing''"
| "outcome_as_str ONormal = ''normal''"
| "outcome_as_str OSucceeded = ''succeeded''"
| "outcome_as_str OError = ''error''"
| "outcome_as_str OSkipped = ''skipped''"
| "outcome_as_str ONotifyFailed = ''notify_failed''"
| "outcome_as_str OPending = ''pending''"
| "outcome_as_str OSuppressed = ''suppressed''"

lemma outcome_from_to: "outcome_from_i32 (outcome_to_i32 o') = Some o'"
  by (cases o') (simp_all add: outcome_from_i32_def)

interpretation outcome: durable_enum outcome_to_i32 outcome_from_i32 outcome_as_str
proof
  fix x y :: run_outcome and v
  show "outcome_from_i32 (outcome_to_i32 x) = Some x" by (rule outcome_from_to)
  show "outcome_from_i32 v = Some x \<Longrightarrow> outcome_to_i32 x = v" by (auto simp: outcome_from_i32_def split: if_splits)
  show "outcome_as_str x = outcome_as_str y \<Longrightarrow> x = y" by (cases x; cases y) simp_all
qed

fun evaluation_is_measured :: "run_outcome \<Rightarrow> bool" where
  "evaluation_is_measured OFiring = True"
| "evaluation_is_measured ONormal = True"
| "evaluation_is_measured ONotifyFailed = True"
| "evaluation_is_measured OSuppressed = True"
| "evaluation_is_measured OError = False"
| "evaluation_is_measured OSkipped = False"
| "evaluation_is_measured OSucceeded = False"
| "evaluation_is_measured OPending = False"

section \<open>The state row\<close>

definition ROLLUP_GROUP_KEY :: string where "ROLLUP_GROUP_KEY = []"

record alert_state =
  as_alert_id :: string
  as_group_key :: string
  as_last_outcome :: "run_outcome option"
  as_last_outcome_at :: "int option"
  as_since :: "int option"
  as_level :: "alert_level option"
  as_level_since :: "int option"
  as_level_at :: "int option"
  as_last_seen :: "int option"
  as_group_labels :: "string option"
  as_groups_observed :: "nat option"
  as_groups_firing :: "nat option"
  as_groups_observed_is_lower_bound :: "bool option"
  as_groups_firing_is_lower_bound :: "bool option"
  as_silenced_until :: "int option"
  as_last_notified_level :: "alert_level option"
  as_episode_id :: "string option"
  as_episode_opened_at :: "int option"
  as_episode_incident_id :: "string option"
  as_recovering_since :: "int option"

definition alert_state_empty :: "string \<Rightarrow> string \<Rightarrow> alert_state" where
  "alert_state_empty alert_id group_key =
     \<lparr>as_alert_id = alert_id, as_group_key = group_key, as_last_outcome = None, as_last_outcome_at = None,
      as_since = None, as_level = None, as_level_since = None, as_level_at = None, as_last_seen = None,
      as_group_labels = None, as_groups_observed = None, as_groups_firing = None,
      as_groups_observed_is_lower_bound = None, as_groups_firing_is_lower_bound = None,
      as_silenced_until = None, as_last_notified_level = None, as_episode_id = None,
      as_episode_opened_at = None, as_episode_incident_id = None, as_recovering_since = None\<rparr>"

definition alert_state_is_firing :: "alert_state \<Rightarrow> bool" where
  "alert_state_is_firing s = (case as_last_outcome s of Some o' \<Rightarrow> outcome_is_firing o' | None \<Rightarrow> False)"

record state_transition =
  st_alert_id :: string
  st_group_key :: string
  st_from_outcome :: "run_outcome option"
  st_to_outcome :: run_outcome
  st_from_level :: "alert_level option"
  st_to_level :: "alert_level option"
  st_at :: int
  st_value :: "f64 option"
  st_rule_value :: "string option"
  st_group_labels :: "string option"

record state_update =
  su_state :: "alert_state option"
  su_transition :: "state_transition option"

definition state_update_noop :: state_update where
  "state_update_noop = \<lparr>su_state = None, su_transition = None\<rparr>"

definition is_noop :: "state_update \<Rightarrow> bool" where
  "is_noop u \<longleftrightarrow> su_state u = None \<and> su_transition u = None"

definition should_persist :: "run_outcome \<Rightarrow> bool" where
  "should_persist o' \<longleftrightarrow> o' \<noteq> OSkipped"

section \<open>Folding an evaluation\<close>

definition apply_outcome :: "string \<Rightarrow> string \<Rightarrow> alert_state option \<Rightarrow> run_outcome \<Rightarrow> alert_level option \<Rightarrow> int \<Rightarrow> state_update" where
  "apply_outcome alert_id group_key prev outcome level at' =
     (if \<not> should_persist outcome then state_update_noop
      else
        (let previous_outcome = Option.bind prev as_last_outcome;
             outcome_changed = (previous_outcome \<noteq> Some outcome);
             since = (if outcome_changed then Some at'
                      else case Option.bind prev as_since of Some t \<Rightarrow> Some t | None \<Rightarrow> Some at');
             previous_level = Option.bind prev as_level;
             (level, level_since, level_at, level_changed) =
               (case level of
                  None \<Rightarrow> (previous_level, Option.bind prev as_level_since, Option.bind prev as_level_at, False)
                | Some new_level \<Rightarrow>
                    (let changed = (previous_level \<noteq> Some new_level);
                         level_since = (if changed then Some at'
                                        else case Option.bind prev as_level_since of Some t \<Rightarrow> Some t | None \<Rightarrow> Some at')
                     in (Some new_level, level_since, Some at', changed)));
             state = \<lparr>as_alert_id = alert_id, as_group_key = group_key,
                      as_last_outcome = Some outcome, as_last_outcome_at = Some at', as_since = since,
                      as_level = level, as_level_since = level_since, as_level_at = level_at,
                      as_last_seen = Some at',
                      as_group_labels = Option.bind prev as_group_labels,
                      as_groups_observed = Option.bind prev as_groups_observed,
                      as_groups_firing = Option.bind prev as_groups_firing,
                      as_groups_observed_is_lower_bound = Option.bind prev as_groups_observed_is_lower_bound,
                      as_groups_firing_is_lower_bound = Option.bind prev as_groups_firing_is_lower_bound,
                      as_silenced_until = Option.bind prev as_silenced_until,
                      as_last_notified_level = Option.bind prev as_last_notified_level,
                      as_episode_id = Option.bind prev as_episode_id,
                      as_episode_opened_at = Option.bind prev as_episode_opened_at,
                      as_episode_incident_id = Option.bind prev as_episode_incident_id,
                      as_recovering_since = Option.bind prev as_recovering_since\<rparr>;
             transition =
               (if outcome_changed \<or> level_changed
                then Some \<lparr>st_alert_id = alert_id, st_group_key = group_key,
                           st_from_outcome = previous_outcome, st_to_outcome = outcome,
                           st_from_level = previous_level, st_to_level = level, st_at = at',
                           st_value = None, st_rule_value = None, st_group_labels = None\<rparr>
                else None)
         in \<lparr>su_state = Some state, su_transition = transition\<rparr>))"

definition apply_rule_rollup_outcome ::
  "string \<Rightarrow> alert_state option \<Rightarrow> run_outcome \<Rightarrow> alert_level option \<Rightarrow> int \<Rightarrow> string option \<Rightarrow> state_update" where
  "apply_rule_rollup_outcome alert_id previous outcome level at' value =
     (let update = apply_outcome alert_id ROLLUP_GROUP_KEY previous outcome level at'
      in update\<lparr>su_transition := map_option (\<lambda>t. t\<lparr>st_rule_value := value\<rparr>) (su_transition update)\<rparr>)"

definition rule_outcome :: "alert_state option \<Rightarrow> int \<Rightarrow> int \<Rightarrow> run_outcome" where
  "rule_outcome previous at' pending_sec =
     (if pending_sec \<le> 0 then OFiring
      else case previous of
             Some p \<Rightarrow>
               if as_last_outcome p = Some OPending then
                 (if (case as_since p of
                        Some since \<Rightarrow> saturating_sub at' since \<ge> saturating_mul pending_sec 1000000
                      | None \<Rightarrow> False)
                  then OFiring else OPending)
               else if (case as_level p of Some l \<Rightarrow> level_is_firing l | None \<Rightarrow> False) \<and>
                       as_last_outcome p \<noteq> Some ONormal
               then OFiring else OPending
           | None \<Rightarrow> OPending)"

section \<open>The availability ledger entry of an evaluation\<close>

definition SCHEDULER_JITTER_ALLOWANCE_SECS :: int where "SCHEDULER_JITTER_ALLOWANCE_SECS = 30"

record eval_ledger_write =
  lw_org :: string
  lw_alert_id :: string
  lw_level :: alert_level
  lw_frequency_secs :: int
  lw_tolerance_secs :: int
  lw_at :: int

definition max_gap_secs :: "eval_ledger_write \<Rightarrow> int" where
  "max_gap_secs w =
     (let slack = min (saturating_add (max (lw_tolerance_secs w) 0) SCHEDULER_JITTER_ALLOWANCE_SECS)
                      (max (saturating_sub (lw_frequency_secs w) 1) 0)
      in saturating_add (lw_frequency_secs w) slack)"

definition ledger_write_for_evaluation ::
  "string \<Rightarrow> string \<Rightarrow> run_outcome \<Rightarrow> alert_level option \<Rightarrow> bool \<Rightarrow> trigger_condition \<Rightarrow> int \<Rightarrow> eval_ledger_write option" where
  "ledger_write_for_evaluation org alert_id outcome level is_grouped trigger at' =
     (if is_grouped \<or> tc_frequency_type trigger = Cron \<or> tc_frequency trigger \<le> 0 \<or>
         \<not> evaluation_is_measured outcome
      then None
      else case level of
             None \<Rightarrow> None
           | Some l \<Rightarrow> Some \<lparr>lw_org = org, lw_alert_id = alert_id, lw_level = l,
                             lw_frequency_secs = tc_frequency trigger,
                             lw_tolerance_secs = (case tc_tolerance_in_secs trigger of Some t \<Rightarrow> t | None \<Rightarrow> 0),
                             lw_at = at'\<rparr>)"

section \<open>Episodes\<close>

record recovery_event =
  re_org_id :: string
  re_alert_id :: string
  re_group_key :: string
  re_episode_id :: string
  re_incident_id :: "string option"
  re_opened_at :: int
  re_recovered_at :: int
  re_emitted_at :: int
  re_last_notified_level :: "alert_level option"
  re_group_labels :: "string option"

definition duration_micros :: "recovery_event \<Rightarrow> int" where
  "duration_micros e = max (saturating_sub (re_recovered_at e) (re_opened_at e)) 0"

record episode_input =
  ei_delivered :: bool
  ei_incident_id :: "string option"
  ei_keep_firing_for_secs :: int
  ei_episode_id :: "string option"

definition undelivered :: "int \<Rightarrow> episode_input" where
  "undelivered keep = \<lparr>ei_delivered = False, ei_incident_id = None, ei_keep_firing_for_secs = keep, ei_episode_id = None\<rparr>"

record closed_episode =
  ce_episode_id :: string
  ce_incident_id :: "string option"
  ce_opened_at :: int
  ce_recovered_at :: int

definition hold_micros :: "episode_input \<Rightarrow> int" where
  "hold_micros input = saturating_mul (max (ei_keep_firing_for_secs input) 0) 1000000"

definition apply_episode :: "alert_state \<Rightarrow> bool \<Rightarrow> episode_input \<Rightarrow> int \<Rightarrow> string \<Rightarrow> alert_state \<times> closed_episode option" where
  "apply_episode state firing input at' new_episode_id =
     (if firing then
        (let state = state\<lparr>as_recovering_since := None\<rparr>;
             state = (if ei_delivered input then
                        (let state = (if as_episode_id state = None
                                      then state\<lparr>as_episode_id := Some new_episode_id, as_episode_opened_at := Some at'\<rparr>
                                      else state)
                         in state\<lparr>as_episode_incident_id := ei_incident_id input\<rparr>)
                      else state)
         in (state, None))
      else case as_episode_id state of
             None \<Rightarrow> (state\<lparr>as_recovering_since := None\<rparr>, None)
           | Some episode_id \<Rightarrow>
               (let recovered_at = (case as_recovering_since state of Some t \<Rightarrow> t | None \<Rightarrow> at');
                    state = state\<lparr>as_recovering_since := Some recovered_at\<rparr>
                in if at' < saturating_add recovered_at (hold_micros input) then (state, None)
                   else (state\<lparr>as_episode_id := None, as_episode_opened_at := None,
                               as_episode_incident_id := None, as_recovering_since := None\<rparr>,
                         Some \<lparr>ce_episode_id = episode_id, ce_incident_id = as_episode_incident_id state,
                               ce_opened_at = (case as_episode_opened_at state of Some t \<Rightarrow> t | None \<Rightarrow> recovered_at),
                               ce_recovered_at = recovered_at\<rparr>)))"

definition recovery_event :: "string \<Rightarrow> alert_state \<Rightarrow> closed_episode \<Rightarrow> int \<Rightarrow> recovery_event" where
  "recovery_event org_id state closed' emitted_at =
     \<lparr>re_org_id = org_id, re_alert_id = as_alert_id state, re_group_key = as_group_key state,
      re_episode_id = ce_episode_id closed', re_incident_id = ce_incident_id closed',
      re_opened_at = ce_opened_at closed', re_recovered_at = ce_recovered_at closed',
      re_emitted_at = emitted_at, re_last_notified_level = as_last_notified_level state,
      re_group_labels = as_group_labels state\<rparr>"

section \<open>A history of evaluations\<close>

type_synonym evaluation = "run_outcome \<times> alert_level option \<times> int"

definition merge_update :: "alert_state option \<Rightarrow> state_update \<Rightarrow> alert_state option" where
  "merge_update prev u = (case su_state u of Some s \<Rightarrow> Some s | None \<Rightarrow> prev)"

fun evaluate_all :: "string \<Rightarrow> string \<Rightarrow> alert_state option \<Rightarrow> evaluation list \<Rightarrow> alert_state option \<times> state_transition list" where
  "evaluate_all a g prev [] = (prev, [])"
| "evaluate_all a g prev ((o', l, t) # es) =
     (let u = apply_outcome a g prev o' l t;
          (final, log) = evaluate_all a g (merge_update prev u) es
      in (final, (case su_transition u of Some tr \<Rightarrow> tr # log | None \<Rightarrow> log)))"

abbreviation state_after :: "string \<Rightarrow> string \<Rightarrow> alert_state option \<Rightarrow> evaluation list \<Rightarrow> alert_state option" where
  "state_after a g prev es \<equiv> fst (evaluate_all a g prev es)"

text \<open>The time the constant run at the end of a sequence of timed values began.\<close>

definition run_start :: "('k \<times> int) list \<Rightarrow> int" where
  "run_start xs = snd (last (takeWhile (\<lambda>x. fst x = fst (last xs)) (rev xs)))"

definition observed_outcomes :: "evaluation list \<Rightarrow> (run_outcome \<times> int) list" where
  "observed_outcomes es = [(o', t). (o', l, t) \<leftarrow> es, should_persist o']"

definition measured_levels :: "evaluation list \<Rightarrow> (alert_level \<times> int) list" where
  "measured_levels es = [(the l, t). (o', l, t) \<leftarrow> es, should_persist o' \<and> l \<noteq> None]"

lemma run_start_snoc:
  "run_start (xs @ [(k, t)]) = (if xs \<noteq> [] \<and> fst (last xs) = k then run_start xs else t)"
  by (cases xs rule: rev_cases) (auto simp: run_start_def)

lemma evaluate_all_append:
  "evaluate_all a g prev (xs @ ys) =
     (let (p, log) = evaluate_all a g prev xs; (q, log') = evaluate_all a g p ys in (q, log @ log'))"
  by (induction a g prev xs rule: evaluate_all.induct) (auto simp: Let_def case_prod_beta split: option.splits)

lemma state_after_snoc:
  "state_after a g prev (es @ [(o', l, t)]) =
     (let p = state_after a g prev es in merge_update p (apply_outcome a g p o' l t))"
  by (simp add: evaluate_all_append Let_def case_prod_beta)

lemma observed_outcomes_snoc:
  "observed_outcomes (es @ [(o', l, t)]) = observed_outcomes es @ (if should_persist o' then [(o', t)] else [])"
  by (simp add: observed_outcomes_def)

lemma measured_levels_snoc:
  "measured_levels (es @ [(o', l, t)]) =
     measured_levels es @ (if should_persist o' \<and> l \<noteq> None then [(the l, t)] else [])"
  by (simp add: measured_levels_def)

lemma measured_levels_empty: "observed_outcomes es = [] \<Longrightarrow> measured_levels es = []"
  by (induction es) (auto simp: observed_outcomes_def measured_levels_def split: if_splits)

definition outcome_axis :: "alert_state \<Rightarrow> run_outcome option \<times> int option \<times> int option \<times> int option" where
  "outcome_axis s = (as_last_outcome s, as_last_outcome_at s, as_since s, as_last_seen s)"

definition level_axis :: "alert_state \<Rightarrow> alert_level option \<times> int option \<times> int option" where
  "level_axis s = (as_level s, as_level_since s, as_level_at s)"

definition outcome_history :: "evaluation list \<Rightarrow> run_outcome option \<times> int option \<times> int option \<times> int option" where
  "outcome_history es =
     (let os = observed_outcomes es
      in (Some (fst (last os)), Some (snd (last os)), Some (run_start os), Some (snd (last os))))"

definition level_history :: "evaluation list \<Rightarrow> alert_level option \<times> int option \<times> int option" where
  "level_history es =
     (let ls = measured_levels es
      in if ls = [] then (None, None, None)
         else (Some (fst (last ls)), Some (run_start ls), Some (snd (last ls))))"

lemmas history_simps =
  state_after_snoc observed_outcomes_snoc measured_levels_snoc run_start_snoc
  outcome_axis_def level_axis_def outcome_history_def level_history_def merge_update_def apply_outcome_def
  state_update_noop_def

lemma state_after_unobserved:
  "observed_outcomes es = [] \<Longrightarrow> state_after a g prev es = prev"
  by (induction es rule: rev_induct)
    (auto simp: state_after_snoc observed_outcomes_snoc merge_update_def apply_outcome_def state_update_noop_def
        Let_def split: if_splits)

text \<open>
  C25. The row is its history. After any sequence of evaluations of an alert with at least one that is
  not \<open>Skipped\<close>: \<open>last_outcome\<close> and \<open>last_outcome_at\<close> are those of the last such evaluation and \<open>since\<close> is
  the time the current unbroken run of that outcome began; \<open>level\<close> and \<open>level_at\<close> are those of the last
  evaluation that computed a level and \<open>level_since\<close> is the time the current unbroken run of that level
  began; the two axes do not disturb each other.
\<close>

theorem state_row_is_history:
  assumes "observed_outcomes es \<noteq> []"
  shows "\<exists>s. state_after a g None es = Some s \<and> as_alert_id s = a \<and> as_group_key s = g \<and>
    outcome_axis s = outcome_history es \<and> level_axis s = level_history es"
  using assms
proof (induction es rule: rev_induct)
  case (snoc e es)
  obtain o' l t where e: "e = (o', l, t)" by (cases e)
  show ?case
  proof (cases "should_persist o'")
    case False
    then show ?thesis using snoc by (auto simp: e history_simps)
  next
    case True
    show ?thesis
    proof (cases "observed_outcomes es = []")
      case empty: True
      then show ?thesis using True
        by (cases l) (simp_all add: e history_simps state_after_unobserved measured_levels_empty run_start_def Let_def)
    next
      case False
      then obtain s where "state_after a g None es = Some s" "outcome_axis s = outcome_history es"
        "level_axis s = level_history es" using snoc.IH by blast
      then show ?thesis using True False
        by (cases l) (auto simp: e history_simps Let_def split: if_splits)
    qed
  qed
qed (simp add: observed_outcomes_def)

theorem state_row_is_history_witness:
  "\<exists>s. state_after ''a'' [] None
       [(ONormal, Some LOk, 10), (OFiring, Some LWarning, 20), (OSkipped, None, 25), (OError, None, 30),
        (OFiring, Some LWarning, 40), (OFiring, Some LCritical, 50)] = Some s \<and>
     as_since s = Some 40 \<and> as_level_since s = Some 50"
  using state_row_is_history [of "[(ONormal, Some LOk, 10), (OFiring, Some LWarning, 20), (OSkipped, None, 25), (OError, None, 30),
        (OFiring, Some LWarning, 40), (OFiring, Some LCritical, 50)]" "''a''" "[]"]
  by (auto simp: observed_outcomes_def measured_levels_def should_persist_def outcome_axis_def level_axis_def
      outcome_history_def level_history_def run_start_def)

section \<open>The transition log\<close>

fun chained :: "run_outcome option \<Rightarrow> alert_level option \<Rightarrow> state_transition list \<Rightarrow> run_outcome option \<times> alert_level option \<Rightarrow> bool" where
  "chained o' l [] end = (end = (o', l))"
| "chained o' l (t # ts) end \<longleftrightarrow>
     st_from_outcome t = o' \<and> st_from_level t = l \<and>
     (o' \<noteq> Some (st_to_outcome t) \<or> l \<noteq> st_to_level t) \<and>
     chained (Some (st_to_outcome t)) (st_to_level t) ts end"

definition axes :: "alert_state option \<Rightarrow> run_outcome option \<times> alert_level option" where
  "axes p = (Option.bind p as_last_outcome, Option.bind p as_level)"

lemma apply_outcome_axes:
  "axes (merge_update p (apply_outcome a g p o' l t)) =
     (case su_transition (apply_outcome a g p o' l t) of
        None \<Rightarrow> axes p | Some tr \<Rightarrow> (Some (st_to_outcome tr), st_to_level tr))"
  "su_transition (apply_outcome a g p o' l t) = Some tr \<Longrightarrow>
     (st_from_outcome tr, st_from_level tr) = axes p \<and> st_alert_id tr = a \<and> st_group_key tr = g \<and>
     (fst (axes p) \<noteq> Some (st_to_outcome tr) \<or> snd (axes p) \<noteq> st_to_level tr)"
  by (auto simp: apply_outcome_def merge_update_def axes_def state_update_noop_def Let_def
      split: if_splits option.splits)

text \<open>
  The transition log reconstructs the row. Over any sequence of evaluations, from any previous row,
  each logged transition starts at the outcome and level the one before it ended at, every one of them
  changes the outcome or the level, and the last one ends at the outcome and level of the stored row; so
  no change is missing and no entry is idle.
\<close>

theorem transition_log_chains:
  "chained (fst (axes p)) (snd (axes p)) (snd (evaluate_all a g p es)) (axes (state_after a g p es))"
proof (induction a g p es rule: evaluate_all.induct)
  case (2 a g p o' l t es)
  let ?u = "apply_outcome a g p o' l t"
  show ?case
  proof (cases "su_transition ?u")
    case None
    then show ?thesis using 2 apply_outcome_axes(1) [of p a g o' l t] by (simp add: Let_def case_prod_beta)
  next
    case (Some tr)
    then show ?thesis
      using 2 apply_outcome_axes(1) [of p a g o' l t] apply_outcome_axes(2) [OF Some]
      by (auto simp: Let_def case_prod_beta prod_eq_iff)
  qed
qed simp

text \<open>Evaluation never writes what the delivery callbacks and the episodes own.\<close>

definition carried :: "alert_state \<Rightarrow> alert_state \<Rightarrow> bool" where
  "carried s s' \<longleftrightarrow>
     as_silenced_until s' = as_silenced_until s \<and> as_last_notified_level s' = as_last_notified_level s \<and>
     as_episode_id s' = as_episode_id s \<and> as_episode_opened_at s' = as_episode_opened_at s \<and>
     as_episode_incident_id s' = as_episode_incident_id s \<and> as_recovering_since s' = as_recovering_since s \<and>
     as_group_labels s' = as_group_labels s"

lemma apply_outcome_carries: "su_state (apply_outcome a g (Some s) o' l t) = Some s' \<Longrightarrow> carried s s'"
  by (auto simp: apply_outcome_def carried_def state_update_noop_def Let_def split: if_splits option.splits)

section \<open>The gap of one run\<close>

text \<open>A run never spans a missed evaluation: the gap it tolerates stays below twice the cadence.\<close>

lemma max_gap_below_two_periods:
  assumes "0 < lw_frequency_secs w"
  shows "max_gap_secs w < 2 * lw_frequency_secs w"
  using assms by (auto simp: max_gap_secs_def i64_defs Let_def SCHEDULER_JITTER_ALLOWANCE_SECS_def)

lemma max_gap_covers_next_run:
  assumes "0 < lw_frequency_secs w" "lw_frequency_secs w \<le> i64_max"
  shows "lw_frequency_secs w \<le> max_gap_secs w"
  using assms by (auto simp: max_gap_secs_def i64_defs Let_def SCHEDULER_JITTER_ALLOWANCE_SECS_def)

section \<open>Episodes over a history\<close>

record episode_step =
  es_firing :: bool
  es_input :: episode_input
  es_at :: int
  es_new_id :: string

definition opens :: "episode_step \<Rightarrow> bool" where
  "opens x \<longleftrightarrow> es_firing x \<and> ei_delivered (es_input x)"

fun run_episodes :: "alert_state \<Rightarrow> episode_step list \<Rightarrow> alert_state \<times> closed_episode list" where
  "run_episodes s [] = (s, [])"
| "run_episodes s (x # xs) =
     (let (s', c) = apply_episode s (es_firing x) (es_input x) (es_at x) (es_new_id x);
          (s'', cs) = run_episodes s' xs
      in (s'', (case c of Some c' \<Rightarrow> c' # cs | None \<Rightarrow> cs)))"

definition open_episode :: "alert_state \<Rightarrow> string list" where
  "open_episode s = (case as_episode_id s of Some i \<Rightarrow> [i] | None \<Rightarrow> [])"

lemma apply_episode_ids:
  assumes "apply_episode s f i t n = (s', c)"
  shows "subseq ((case c of Some c' \<Rightarrow> [ce_episode_id c'] | None \<Rightarrow> []) @ open_episode s')
    (open_episode s @ (if f \<and> ei_delivered i then [n] else []))"
  using assms by (auto simp: apply_episode_def open_episode_def Let_def split: if_splits option.splits)

lemma run_episodes_ids:
  "subseq (map ce_episode_id (snd (run_episodes s xs)) @ open_episode (fst (run_episodes s xs)))
     (open_episode s @ map es_new_id (filter opens xs))"
proof (induction s xs rule: run_episodes.induct)
  case (2 s x xs)
  obtain s' c where st: "apply_episode s (es_firing x) (es_input x) (es_at x) (es_new_id x) = (s', c)" by fastforce
  let ?c = "case c of Some c' \<Rightarrow> [ce_episode_id c'] | None \<Rightarrow> []" and ?r = "map es_new_id (filter opens xs)"
  have "subseq (?c @ map ce_episode_id (snd (run_episodes s' xs)) @ open_episode (fst (run_episodes s' xs)))
      (?c @ open_episode s' @ ?r)"
    using 2 [OF st [symmetric] refl] by (rule list_emb_append_mono [OF subseq_order.refl])
  also have "subseq ((?c @ open_episode s') @ ?r) ((open_episode s @ (if opens x then [es_new_id x] else [])) @ ?r)"
    using apply_episode_ids [OF st] unfolding opens_def by (rule list_emb_append_mono [OF _ subseq_order.refl])
  then have "subseq (?c @ open_episode s' @ ?r) ((open_episode s @ (if opens x then [es_new_id x] else [])) @ ?r)"
    by (simp only: append_assoc)
  finally show ?case by (cases c; cases "opens x") (simp_all add: st case_prod_beta)
qed simp

text \<open>
  Recovery is announced exactly once, and only of what was announced. Over any sequence of
  evaluations from a fresh row, the identifiers of the recoveries, followed by that of an episode still
  open, form a subsequence of the identifiers carried by the delivered firing notifications; when those
  are distinct no recovery repeats, and a firing that was suppressed or failed to deliver never gives one.
\<close>

theorem recoveries_pair_with_deliveries:
  "subseq (map ce_episode_id (snd (run_episodes (alert_state_empty a g) xs)) @
           open_episode (fst (run_episodes (alert_state_empty a g) xs)))
     (map es_new_id (filter opens xs))"
  using run_episodes_ids [of "alert_state_empty a g" xs] by (simp add: alert_state_empty_def open_episode_def)

text \<open>The evaluations since the condition last held.\<close>

definition clear_tail :: "episode_step list \<Rightarrow> episode_step list" where
  "clear_tail xs = rev (takeWhile (\<lambda>x. \<not> es_firing x) (rev xs))"

lemma clear_tail_snoc: "clear_tail (xs @ [x]) = (if es_firing x then [] else clear_tail xs @ [x])"
  by (simp add: clear_tail_def)

definition episode_inv :: "episode_step list \<Rightarrow> alert_state \<Rightarrow> bool" where
  "episode_inv xs s \<longleftrightarrow>
     (\<forall>r. as_recovering_since s = Some r \<longrightarrow> clear_tail xs \<noteq> [] \<and> r = es_at (hd (clear_tail xs))) \<and>
     (as_episode_id s \<noteq> None \<and> clear_tail xs \<noteq> [] \<longrightarrow> as_recovering_since s \<noteq> None) \<and>
     (\<forall>i. as_episode_id s = Some i \<longrightarrow>
        (\<exists>o' \<in> set xs. opens o' \<and> es_new_id o' = i \<and> as_episode_opened_at s = Some (es_at o')))"

abbreviation step_episode :: "alert_state \<Rightarrow> episode_step \<Rightarrow> alert_state \<times> closed_episode option" where
  "step_episode s x \<equiv> apply_episode s (es_firing x) (es_input x) (es_at x) (es_new_id x)"

lemma episode_inv_step:
  assumes "episode_inv xs s" "step_episode s x = (s', c)"
  shows "episode_inv (xs @ [x]) s'"
proof (cases "es_firing x")
  case True
  then show ?thesis using assms
    by (auto simp: episode_inv_def apply_episode_def clear_tail_snoc opens_def Let_def split: if_splits)
next
  case False
  then show ?thesis using assms
    by (auto simp: episode_inv_def apply_episode_def clear_tail_snoc Let_def split: if_splits option.splits)
qed

lemma episode_inv_closed:
  assumes "episode_inv xs s" "step_episode s x = (s', Some c)"
  shows "\<not> es_firing x \<and> ce_recovered_at c = es_at (hd (clear_tail (xs @ [x]))) \<and>
    saturating_add (ce_recovered_at c) (hold_micros (es_input x)) \<le> es_at x \<and>
    (\<exists>o' \<in> set xs. opens o' \<and> es_new_id o' = ce_episode_id c \<and> es_at o' = ce_opened_at c)"
proof -
  have "\<not> es_firing x" using assms(2) by (auto simp: apply_episode_def Let_def)
  then show ?thesis using assms
    by (fastforce simp: episode_inv_def apply_episode_def clear_tail_snoc Let_def not_less split: if_splits option.splits)
qed

lemma run_episodes_snoc:
  "run_episodes s (xs @ [x]) =
     (let (s', cs) = run_episodes s xs; (s'', c) = step_episode s' x
      in (s'', cs @ (case c of Some c' \<Rightarrow> [c'] | None \<Rightarrow> [])))"
  by (induction xs arbitrary: s) (simp_all add: Let_def case_prod_beta split: option.split)

lemma episode_inv_run: "episode_inv xs (fst (run_episodes (alert_state_empty a g) xs))"
proof (induction xs rule: rev_induct)
  case Nil
  then show ?case by (simp add: episode_inv_def alert_state_empty_def)
next
  case (snoc x xs)
  then show ?case using episode_inv_step [OF snoc prod.collapse [symmetric]] by (simp add: run_episodes_snoc case_prod_beta)
qed

text \<open>
  C34. What a recovery reports. When an evaluation closes an episode after any history from a fresh row,
  the condition does not hold in it, the recovery time is that of the first evaluation of the unbroken
  clear run it ends (not the time the hold expired), the configured hold has elapsed since then, and the
  opening time and identifier are those of one delivered firing notification of the history.
\<close>

theorem recovery_reports_the_clear_run:
  assumes "step_episode (fst (run_episodes (alert_state_empty a g) xs)) x = (s', Some c)"
  shows "\<not> es_firing x \<and> ce_recovered_at c = es_at (hd (clear_tail (xs @ [x]))) \<and>
    saturating_add (ce_recovered_at c) (hold_micros (es_input x)) \<le> es_at x \<and>
    (\<exists>o' \<in> set xs. opens o' \<and> es_new_id o' = ce_episode_id c \<and> es_at o' = ce_opened_at c)"
  by (rule episode_inv_closed [OF episode_inv_run assms])

definition page_step :: "int \<Rightarrow> episode_step" where
  "page_step t = \<lparr>es_firing = True, es_input = \<lparr>ei_delivered = True, ei_incident_id = None,
     ei_keep_firing_for_secs = 60, ei_episode_id = None\<rparr>, es_at = t, es_new_id = ''e1''\<rparr>"

definition clear_step :: "int \<Rightarrow> episode_step" where
  "clear_step t = \<lparr>es_firing = False, es_input = undelivered 60, es_at = t, es_new_id = ''e2''\<rparr>"

theorem recovery_reports_the_clear_run_witness:
  "\<exists>s' c. step_episode (fst (run_episodes (alert_state_empty ''a'' []) [page_step 0, clear_step 30000000])) (clear_step 90000000)
       = (s', Some c) \<and> ce_recovered_at c = 30000000 \<and>
     (\<exists>o' \<in> set [page_step 0, clear_step 30000000]. opens o' \<and> es_new_id o' = ce_episode_id c \<and> es_at o' = ce_opened_at c)"
proof -
  have "\<exists>s' c. step_episode (fst (run_episodes (alert_state_empty ''a'' []) [page_step 0, clear_step 30000000])) (clear_step 90000000)
       = (s', Some c)"
    by (simp add: page_step_def clear_step_def alert_state_empty_def apply_episode_def undelivered_def hold_micros_def
        i64_defs Let_def)
  then obtain s' c where *: "step_episode (fst (run_episodes (alert_state_empty ''a'' []) [page_step 0, clear_step 30000000]))
      (clear_step 90000000) = (s', Some c)" by blast
  show ?thesis using recovery_reports_the_clear_run [OF *] *
    by (intro exI conjI) (auto simp: clear_tail_def page_step_def clear_step_def)
qed

end
