(* ===== verification/Alert_Grouping.thy ===== *)
theory Alert_Grouping
  imports Alert_State "HOL-Library.Product_Lexorder" "HOL-Library.Multiset"
begin

text \<open>
  Per-group evaluation (\<open>src/config/src/meta/alerts/grouping.rs\<close>) and per-series rules
  (\<open>src/config/src/meta/alerts/prom_rule.rs\<close>): the identity of a group, classification of the observed
  groups under a cardinality cap, the writes of one evaluation, and the fate of a group that is no longer
  observed. A \<open>BTreeMap\<close> of labels is the list of its entries in key order; a \<open>HashMap\<close> of states is the
  list of its entries in the order they are visited. The SHA-256 digest is the parameter \<open>digest\<close>.
\<close>

type_synonym labels = "(string \<times> string) list"

section \<open>Pages\<close>

datatype group_page_completeness = Complete | Truncated

record fetch_page =
  fp_filled :: bool
  fp_reached_healthy :: bool

definition fetch_page_default :: fetch_page where
  "fetch_page_default = \<lparr>fp_filled = False, fp_reached_healthy = True\<rparr>"

definition completeness :: "fetch_page \<Rightarrow> group_page_completeness" where
  "completeness p = (if \<not> fp_filled p \<or> fp_reached_healthy p then Complete else Truncated)"

definition observed_is_lower_bound :: "fetch_page \<Rightarrow> bool" where
  "observed_is_lower_bound p = fp_filled p"

definition firing_is_lower_bound :: "fetch_page \<Rightarrow> bool" where
  "firing_is_lower_bound p \<longleftrightarrow> fp_filled p \<and> \<not> fp_reached_healthy p"

definition promql_fetch_page :: "nat \<Rightarrow> nat \<Rightarrow> nat \<Rightarrow> fetch_page" where
  "promql_fetch_page observed firing_observed cap =
     \<lparr>fp_filled = (cap > 0 \<and> observed > cap), fp_reached_healthy = (firing_observed < observed)\<rparr>"

definition may_age_groups :: "run_outcome option \<Rightarrow> group_page_completeness \<Rightarrow> bool" where
  "may_age_groups last_outcome page =
     (if page = Truncated then False
      else case last_outcome of
             Some o' \<Rightarrow> o' = OFiring \<or> o' = ONormal \<or> o' = ONotifyFailed
           | None \<Rightarrow> False)"

section \<open>Groups\<close>

record group_observation =
  go_labels :: labels
  go_actual_value :: f64

record classified_group =
  cg_labels :: labels
  cg_actual_value :: f64
  cg_rule_value :: "string option"
  cg_level :: "alert_level option"

definition group_rank :: "classified_group \<Rightarrow> nat" where
  "group_rank g = (case cg_level g of Some l \<Rightarrow> severity_rank l | None \<Rightarrow> 0)"

datatype group_cap_outcome = WithinCap | Exceeded nat nat

record group_classification =
  gc_groups :: "classified_group list"
  gc_rollup :: "alert_level option"
  gc_cap :: group_cap_outcome
  gc_firing_observed :: nat
  gc_page :: fetch_page
  gc_dropped :: "string list"

definition with_page :: "group_classification \<Rightarrow> fetch_page \<Rightarrow> group_classification" where
  "with_page c p = c\<lparr>gc_page := p\<rparr>"

definition worst_group :: "group_classification \<Rightarrow> classified_group option" where
  "worst_group c =
     max_by (\<lambda>a b. cmp (group_rank a) (group_rank b)) (filter (\<lambda>g. cg_level g \<noteq> None) (gc_groups c))"

definition encode_label :: "string \<times> string \<Rightarrow> string" where
  "encode_label kv =
     (case kv of (k, v) \<Rightarrow>
        show_nat (length k) @ '':'' @ k @ '':'' @ show_nat (length v) @ '':'' @ v @ '';'')"

definition encode_labels :: "labels \<Rightarrow> string" where
  "encode_labels ls = concat (map encode_label ls)"

definition group_key :: "(string \<Rightarrow> string) \<Rightarrow> labels \<Rightarrow> string" where
  "group_key digest ls = digest (encode_labels ls)"

definition rollup_level :: "alert_level option list \<Rightarrow> alert_level option" where
  "rollup_level ls =
     (if ls = [] then None else most_severe (map (\<lambda>l. case l of Some x \<Rightarrow> x | None \<Rightarrow> LOk) ls))"

text \<open>\<open>sort_by\<close> is stable, and the comparator compares the pair of the reversed rank and the key.\<close>

definition classify_groups_by ::
  "(string \<Rightarrow> string) \<Rightarrow> group_observation list \<Rightarrow> (f64 \<Rightarrow> alert_level option) \<Rightarrow> nat \<Rightarrow> group_classification" where
  "classify_groups_by digest observations classify' cap =
     (let observed = length observations;
          groups = map (\<lambda>o'. \<lparr>cg_labels = go_labels o', cg_actual_value = go_actual_value o',
                              cg_rule_value = None, cg_level = classify' (go_actual_value o')\<rparr>) observations;
          firing_observed = length (filter (\<lambda>g. case cg_level g of Some l \<Rightarrow> level_is_firing l | None \<Rightarrow> False) groups);
          groups = sort_key (\<lambda>g. (Down (group_rank g), group_key digest (cg_labels g))) groups;
          (cap_outcome, dropped, groups) =
            (if cap > 0 \<and> observed > cap
             then (Exceeded observed cap, map (\<lambda>g. group_key digest (cg_labels g)) (drop cap groups), take cap groups)
             else (WithinCap, [], groups))
      in \<lparr>gc_groups = groups, gc_rollup = rollup_level (map cg_level groups), gc_cap = cap_outcome,
          gc_firing_observed = firing_observed, gc_page = fetch_page_default, gc_dropped = dropped\<rparr>)"

definition classify_groups ::
  "(string \<Rightarrow> string) \<Rightarrow> group_observation list \<Rightarrow> trigger_condition \<Rightarrow> nat \<Rightarrow> group_classification" where
  "classify_groups digest observations tc cap = classify_groups_by digest observations (\<lambda>v. evaluate_level v tc) cap"

definition vanished_groups :: "string list \<Rightarrow> string list \<Rightarrow> string list" where
  "vanished_groups previous current = filter (\<lambda>k. k \<notin> set current) previous"

definition render_labels :: "labels \<Rightarrow> string" where
  "render_labels ls = join '','' (map (\<lambda>(k, v). k @ ''='' @ v) ls)"

definition group_template_vars :: "labels \<Rightarrow> (string \<times> string) list" where
  "group_template_vars ls = map (\<lambda>(k, v). (''group.'' @ k, v)) ls"

definition group_outcome :: "alert_level option \<Rightarrow> run_outcome" where
  "group_outcome level =
     (case level of Some l \<Rightarrow> if level_is_firing l then OFiring else ONormal | None \<Rightarrow> ONormal)"

definition with_group_component :: "string \<Rightarrow> string option \<Rightarrow> string" where
  "with_group_component base key =
     (case key of Some k \<Rightarrow> if k \<noteq> ROLLUP_GROUP_KEY then base @ ''|group:'' @ k else base | None \<Rightarrow> base)"

section \<open>Disappearance\<close>

definition MIN_RESOLVE_THRESHOLD_SECS :: int where "MIN_RESOLVE_THRESHOLD_SECS = 60"

definition resolve_threshold_micros :: "int \<Rightarrow> int \<Rightarrow> int" where
  "resolve_threshold_micros frequency_secs k =
     (let fl = saturating_mul MIN_RESOLVE_THRESHOLD_SECS 1000000
      in if frequency_secs \<le> 0 \<or> k \<le> 0 then fl
         else max (saturating_mul (saturating_mul frequency_secs k) 1000000) fl)"

definition cron_resolve_threshold_micros :: "int \<Rightarrow> int list \<Rightarrow> int \<Rightarrow> int" where
  "cron_resolve_threshold_micros last_seen occurrences k =
     (let fl = saturating_mul MIN_RESOLVE_THRESHOLD_SECS 1000000
      in if k \<le> 0 then fl
         else (let later = filter (\<lambda>o'. o' > last_seen) occurrences
               in if nat (k - 1) < length later
                  then max (saturating_sub (later ! nat (k - 1)) last_seen) fl
                  else i64_max))"

datatype group_fate = Keep | Resolve | Reap

definition is_resolved :: "alert_state \<Rightarrow> bool" where
  "is_resolved s =
     (case (as_last_outcome_at s, as_last_seen s) of
        (Some outcome_at, Some seen) \<Rightarrow> outcome_at > seen
      | _ \<Rightarrow> False)"

definition group_fate :: "alert_state \<Rightarrow> int \<Rightarrow> int \<Rightarrow> int \<Rightarrow> group_fate" where
  "group_fate s now resolve_after grace =
     (if is_resolved s then
        (let resolved_at = (case as_last_outcome_at s of Some t \<Rightarrow> t | None \<Rightarrow> now)
         in if saturating_sub now resolved_at > grace then Reap else Keep)
      else case as_last_seen s of
             None \<Rightarrow> Keep
           | Some last_seen \<Rightarrow> if saturating_sub now last_seen \<le> resolve_after then Keep else Resolve)"

definition resolve_group_update :: "string \<Rightarrow> string \<Rightarrow> alert_state \<Rightarrow> int \<Rightarrow> state_update" where
  "resolve_group_update alert_id key prev at' =
     (if is_resolved prev then state_update_noop
      else
        (let outcome_changed = (as_last_outcome prev \<noteq> Some ONormal);
             level_changed = (as_level prev \<noteq> Some LOk);
             state = prev\<lparr>as_alert_id := alert_id, as_group_key := key, as_last_outcome := Some ONormal,
                          as_last_outcome_at := Some at',
                          as_since := (if outcome_changed then Some at' else as_since prev),
                          as_level := Some LOk,
                          as_level_since := (if level_changed then Some at' else as_level_since prev),
                          as_level_at := Some at'\<rparr>;
             transition =
               (if outcome_changed \<or> level_changed
                then Some \<lparr>st_alert_id = alert_id, st_group_key = key, st_from_outcome = as_last_outcome prev,
                           st_to_outcome = ONormal, st_from_level = as_level prev, st_to_level = Some LOk,
                           st_at = at', st_value = None, st_rule_value = None,
                           st_group_labels = as_group_labels prev\<rparr>
                else None)
         in \<lparr>su_state = Some state, su_transition = transition\<rparr>))"

section \<open>The writes of an evaluation\<close>

record group_plan =
  gp_updates :: "state_update list"
  gp_evicted :: "string list"

definition opt_out_evictions :: "(string \<times> alert_state) list \<Rightarrow> string list" where
  "opt_out_evictions tracked = sort (filter (\<lambda>k. k \<noteq> ROLLUP_GROUP_KEY) (map fst tracked))"

text \<open>
  The outcome of one group under a pending period; the rollup differs only in a row that does not exist
  yet, which \<open>plan_group_updates\<close> reads as pending whether or not it fires.
\<close>

definition pending_outcome :: "alert_state \<Rightarrow> run_outcome \<Rightarrow> bool \<Rightarrow> int \<Rightarrow> int \<Rightarrow> run_outcome" where
  "pending_outcome s base_outcome is_firing at' pending_period_sec =
     (case (as_last_outcome s, as_since s) of
        (None, _) \<Rightarrow> if is_firing then OPending else base_outcome
      | (Some ONormal, _) \<Rightarrow> if is_firing then OPending else base_outcome
      | (Some OPending, Some since) \<Rightarrow>
          if at' - since < saturating_mul pending_period_sec 1000000 \<and> is_firing then OPending else base_outcome
      | _ \<Rightarrow> base_outcome)"

definition group_update ::
  "(string \<Rightarrow> string) \<Rightarrow> string \<Rightarrow> (string \<times> alert_state) list \<Rightarrow> int \<Rightarrow> int \<Rightarrow> classified_group \<Rightarrow> state_update" where
  "group_update digest alert_id prev at' pending_period_sec grp =
     (let key = group_key digest (cg_labels grp);
          rendered = render_labels (cg_labels grp);
          level = (case cg_level grp of Some l \<Rightarrow> l | None \<Rightarrow> LOk);
          base_outcome = group_outcome (cg_level grp);
          is_firing = (base_outcome = OFiring);
          outcome =
            (if pending_period_sec > 0 then
               (case map_of prev key of
                  None \<Rightarrow> if is_firing then OPending else base_outcome
                | Some s \<Rightarrow> pending_outcome s base_outcome is_firing at' pending_period_sec)
             else base_outcome);
          update = apply_outcome alert_id key (map_of prev key) outcome (Some level) at'
      in update\<lparr>su_state := map_option (\<lambda>s. s\<lparr>as_group_labels := Some rendered, as_groups_observed := None\<rparr>) (su_state update),
                su_transition := map_option (\<lambda>t. t\<lparr>st_value := Some (cg_actual_value grp), st_group_labels := Some rendered\<rparr>)
                  (su_transition update)\<rparr>)"

definition rollup_update ::
  "string \<Rightarrow> group_classification \<Rightarrow> (string \<times> alert_state) list \<Rightarrow> int \<Rightarrow> int \<Rightarrow> state_update" where
  "rollup_update alert_id c prev at' pending_period_sec =
     (let base_outcome = group_outcome (gc_rollup c);
          is_firing = (base_outcome = OFiring);
          rollup_outcome =
            (if pending_period_sec > 0 then
               (case map_of prev ROLLUP_GROUP_KEY of
                  None \<Rightarrow> OPending
                | Some s \<Rightarrow> pending_outcome s base_outcome is_firing at' pending_period_sec)
             else base_outcome);
          rollup = apply_outcome alert_id ROLLUP_GROUP_KEY (map_of prev ROLLUP_GROUP_KEY) rollup_outcome (gc_rollup c) at'
      in rollup\<lparr>su_state := map_option (\<lambda>s. s\<lparr>as_group_labels := None,
                  as_groups_observed := Some (length (gc_groups c) + length (gc_dropped c)),
                  as_groups_firing := (if is_firing then Some (gc_firing_observed c) else Some 0),
                  as_groups_observed_is_lower_bound := Some (observed_is_lower_bound (gc_page c)),
                  as_groups_firing_is_lower_bound := Some (firing_is_lower_bound (gc_page c))\<rparr>) (su_state rollup)\<rparr>)"

definition plan_group_updates ::
  "(string \<Rightarrow> string) \<Rightarrow> string \<Rightarrow> group_classification \<Rightarrow> (string \<times> alert_state) list \<Rightarrow> int \<Rightarrow> int \<Rightarrow> group_plan" where
  "plan_group_updates digest alert_id c prev at' pending_period_sec =
     (let retained = set (map (\<lambda>g. group_key digest (cg_labels g)) (gc_groups c));
          updates = map (group_update digest alert_id prev at' pending_period_sec) (gc_groups c) @
                    [rollup_update alert_id c prev at' pending_period_sec];
          evicted =
            (case gc_cap c of
               WithinCap \<Rightarrow> filter (\<lambda>k. k \<in> set (map fst prev)) (gc_dropped c)
             | Exceeded _ _ \<Rightarrow> sort (filter (\<lambda>k. k \<noteq> ROLLUP_GROUP_KEY \<and> k \<notin> retained) (map fst prev)))
      in \<lparr>gp_updates = updates, gp_evicted = evicted\<rparr>)"

section \<open>Per-series rules\<close>

definition resumed :: "bool \<Rightarrow> int \<Rightarrow> alert_state \<Rightarrow> alert_state option" where
  "resumed interrupted at' p =
     (if interrupted \<and> as_last_outcome p = Some OPending
      then Some (p\<lparr>as_since := map_option (\<lambda>since. saturating_add since
                     (saturating_sub at' (case as_last_seen p of Some t \<Rightarrow> t | None \<Rightarrow> at'))) (as_since p)\<rparr>)
      else None)"

definition rule_update ::
  "(string \<Rightarrow> string) \<Rightarrow> string \<Rightarrow> (string \<times> alert_state) list \<Rightarrow> bool \<Rightarrow> int \<Rightarrow> int \<Rightarrow> classified_group \<Rightarrow> run_outcome \<times> state_update" where
  "rule_update digest alert_id previous interrupted at' pending_sec grp =
     (let key = group_key digest (cg_labels grp);
          prev = map_of previous key;
          prev = (case Option.bind prev (resumed interrupted at') of Some p \<Rightarrow> Some p | None \<Rightarrow> prev);
          outcome = rule_outcome prev at' pending_sec;
          update = apply_outcome alert_id key prev outcome (Some LCritical) at'
      in (outcome,
          update\<lparr>su_state := map_option (\<lambda>s. s\<lparr>as_group_labels := Some (render_labels (cg_labels grp))\<rparr>) (su_state update),
                 su_transition := map_option (\<lambda>t. t\<lparr>st_group_labels := Some (render_labels (cg_labels grp)),
                   st_rule_value := cg_rule_value grp\<rparr>) (su_transition update)\<rparr>))"

definition plan_rule_updates ::
  "(string \<Rightarrow> string) \<Rightarrow> string \<Rightarrow> group_classification \<Rightarrow> (string \<times> alert_state) list \<Rightarrow> int \<Rightarrow> int \<Rightarrow> group_plan" where
  "plan_rule_updates digest alert_id c previous at' pending_sec =
     (if completeness (gc_page c) \<noteq> Complete then \<lparr>gp_updates = [], gp_evicted = []\<rparr>
      else
        (let interrupted = (case map_of previous ROLLUP_GROUP_KEY of
                              Some s \<Rightarrow> as_last_outcome s = Some OError | None \<Rightarrow> False);
             results = map (rule_update digest alert_id previous interrupted at' pending_sec) (gc_groups c);
             retained = set (map (\<lambda>g. group_key digest (cg_labels g)) (gc_groups c));
             firing = length (filter (\<lambda>r. fst r = OFiring) results);
             absent = map (\<lambda>(key, prev). resolve_group_update alert_id key prev at')
                        (filter (\<lambda>(key, prev). key \<noteq> ROLLUP_GROUP_KEY \<and> key \<notin> retained) previous);
             outcome = (if gc_groups c = [] then ONormal else if firing > 0 then OFiring else OPending);
             level = (if gc_groups c = [] then LOk else LCritical);
             rollup = apply_outcome alert_id ROLLUP_GROUP_KEY (map_of previous ROLLUP_GROUP_KEY) outcome (Some level) at';
             rollup = rollup\<lparr>su_state := map_option (\<lambda>s. s\<lparr>as_groups_observed := Some (length (gc_groups c)),
                        as_groups_firing := Some firing, as_groups_observed_is_lower_bound := Some False,
                        as_groups_firing_is_lower_bound := Some False\<rparr>) (su_state rollup)\<rparr>
         in \<lparr>gp_updates = map snd results @ absent @ [rollup], gp_evicted = []\<rparr>))"

section \<open>The sweep of one row\<close>

definition fate_for_alert :: "bool \<Rightarrow> alert_state \<Rightarrow> int \<Rightarrow> int \<Rightarrow> int \<Rightarrow> group_fate" where
  "fate_for_alert promql_rule_mode s now resolve_after grace =
     (case group_fate s now resolve_after grace of
        Resolve \<Rightarrow> if promql_rule_mode then Keep else Resolve
      | fate \<Rightarrow> fate)"

definition sweep_row ::
  "string \<Rightarrow> bool \<Rightarrow> int \<Rightarrow> int \<Rightarrow> alert_state \<Rightarrow> int \<Rightarrow> alert_state option \<times> state_transition option" where
  "sweep_row alert_id promql_rule_mode resolve_after grace s now =
     (case fate_for_alert promql_rule_mode s now resolve_after grace of
        Keep \<Rightarrow> (Some s, None)
      | Resolve \<Rightarrow>
          (let update = resolve_group_update alert_id (as_group_key s) s now
           in if is_noop update then (Some s, None) else (su_state update, su_transition update))
      | Reap \<Rightarrow> (None, None))"

fun sweeps ::
  "string \<Rightarrow> bool \<Rightarrow> int \<Rightarrow> int \<Rightarrow> alert_state \<Rightarrow> int list \<Rightarrow> alert_state option \<times> state_transition list" where
  "sweeps a m ra grace s [] = (Some s, [])"
| "sweeps a m ra grace s (now # ts) =
     (case sweep_row a m ra grace s now of
        (None, tr) \<Rightarrow> (None, case tr of Some t \<Rightarrow> [t] | None \<Rightarrow> [])
      | (Some s', tr) \<Rightarrow>
          (let (final, log) = sweeps a m ra grace s' ts
           in (final, (case tr of Some t \<Rightarrow> [t] | None \<Rightarrow> []) @ log)))"

section \<open>Identity of a group\<close>

lemma show_nat_colon:
  assumes "show_nat m @ CHR '':'' # r = show_nat n @ CHR '':'' # s"
  shows "m = n \<and> r = s"
proof -
  have d: "\<not> is_digit CHR '':''" by (simp add: is_digit_def less_eq_char_def)
  have "takeWhile is_digit (show_nat k @ CHR '':'' # x) = show_nat k" for k x
    using show_nat_digits [of k] d by (auto simp: takeWhile_append list_all_iff)
  then have "show_nat m = show_nat n" using assms by metis
  then show ?thesis using assms show_nat_inj by auto
qed

lemma encode_label_prefix:
  assumes "encode_label (k, v) @ r = encode_label (k', v') @ r'"
  shows "k = k' \<and> v = v' \<and> r = r'"
proof -
  have "length k = length k' \<and> k @ '':'' @ show_nat (length v) @ '':'' @ v @ '';'' @ r =
      k' @ '':'' @ show_nat (length v') @ '':'' @ v' @ '';'' @ r'"
    using assms show_nat_colon [of "length k" _ "length k'"] by (simp add: encode_label_def)
  then have k: "k = k'" "show_nat (length v) @ CHR '':'' # (v @ '';'' @ r) = show_nat (length v') @ CHR '':'' # (v' @ '';'' @ r')"
    by auto
  then show ?thesis using show_nat_colon [OF k(2)] by auto
qed

text \<open>
  The identity of a group is not forgeable through label values. The length-prefixed encoding that is
  hashed into a group key determines the label set: two label sets with the same encoding are equal,
  whatever separators, digits or further encodings their keys and values contain. So two groups share a
  key only if the digest collides.
\<close>

theorem label_encoding_injective: "inj encode_labels"
proof (rule injI)
  fix ls ls' :: labels
  assume "encode_labels ls = encode_labels ls'"
  then show "ls = ls'"
  proof (induction ls arbitrary: ls')
    case Nil
    then show ?case by (cases ls') (auto simp: encode_labels_def encode_label_def)
  next
    case (Cons x xs)
    obtain y ys where ls': "ls' = y # ys"
      using Cons.prems by (cases ls') (auto simp: encode_labels_def encode_label_def split: prod.splits)
    then have "encode_label x @ encode_labels xs = encode_label y @ encode_labels ys"
      using Cons.prems by (simp add: encode_labels_def)
    then show ?case using encode_label_prefix [of "fst x" "snd x" "encode_labels xs" "fst y" "snd y"] Cons.IH
      by (simp add: ls' prod_eq_iff)
  qed
qed

section \<open>The cap keeps the worst\<close>

interpretation worst: keyed_cmp "\<lambda>a b. cmp (severity_rank a) (severity_rank b)" severity_rank
  by unfold_locales simp

lemma severity_rank_inj: "inj severity_rank"
proof (rule injI)
  fix x y show "severity_rank x = severity_rank y \<Longrightarrow> x = y" by (cases x; cases y) auto
qed

lemma most_severe_eq:
  "most_severe ls = Some m \<longleftrightarrow> m \<in> set ls \<and> (\<forall>x \<in> set ls. severity_rank x \<le> severity_rank m)"
  unfolding most_severe_def by (rule worst.max_by_unique) (rule inj_on_subset [OF severity_rank_inj subset_UNIV])

lemma most_severe_set: "set xs = set ys \<Longrightarrow> most_severe xs = most_severe ys"
  unfolding most_severe_def
  by (rule worst.max_by_order_free) (auto intro: inj_on_subset [OF severity_rank_inj])

lemma rollup_level_set: "set xs = set ys \<Longrightarrow> rollup_level xs = rollup_level ys"
  unfolding rollup_level_def by (metis most_severe_set set_map set_empty)

lemma rank_level: "group_rank g = severity_rank (case cg_level g of Some x \<Rightarrow> x | None \<Rightarrow> LOk)"
  by (simp add: group_rank_def split: option.split)

lemma rollup_take:
  assumes "sorted (map (\<lambda>g. Down (group_rank g)) gs)" "0 < n"
  shows "rollup_level (map cg_level (take n gs)) = rollup_level (map cg_level gs)"
proof (cases gs)
  case (Cons g rest)
  let ?l = "\<lambda>g. case cg_level g of Some x \<Rightarrow> x | None \<Rightarrow> LOk"
  have "\<forall>x \<in> set gs. severity_rank (?l x) \<le> severity_rank (?l g)"
    using assms(1) unfolding rank_level [symmetric] by (auto simp: Cons)
  then have "most_severe (map ?l gs) = Some (?l g)" "most_severe (map ?l (take n gs)) = Some (?l g)"
    using assms(2) by (auto simp: most_severe_eq Cons take_Cons' dest: in_set_takeD)
  then show ?thesis using assms(2) by (simp add: rollup_level_def Cons comp_def)
qed simp

lemma sorted_by_rank:
  "sorted (map (\<lambda>g. Down (group_rank g)) (sort_key (\<lambda>g. (Down (group_rank g), f g)) gs))"
proof -
  have "sorted (map (\<lambda>g. (Down (group_rank g), f g)) (sort_key (\<lambda>g. (Down (group_rank g), f g)) gs))"
    by (rule sorted_sort_key)
  then show ?thesis by (auto simp: sorted_map less_eq_prod_def elim!: sorted_wrt_mono_rel [rotated])
qed

definition classified :: "(f64 \<Rightarrow> alert_level option) \<Rightarrow> group_observation \<Rightarrow> classified_group" where
  "classified f o' = \<lparr>cg_labels = go_labels o', cg_actual_value = go_actual_value o', cg_rule_value = None,
                      cg_level = f (go_actual_value o')\<rparr>"

lemma classify_groups_by_split:
  defines "gs f digest obs \<equiv> sort_key (\<lambda>g. (Down (group_rank g), group_key digest (cg_labels g))) (map (classified f) obs)"
  shows "\<exists>n. gc_groups (classify_groups_by digest obs f cap) = take n (gs f digest obs) \<and>
    gc_dropped (classify_groups_by digest obs f cap) = map (\<lambda>g. group_key digest (cg_labels g)) (drop n (gs f digest obs)) \<and>
    (n = cap \<or> n = length obs) \<and> (0 < n \<or> obs = [])"
  by (rule exI [of _ "if 0 < cap \<and> cap < length obs then cap else length obs"])
    (auto simp: classify_groups_by_def Let_def gs_def classified_def [abs_def])

text \<open>
  C29. The cardinality cap never changes the verdict and drops the least severe. Whatever the cap, the rollup
  level of a grouped evaluation is that of all the groups it observed; the observed groups, classified, are
  those retained and those whose keys are listed as dropped, no more and no fewer; and no dropped group is
  more severe than a retained one.
\<close>

theorem capped_rollup_exact:
  "gc_rollup (classify_groups_by digest obs f cap) = rollup_level (map (\<lambda>o'. f (go_actual_value o')) obs) \<and>
   (\<exists>rest. mset (gc_groups (classify_groups_by digest obs f cap) @ rest) = mset (map (classified f) obs) \<and>
      gc_dropped (classify_groups_by digest obs f cap) = map (\<lambda>g. group_key digest (cg_labels g)) rest \<and>
      (\<nexists>x y. x \<in> set (gc_groups (classify_groups_by digest obs f cap)) \<and> y \<in> set rest \<and> group_rank x < group_rank y))"
proof -
  define gs where "gs = sort_key (\<lambda>g. (Down (group_rank g), group_key digest (cg_labels g))) (map (classified f) obs)"
  obtain n where n: "gc_groups (classify_groups_by digest obs f cap) = take n gs"
    "gc_dropped (classify_groups_by digest obs f cap) = map (\<lambda>g. group_key digest (cg_labels g)) (drop n gs)"
    "0 < n \<or> obs = []"
    using classify_groups_by_split [of digest obs f cap] unfolding gs_def by blast
  have sorted: "sorted (map (\<lambda>g. Down (group_rank g)) gs)" unfolding gs_def by (rule sorted_by_rank)
  have "rollup_level (map cg_level (take n gs)) = rollup_level (map cg_level gs)"
    using n(3) rollup_take [OF sorted] by (auto simp: gs_def)
  moreover have "rollup_level (map cg_level gs) = rollup_level (map (\<lambda>o'. f (go_actual_value o')) obs)"
    by (rule rollup_level_set) (simp add: gs_def classified_def image_image)
  moreover have "gc_rollup (classify_groups_by digest obs f cap) = rollup_level (map cg_level (gc_groups (classify_groups_by digest obs f cap)))"
    by (simp add: classify_groups_by_def Let_def)
  moreover have "mset (take n gs @ drop n gs) = mset (map (classified f) obs)" by (simp add: gs_def del: mset_map)
  moreover have "sorted (map (\<lambda>g. Down (group_rank g)) (take n gs @ drop n gs))" using sorted by simp
  then have "\<not> group_rank x < group_rank y" if "x \<in> set (take n gs)" "y \<in> set (drop n gs)" for x y
    using that unfolding map_append sorted_append by fastforce
  ultimately show ?thesis using n by (intro conjI exI [of _ "drop n gs"]) auto
qed

section \<open>The life of a group that is no longer observed\<close>

lemma sweeps_resolved:
  assumes "is_resolved s" "as_last_outcome_at s = Some r" "0 \<le> r" "\<forall>t \<in> set ts. r \<le> t \<and> t \<le> i64_max"
  shows "sweeps a m ra grace s ts = (if \<exists>d \<in> set ts. grace < d - r then None else Some s, [])"
  using assms(4)
proof (induction ts)
  case (Cons t ts)
  have "saturating_sub t r = t - r" using Cons.prems assms(3) by (auto simp: i64_defs)
  then have "sweep_row a m ra grace s t = (if grace < t - r then None else Some s, None)"
    using assms(1,2) by (simp add: sweep_row_def fate_for_alert_def group_fate_def)
  then show ?case using Cons by (auto simp: Let_def)
qed simp

definition overdue :: "int \<Rightarrow> int \<Rightarrow> int list \<Rightarrow> int option" where
  "overdue t0 ra ts = find (\<lambda>t. ra < t - t0) ts"

text \<open>
  What the life of a vanished group should be, written without the code's helpers: the row that stands once
  the group is given up, and the one transition that announces it.
\<close>

definition recovered_row :: "string \<Rightarrow> int \<Rightarrow> alert_state \<Rightarrow> alert_state" where
  "recovered_row a r s =
     s\<lparr>as_alert_id := a, as_last_outcome := Some ONormal, as_last_outcome_at := Some r,
       as_since := (if as_last_outcome s = Some ONormal then as_since s else Some r),
       as_level := Some LOk, as_level_since := (if as_level s = Some LOk then as_level_since s else Some r),
       as_level_at := Some r\<rparr>"

definition healthy_row :: "alert_state \<Rightarrow> bool" where
  "healthy_row s \<longleftrightarrow> as_last_outcome s = Some ONormal \<and> as_level s = Some LOk"

definition recovery_of :: "string \<Rightarrow> int \<Rightarrow> alert_state \<Rightarrow> state_transition" where
  "recovery_of a r s =
     \<lparr>st_alert_id = a, st_group_key = as_group_key s, st_from_outcome = as_last_outcome s, st_to_outcome = ONormal,
      st_from_level = as_level s, st_to_level = Some LOk, st_at = r, st_value = None, st_rule_value = None,
      st_group_labels = as_group_labels s\<rparr>"

definition life_of_vanished :: "string \<Rightarrow> int \<Rightarrow> int \<Rightarrow> int \<Rightarrow> alert_state \<Rightarrow> int list \<Rightarrow> alert_state option \<times> state_transition list" where
  "life_of_vanished a t0 ra grace s ts =
     (case overdue t0 ra ts of
        None \<Rightarrow> (Some s, [])
      | Some r \<Rightarrow> (if \<exists>d \<in> set ts. grace < d - r then None else Some (recovered_row a r s),
                   if healthy_row s then [] else [recovery_of a r s]))"

lemma resolve_group_update_exact:
  assumes "\<not> is_resolved s"
  shows "resolve_group_update a (as_group_key s) s r =
     \<lparr>su_state = Some (recovered_row a r s), su_transition = (if healthy_row s then None else Some (recovery_of a r s))\<rparr>"
  using assms by (auto simp: resolve_group_update_def recovered_row_def recovery_of_def healthy_row_def Let_def)

lemma recovered_row_resolved:
  "as_last_seen s = Some t0 \<Longrightarrow> t0 < r \<Longrightarrow> is_resolved (recovered_row a r s)"
  by (simp add: recovered_row_def is_resolved_def)


definition firing_row :: alert_state where
  "firing_row = (alert_state_empty ''a'' ''g'')\<lparr>as_last_outcome := Some OFiring, as_last_outcome_at := Some 100,
     as_since := Some 100, as_level := Some LCritical, as_level_since := Some 100, as_level_at := Some 100,
     as_last_seen := Some 100\<rparr>"


section \<open>The first run of a healthy alert\<close>

text \<open>
  With a pending period, the first grouped evaluation of an alert records \<open>Pending\<close> on the rollup row
  even when no group fires; a group's own first row is pending only when it fires.
\<close>

theorem healthy_first_run_is_pending:
  assumes "map_of prev ROLLUP_GROUP_KEY = None" "0 < pending" "gc_rollup c = Some LOk"
  shows "\<exists>s. su_state (rollup_update a c prev t pending) = Some s \<and> as_last_outcome s = Some OPending \<and>
    as_level s = Some LOk \<and> as_groups_firing s = Some 0"
  using assms
  by (simp add: rollup_update_def group_outcome_def level_is_firing_def apply_outcome_def should_persist_def Let_def)

end
