(* ===== verification/Alert_Dispatch.thy ===== *)
theory Alert_Dispatch
  imports Alert_Grouping
begin

text \<open>
  Notification of groups (\<open>src/config/src/meta/alerts/dispatch.rs\<close>): which groups an evaluation notifies,
  and the writes that record a delivery or its failure. A delivery carries the level episode it was
  enqueued in. The result row of a group, a JSON object the module only passes on, is a type variable.
\<close>

section \<open>Episodes and plans\<close>

record delivery_episode =
  de_level :: alert_level
  de_level_since :: int
  de_notified_at_enqueue :: "alert_level option \<times> int option"

definition episode_of :: "alert_state \<Rightarrow> delivery_episode option" where
  "episode_of s =
     (case (as_level s, as_level_since s) of
        (Some l, Some t) \<Rightarrow> Some \<lparr>de_level = l, de_level_since = t,
                                 de_notified_at_enqueue = (as_last_notified_level s, as_silenced_until s)\<rparr>
      | _ \<Rightarrow> None)"

lemma episode_of_Some:
  "episode_of s = Some e \<longleftrightarrow> as_level s = Some (de_level e) \<and> as_level_since s = Some (de_level_since e) \<and>
     de_notified_at_enqueue e = (as_last_notified_level s, as_silenced_until s)"
  by (cases e) (auto simp: episode_of_def split: option.splits)

record 'r dispatch_item =
  di_group_key :: string
  di_labels :: labels
  di_level :: alert_level
  di_actual_value :: f64
  di_escalation :: bool
  di_episode :: delivery_episode
  di_row :: 'r

record 'r dispatch_plan =
  dp_items :: "'r dispatch_item list"
  dp_suppressed :: nat
  dp_pending :: nat
  dp_dropped_by_knob :: "string list"
  dp_inconsistent :: "string list"
  dp_muted :: "string list"

definition empty_plan :: "'r dispatch_plan" where
  "empty_plan = \<lparr>dp_items = [], dp_suppressed = 0, dp_pending = 0, dp_dropped_by_knob = [], dp_inconsistent = [], dp_muted = []\<rparr>"

definition group_decision :: "trigger_condition \<Rightarrow> int \<Rightarrow> alert_level \<Rightarrow> alert_state \<Rightarrow> delivery_decision" where
  "group_decision tc now level s =
     (if as_last_outcome s = Some OPending then SuppressedByPending
      else delivery_decision level (as_last_notified_level s) (as_silenced_until s) now (tc_notify_on_warning tc))"

definition dispatch_group ::
  "(string \<Rightarrow> nat) \<Rightarrow> (string \<rightharpoonup> alert_state) \<Rightarrow> (string \<rightharpoonup> 'r) \<Rightarrow> trigger_condition \<Rightarrow> int \<Rightarrow> nat \<Rightarrow> (string \<Rightarrow> bool) \<Rightarrow>
   classified_group \<times> string \<Rightarrow> 'r dispatch_plan \<Rightarrow> 'r dispatch_plan" where
  "dispatch_group occurrences states rows tc now max_sends muted gk p =
     (let (g, key) = gk in
      if occurrences key > 1 then
        (if key \<in> set (dp_inconsistent p) then p else p\<lparr>dp_inconsistent := dp_inconsistent p @ [key]\<rparr>)
      else case Option.bind (cg_level g) (\<lambda>l. if level_is_firing l then Some l else None) of
        None \<Rightarrow> p
      | Some level \<Rightarrow>
          (case (states key, rows key) of
             (Some s, Some row) \<Rightarrow>
               (case episode_of s of
                  None \<Rightarrow> p\<lparr>dp_inconsistent := dp_inconsistent p @ [key]\<rparr>
                | Some episode \<Rightarrow>
                    (let decision = group_decision tc now level s
                     in if should_deliver decision then
                          (if muted key then p\<lparr>dp_suppressed := dp_suppressed p + 1, dp_muted := dp_muted p @ [key]\<rparr>
                           else if max_sends > 0 \<and> length (dp_items p) \<ge> max_sends
                           then p\<lparr>dp_dropped_by_knob := dp_dropped_by_knob p @ [key]\<rparr>
                           else p\<lparr>dp_items := dp_items p @
                                  [\<lparr>di_group_key = key, di_labels = cg_labels g, di_level = level,
                                    di_actual_value = cg_actual_value g,
                                    di_escalation = (decision = DeliverEscalation),
                                    di_episode = episode, di_row = row\<rparr>]\<rparr>)
                        else case decision of
                               SuppressedByPending \<Rightarrow> p\<lparr>dp_pending := dp_pending p + 1\<rparr>
                             | NotFiring \<Rightarrow> p
                             | _ \<Rightarrow> p\<lparr>dp_suppressed := dp_suppressed p + 1\<rparr>))
           | _ \<Rightarrow> p\<lparr>dp_inconsistent := dp_inconsistent p @ [key]\<rparr>))"

definition group_keys :: "(string \<Rightarrow> string) \<Rightarrow> group_classification \<Rightarrow> string list" where
  "group_keys digest c = map (\<lambda>g. group_key digest (cg_labels g)) (gc_groups c)"

definition plan_dispatch ::
  "(string \<Rightarrow> string) \<Rightarrow> group_classification \<Rightarrow> (string \<rightharpoonup> alert_state) \<Rightarrow> (string \<rightharpoonup> 'r) \<Rightarrow> trigger_condition \<Rightarrow> int \<Rightarrow> nat \<Rightarrow>
   (string \<Rightarrow> bool) \<Rightarrow> 'r dispatch_plan" where
  "plan_dispatch digest c states rows tc now max_sends muted =
     (let keys = group_keys digest c
      in fold (dispatch_group (count_list keys) states rows tc now max_sends muted) (zip (gc_groups c) keys) empty_plan)"

section \<open>Recording a delivery\<close>

definition delivery_success_update :: "alert_state \<Rightarrow> delivery_episode \<Rightarrow> int \<Rightarrow> int \<Rightarrow> alert_state option" where
  "delivery_success_update current episode silence_minutes delivered_at =
     (if as_level current \<noteq> Some (de_level episode) \<or> as_level_since current \<noteq> Some (de_level_since episode) then None
      else
        (let candidate = (if silence_minutes > 0
                          then Some (saturating_add delivered_at (saturating_mul silence_minutes (60 * 1000000)))
                          else None);
             same_level_sibling = (as_last_notified_level current = Some (de_level episode));
             silenced = (if \<not> same_level_sibling then candidate
                         else case (as_silenced_until current, candidate) of
                                (Some existing, Some new) \<Rightarrow> Some (max existing new)
                              | (Some existing, None) \<Rightarrow> Some existing
                              | (None, new) \<Rightarrow> new)
         in Some (current\<lparr>as_last_notified_level := Some (de_level episode), as_silenced_until := silenced\<rparr>)))"

definition delivery_failure_update :: "alert_state \<Rightarrow> delivery_episode \<Rightarrow> int \<Rightarrow> state_update option" where
  "delivery_failure_update current episode failed_at =
     (if as_level current \<noteq> Some (de_level episode) \<or> as_level_since current \<noteq> Some (de_level_since episode) then None
      else if (as_last_notified_level current, as_silenced_until current) \<noteq> de_notified_at_enqueue episode then None
      else
        (let outcome_changed = (as_last_outcome current \<noteq> Some ONotifyFailed);
             state = current\<lparr>as_last_outcome := Some ONotifyFailed, as_last_outcome_at := Some failed_at\<rparr>;
             state = (if outcome_changed then state\<lparr>as_since := Some failed_at\<rparr> else state);
             transition =
               (if outcome_changed
                then Some \<lparr>st_alert_id = as_alert_id current, st_group_key = as_group_key current,
                           st_from_outcome = as_last_outcome current, st_to_outcome = ONotifyFailed,
                           st_from_level = as_level current, st_to_level = as_level current, st_at = failed_at,
                           st_value = None, st_rule_value = None, st_group_labels = as_group_labels current\<rparr>
                else None)
         in Some \<lparr>su_state = Some state, su_transition = transition\<rparr>))"

definition evaluates_through_silence :: "bool \<Rightarrow> bool \<Rightarrow> bool" where
  "evaluates_through_silence multi_alert has_warning \<longleftrightarrow> multi_alert \<or> has_warning"

definition alert_level_delivery_applies :: "bool \<Rightarrow> bool \<Rightarrow> bool" where
  "alert_level_delivery_applies multi_alert multi_level \<longleftrightarrow> multi_level \<and> \<not> multi_alert"

section \<open>What is sent\<close>

definition send_item ::
  "(string \<Rightarrow> nat) \<Rightarrow> (string \<rightharpoonup> alert_state) \<Rightarrow> (string \<rightharpoonup> 'r) \<Rightarrow> trigger_condition \<Rightarrow> int \<Rightarrow> (string \<Rightarrow> bool) \<Rightarrow>
   classified_group \<times> string \<Rightarrow> 'r dispatch_item option" where
  "send_item occurrences states rows tc now muted gk =
     (case gk of (g, key) \<Rightarrow>
        (case (cg_level g, states key, rows key) of
           (Some level, Some s, Some row) \<Rightarrow>
             (case episode_of s of
                Some episode \<Rightarrow>
                  if occurrences key \<le> 1 \<and> level_is_firing level \<and> should_deliver (group_decision tc now level s) \<and> \<not> muted key
                  then Some \<lparr>di_group_key = key, di_labels = cg_labels g, di_level = level,
                             di_actual_value = cg_actual_value g,
                             di_escalation = (group_decision tc now level s = DeliverEscalation),
                             di_episode = episode, di_row = row\<rparr>
                  else None
              | None \<Rightarrow> None)
         | _ \<Rightarrow> None))"

lemma dispatch_group_items:
  "dp_items (dispatch_group oc st rw tc now ms mu gk p) =
     (case send_item oc st rw tc now mu gk of
        Some i \<Rightarrow> if ms > 0 \<and> length (dp_items p) \<ge> ms then dp_items p else dp_items p @ [i]
      | None \<Rightarrow> dp_items p)"
  "dp_dropped_by_knob (dispatch_group oc st rw tc now ms mu gk p) =
     (case send_item oc st rw tc now mu gk of
        Some i \<Rightarrow> if ms > 0 \<and> length (dp_items p) \<ge> ms then dp_dropped_by_knob p @ [di_group_key i] else dp_dropped_by_knob p
      | None \<Rightarrow> dp_dropped_by_knob p)"
  by (auto simp: dispatch_group_def send_item_def Let_def should_deliver_def
      split: prod.splits option.splits if_splits delivery_decision.splits)

lemma fold_dispatch:
  fixes f :: "'x \<Rightarrow> 'r dispatch_plan \<Rightarrow> 'r dispatch_plan"
  assumes "\<And>x p. dp_items (f x p) = (case h x of Some i \<Rightarrow> if ms > 0 \<and> length (dp_items p) \<ge> ms then dp_items p else dp_items p @ [i] | None \<Rightarrow> dp_items p)"
    and "\<And>x p. dp_dropped_by_knob (f x p) = (case h x of Some i \<Rightarrow> if ms > 0 \<and> length (dp_items p) \<ge> ms then dp_dropped_by_knob p @ [di_group_key i] else dp_dropped_by_knob p | None \<Rightarrow> dp_dropped_by_knob p)"
    and "ms > 0 \<Longrightarrow> length (dp_items p) \<le> ms"
  shows "dp_items (fold f xs p) = dp_items p @ (if ms = 0 then List.map_filter h xs else take (ms - length (dp_items p)) (List.map_filter h xs)) \<and>
    dp_dropped_by_knob (fold f xs p) = dp_dropped_by_knob p @
      (if ms = 0 then [] else map di_group_key (drop (ms - length (dp_items p)) (List.map_filter h xs)))"
  using assms(3)
proof (induction xs arbitrary: p)
  case (Cons x xs)
  have len: "ms > 0 \<Longrightarrow> length (dp_items (f x p)) \<le> ms" using Cons.prems by (auto simp: assms(1) split: option.splits)
  show ?case
  proof (cases "h x")
    case None
    then show ?thesis using Cons.IH [OF len] by (simp add: assms map_filter_simps)
  next
    case (Some i)
    show ?thesis
    proof (cases "ms > 0 \<and> length (dp_items p) \<ge> ms")
      case True
      then show ?thesis using Cons.IH [OF len] Some by (simp add: assms map_filter_simps)
    next
      case False
      then have "ms > 0 \<Longrightarrow> ms - length (dp_items p) = Suc (ms - Suc (length (dp_items p)))" by auto
      then show ?thesis using Cons.IH [OF len] Some False by (auto simp: assms map_filter_simps)
    qed
  qed
qed (simp add: map_filter_simps)

lemma map_filter_sorted_wrt:
  assumes "sorted_wrt P xs" "\<And>x y i j. P x y \<Longrightarrow> h x = Some i \<Longrightarrow> h y = Some j \<Longrightarrow> Q i j"
  shows "sorted_wrt Q (List.map_filter h xs)"
  using assms(1)
proof (induction xs)
  case (Cons x xs)
  then show ?case using assms(2)
    by (cases "h x") (auto simp: map_filter_simps map_filter_def)
qed (simp add: map_filter_simps)

lemma send_item_level: "send_item oc st rw tc now mu (g, key) = Some i \<Longrightarrow> cg_level g = Some (di_level i)"
  by (auto simp: send_item_def split: option.splits if_splits)

lemma classified_by_rank:
  "sorted_wrt (\<lambda>x y. group_rank y \<le> group_rank x) (gc_groups (classify_groups_by digest obs f cap))"
proof -
  obtain n where "gc_groups (classify_groups_by digest obs f cap) =
      take n (sort_key (\<lambda>g. (Down (group_rank g), group_key digest (cg_labels g))) (map (classified f) obs))"
    using classify_groups_by_split by blast
  moreover have "sorted_wrt (\<lambda>x y. group_rank y \<le> group_rank x)
      (sort_key (\<lambda>g. (Down (group_rank g), group_key digest (cg_labels g))) (map (classified f) obs))"
    using sorted_by_rank [of "\<lambda>g. group_key digest (cg_labels g)" "map (classified f) obs"] by (simp add: sorted_map)
  ultimately show ?thesis by (simp add: sorted_wrt_take)
qed

text \<open>
  C22. Dispatch sends the worst groups, up to the limit, and says what it left out. Take any observed groups
  as they are classified under the cap. Those that qualify have a unique key, a firing level, a stored
  row that names its episode, a result row, a decision to deliver and no mute. The plan sends the
  qualifying groups with the more severe ones first, cut to the configured number of sends, and
  lists the keys of the qualifying groups beyond it as dropped, none of which is more severe than one
  that is sent. A limit of zero sends them all.
\<close>

theorem dispatch_sends_exactly:
  "let c = classify_groups_by digest obs f cap;
       plan = plan_dispatch digest c states rows tc now max_sends muted;
       q = List.map_filter (send_item (count_list (group_keys digest c)) states rows tc now muted)
             (zip (gc_groups c) (group_keys digest c))
   in sorted_wrt (\<lambda>i j. severity_rank (di_level j) \<le> severity_rank (di_level i)) q \<and>
      dp_items plan = (if max_sends = 0 then q else take max_sends q) \<and>
      dp_dropped_by_knob plan = (if max_sends = 0 then [] else map di_group_key (drop max_sends q))"
proof -
  define c where "c = classify_groups_by digest obs f cap"
  let ?h = "send_item (count_list (group_keys digest c)) states rows tc now muted"
  let ?z = "zip (gc_groups c) (group_keys digest c)"
  have "sorted_wrt (\<lambda>x y. group_rank y \<le> group_rank x) (map fst ?z)"
    using classified_by_rank [of digest obs f cap] by (simp add: c_def group_keys_def)
  then have "sorted_wrt (\<lambda>x y. group_rank (fst y) \<le> group_rank (fst x)) ?z" by (simp add: sorted_wrt_map)
  then have "sorted_wrt (\<lambda>i j. severity_rank (di_level j) \<le> severity_rank (di_level i)) (List.map_filter ?h ?z)"
    by (rule map_filter_sorted_wrt) (auto simp: group_rank_def dest!: send_item_level)
  then show ?thesis
    using fold_dispatch [where p = empty_plan and ms = max_sends and h = ?h and xs = ?z
        and f = "dispatch_group (count_list (group_keys digest c)) states rows tc now max_sends muted"]
      dispatch_group_items [where oc = "count_list (group_keys digest c)" and st = states and rw = rows and tc = tc and now = now and ms = max_sends and mu = muted]
    by (simp add: plan_dispatch_def empty_plan_def c_def Let_def)
qed

section \<open>Silence\<close>

lemma success_fields:
  assumes "delivery_success_update s e silence d = Some s'"
  shows "as_last_notified_level s' = Some (de_level e) \<and> as_last_outcome s' = as_last_outcome s \<and>
    (0 < silence \<longrightarrow> (\<exists>u. as_silenced_until s' = Some u \<and> saturating_add d (saturating_mul silence 60000000) \<le> u))"
  using assms by (auto simp: delivery_success_update_def Let_def split: if_splits option.splits)

text \<open>
  C39. After a delivery a group pages again only for worse. Once a successful delivery with a silence window
  is recorded on a row, then until the window ends a later evaluation of that group sends if and only if it
  is not pending, fires, is not a warning the alert mutes, and is strictly more severe than what was
  delivered.
\<close>

theorem quiet_after_delivery:
  assumes "delivery_success_update s e silence d = Some s'" "0 < silence"
    and "now < saturating_add d (saturating_mul silence 60000000)"
  shows "should_deliver (group_decision tc now level s') \<longleftrightarrow>
    as_last_outcome s \<noteq> Some OPending \<and> level_is_firing level \<and>
    \<not> (level = LWarning \<and> tc_notify_on_warning tc = Some False) \<and>
    severity_rank (de_level e) < severity_rank level"
  using success_fields [OF assms(1)] assms(2,3)
  by (auto simp: group_decision_def delivery_decision_def should_deliver_def Let_def split: option.splits bool.splits)

definition critical_row :: alert_state where
  "critical_row = firing_row\<lparr>as_level := Some LWarning\<rparr>"

definition warning_episode :: delivery_episode where
  "warning_episode = \<lparr>de_level = LWarning, de_level_since = 100, de_notified_at_enqueue = (None, None)\<rparr>"

theorem quiet_after_delivery_witness:
  "\<exists>s'. delivery_success_update critical_row warning_episode 5 200 = Some s' \<and>
     \<not> should_deliver (group_decision tc_example 1000 LWarning s') \<and>
     should_deliver (group_decision tc_example 1000 LCritical s')"
proof -
  obtain s' where *: "delivery_success_update critical_row warning_episode 5 200 = Some s'"
    by (simp add: delivery_success_update_def critical_row_def firing_row_def warning_episode_def Let_def)
  have "should_deliver (group_decision tc_example 1000 l s') \<longleftrightarrow>
      as_last_outcome critical_row \<noteq> Some OPending \<and> level_is_firing l \<and>
      \<not> (l = LWarning \<and> tc_notify_on_warning tc_example = Some False) \<and>
      severity_rank (de_level warning_episode) < severity_rank l" for l
    by (rule quiet_after_delivery [OF *]) (simp_all add: i64_defs)
  then show ?thesis using *
    by (simp add: critical_row_def firing_row_def tc_example_def level_is_firing_def warning_episode_def)
qed

text \<open>
  Deliveries of one episode may be recorded in any order. Two successful deliveries carrying the same
  episode, with any silences and any delivery times, leave the same row whichever is recorded first, and
  either both are recorded or both are refused.
\<close>

theorem sibling_deliveries_commute:
  "Option.bind (delivery_success_update s e m a) (\<lambda>s'. delivery_success_update s' e n b) =
   Option.bind (delivery_success_update s e n b) (\<lambda>s'. delivery_success_update s' e m a)"
  by (auto simp: delivery_success_update_def Let_def max.commute max.left_commute split: option.splits)

section \<open>Failures\<close>

text \<open>
  A failed attempt does not hide a delivery. Once a delivery with a silence window is recorded, and the
  window before it (if any) had ended, a failure of any attempt of the same episode that was enqueued before
  it is refused.
\<close>

theorem late_failure_refused:
  assumes "delivery_success_update s e silence d = Some s'" "0 < silence" "i64_ok d"
    and "\<forall>u. as_silenced_until s = Some u \<longrightarrow> u \<le> d" "d < i64_max"
    and "de_notified_at_enqueue e' = (as_last_notified_level s, as_silenced_until s)"
  shows "delivery_failure_update s' e' t = None"
proof -
  obtain u where u: "as_silenced_until s' = Some u" "saturating_add d (saturating_mul silence 60000000) \<le> u"
    using success_fields [OF assms(1)] assms(2) by blast
  have "d < saturating_add d (saturating_mul silence 60000000)" using assms(2,3,5) by (auto simp: i64_defs)
  then have "as_silenced_until s' \<noteq> as_silenced_until s" using u assms(4) by (metis leD order_less_le_trans)
  then show ?thesis using assms(6) by (auto simp: delivery_failure_update_def)
qed

theorem late_failure_refused_witness:
  "\<exists>s'. delivery_success_update critical_row warning_episode 5 200 = Some s' \<and>
     delivery_failure_update s' warning_episode 300 = None"
proof -
  obtain s' where *: "delivery_success_update critical_row warning_episode 5 200 = Some s'"
    by (simp add: delivery_success_update_def critical_row_def firing_row_def warning_episode_def Let_def)
  then show ?thesis
    using late_failure_refused [OF *, of warning_episode 300]
    by (simp add: critical_row_def firing_row_def alert_state_empty_def warning_episode_def i64_defs)
qed

text \<open>
  Without a silence window the attempt anchor does not move when the same level is delivered again, so a
  failure that arrives after a delivery of the same episode is recorded over it.
\<close>

theorem late_failure_recorded_without_silence:
  assumes "episode_of s = Some e" "as_last_notified_level s = Some (de_level e)" "silence \<le> 0"
  shows "\<exists>s' u s''. delivery_success_update s e silence d = Some s' \<and> delivery_failure_update s' e t = Some u \<and>
    su_state u = Some s'' \<and> as_last_outcome s'' = Some ONotifyFailed"
  using assms
  by (auto simp: episode_of_Some delivery_success_update_def delivery_failure_update_def Let_def split: option.splits)

text \<open>
  A failed send advances the outcome clock past the last observation, which is how a resolved row is
  recognised. A group that then disappears is never resolved: whatever the sweeps, no transition is
  written, and the row is deleted once the grace period has passed.
\<close>

theorem failed_send_hides_disappearance:
  assumes "as_last_seen s = Some t0" "delivery_failure_update s e f = Some u" "su_state u = Some s'"
    and "t0 < f" "0 \<le> f" "\<forall>t \<in> set ts. f \<le> t \<and> t \<le> i64_max"
  shows "as_level s' = as_level s \<and>
    sweeps a m ra grace s' ts = (if \<exists>d \<in> set ts. grace < d - f then None else Some s', [])"
proof -
  have "as_last_seen s' = Some t0" "as_last_outcome_at s' = Some f" "as_level s' = as_level s"
    using assms(1-3) by (auto simp: delivery_failure_update_def Let_def split: if_splits)
  then show ?thesis using assms(4-6) by (intro conjI sweeps_resolved) (simp_all add: is_resolved_def)
qed

end
