(* ===== verification/Alert_Uptime.thy ===== *)
theory Alert_Uptime
  imports Alert_State "HOL-Library.Product_Lexorder" "HOL-Library.Signed_Division"
begin

text \<open>
  From ledger intervals to slices of measured time
  (\<open>src/config/src/meta/slo/alert_uptime.rs\<close>). The reference is pointwise: an instant belongs to the
  last interval that starts no later, and is measured while that interval's assessment stands. The walk
  over the slice grid counts exactly those instants. The division of two floating point numbers is a
  parameter \<open>div64\<close>. Sums of microseconds are unbounded integers; they never exceed the width of a slice.
\<close>

section \<open>Intervals, grid and slices\<close>

definition MICROS :: int where "MICROS = 1000000"

record eval_interval =
  iv_level :: "alert_level option"
  iv_frequency_secs :: int
  iv_from_us :: int
  iv_to_us :: int

record uptime_grid =
  ug_range_start_secs :: int
  ug_range_end_secs :: int
  ug_slice_interval_secs :: int
  ug_min_coverage :: f64

record uptime_slice =
  us_slice_start :: int
  us_good_secs :: f64
  us_total_secs :: f64

fun classify :: "alert_level option \<Rightarrow> bool option" where
  "classify (Some LOk) = Some True"
| "classify (Some LWarning) = Some False"
| "classify (Some LCritical) = Some False"
| "classify (Some LNoData) = None"
| "classify None = None"

text \<open>A \<open>BTreeMap\<close> is its list of entries in key order.\<close>

fun bt_add :: "int \<Rightarrow> int \<times> int \<Rightarrow> (int \<times> int \<times> int) list \<Rightarrow> (int \<times> int \<times> int) list" where
  "bt_add k (g, n) [] = [(k, g, n)]"
| "bt_add k (g, n) ((k', g', n') # m) =
     (if k < k' then (k, g, n) # (k', g', n') # m
      else if k = k' then (k', g' + g, n' + n) # m
      else (k', g', n') # bt_add k (g, n) m)"

partial_function (option) walk ::
  "int \<Rightarrow> int \<Rightarrow> bool \<Rightarrow> int \<Rightarrow> (int \<times> int \<times> int) list \<Rightarrow> (int \<times> int \<times> int) list option" where
  "walk interval_us end_us is_good cursor measured =
     (if cursor < end_us then
        (let slice_start_us = div_euclid cursor interval_us * interval_us;
             segment_end = min end_us (saturating_add slice_start_us interval_us);
             len = segment_end - cursor
         in walk interval_us end_us is_good segment_end
              (bt_add slice_start_us (if is_good then len else 0, len) measured))
      else Some measured)"

fun accumulate ::
  "int \<Rightarrow> int \<Rightarrow> int \<Rightarrow> eval_interval list \<Rightarrow> (int \<times> int \<times> int) list \<Rightarrow> (int \<times> int \<times> int) list option" where
  "accumulate interval_us range_start_us range_end_us [] measured = Some measured"
| "accumulate interval_us range_start_us range_end_us (iv # rest) measured =
     (case classify (iv_level iv) of
        None \<Rightarrow> accumulate interval_us range_start_us range_end_us rest measured
      | Some is_good \<Rightarrow>
          (let extension = saturating_mul (max (iv_frequency_secs iv) 0) MICROS;
               end_us = saturating_add (iv_to_us iv) extension;
               end_us = min end_us range_end_us;
               end_us = (case rest of [] \<Rightarrow> end_us | n # _ \<Rightarrow> min end_us (iv_from_us n));
               start_us = max (iv_from_us iv) range_start_us
           in if end_us \<le> start_us then accumulate interval_us range_start_us range_end_us rest measured
              else Option.bind (walk interval_us end_us is_good start_us measured)
                     (accumulate interval_us range_start_us range_end_us rest)))"

definition uptime_slices :: "(f64 \<Rightarrow> f64 \<Rightarrow> f64) \<Rightarrow> eval_interval list \<Rightarrow> uptime_grid \<Rightarrow> uptime_slice list option" where
  "uptime_slices div64 intervals grid =
     (let interval_us = saturating_mul (ug_slice_interval_secs grid) MICROS;
          range_start_us = saturating_mul (ug_range_start_secs grid) MICROS;
          range_end_us = saturating_mul (ug_range_end_secs grid) MICROS
      in if interval_us \<le> 0 \<or> range_end_us \<le> range_start_us then Some []
         else map_option (\<lambda>measured.
             [\<lparr>us_slice_start = slice_start_us sdiv MICROS,
               us_good_secs = div64 (as_f64 (min good_us total_us)) (as_f64 MICROS),
               us_total_secs = div64 (as_f64 total_us) (as_f64 MICROS)\<rparr>.
              (slice_start_us, good_us, total_us) \<leftarrow> measured,
              total_us > 0 \<and> f64_le (ug_min_coverage grid) (div64 (as_f64 total_us) (as_f64 interval_us))])
           (accumulate interval_us range_start_us range_end_us
              (sort_key (\<lambda>iv. (iv_from_us iv, iv_to_us iv)) intervals) []))"

section \<open>The pointwise reference\<close>

definition stands :: "eval_interval \<Rightarrow> int \<Rightarrow> bool option" where
  "stands iv t = (if t < iv_to_us iv + max (iv_frequency_secs iv) 0 * MICROS then classify (iv_level iv) else None)"

fun status_at :: "eval_interval list \<Rightarrow> int \<Rightarrow> bool option" where
  "status_at [] t = None"
| "status_at (iv # rest) t =
     (case rest of
        n # _ \<Rightarrow> if iv_from_us n \<le> t then status_at rest t
                 else if iv_from_us iv \<le> t then stands iv t else None
      | [] \<Rightarrow> if iv_from_us iv \<le> t then stands iv t else None)"

definition counted :: "(int \<Rightarrow> bool option) \<Rightarrow> int set \<Rightarrow> int \<times> int" where
  "counted st A = (int (card {t \<in> A. st t = Some True}), int (card {t \<in> A. st t \<noteq> None}))"

section \<open>Adding to the map\<close>

definition bt_get :: "(int \<times> int \<times> int) list \<Rightarrow> int \<Rightarrow> int \<times> int" where
  "bt_get m k = (case map_of m k of Some v \<Rightarrow> v | None \<Rightarrow> (0, 0))"

definition bt_ok :: "int \<Rightarrow> (int \<times> int \<times> int) list \<Rightarrow> bool" where
  "bt_ok i m \<longleftrightarrow> sorted_wrt (<) (map fst m) \<and> (\<forall>k \<in> set (map fst m). i dvd k)"

lemma bt_add_keys: "set (map fst (bt_add k v m)) = insert k (set (map fst m))"
  by (induction k v m rule: bt_add.induct) auto

lemma bt_add_sorted: "sorted_wrt (<) (map fst m) \<Longrightarrow> sorted_wrt (<) (map fst (bt_add k v m))"
proof (induction k v m rule: bt_add.induct)
  case (2 k g n k' g' n' m)
  then show ?case using bt_add_keys [of k "(g, n)" m] by auto
qed simp

lemma bt_add_ok: "bt_ok i m \<Longrightarrow> i dvd k \<Longrightarrow> bt_ok i (bt_add k v m)"
  unfolding bt_ok_def by (simp only: bt_add_sorted bt_add_keys) auto

lemma bt_get_add:
  "sorted_wrt (<) (map fst m) \<Longrightarrow>
   bt_get (bt_add k v m) j = (if j = k then (fst (bt_get m j) + fst v, snd (bt_get m j) + snd v) else bt_get m j)"
proof (induction k v m rule: bt_add.induct)
  case (2 k g n k' g' n' m)
  have "k < k' \<Longrightarrow> map_of m k = None" using 2(2) by (force simp: map_of_eq_None_iff)
  then show ?case using 2 by (auto simp: bt_get_def)
qed (auto simp: bt_get_def)

section \<open>Walking a span\<close>

definition slice_of :: "int \<Rightarrow> int \<Rightarrow> int set" where
  "slice_of i s = {s ..< s + i}"

lemma slice_start_bounds:
  fixes i c :: int
  assumes "0 < i"
  shows "c div i * i \<le> c" "c < c div i * i + i"
  using assms pos_mod_sign [of i c] pos_mod_bound [of i c] div_mult_mod_eq [of c i] by linarith+

lemma slice_unique:
  fixes i s t :: int
  assumes "0 < i" "i dvd s" "t \<in> slice_of i s"
  shows "s = t div i * i"
proof -
  obtain q where s: "s = i * q" using assms(2) by blast
  have "t div i = q" using assms by (intro int_div_pos_eq [of _ _ _ "t - s"]) (auto simp: slice_of_def s)
  then show ?thesis by (simp add: s)
qed

lemma walk_counts:
  assumes i: "0 < i" "i \<le> i64_max" and e: "e \<le> i64_max" and c: "0 \<le> c"
    and m: "bt_ok i m"
  shows "\<exists>m'. walk i e g c m = Some m' \<and> bt_ok i m' \<and>
    (\<forall>s. i dvd s \<longrightarrow> bt_get m' s =
      (fst (bt_get m s) + (if g then int (card (slice_of i s \<inter> {c ..< e})) else 0),
       snd (bt_get m s) + int (card (slice_of i s \<inter> {c ..< e}))))"
  using c m
proof (induction "nat (e - c)" arbitrary: c m rule: less_induct)
  case less
  show ?case
  proof (cases "c < e")
    case False
    then show ?thesis using less.prems by (subst walk.simps) simp
  next
    case True
    define ss se where "ss = c div i * i" and "se = min e (ss + i)"
    have b: "ss \<le> c" "c < ss + i" unfolding ss_def by (rule slice_start_bounds [OF i(1)])+
    have dvd: "i dvd ss" by (simp add: ss_def)
    have ss0: "0 \<le> ss" using less.prems(1) i by (simp add: ss_def pos_imp_zdiv_nonneg_iff)
    have sat: "min e (saturating_add ss i) = se" using e b i ss0 by (auto simp: i64_defs se_def)
    have step: "walk i e g c m = walk i e g se (bt_add ss (if g then se - c else 0, se - c) m)"
      using True i sat by (subst walk.simps) (simp add: div_euclid_def Let_def ss_def)
    have lt: "c < se" "se \<le> e" "se \<le> ss + i" using True b by (auto simp: se_def)
    obtain m' where m': "walk i e g c m = Some m'" "bt_ok i m'"
      and get: "\<And>s. i dvd s \<Longrightarrow> bt_get m' s =
        (fst (bt_get (bt_add ss (if g then se - c else 0, se - c) m) s) + (if g then int (card (slice_of i s \<inter> {se ..< e})) else 0),
         snd (bt_get (bt_add ss (if g then se - c else 0, se - c) m) s) + int (card (slice_of i s \<inter> {se ..< e})))"
      using less.hyps [of se "bt_add ss (if g then se - c else 0, se - c) m"] less.prems lt True dvd
      by (auto simp: step bt_add_ok)
    have card: "int (card (slice_of i s \<inter> {c ..< e})) =
        (if s = ss then se - c else 0) + int (card (slice_of i s \<inter> {se ..< e}))" if s: "i dvd s" for s
    proof -
      have "slice_of i s \<inter> {c ..< e} = slice_of i s \<inter> {c ..< se} \<union> slice_of i s \<inter> {se ..< e}" using lt by auto
      moreover have "card (slice_of i s \<inter> {c ..< se} \<union> slice_of i s \<inter> {se ..< e}) =
          card (slice_of i s \<inter> {c ..< se}) + card (slice_of i s \<inter> {se ..< e})"
        by (intro card_Un_disjoint) (auto simp: slice_of_def)
      moreover have "slice_of i s \<inter> {c ..< se} = (if s = ss then {c ..< se} else {})"
      proof (cases "s = ss")
        case False
        have "slice_of i s \<inter> {c ..< se} = {}"
        proof (rule equals0I)
          fix t assume t: "t \<in> slice_of i s \<inter> {c ..< se}"
          then have "ss = t div i * i" using lt b by (intro slice_unique [OF i(1) dvd]) (simp add: slice_of_def)
          moreover have "s = t div i * i" using t by (intro slice_unique [OF i(1) s]) simp
          ultimately show False using False by simp
        qed
        then show ?thesis using False by simp
      qed (use b lt in \<open>auto simp: slice_of_def\<close>)
      ultimately show ?thesis using lt by auto
    qed
    have sorted: "sorted_wrt (<) (map fst m)" using less.prems(2) by (simp add: bt_ok_def)
    show ?thesis
    proof (intro exI conjI allI impI)
      fix s assume s: "i dvd s"
      show "bt_get m' s = (fst (bt_get m s) + (if g then int (card (slice_of i s \<inter> {c ..< e})) else 0),
          snd (bt_get m s) + int (card (slice_of i s \<inter> {c ..< e})))"
        unfolding get [OF s] card [OF s] bt_get_add [OF sorted] by (cases "s = ss"; cases g; simp)
    qed (fact m')+
  qed
qed

section \<open>Accumulating the spans\<close>

definition span_end :: "int \<Rightarrow> eval_interval \<Rightarrow> eval_interval list \<Rightarrow> int" where
  "span_end re iv rest =
     (let e = min (saturating_add (iv_to_us iv) (saturating_mul (max (iv_frequency_secs iv) 0) MICROS)) re
      in case rest of [] \<Rightarrow> e | n # _ \<Rightarrow> min e (iv_from_us n))"

lemma extension_exact:
  assumes "0 \<le> iv_to_us iv" "t < i64_max"
  shows "t < saturating_add (iv_to_us iv) (saturating_mul (max (iv_frequency_secs iv) 0) MICROS) \<longleftrightarrow>
    t < iv_to_us iv + max (iv_frequency_secs iv) 0 * MICROS"
  using assms by (auto simp: i64_defs MICROS_def)

lemma status_before:
  "sorted (map iv_from_us (n # rest)) \<Longrightarrow> t < iv_from_us n \<Longrightarrow> status_at (n # rest) t = None"
  by (cases rest) auto

lemma status_span:
  assumes "sorted (map iv_from_us (iv # rest))" "0 \<le> iv_to_us iv" "rs \<le> t" "t < re" "re \<le> i64_max"
  shows "status_at (iv # rest) t =
    (if t \<in> {max (iv_from_us iv) rs ..< span_end re iv rest} then classify (iv_level iv) else status_at rest t)"
    and "t \<in> {max (iv_from_us iv) rs ..< span_end re iv rest} \<Longrightarrow> status_at rest t = None"
proof -
  have ext: "t < saturating_add (iv_to_us iv) (saturating_mul (max (iv_frequency_secs iv) 0) MICROS) \<longleftrightarrow>
      t < iv_to_us iv + max (iv_frequency_secs iv) 0 * MICROS"
    using assms by (intro extension_exact) auto
  have before: "rest = n # r \<Longrightarrow> t < iv_from_us n \<Longrightarrow> status_at rest t = None" for n r
    using assms(1) by (auto intro: status_before simp del: status_at.simps)
  show "status_at (iv # rest) t =
      (if t \<in> {max (iv_from_us iv) rs ..< span_end re iv rest} then classify (iv_level iv) else status_at rest t)"
    using assms(1,3,4) before by (cases rest) (auto simp: span_end_def stands_def ext Let_def)
  show "t \<in> {max (iv_from_us iv) rs ..< span_end re iv rest} \<Longrightarrow> status_at rest t = None"
    using before by (cases rest) (auto simp: span_end_def Let_def)
qed

declare status_at.simps(2) [simp del]

lemma counted_cons:
  fixes i s rs :: int
  assumes "sorted (map iv_from_us (iv # rest))" "0 \<le> iv_to_us iv" "re \<le> i64_max"
  defines "A \<equiv> slice_of i s \<inter> {rs ..< re}"
    and "B \<equiv> slice_of i s \<inter> {max (iv_from_us iv) rs ..< span_end re iv rest}"
  shows "counted (status_at (iv # rest)) A =
    (fst (counted (status_at rest) A) + (if classify (iv_level iv) = Some True then int (card B) else 0),
     snd (counted (status_at rest) A) + (if classify (iv_level iv) \<noteq> None then int (card B) else 0))"
proof -
  have BA: "B \<subseteq> A" unfolding A_def B_def span_end_def by (auto simp: Let_def split: list.splits)
  have st: "status_at (iv # rest) t = (if t \<in> B then classify (iv_level iv) else status_at rest t)"
    and none: "t \<in> B \<Longrightarrow> status_at rest t = None" if "t \<in> A" for t
    using that status_span [OF assms(1,2) _ _ assms(3), of rs t] unfolding A_def B_def by auto
  have fin: "finite A" "finite B" unfolding A_def B_def slice_of_def by auto
  have card: "card {t \<in> A. P (status_at (iv # rest) t)} =
      card {t \<in> A. P (status_at rest t)} + (if P (classify (iv_level iv)) then card B else 0)"
    if "\<not> P None" for P
  proof -
    have "{t \<in> A. P (status_at (iv # rest) t)} =
        {t \<in> A. P (status_at rest t)} \<union> (if P (classify (iv_level iv)) then B else {})"
      using BA st none that by (auto split: if_splits)
    moreover have "{t \<in> A. P (status_at rest t)} \<inter> (if P (classify (iv_level iv)) then B else {}) = {}"
      using BA none that by (auto split: if_splits)
    ultimately show ?thesis using fin by (simp add: card_Un_disjoint)
  qed
  show ?thesis
    using card [of "\<lambda>x. x = Some True"] card [of "\<lambda>x. x \<noteq> None"] by (simp only: counted_def) simp
qed

lemma walk_done: "e \<le> c \<Longrightarrow> walk i e g c m = Some m"
  by (subst walk.simps) simp

lemma accumulate_cons:
  "accumulate i rs re (iv # rest) m =
     (case classify (iv_level iv) of
        None \<Rightarrow> accumulate i rs re rest m
      | Some g \<Rightarrow> Option.bind (walk i (span_end re iv rest) g (max (iv_from_us iv) rs) m) (accumulate i rs re rest))"
proof (cases "span_end re iv rest \<le> max (iv_from_us iv) rs")
  case True
  then have "walk i (span_end re iv rest) g (max (iv_from_us iv) rs) m = Some m" for g by (rule walk_done)
  then show ?thesis using True by (auto simp: span_end_def Let_def split: option.splits)
qed (auto simp: span_end_def Let_def split: option.splits)

lemma accumulate_counts:
  assumes i: "0 < i" "i \<le> i64_max" and r: "0 \<le> rs" "re \<le> i64_max"
    and ivs: "sorted (map iv_from_us ivs)" "\<forall>iv \<in> set ivs. 0 \<le> iv_to_us iv"
    and m: "bt_ok i m"
  shows "\<exists>m'. accumulate i rs re ivs m = Some m' \<and> bt_ok i m' \<and>
    (\<forall>s. i dvd s \<longrightarrow> bt_get m' s =
      (fst (bt_get m s) + fst (counted (status_at ivs) (slice_of i s \<inter> {rs ..< re})),
       snd (bt_get m s) + snd (counted (status_at ivs) (slice_of i s \<inter> {rs ..< re}))))"
  using ivs m
proof (induction ivs arbitrary: m)
  case Nil
  then show ?case by (simp add: counted_def)
next
  case (Cons iv rest)
  have srt: "sorted (map iv_from_us rest)" and to: "0 \<le> iv_to_us iv" "\<forall>v \<in> set rest. 0 \<le> iv_to_us v"
    using Cons.prems by auto
  note cc = counted_cons [OF Cons.prems(1) to(1) r(2)]
  show ?case
  proof (cases "classify (iv_level iv)")
    case None
    then show ?thesis using Cons.IH [OF srt to(2) Cons.prems(3)] by (simp add: accumulate_cons cc del: accumulate.simps)
  next
    case (Some g)
    have "span_end re iv rest \<le> i64_max" "0 \<le> max (iv_from_us iv) rs"
      using r by (auto simp: span_end_def Let_def split: list.splits)
    then obtain m1 where m1: "walk i (span_end re iv rest) g (max (iv_from_us iv) rs) m = Some m1" "bt_ok i m1"
      and g1: "\<And>s. i dvd s \<Longrightarrow> bt_get m1 s =
        (fst (bt_get m s) + (if g then int (card (slice_of i s \<inter> {max (iv_from_us iv) rs ..< span_end re iv rest})) else 0),
         snd (bt_get m s) + int (card (slice_of i s \<inter> {max (iv_from_us iv) rs ..< span_end re iv rest})))"
      using walk_counts [OF i _ _ Cons.prems(3)] by metis
    show ?thesis using Cons.IH [OF srt to(2) m1(2)]
      by (auto simp add: accumulate_cons cc Some m1 g1 simp del: accumulate.simps)
  qed
qed

section \<open>The emitted slices\<close>

text \<open>An instant belongs to the last interval, in start order, that starts no later than it.\<close>

definition assessment :: "eval_interval list \<Rightarrow> int \<Rightarrow> bool option" where
  "assessment ivs t =
     (case rev (filter (\<lambda>iv. iv_from_us iv \<le> t) (sort_key (\<lambda>iv. (iv_from_us iv, iv_to_us iv)) ivs)) of
        [] \<Rightarrow> None
      | iv # _ \<Rightarrow> stands iv t)"

lemma status_at_last:
  "sorted (map iv_from_us ivs) \<Longrightarrow>
   status_at ivs t = (case rev (filter (\<lambda>iv. iv_from_us iv \<le> t) ivs) of [] \<Rightarrow> None | iv # _ \<Rightarrow> stands iv t)"
proof (induction ivs)
  case (Cons iv rest)
  then have IH: "status_at rest t = (case rev (filter (\<lambda>iv. iv_from_us iv \<le> t) rest) of [] \<Rightarrow> None | iv # _ \<Rightarrow> stands iv t)"
    by simp
  show ?case
  proof (cases "filter (\<lambda>iv. iv_from_us iv \<le> t) rest")
    case Nil
    then show ?thesis by (cases rest) (auto simp: status_at.simps(2) filter_empty_conv)
  next
    case (Cons v vs)
    then have "\<exists>v \<in> set rest. iv_from_us v \<le> t" by (metis list.set_intros(1) mem_Collect_eq set_filter)
    then have hd: "\<exists>n r. rest = n # r \<and> iv_from_us n \<le> t" using Cons.prems by (cases rest) auto
    obtain w ws where "rev (filter (\<lambda>iv. iv_from_us iv \<le> t) rest) = w # ws"
      using Cons by (cases "rev (filter (\<lambda>iv. iv_from_us iv \<le> t) rest)") auto
    then show ?thesis using hd IH by (auto simp: status_at.simps(2))
  qed
qed simp

lemma sorted_by_start: "sorted (map iv_from_us (sort_key (\<lambda>iv. (iv_from_us iv, iv_to_us iv)) ivs))"
proof -
  have "sorted (map (\<lambda>iv. (iv_from_us iv, iv_to_us iv)) (sort_key (\<lambda>iv. (iv_from_us iv, iv_to_us iv)) ivs))"
    by (rule sorted_sort_key)
  then show ?thesis by (auto simp: sorted_map less_eq_prod_def elim!: sorted_wrt_mono_rel [rotated])
qed

lemma assessment_status: "status_at (sort_key (\<lambda>iv. (iv_from_us iv, iv_to_us iv)) ivs) = assessment ivs"
  using status_at_last [OF sorted_by_start] by (auto simp: assessment_def)

definition emit :: "(f64 \<Rightarrow> f64 \<Rightarrow> f64) \<Rightarrow> f64 \<Rightarrow> int \<Rightarrow> int \<times> int \<times> int \<Rightarrow> uptime_slice list" where
  "emit div64 fl i e =
     (case e of (s, good_us, total_us) \<Rightarrow>
        if total_us > 0 \<and> f64_le fl (div64 (as_f64 total_us) (as_f64 i))
        then [\<lparr>us_slice_start = s sdiv MICROS,
               us_good_secs = div64 (as_f64 (min good_us total_us)) (as_f64 MICROS),
               us_total_secs = div64 (as_f64 total_us) (as_f64 MICROS)\<rparr>]
        else [])"

definition grid_ok :: "uptime_grid \<Rightarrow> bool" where
  "grid_ok g \<longleftrightarrow> 0 < ug_slice_interval_secs g \<and> ug_slice_interval_secs g * MICROS \<le> i64_max \<and>
     0 \<le> ug_range_start_secs g \<and> ug_range_start_secs g < ug_range_end_secs g \<and>
     ug_range_end_secs g * MICROS \<le> i64_max"

definition reference_slices :: "(f64 \<Rightarrow> f64 \<Rightarrow> f64) \<Rightarrow> eval_interval list \<Rightarrow> uptime_grid \<Rightarrow> uptime_slice list" where
  "reference_slices div64 ivs g =
     (let i = ug_slice_interval_secs g * MICROS; rs = ug_range_start_secs g * MICROS; re = ug_range_end_secs g * MICROS
      in concat (map (\<lambda>k. emit div64 (ug_min_coverage g) i
           (k * i, counted (assessment ivs) (slice_of i (k * i) \<inter> {rs ..< re}))) [rs div i .. (re - 1) div i]))"

lemma concat_map_same:
  fixes xs ys :: "'a::linorder list"
  assumes "sorted_wrt (<) xs" "sorted_wrt (<) ys" "\<And>x. h x \<noteq> [] \<Longrightarrow> x \<in> set xs \<longleftrightarrow> x \<in> set ys"
  shows "concat (map h xs) = concat (map h ys)"
proof -
  have drop: "concat (map h zs) = concat (map h (filter (\<lambda>x. h x \<noteq> []) zs))" for zs by (induction zs) auto
  have "filter (\<lambda>x. h x \<noteq> []) xs = filter (\<lambda>x. h x \<noteq> []) ys"
    using assms by (intro sorted_distinct_set_unique) (auto simp: strict_sorted_iff sorted_wrt_filter)
  then show ?thesis using drop by metis
qed

lemma counted_positive:
  assumes "0 < i" "i dvd s" "0 < snd (counted st (slice_of i s \<inter> {rs ..< re}))"
  shows "\<exists>k \<in> {rs div i .. (re - 1) div i}. s = k * i"
proof -
  have "{t \<in> slice_of i s \<inter> {rs ..< re}. st t \<noteq> None} \<noteq> {}" 
    using assms(3) unfolding counted_def snd_conv of_nat_0_less_iff card_gt_0_iff by (rule conjunct1)
  then obtain t where t: "t \<in> slice_of i s" "rs \<le> t" "t < re" by auto
  then have "s = t div i * i" using slice_unique [OF assms(1,2)] by blast
  moreover have "rs div i \<le> t div i" "t div i \<le> (re - 1) div i" using t assms(1) by (auto intro: zdiv_mono1)
  ultimately show ?thesis by auto
qed

lemma emit_nonempty: "emit div64 fl i (s, v) \<noteq> [] \<Longrightarrow> 0 < snd v"
  by (auto simp: emit_def split: prod.splits if_splits)

lemma emitted_map:
  assumes "0 < i" "bt_ok i m"
    and get: "\<And>s. i dvd s \<Longrightarrow> bt_get m s = counted st (slice_of i s \<inter> {rs ..< re})"
  shows "concat (map (emit div64 fl i) m) =
    concat (map (\<lambda>k. emit div64 fl i (k * i, counted st (slice_of i (k * i) \<inter> {rs ..< re}))) [rs div i .. (re - 1) div i])"
proof -
  let ?h = "\<lambda>s. emit div64 fl i (s, counted st (slice_of i s \<inter> {rs ..< re}))"
  have m: "sorted_wrt (<) (map fst m)" "\<And>k. k \<in> set (map fst m) \<Longrightarrow> i dvd k" using assms(2) by (auto simp: bt_ok_def)
  have "emit div64 fl i e = ?h (fst e)" if "e \<in> set m" for e
  proof -
    have "map_of m (fst e) = Some (snd e)" using that m(1) by (intro map_of_is_SomeI) (auto simp: strict_sorted_iff)
    then have "snd e = counted st (slice_of i (fst e) \<inter> {rs ..< re})"
      using that m(2) get [of "fst e"] by (auto simp: bt_get_def)
    then show ?thesis by (metis prod.collapse)
  qed
  then have "concat (map (emit div64 fl i) m) = concat (map ?h (map fst m))" by (simp add: comp_def cong: map_cong)
  also have "\<dots> = concat (map ?h (map (\<lambda>k. k * i) [rs div i .. (re - 1) div i]))"
  proof (rule concat_map_same [OF m(1)])
    show "sorted_wrt (<) (map (\<lambda>k. k * i) [rs div i .. (re - 1) div i])"
      using assms(1) sorted_wrt_upto [of "rs div i" "(re - 1) div i"]
      by (auto simp: sorted_wrt_map elim!: sorted_wrt_mono_rel [rotated])
  next
    fix s assume "?h s \<noteq> []"
    then have pos: "0 < snd (counted st (slice_of i s \<inter> {rs ..< re}))" by (rule emit_nonempty)
    have "i dvd s \<Longrightarrow> s \<in> set (map fst m)"
    proof (rule ccontr)
      assume "i dvd s" "s \<notin> set (map fst m)"
      then have "bt_get m s = (0, 0)" by (simp add: bt_get_def map_of_eq_None_iff [THEN iffD2])
      then show False using pos get [OF \<open>i dvd s\<close>] by (metis less_irrefl snd_conv)
    qed
    then show "s \<in> set (map fst m) \<longleftrightarrow> s \<in> set (map (\<lambda>k. k * i) [rs div i .. (re - 1) div i])"
      using m(2) counted_positive [OF assms(1) _ pos] by auto
  qed
  finally show ?thesis by (simp add: comp_def)
qed

lemma uptime_slices_emit:
  "uptime_slices div64 ivs g =
     (let i = saturating_mul (ug_slice_interval_secs g) MICROS; rs = saturating_mul (ug_range_start_secs g) MICROS;
          re = saturating_mul (ug_range_end_secs g) MICROS
      in if i \<le> 0 \<or> re \<le> rs then Some []
         else map_option (\<lambda>m. concat (map (emit div64 (ug_min_coverage g) i) m))
           (accumulate i rs re (sort_key (\<lambda>iv. (iv_from_us iv, iv_to_us iv)) ivs) []))"
  unfolding uptime_slices_def emit_def ..

lemma uptime_slices_reference:
  assumes "grid_ok g" "\<forall>iv \<in> set ivs. 0 \<le> iv_to_us iv"
  shows "uptime_slices div64 ivs g = Some (reference_slices div64 ivs g)"
proof -
  define i rs re where grid: "i = ug_slice_interval_secs g * MICROS" "rs = ug_range_start_secs g * MICROS"
    "re = ug_range_end_secs g * MICROS"
  let ?ivs = "sort_key (\<lambda>iv. (iv_from_us iv, iv_to_us iv)) ivs"
  have r: "0 < i" "i \<le> i64_max" "0 \<le> rs" "re \<le> i64_max" "rs < re" "0 < re"
    using assms(1) by (auto simp: grid_ok_def MICROS_def grid)
  have sat: "saturating_mul (ug_slice_interval_secs g) MICROS = i" "saturating_mul (ug_range_start_secs g) MICROS = rs"
    "saturating_mul (ug_range_end_secs g) MICROS = re"
    using r by (auto simp: saturating_mul_def sat_i64_id i64_ok_def simp flip: grid)
  obtain m where acc: "accumulate i rs re ?ivs [] = Some m" and m: "bt_ok i m"
    and get: "\<forall>s. i dvd s \<longrightarrow> bt_get m s =
      (fst (bt_get [] s) + fst (counted (status_at ?ivs) (slice_of i s \<inter> {rs ..< re})),
       snd (bt_get [] s) + snd (counted (status_at ?ivs) (slice_of i s \<inter> {rs ..< re})))"
    using accumulate_counts [OF r(1-4) sorted_by_start, of ivs "[]"] assms(2) by (auto simp: bt_ok_def)
  then have "bt_get m s = counted (assessment ivs) (slice_of i s \<inter> {rs ..< re})" if "i dvd s" for s
    using that by (simp add: bt_get_def assessment_status)
  from emitted_map [OF r(1) m this]
  show ?thesis using r acc
    by (simp add: uptime_slices_emit reference_slices_def sat Let_def flip: grid)
qed

text \<open>
  C7. The walk over the slice grid terminates and counts what it should. For any list of ledger
  intervals with non-negative times and any non-empty grid within the range of \<open>i64\<close> microseconds,
  \<open>uptime_slices\<close> returns, in ascending order, exactly one row for every slice with measured time that
  clears the coverage floor, and no other: its total is the number of microseconds of the slice and the
  range at which the last interval starting no later still stands and has a level that measures, its good
  part those at which that level is \<open>Ok\<close>. Overlapping, duplicated and unordered intervals included.
\<close>

theorem uptime_slices_exact:
  assumes "grid_ok g" "\<forall>iv \<in> set ivs. 0 \<le> iv_to_us iv"
  shows "uptime_slices div64 ivs g = Some (reference_slices div64 ivs g)"
  by (rule uptime_slices_reference [OF assms])

definition ok_then_critical :: "eval_interval list" where
  "ok_then_critical =
     [\<lparr>iv_level = Some LCritical, iv_frequency_secs = 60, iv_from_us = 120000000, iv_to_us = 240000000\<rparr>,
      \<lparr>iv_level = Some LOk, iv_frequency_secs = 60, iv_from_us = 0, iv_to_us = 60000000\<rparr>]"

definition one_slice :: uptime_grid where
  "one_slice = \<lparr>ug_range_start_secs = 0, ug_range_end_secs = 300, ug_slice_interval_secs = 300, ug_min_coverage = Fin 0\<rparr>"

theorem uptime_slices_exact_witness:
  "grid_ok one_slice \<and>
   uptime_slices (\<lambda>a b. a) ok_then_critical one_slice = Some (reference_slices (\<lambda>a b. a) ok_then_critical one_slice)"
  by (intro conjI uptime_slices_exact) (simp_all add: grid_ok_def one_slice_def ok_then_critical_def MICROS_def)

end
