(* ===== verification/Alert_Ledger.thy ===== *)
theory Alert_Ledger
  imports Alert_Uptime
begin

text \<open>
  The availability ledger of alerts (\<open>src/infra/src/table/alert_eval_intervals.rs\<close>): a table of runs
  of constant level and cadence, extended or opened by each measured evaluation, and read back by the
  SLO pass (\<open>ledger_query_rows\<close> of \<open>src/core/src/slo/job.rs\<close>). The table is the list of its rows in
  insertion order with the identifier the store gives to the next one. A store that refuses a statement
  aborts the transaction and leaves the table as it was, so every operation is the effect of a committed
  one. Times are microseconds since 1970, whose differences fit in \<open>i64\<close>.
\<close>

section \<open>The table\<close>

record eval_row =
  er_id :: int
  er_org :: string
  er_alert_id :: string
  er_level :: int
  er_frequency_secs :: int
  er_from_us :: int
  er_to_us :: int

record eval_table =
  et_rows :: "eval_row list"
  et_next_id :: int

record alert_eval_interval =
  ae_id :: int
  ae_org :: string
  ae_alert_id :: string
  ae_level :: "alert_level option"
  ae_frequency_secs :: int
  ae_from_us :: int
  ae_to_us :: int

definition interval_of_row :: "eval_row \<Rightarrow> alert_eval_interval" where
  "interval_of_row m =
     \<lparr>ae_id = er_id m, ae_org = er_org m, ae_alert_id = er_alert_id m, ae_level = level_from_i32 (er_level m),
      ae_frequency_secs = er_frequency_secs m, ae_from_us = er_from_us m, ae_to_us = er_to_us m\<rparr>"

definition rows_of :: "eval_table \<Rightarrow> string \<Rightarrow> eval_row list" where
  "rows_of t a = filter (\<lambda>r. er_alert_id r = a) (et_rows t)"

definition latest_interval :: "eval_table \<Rightarrow> string \<Rightarrow> eval_row option" where
  "latest_interval t a =
     max_by (\<lambda>x y. then_with (cmp (er_from_us x) (er_from_us y)) (cmp (er_id x) (er_id y))) (rows_of t a)"

definition record_evaluation_with :: "eval_table \<Rightarrow> eval_ledger_write \<Rightarrow> eval_table" where
  "record_evaluation_with t w =
     (let insert_row =
            t\<lparr>et_rows := et_rows t @
                [\<lparr>er_id = et_next_id t, er_org = lw_org w, er_alert_id = lw_alert_id w,
                  er_level = level_to_i32 (lw_level w), er_frequency_secs = lw_frequency_secs w,
                  er_from_us = lw_at w, er_to_us = lw_at w\<rparr>],
              et_next_id := et_next_id t + 1\<rparr>
      in case latest_interval t (lw_alert_id w) of
           None \<Rightarrow> insert_row
         | Some row \<Rightarrow>
             (let same_run = (er_level row = level_to_i32 (lw_level w) \<and>
                              er_frequency_secs row = lw_frequency_secs w \<and>
                              lw_at w - er_to_us row \<le> saturating_mul (max_gap_secs w) 1000000)
              in if same_run
                 then t\<lparr>et_rows := map (\<lambda>r. if er_id r = er_id row \<and> er_to_us r < lw_at w
                                            then r\<lparr>er_to_us := lw_at w\<rparr> else r) (et_rows t)\<rparr>
                 else if lw_at w \<le> er_to_us row then t
                 else insert_row))"

definition list_overlapping_with :: "eval_table \<Rightarrow> string \<Rightarrow> int \<Rightarrow> int \<Rightarrow> alert_eval_interval list" where
  "list_overlapping_with t a range_start_us range_end_us =
     (let rows = sort_key er_from_us
            (filter (\<lambda>r. range_start_us \<le> er_from_us r \<and> er_from_us r \<le> range_end_us) (rows_of t a));
          preceding = max_by (\<lambda>x y. cmp (er_from_us x) (er_from_us y))
            (filter (\<lambda>r. er_from_us r < range_start_us) (rows_of t a));
          rows = (case preceding of Some row \<Rightarrow> row # rows | None \<Rightarrow> rows)
      in map interval_of_row (sort_key (\<lambda>r. (er_from_us r, er_id r)) rows))"

definition earliest_from_us_with :: "eval_table \<Rightarrow> string \<Rightarrow> int option" where
  "earliest_from_us_with t a = map_option er_from_us (min_by (\<lambda>x y. cmp (er_from_us x) (er_from_us y)) (rows_of t a))"

definition earliest_from_us_many_with :: "eval_table \<Rightarrow> string \<Rightarrow> string list \<Rightarrow> string \<rightharpoonup> int" where
  "earliest_from_us_many_with t org alert_ids =
     (\<lambda>a. if a \<in> set alert_ids
          then map_option er_from_us (min_by (\<lambda>x y. cmp (er_from_us x) (er_from_us y))
                 (filter (\<lambda>r. er_org r = org) (rows_of t a)))
          else None)"

definition delete_before_with :: "eval_table \<Rightarrow> int \<Rightarrow> eval_table \<times> nat" where
  "delete_before_with t cutoff_us =
     (t\<lparr>et_rows := filter (\<lambda>r. \<not> er_to_us r < cutoff_us) (et_rows t)\<rparr>,
      length (filter (\<lambda>r. er_to_us r < cutoff_us) (et_rows t)))"

definition delete_by_alert_with :: "eval_table \<Rightarrow> string \<Rightarrow> eval_table" where
  "delete_by_alert_with t a = t\<lparr>et_rows := filter (\<lambda>r. er_alert_id r \<noteq> a) (et_rows t)\<rparr>"

section \<open>Reading for the SLO pass\<close>

record query_row =
  qr_slice_start :: int
  qr_group_key :: string
  qr_group_labels :: string
  qr_good :: f64
  qr_total :: f64

definition eval_interval_of :: "alert_eval_interval \<Rightarrow> eval_interval" where
  "eval_interval_of i =
     \<lparr>iv_level = ae_level i, iv_frequency_secs = ae_frequency_secs i, iv_from_us = ae_from_us i, iv_to_us = ae_to_us i\<rparr>"

definition ledger_query_rows ::
  "(f64 \<Rightarrow> f64 \<Rightarrow> f64) \<Rightarrow> alert_eval_interval list \<Rightarrow> uptime_grid \<Rightarrow> query_row list option" where
  "ledger_query_rows div64 intervals grid =
     map_option (map (\<lambda>s. \<lparr>qr_slice_start = us_slice_start s, qr_group_key = [], qr_group_labels = [],
                           qr_good = us_good_secs s, qr_total = us_total_secs s\<rparr>))
       (uptime_slices div64 (map eval_interval_of intervals) grid)"

definition ledger_pass :: "(f64 \<Rightarrow> f64 \<Rightarrow> f64) \<Rightarrow> eval_table \<Rightarrow> string \<Rightarrow> uptime_grid \<Rightarrow> query_row list option" where
  "ledger_pass div64 t a grid =
     ledger_query_rows div64
       (list_overlapping_with t a (ug_range_start_secs grid * 1000000) (ug_range_end_secs grid * 1000000)) grid"

section \<open>Runs of one alert do not overlap\<close>

definition table_ok :: "eval_table \<Rightarrow> bool" where
  "table_ok t \<longleftrightarrow>
     sorted_wrt (<) (map er_id (et_rows t)) \<and>
     (\<forall>r \<in> set (et_rows t). er_id r < et_next_id t \<and> er_from_us r \<le> er_to_us r) \<and>
     (\<forall>a. sorted_wrt (\<lambda>x y. er_to_us x < er_from_us y) (rows_of t a))"

definition latest_cmp :: "eval_row \<Rightarrow> eval_row \<Rightarrow> ordering" where
  "latest_cmp x y = then_with (cmp (er_from_us x) (er_from_us y)) (cmp (er_id x) (er_id y))"

interpretation latest: keyed_cmp latest_cmp "\<lambda>r. (er_from_us r, er_id r)"
  by unfold_locales (auto simp: latest_cmp_def cmp_def then_with_def)

lemma rows_sorted:
  assumes "sorted_wrt (\<lambda>x y. er_to_us x < er_from_us y) rs" "\<forall>r \<in> set rs. er_from_us r \<le> er_to_us r"
  shows "sorted_wrt (\<lambda>x y. er_from_us x < er_from_us y) rs"
  using assms by (induction rs) (auto intro: order_le_less_trans)

lemma latest_is_last:
  assumes "table_ok t"
  shows "latest_interval t a = (if rows_of t a = [] then None else Some (last (rows_of t a)))"
proof (cases "rows_of t a" rule: rev_cases)
  case Nil
  then show ?thesis by (simp add: latest_interval_def)
next
  case (snoc rs r)
  have srt: "sorted_wrt (\<lambda>x y. er_from_us x < er_from_us y) (rows_of t a)"
    using assms by (intro rows_sorted) (auto simp: table_ok_def rows_of_def)
  then have lt: "x \<in> set rs \<Longrightarrow> er_from_us x < er_from_us r" for x by (auto simp: snoc sorted_wrt_append)
  have "inj_on (\<lambda>r. (er_from_us r, er_id r)) (set (rows_of t a))"
  proof (rule inj_onI)
    fix x y assume "x \<in> set (rows_of t a)" "y \<in> set (rows_of t a)" "(er_from_us x, er_id x) = (er_from_us y, er_id y)"
    moreover have "distinct (map er_id (et_rows t))" using assms by (simp add: table_ok_def strict_sorted_iff)
    ultimately show "x = y" by (auto simp: rows_of_def distinct_map dest: inj_onD)
  qed
  then have "max_by latest_cmp (rows_of t a) = Some r"
    using lt by (auto simp: latest.max_by_unique snoc less_imp_le)
  then show ?thesis by (simp add: latest_interval_def latest_cmp_def [abs_def] snoc)
qed

text \<open>The three effects of recording an evaluation on the rows of an alert.\<close>

definition new_row :: "eval_table \<Rightarrow> eval_ledger_write \<Rightarrow> eval_row" where
  "new_row t w =
     \<lparr>er_id = et_next_id t, er_org = lw_org w, er_alert_id = lw_alert_id w, er_level = level_to_i32 (lw_level w),
      er_frequency_secs = lw_frequency_secs w, er_from_us = lw_at w, er_to_us = lw_at w\<rparr>"

definition same_run :: "eval_row \<Rightarrow> eval_ledger_write \<Rightarrow> bool" where
  "same_run r w \<longleftrightarrow> er_level r = level_to_i32 (lw_level w) \<and> er_frequency_secs r = lw_frequency_secs w \<and>
     lw_at w - er_to_us r \<le> saturating_mul (max_gap_secs w) 1000000"

definition extended :: "eval_table \<Rightarrow> eval_row \<Rightarrow> int \<Rightarrow> eval_row list" where
  "extended t row x =
     map (\<lambda>r. if er_id r = er_id row \<and> er_to_us r < x then r\<lparr>er_to_us := x\<rparr> else r) (et_rows t)"

lemma record_cases:
  assumes "table_ok t"
  obtains
    (opened) "rows_of t (lw_alert_id w) = [] \<or> er_to_us (last (rows_of t (lw_alert_id w))) < lw_at w"
      "record_evaluation_with t w = t\<lparr>et_rows := et_rows t @ [new_row t w], et_next_id := et_next_id t + 1\<rparr>"
  | (kept) "record_evaluation_with t w = t"
  | (run) rs row where "rows_of t (lw_alert_id w) = rs @ [row]" "same_run row w" "er_to_us row < lw_at w"
      "record_evaluation_with t w = t\<lparr>et_rows := extended t row (lw_at w)\<rparr>"
proof (cases "rows_of t (lw_alert_id w)" rule: rev_cases)
  case Nil
  then show ?thesis using latest_is_last [OF assms, of "lw_alert_id w"]
    by (intro opened) (simp_all add: record_evaluation_with_def new_row_def)
next
  case (snoc rs row)
  then have l: "latest_interval t (lw_alert_id w) = Some row" using latest_is_last [OF assms] by simp
  have ids: "r \<in> set (et_rows t) \<Longrightarrow> er_id r = er_id row \<Longrightarrow> r = row" for r
  proof -
    have "distinct (map er_id (et_rows t))" using assms by (simp add: table_ok_def strict_sorted_iff)
    moreover have "row \<in> set (et_rows t)" using arg_cong [OF snoc, where f = set] by (auto simp: rows_of_def)
    ultimately show "r \<in> set (et_rows t) \<Longrightarrow> er_id r = er_id row \<Longrightarrow> r = row" by (auto simp: distinct_map dest: inj_onD)
  qed
  consider (a) "same_run row w" "er_to_us row < lw_at w" | (b) "same_run row w" "lw_at w \<le> er_to_us row"
    | (c) "\<not> same_run row w" "lw_at w \<le> er_to_us row" | (d) "\<not> same_run row w" "er_to_us row < lw_at w"
    by linarith
  then show ?thesis
  proof cases
    case a
    then show ?thesis using snoc l
      by (intro run) (auto simp: record_evaluation_with_def Let_def same_run_def extended_def)
  next
    case b
    have "extended t row (lw_at w) = et_rows t"
      unfolding extended_def using ids b by (fastforce intro!: map_idI)
    then show ?thesis using l b
      by (intro kept) (auto simp: record_evaluation_with_def Let_def same_run_def extended_def)
  next
    case c
    then show ?thesis using l by (intro kept) (auto simp: record_evaluation_with_def Let_def same_run_def)
  next
    case d
    then show ?thesis using l snoc
      by (intro opened) (auto simp: record_evaluation_with_def Let_def same_run_def new_row_def)
  qed
qed

lemma extended_rows:
  assumes "table_ok t" "rows_of t a = rs @ [row]" "er_to_us row < x"
  shows "rows_of (t\<lparr>et_rows := extended t row x\<rparr>) b =
    (if b = a then rs @ [row\<lparr>er_to_us := x\<rparr>] else rows_of t b)"
proof -
  let ?f = "\<lambda>r. if er_id r = er_id row \<and> er_to_us r < x then r\<lparr>er_to_us := x\<rparr> else r"
  have d: "distinct (map er_id (et_rows t))" using assms(1) by (simp add: table_ok_def strict_sorted_iff)
  then have da: "distinct (map er_id (rs @ [row]))"
    unfolding assms(2) [symmetric] rows_of_def by (rule distinct_map_filter)
  have row: "row \<in> set (et_rows t)" "er_alert_id row = a"
    using arg_cong [OF assms(2), where f = set] by (auto simp: rows_of_def)
  have "filter (\<lambda>r. er_alert_id r = b) (map ?f (et_rows t)) = map ?f (rows_of t b)"
    by (simp add: rows_of_def filter_map comp_def cong: filter_cong map_cong) (metis (mono_tags, lifting))
  moreover have "map ?f (rows_of t b) = rows_of t b" if "b \<noteq> a"
    using d row that by (intro map_idI) (auto simp: rows_of_def distinct_map dest: inj_onD)
  moreover have "map ?f (rs @ [row]) = rs @ [row\<lparr>er_to_us := x\<rparr>]"
    using da assms(3) by (auto intro!: map_idI simp: image_iff)
  ultimately show ?thesis using assms(2) by (auto simp: rows_of_def extended_def)
qed

lemma extended_fields:
  "map er_id (extended t row x) = map er_id (et_rows t)"
  "r \<in> set (extended t row x) \<Longrightarrow> r \<in> set (et_rows t) \<or>
     (\<exists>r' \<in> set (et_rows t). er_id r' = er_id row \<and> er_to_us r' < x \<and> r = r'\<lparr>er_to_us := x\<rparr>)"
  by (auto simp: extended_def comp_def)

lemma record_table_ok:
  assumes "table_ok t"
  shows "table_ok (record_evaluation_with t w)"
  using assms
proof (cases t rule: record_cases [where w = w])
  case opened
  have last: "\<forall>r \<in> set (rows_of t (lw_alert_id w)). er_to_us r < lw_at w"
  proof (cases "rows_of t (lw_alert_id w)" rule: rev_cases)
    case (snoc rs r)
    then have "r \<in> set (rows_of t (lw_alert_id w))" by simp
    then have "er_from_us r \<le> er_to_us r" using assms by (simp add: table_ok_def rows_of_def)
    moreover have "sorted_wrt (\<lambda>x y. er_to_us x < er_from_us y) (rs @ [r])"
      using assms unfolding table_ok_def snoc [symmetric] by blast
    ultimately show ?thesis using opened(1) by (auto simp: snoc sorted_wrt_append)
  qed simp
  have rows: "rows_of (record_evaluation_with t w) a = rows_of t a @ (if a = lw_alert_id w then [new_row t w] else [])" for a
    unfolding opened(2) by (auto simp: rows_of_def new_row_def)
  then have "sorted_wrt (\<lambda>x y. er_to_us x < er_from_us y) (rows_of (record_evaluation_with t w) a)" for a
    using assms last by (auto simp: table_ok_def sorted_wrt_append new_row_def)
  then show ?thesis using assms
    unfolding table_ok_def opened(2) by (auto simp: sorted_wrt_append new_row_def)
next
  case kept
  then show ?thesis using assms by simp
next
  case (run rs row)
  have "sorted_wrt (\<lambda>x y. er_to_us x < er_from_us y) (rows_of (record_evaluation_with t w) a)" for a
  proof (cases "a = lw_alert_id w")
    case True
    have "sorted_wrt (\<lambda>x y. er_to_us x < er_from_us y) (rs @ [row])"
      using assms unfolding table_ok_def run(1) [symmetric] by blast
    then show ?thesis using True by (simp add: run(4) extended_rows [OF assms run(1,3)] sorted_wrt_append)
  next
    case False
    then show ?thesis using assms by (simp add: run(4) extended_rows [OF assms run(1,3)] table_ok_def)
  qed
  moreover have "er_from_us r \<le> er_to_us r \<and> er_id r < et_next_id t" if "r \<in> set (extended t row (lw_at w))" for r
    using extended_fields(2) [OF that] assms by (auto simp: table_ok_def)
  ultimately show ?thesis using assms unfolding table_ok_def run(4) by (auto simp: extended_fields(1))
qed

section \<open>Every covered instant has an evaluation behind it\<close>

definition matches :: "eval_ledger_write \<Rightarrow> eval_row \<Rightarrow> bool" where
  "matches w r \<longleftrightarrow> lw_alert_id w = er_alert_id r \<and> level_to_i32 (lw_level w) = er_level r \<and>
     lw_frequency_secs w = er_frequency_secs r"

definition supported :: "eval_ledger_write set \<Rightarrow> eval_row \<Rightarrow> bool" where
  "supported H r \<longleftrightarrow>
     (\<exists>w \<in> H. matches w r \<and> lw_at w = er_to_us r) \<and>
     (\<forall>x. er_from_us r \<le> x \<and> x \<le> er_to_us r \<longrightarrow>
        (\<exists>w \<in> H. matches w r \<and> lw_at w \<le> x \<and> x < lw_at w + 2 * er_frequency_secs r * MICROS))"

lemma supported_mono: "supported H r \<Longrightarrow> H \<subseteq> H' \<Longrightarrow> supported H' r"
  unfolding supported_def by blast

lemma supported_extend:
  assumes "supported H row" "same_run row w" "0 < lw_frequency_secs w" "er_alert_id row = lw_alert_id w"
    "er_to_us row < lw_at w"
  shows "supported (insert w H) (row\<lparr>er_to_us := lw_at w\<rparr>)"
proof -
  have m: "matches w row" "matches v (row\<lparr>er_to_us := u\<rparr>) = matches v row" for v u
    using assms by (auto simp: matches_def same_run_def)
  have "saturating_mul (max_gap_secs w) 1000000 \<le> max_gap_secs w * 1000000 \<or> max_gap_secs w < 0"
    by (auto simp: i64_defs)
  then have gap: "lw_at w - er_to_us row < 2 * er_frequency_secs row * MICROS"
    using assms(2,3) max_gap_below_two_periods [OF assms(3)] by (auto simp: same_run_def MICROS_def i64_defs)
  obtain v where v: "v \<in> H" "matches v row" "lw_at v = er_to_us row" using assms(1) by (auto simp: supported_def)
  have "\<exists>u \<in> insert w H. matches u row \<and> lw_at u \<le> x \<and> x < lw_at u + 2 * er_frequency_secs row * MICROS"
    if "er_from_us row \<le> x" "x \<le> lw_at w" for x
  proof (cases "x \<le> er_to_us row")
    case True
    then show ?thesis using assms(1) that(1) by (auto simp: supported_def)
  next
    case False
    then show ?thesis using v gap that by (intro bexI [of _ v]) auto
  qed
  then show ?thesis using m(1) by (auto simp: supported_def m(2))
qed

lemma supported_new:
  assumes "0 < lw_frequency_secs w"
  shows "supported (insert w H) (new_row t w)"
  using assms by (auto simp: supported_def new_row_def matches_def MICROS_def)

definition ledger_inv :: "eval_ledger_write set \<Rightarrow> eval_table \<Rightarrow> bool" where
  "ledger_inv H t \<longleftrightarrow> table_ok t \<and> (\<forall>r \<in> set (et_rows t). supported H r)"

lemma record_ledger_inv:
  assumes "ledger_inv H t" "0 < lw_frequency_secs w"
  shows "ledger_inv (insert w H) (record_evaluation_with t w)"
proof -
  have ok: "table_ok t" and sup: "\<And>r. r \<in> set (et_rows t) \<Longrightarrow> supported H r" using assms(1) by (auto simp: ledger_inv_def)
  have sup': "r \<in> set (et_rows t) \<Longrightarrow> supported (insert w H) r" for r
    using sup supported_mono by blast
  have "\<forall>r \<in> set (et_rows (record_evaluation_with t w)). supported (insert w H) r"
    using ok
  proof (cases t rule: record_cases [where w = w])
    case opened
    then show ?thesis using sup' supported_new [OF assms(2)] by auto
  next
    case kept
    then show ?thesis using sup' by simp
  next
    case (run rs row)
    have row: "row \<in> set (et_rows t)" "er_alert_id row = lw_alert_id w"
      using arg_cong [OF run(1), where f = set] by (auto simp: rows_of_def)
    have "r' = row" if "r' \<in> set (et_rows t)" "er_id r' = er_id row" for r'
      using that row ok by (auto simp: table_ok_def strict_sorted_iff distinct_map dest: inj_onD)
    then show ?thesis
      using extended_fields(2) [of _ t row "lw_at w"] sup' supported_extend [OF sup [OF row(1)] run(2) assms(2) row(2) run(3)]
      by (auto simp: run(4))
  qed
  then show ?thesis using record_table_ok [OF ok] by (simp add: ledger_inv_def)
qed

section \<open>Histories of the table\<close>

datatype ledger_op = RecordEvaluation eval_ledger_write | DeleteBefore int | DeleteByAlert string

fun ledger_step :: "ledger_op \<Rightarrow> eval_table \<Rightarrow> eval_table" where
  "ledger_step (RecordEvaluation w) t = record_evaluation_with t w"
| "ledger_step (DeleteBefore c) t = fst (delete_before_with t c)"
| "ledger_step (DeleteByAlert a) t = delete_by_alert_with t a"

definition empty_table :: eval_table where
  "empty_table = \<lparr>et_rows = [], et_next_id = 1\<rparr>"

definition ledger_run :: "ledger_op list \<Rightarrow> eval_table" where
  "ledger_run ops = fold ledger_step ops empty_table"

definition writes_of :: "ledger_op list \<Rightarrow> eval_ledger_write set" where
  "writes_of ops = {w. RecordEvaluation w \<in> set ops}"

lemma writes_of_snoc:
  "writes_of (ops @ [x]) = (case x of RecordEvaluation w \<Rightarrow> insert w (writes_of ops) | _ \<Rightarrow> writes_of ops)"
  by (cases x) (auto simp: writes_of_def)

lemma filter_ledger_inv:
  assumes "ledger_inv H t"
  shows "ledger_inv H (t\<lparr>et_rows := filter P (et_rows t)\<rparr>)"
proof -
  have "rows_of (t\<lparr>et_rows := filter P (et_rows t)\<rparr>) a = filter P (rows_of t a)" for a
    by (simp add: rows_of_def conj_commute)
  then show ?thesis using assms
    by (auto simp: ledger_inv_def table_ok_def sorted_wrt_map sorted_wrt_filter)
qed

lemma ledger_run_inv:
  assumes "\<forall>w \<in> writes_of ops. 0 < lw_frequency_secs w"
  shows "ledger_inv (writes_of ops) (ledger_run ops)"
  using assms
proof (induction ops rule: rev_induct)
  case Nil
  then show ?case by (simp add: ledger_run_def ledger_inv_def table_ok_def empty_table_def rows_of_def)
next
  case (snoc x ops)
  have IH: "ledger_inv (writes_of ops) (ledger_run ops)" using snoc by (auto simp: writes_of_def)
  show ?case
  proof (cases x)
    case (RecordEvaluation w)
    then show ?thesis using record_ledger_inv [OF IH, of w] snoc.prems by (simp add: ledger_run_def writes_of_snoc)
  qed (use filter_ledger_inv [OF IH] in
      \<open>simp_all add: ledger_run_def writes_of_snoc delete_before_with_def delete_by_alert_with_def\<close>)
qed

text \<open>
  The stored runs of an alert never overlap. After any sequence of recorded evaluations (late,
  repeated and out of order ones included), retention sweeps and deletions, each run starts no later than
  it ends and strictly after the end of the run stored before it.
\<close>

theorem ledger_runs_disjoint:
  assumes "\<forall>w \<in> writes_of ops. 0 < lw_frequency_secs w"
  shows "sorted_wrt (\<lambda>x y. er_from_us x \<le> er_to_us x \<and> er_to_us x < er_from_us y \<and> er_from_us y \<le> er_to_us y)
    (rows_of (ledger_run ops) a)"
proof -
  have "table_ok (ledger_run ops)" using ledger_run_inv [OF assms] by (simp add: ledger_inv_def)
  then have "sorted_wrt (\<lambda>x y. er_to_us x < er_from_us y) (rows_of (ledger_run ops) a)"
    "\<And>r. r \<in> set (rows_of (ledger_run ops) a) \<Longrightarrow> er_from_us r \<le> er_to_us r"
    by (auto simp: table_ok_def rows_of_def)
  then show ?thesis by (auto elim!: sorted_wrt_mono_rel [rotated])
qed

definition eval_write :: "alert_level \<Rightarrow> int \<Rightarrow> eval_ledger_write" where
  "eval_write l t = \<lparr>lw_org = ''o'', lw_alert_id = ''a'', lw_level = l, lw_frequency_secs = 60, lw_tolerance_secs = 0, lw_at = t\<rparr>"

definition ledger_example :: "ledger_op list" where
  "ledger_example = [RecordEvaluation (eval_write LOk 0), RecordEvaluation (eval_write LOk 60000000),
     RecordEvaluation (eval_write LCritical 120000000)]"

theorem ledger_runs_disjoint_witness:
  "sorted_wrt (\<lambda>x y. er_from_us x \<le> er_to_us x \<and> er_to_us x < er_from_us y \<and> er_from_us y \<le> er_to_us y)
    (rows_of (ledger_run ledger_example) ''a'')"
  by (rule ledger_runs_disjoint) (auto simp: writes_of_def ledger_example_def eval_write_def)

section \<open>What the reader sees\<close>

definition stored_intervals :: "eval_table \<Rightarrow> string \<Rightarrow> eval_interval list" where
  "stored_intervals t a = map (eval_interval_of \<circ> interval_of_row) (rows_of t a)"

lemma assessment_in:
  assumes "assessment ivs x = Some b"
  shows "\<exists>iv \<in> set ivs. iv_from_us iv \<le> x \<and> stands iv x = Some b"
proof -
  obtain iv rest where "rev (filter (\<lambda>iv. iv_from_us iv \<le> x) (sort_key (\<lambda>iv. (iv_from_us iv, iv_to_us iv)) ivs)) = iv # rest"
    and st: "stands iv x = Some b" using assms by (auto simp: assessment_def split: list.splits)
  then have "iv \<in> set (rev (filter (\<lambda>iv. iv_from_us iv \<le> x) (sort_key (\<lambda>iv. (iv_from_us iv, iv_to_us iv)) ivs)))"
    by simp
  then show ?thesis using st by auto
qed

text \<open>
  C1. No uptime is fabricated. Take any history of the table with positive cadences. If the reader counts
  an instant of an alert as measured, good or bad, then some recorded evaluation of that alert computed a
  level of that verdict at or before the instant and less than two of its periods earlier; so an evaluation
  that never happened is never covered by a neighbour, and a pause or an outage is a gap.
\<close>

theorem no_fabricated_uptime:
  assumes "\<forall>w \<in> writes_of ops. 0 < lw_frequency_secs w"
    and "assessment (stored_intervals (ledger_run ops) a) x = Some good"
  shows "\<exists>w \<in> writes_of ops. lw_alert_id w = a \<and> classify (Some (lw_level w)) = Some good \<and>
    lw_at w \<le> x \<and> x < lw_at w + 2 * lw_frequency_secs w * MICROS"
proof -
  have inv: "ledger_inv (writes_of ops) (ledger_run ops)" by (rule ledger_run_inv [OF assms(1)])
  obtain r where r: "r \<in> set (et_rows (ledger_run ops))" "er_alert_id r = a" "er_from_us r \<le> x"
    and st: "stands (eval_interval_of (interval_of_row r)) x = Some good"
    using assessment_in [OF assms(2)] by (auto simp: stored_intervals_def rows_of_def eval_interval_of_def interval_of_row_def)
  have c: "classify (level_from_i32 (er_level r)) = Some good" and ext: "x < er_to_us r + max (er_frequency_secs r) 0 * MICROS"
    using st by (auto simp: stands_def eval_interval_of_def interval_of_row_def split: if_splits)
  have sup: "supported (writes_of ops) r" using inv r(1) by (simp add: ledger_inv_def)
  have "\<exists>w \<in> writes_of ops. matches w r \<and> lw_at w \<le> x \<and> x < lw_at w + 2 * er_frequency_secs r * MICROS"
  proof (cases "x \<le> er_to_us r")
    case True
    then show ?thesis using sup r(3) by (simp add: supported_def)
  next
    case False
    obtain w where w: "w \<in> writes_of ops" "matches w r" "lw_at w = er_to_us r" using sup by (auto simp: supported_def)
    then have "0 < er_frequency_secs r" using assms(1) by (auto simp: matches_def)
    then show ?thesis using w ext False by (intro bexI [of _ w]) (auto simp: MICROS_def)
  qed
  then obtain w where "w \<in> writes_of ops" "matches w r" "lw_at w \<le> x" "x < lw_at w + 2 * er_frequency_secs r * MICROS"
    by blast
  then show ?thesis using c r(2) by (intro bexI [of _ w]) (auto simp: matches_def level.from_to dest!: sym [of _ "er_level r"])
qed

lemma ledger_example_reads:
  "assessment (stored_intervals (ledger_run ledger_example) ''a'') 90000000 = Some True"
  by code_simp

theorem no_fabricated_uptime_witness:
  "assessment (stored_intervals (ledger_run ledger_example) ''a'') 90000000 = Some True \<and>
   (\<exists>w \<in> writes_of ledger_example. lw_alert_id w = ''a'' \<and> classify (Some (lw_level w)) = Some True \<and>
     lw_at w \<le> 90000000 \<and> 90000000 < lw_at w + 2 * lw_frequency_secs w * MICROS)"
  using ledger_example_reads
  by (intro conjI no_fabricated_uptime) (auto simp: writes_of_def ledger_example_def eval_write_def)

text \<open>The row an instant belongs to, when starts are distinct.\<close>

lemma assessment_max:
  assumes "iv \<in> set ivs" "iv_from_us iv \<le> x"
    and "\<And>v. v \<in> set ivs \<Longrightarrow> iv_from_us v \<le> x \<Longrightarrow> v = iv \<or> iv_from_us v < iv_from_us iv"
  shows "assessment ivs x = stands iv x"
proof -
  let ?l = "filter (\<lambda>iv. iv_from_us iv \<le> x) (sort_key (\<lambda>iv. (iv_from_us iv, iv_to_us iv)) ivs)"
  have mem: "v \<in> set ?l \<longleftrightarrow> v \<in> set ivs \<and> iv_from_us v \<le> x" for v by simp
  have srt: "sorted (map iv_from_us ?l)" using sorted_filter [OF sorted_by_start] by blast
  obtain w ws where w: "rev ?l = w # ws" using assms(1,2) mem by (cases "rev ?l") (auto simp: filter_empty_conv)
  then have "?l = rev ws @ [w]" by (metis rev_rev_ident rev.simps(2))
  then have "iv_from_us iv \<le> iv_from_us w" "w \<in> set ivs" "iv_from_us w \<le> x"
    using srt mem [of w] mem [of iv] assms(1,2) by (auto simp: sorted_append)
  then have "w = iv" using assms(3) by fastforce
  then show ?thesis using w by (simp add: assessment_def)
qed

lemma assessment_none: "(\<And>v. v \<in> set ivs \<Longrightarrow> x < iv_from_us v) \<Longrightarrow> assessment ivs x = None"
  by (force simp: assessment_def filter_empty_conv split: list.splits dest: arg_cong [where f = set])

interpretation started: keyed_cmp "\<lambda>x y. cmp (er_from_us x) (er_from_us y)" er_from_us
  by unfold_locales simp

lemma starts_inj:
  assumes "table_ok t"
  shows "inj_on er_from_us (set (rows_of t a))"
proof -
  have "sorted_wrt (\<lambda>x y. er_from_us x < er_from_us y) (rows_of t a)"
    using assms by (intro rows_sorted) (auto simp: table_ok_def rows_of_def)
  then have "distinct (map er_from_us (rows_of t a))" by (simp add: strict_sorted_iff sorted_wrt_map [symmetric])
  then show ?thesis by (simp add: distinct_map)
qed

definition overlapping_rows :: "eval_table \<Rightarrow> string \<Rightarrow> int \<Rightarrow> int \<Rightarrow> eval_row set" where
  "overlapping_rows t a rs re =
     {r \<in> set (rows_of t a). rs \<le> er_from_us r \<and> er_from_us r \<le> re} \<union>
     set_option (max_by (\<lambda>x y. cmp (er_from_us x) (er_from_us y)) (filter (\<lambda>r. er_from_us r < rs) (rows_of t a)))"

lemma list_overlapping_set:
  "set (list_overlapping_with t a rs re) = interval_of_row ` overlapping_rows t a rs re"
  by (auto simp: list_overlapping_with_def overlapping_rows_def Let_def split: option.splits)

lemma overlapping_sub: "overlapping_rows t a rs re \<subseteq> set (rows_of t a)"
  by (auto simp: overlapping_rows_def dest: started.max_by_in)

lemma overlapping_has_latest:
  assumes "table_ok t" "r \<in> set (rows_of t a)" "er_from_us r \<le> re"
    and "\<And>v. v \<in> set (rows_of t a) \<Longrightarrow> er_from_us v < rs \<Longrightarrow> er_from_us v \<le> er_from_us r"
  shows "r \<in> overlapping_rows t a rs re"
proof (cases "rs \<le> er_from_us r")
  case True
  then show ?thesis using assms by (simp add: overlapping_rows_def)
next
  case False
  have "inj_on er_from_us (set (filter (\<lambda>r. er_from_us r < rs) (rows_of t a)))"
    using starts_inj [OF assms(1)] by (rule inj_on_subset) auto
  then have "max_by (\<lambda>x y. cmp (er_from_us x) (er_from_us y)) (filter (\<lambda>r. er_from_us r < rs) (rows_of t a)) = Some r"
    using assms(2,4) False by (auto simp: started.max_by_unique)
  then show ?thesis by (simp add: overlapping_rows_def)
qed

lemma overlapping_assessment:
  assumes ok: "table_ok t" and x: "rs \<le> x" "x < re"
  shows "assessment (map eval_interval_of (list_overlapping_with t a rs re)) x = assessment (stored_intervals t a) x"
proof -
  let ?f = "eval_interval_of \<circ> interval_of_row"
  let ?L = "map eval_interval_of (list_overlapping_with t a rs re)"
  have setL: "set ?L = ?f ` overlapping_rows t a rs re" by (simp add: list_overlapping_set image_comp)
  have setR: "set (stored_intervals t a) = ?f ` set (rows_of t a)" by (simp add: stored_intervals_def)
  have fr: "iv_from_us (?f r) = er_from_us r" for r by (simp add: eval_interval_of_def interval_of_row_def)
  let ?C = "filter (\<lambda>r. er_from_us r \<le> x) (rows_of t a)"
  show ?thesis
  proof (cases "max_by (\<lambda>x y. cmp (er_from_us x) (er_from_us y)) ?C")
    case None
    then have "x < er_from_us r" if "r \<in> set (rows_of t a)" for r
      using that by (auto simp: started.max_by_None filter_empty_conv not_le)
    then have none: "v \<in> ?f ` set (rows_of t a) \<Longrightarrow> x < iv_from_us v" for v using fr by auto
    have "assessment ?L x = None"
      using none overlapping_sub [of t a rs re] unfolding setL by (intro assessment_none) (auto simp only: setL image_iff)
    moreover have "assessment (stored_intervals t a) x = None" using none by (intro assessment_none) (simp only: setR)
    ultimately show ?thesis by simp
  next
    case (Some r)
    have r: "r \<in> set (rows_of t a)" "er_from_us r \<le> x" using started.max_by_in [OF Some] by auto
    have top: "er_from_us v \<le> er_from_us r" if "v \<in> set (rows_of t a)" "er_from_us v \<le> x" for v
      using started.max_by_ge [OF Some, of v] that by simp
    have uniq: "v = r \<or> er_from_us v < er_from_us r" if "v \<in> set (rows_of t a)" "er_from_us v \<le> x" for v
      using top [OF that] starts_inj [OF ok, of a] that(1) r(1) by (auto simp: inj_on_def order_less_le)
    have in_L: "r \<in> overlapping_rows t a rs re"
      using r top x by (intro overlapping_has_latest [OF ok]) auto
    have "assessment ivs x = stands (?f r) x" if S: "set ivs = ?f ` S" "r \<in> S" "S \<subseteq> set (rows_of t a)" for ivs S
    proof (rule assessment_max)
      fix v assume "v \<in> set ivs" "iv_from_us v \<le> x"
      then obtain u where "v = ?f u" "u \<in> set (rows_of t a)" "er_from_us u \<le> x"
        using S fr by auto
      then show "v = ?f r \<or> iv_from_us v < iv_from_us (?f r)" using uniq fr by auto
    qed (use S r fr in auto)
    from this [OF setL in_L overlapping_sub] this [OF setR r(1) subset_refl] show ?thesis by simp
  qed
qed

lemma counted_cong:
  assumes "\<And>x. x \<in> A \<Longrightarrow> f x = g x"
  shows "counted f A = counted g A"
proof -
  have "{x \<in> A. P (f x)} = {x \<in> A. P (g x)}" for P using assms by (intro Collect_cong) auto
  from this [of "\<lambda>y. y = Some True"] this [of "\<lambda>y. y \<noteq> None"] show ?thesis by (simp only: counted_def)
qed

lemma reference_cong:
  assumes "\<And>x. ug_range_start_secs g * MICROS \<le> x \<Longrightarrow> x < ug_range_end_secs g * MICROS \<Longrightarrow>
    assessment ivs x = assessment ivs' x"
  shows "reference_slices div64 ivs g = reference_slices div64 ivs' g"
proof -
  have "counted (assessment ivs) (S \<inter> {ug_range_start_secs g * MICROS ..< ug_range_end_secs g * MICROS}) =
      counted (assessment ivs') (S \<inter> {ug_range_start_secs g * MICROS ..< ug_range_end_secs g * MICROS})" for S
    by (rule counted_cong) (simp add: assms)
  then show ?thesis unfolding reference_slices_def Let_def by (simp only:)
qed

lemma ledger_pass_whole:
  assumes "\<forall>w \<in> writes_of ops. 0 < lw_frequency_secs w \<and> 0 \<le> lw_at w" "grid_ok g"
  shows "ledger_pass div64 (ledger_run ops) a g =
      ledger_query_rows div64 (map interval_of_row (rows_of (ledger_run ops) a)) g"
    "uptime_slices div64 (stored_intervals (ledger_run ops) a) g =
      Some (reference_slices div64 (stored_intervals (ledger_run ops) a) g)"
proof -
  let ?t = "ledger_run ops" and ?L = "list_overlapping_with (ledger_run ops) a (ug_range_start_secs g * MICROS) (ug_range_end_secs g * MICROS)"
  have inv: "ledger_inv (writes_of ops) ?t" using assms(1) by (intro ledger_run_inv) blast
  then have ok: "table_ok ?t" and "\<forall>r \<in> set (rows_of ?t a). \<exists>w \<in> writes_of ops. lw_at w = er_to_us r"
    by (auto simp: ledger_inv_def supported_def rows_of_def)
  then have nonneg: "\<forall>r \<in> set (rows_of ?t a). 0 \<le> er_to_us r" using assms(1) by metis
  have "\<forall>iv \<in> set (map eval_interval_of ?L). 0 \<le> iv_to_us iv"
    using nonneg overlapping_sub by (fastforce simp: list_overlapping_set eval_interval_of_def interval_of_row_def)
  moreover have "\<forall>iv \<in> set (stored_intervals ?t a). 0 \<le> iv_to_us iv"
    using nonneg by (auto simp: stored_intervals_def eval_interval_of_def interval_of_row_def)
  moreover have "reference_slices div64 (map eval_interval_of ?L) g = reference_slices div64 (stored_intervals ?t a) g"
    by (intro reference_cong overlapping_assessment [OF ok])
  ultimately have "uptime_slices div64 (map eval_interval_of ?L) g = uptime_slices div64 (stored_intervals ?t a) g"
    and "uptime_slices div64 (stored_intervals ?t a) g = Some (reference_slices div64 (stored_intervals ?t a) g)"
    by (simp_all add: uptime_slices_reference [OF assms(2)])
  then show "ledger_pass div64 ?t a g = ledger_query_rows div64 (map interval_of_row (rows_of ?t a)) g"
    "uptime_slices div64 (stored_intervals ?t a) g = Some (reference_slices div64 (stored_intervals ?t a) g)"
    by (simp_all add: ledger_pass_def ledger_query_rows_def stored_intervals_def MICROS_def)
qed

text \<open>
  C35. Reading one row before the range is enough. For any history of the table with positive cadences and
  non-negative times, and any grid within the range of \<open>i64\<close> microseconds, the SLO pass over the rows that
  \<open>list_overlapping\<close> fetches returns what it would return over the whole stored history of the alert.
\<close>

theorem overlap_read_suffices:
  assumes "\<forall>w \<in> writes_of ops. 0 < lw_frequency_secs w \<and> 0 \<le> lw_at w" "grid_ok g"
  shows "ledger_pass div64 (ledger_run ops) a g =
    ledger_query_rows div64 (map interval_of_row (rows_of (ledger_run ops) a)) g"
  by (rule ledger_pass_whole [OF assms])

theorem overlap_read_suffices_witness:
  "ledger_pass (\<lambda>a b. a) (ledger_run ledger_example) ''a'' one_slice =
    ledger_query_rows (\<lambda>a b. a) (map interval_of_row (rows_of (ledger_run ledger_example) ''a'')) one_slice"
  by (rule overlap_read_suffices)
    (auto simp: writes_of_def ledger_example_def eval_write_def grid_ok_def one_slice_def MICROS_def)

end
