(* ===== verification/Alert_Store.thy ===== *)
theory Alert_Store
  imports Alert_Dispatch Alert_Ledger "HOL-Library.AList"
begin

text \<open>
  The tables of alert state (\<open>src/infra/src/table/alert_states.rs\<close>), the path of one evaluation through
  them (\<open>persist_alert_run_state\<close> of \<open>src/core/src/alerts/scheduler/handlers.rs\<close>) and the sweep of the group
  reaper (\<open>src/jobs/src/job/alert_group_reaper.rs\<close>). A table is the list of its rows by primary key. A
  transaction that fails leaves the store as it was; reads and writes of one evaluation may fail, which two
  flags of the model say. Outcomes and levels are stored as integers whose codes round-trip.
\<close>

section \<open>The store\<close>

record stored_row =
  sr_state :: alert_state
  sr_last_downtime_id :: "string option"

record alert_store =
  db_states :: "((string \<times> string) \<times> stored_row) list"
  db_transitions :: "state_transition list"
  db_ledger :: eval_table
  db_multi :: "string list"

definition get_row :: "alert_store \<Rightarrow> string \<Rightarrow> string \<Rightarrow> stored_row option" where
  "get_row db a g = map_of (db_states db) (a, g)"

definition get_with :: "alert_store \<Rightarrow> string \<Rightarrow> string \<Rightarrow> alert_state option" where
  "get_with db a g = map_option sr_state (get_row db a g)"

definition list_groups_with :: "alert_store \<Rightarrow> string \<Rightarrow> alert_state list" where
  "list_groups_with db a =
     map (\<lambda>e. sr_state (snd e)) (filter (\<lambda>e. fst (fst e) = a \<and> snd (fst e) \<noteq> ROLLUP_GROUP_KEY) (db_states db))"

definition load_tracked_group_states :: "alert_store \<Rightarrow> string \<Rightarrow> (string \<times> alert_state) list" where
  "load_tracked_group_states db a =
     (let prev = map (\<lambda>s. (as_group_key s, s)) (list_groups_with db a)
      in case get_with db a ROLLUP_GROUP_KEY of
           Some rollup \<Rightarrow> AList.update ROLLUP_GROUP_KEY rollup prev
         | None \<Rightarrow> prev)"

definition list_alert_ids_with_groups :: "alert_store \<Rightarrow> string list" where
  "list_alert_ids_with_groups db =
     remdups (map (\<lambda>e. fst (fst e)) (filter (\<lambda>e. snd (fst e) \<noteq> ROLLUP_GROUP_KEY) (db_states db)))"

section \<open>Writes\<close>

definition write_transition :: "alert_store \<Rightarrow> state_transition \<Rightarrow> alert_store" where
  "write_transition db t =
     (if \<exists>u \<in> set (db_transitions db). st_alert_id u = st_alert_id t \<and> st_group_key u = st_group_key t \<and> st_at u = st_at t
      then db else db\<lparr>db_transitions := db_transitions db @ [t]\<rparr>)"

definition write_transition_opt :: "alert_store \<Rightarrow> state_transition option \<Rightarrow> alert_store" where
  "write_transition_opt db t = (case t of Some t' \<Rightarrow> write_transition db t' | None \<Rightarrow> db)"

text \<open>
  The two counters are written \<open>as i32\<close> and read back \<open>as usize\<close>; a row is kept as its readers see it.
  On conflict every column is updated but the two delivery columns and the downtime.
\<close>

definition count_column :: "nat \<Rightarrow> nat" where
  "count_column n = nat (wrap_i32 (int n) mod 18446744073709551616)"

definition state_columns :: "alert_state \<Rightarrow> alert_state" where
  "state_columns s =
     s\<lparr>as_groups_observed := map_option count_column (as_groups_observed s),
       as_groups_firing := map_option count_column (as_groups_firing s)\<rparr>"

definition upsert :: "stored_row option \<Rightarrow> alert_state \<Rightarrow> stored_row" where
  "upsert existing s =
     (case existing of
        None \<Rightarrow> \<lparr>sr_state = state_columns s, sr_last_downtime_id = None\<rparr>
      | Some r \<Rightarrow> r\<lparr>sr_state := (state_columns s)\<lparr>as_silenced_until := as_silenced_until (sr_state r),
                                   as_last_notified_level := as_last_notified_level (sr_state r)\<rparr>\<rparr>)"

lemma state_columns_keeps [simp]:
  "as_alert_id (state_columns s) = as_alert_id s" "as_group_key (state_columns s) = as_group_key s"
  "as_last_outcome (state_columns s) = as_last_outcome s" "as_last_outcome_at (state_columns s) = as_last_outcome_at s"
  "as_since (state_columns s) = as_since s" "as_level (state_columns s) = as_level s"
  "as_level_since (state_columns s) = as_level_since s" "as_level_at (state_columns s) = as_level_at s"
  "as_last_seen (state_columns s) = as_last_seen s" "as_group_labels (state_columns s) = as_group_labels s"
  "as_silenced_until (state_columns s) = as_silenced_until s" "as_last_notified_level (state_columns s) = as_last_notified_level s"
  "as_episode_id (state_columns s) = as_episode_id s" "as_episode_opened_at (state_columns s) = as_episode_opened_at s"
  "as_episode_incident_id (state_columns s) = as_episode_incident_id s" "as_recovering_since (state_columns s) = as_recovering_since s"
  by (simp_all add: state_columns_def)

lemma state_columns_small:
  assumes "as_groups_observed s = None \<or> (\<exists>n. as_groups_observed s = Some n \<and> n < 2147483648)"
    and "as_groups_firing s = None \<or> (\<exists>n. as_groups_firing s = Some n \<and> n < 2147483648)"
  shows "state_columns s = s"
proof -
  have "count_column n = n" if "n < 2147483648" for n using that by (simp add: count_column_def wrap_i32_id)
  then show ?thesis using assms by (auto simp: state_columns_def)
qed

definition write_update :: "alert_store \<Rightarrow> state_update \<Rightarrow> alert_store" where
  "write_update db u =
     (case su_state u of
        None \<Rightarrow> db
      | Some s \<Rightarrow>
          (let key = (as_alert_id s, as_group_key s);
               db = db\<lparr>db_states := AList.update key (upsert (map_of (db_states db) key) s) (db_states db)\<rparr>
           in write_transition_opt db (su_transition u)))"

definition persist_with :: "alert_store \<Rightarrow> state_update \<Rightarrow> eval_ledger_write option \<Rightarrow> alert_store" where
  "persist_with db u ledger =
     (if su_state u = None \<and> ledger = None then db
      else (let db = write_update db u
            in case ledger of
                 Some w \<Rightarrow> db\<lparr>db_ledger := record_evaluation_with (db_ledger db) w\<rparr>
               | None \<Rightarrow> db))"

definition delete_groups_with :: "alert_store \<Rightarrow> string \<Rightarrow> string list \<Rightarrow> alert_store" where
  "delete_groups_with db a keys =
     (if keys = [] then db
      else db\<lparr>db_states := filter (\<lambda>e. \<not> (fst (fst e) = a \<and> snd (fst e) \<in> set keys)) (db_states db)\<rparr>)"

definition delete_all_groups_with :: "alert_store \<Rightarrow> string \<Rightarrow> alert_store \<times> nat" where
  "delete_all_groups_with db a =
     (db\<lparr>db_states := filter (\<lambda>e. \<not> (fst (fst e) = a \<and> snd (fst e) \<noteq> ROLLUP_GROUP_KEY)) (db_states db)\<rparr>,
      length (filter (\<lambda>e. fst (fst e) = a \<and> snd (fst e) \<noteq> ROLLUP_GROUP_KEY) (db_states db)))"

definition delete_by_alert_states :: "alert_store \<Rightarrow> string \<Rightarrow> alert_store" where
  "delete_by_alert_states db a =
     db\<lparr>db_states := filter (\<lambda>e. fst (fst e) \<noteq> a) (db_states db),
        db_transitions := filter (\<lambda>t. st_alert_id t \<noteq> a) (db_transitions db)\<rparr>"

definition persist_group_plan_with :: "alert_store \<Rightarrow> group_plan \<Rightarrow> string \<Rightarrow> alert_store \<times> bool" where
  "persist_group_plan_with db plan a =
     (if a \<notin> set (db_multi db) then (db, False)
      else (delete_groups_with (fold (\<lambda>u db. write_update db u) (gp_updates plan) db) a (gp_evicted plan), True))"

definition set_last_downtime_id_with :: "alert_store \<Rightarrow> string \<Rightarrow> string option \<Rightarrow> alert_store" where
  "set_last_downtime_id_with db a downtime =
     (let key = (a, ROLLUP_GROUP_KEY)
      in case (downtime, map_of (db_states db) key) of
           (None, None) \<Rightarrow> db
         | (None, Some r) \<Rightarrow> db\<lparr>db_states := AList.update key (r\<lparr>sr_last_downtime_id := None\<rparr>) (db_states db)\<rparr>
         | (Some d, Some r) \<Rightarrow> db\<lparr>db_states := AList.update key (r\<lparr>sr_last_downtime_id := Some d\<rparr>) (db_states db)\<rparr>
         | (Some d, None) \<Rightarrow>
             db\<lparr>db_states := AList.update key \<lparr>sr_state = alert_state_empty a ROLLUP_GROUP_KEY, sr_last_downtime_id = Some d\<rparr>
                  (db_states db)\<rparr>)"

section \<open>Delivery callbacks\<close>

datatype delivery_outcome = Delivered int int | Failed int

definition advance_delivery_state_with ::
  "alert_store \<Rightarrow> string \<Rightarrow> string \<Rightarrow> delivery_episode \<Rightarrow> delivery_outcome \<Rightarrow> alert_store \<times> bool" where
  "advance_delivery_state_with db a g episode outcome =
     (case map_of (db_states db) (a, g) of
        None \<Rightarrow> (db, False)
      | Some r \<Rightarrow>
          (let current = sr_state r;
               guarded = (as_level current = Some (de_level episode) \<and> as_level_since current = Some (de_level_since episode))
           in case outcome of
                Delivered silence_minutes at' \<Rightarrow>
                  (case delivery_success_update current episode silence_minutes at' of
                     None \<Rightarrow> (db, False)
                   | Some next' \<Rightarrow>
                       if guarded
                       then (db\<lparr>db_states := AList.update (a, g)
                               (r\<lparr>sr_state := current\<lparr>as_last_notified_level := as_last_notified_level next',
                                                      as_silenced_until := as_silenced_until next'\<rparr>\<rparr>) (db_states db)\<rparr>, True)
                       else (db, False))
              | Failed at' \<Rightarrow>
                  (case delivery_failure_update current episode at' of
                     None \<Rightarrow> (db, False)
                   | Some update \<Rightarrow>
                       (case su_state update of
                          None \<Rightarrow> (db, False)
                        | Some next' \<Rightarrow>
                            if guarded \<and> (as_last_notified_level current, as_silenced_until current) = de_notified_at_enqueue episode
                            then (write_transition_opt
                                    (db\<lparr>db_states := AList.update (a, g)
                                       (r\<lparr>sr_state := current\<lparr>as_last_outcome := Some ONotifyFailed,
                                          as_last_outcome_at := as_last_outcome_at next',
                                          as_since := as_since next'\<rparr>\<rparr>) (db_states db)\<rparr>)
                                    (su_transition update), True)
                            else (db, False)))))"

section \<open>The sweep of one alert\<close>

text \<open>
  What the two paths read of an alert. \<open>ac_resolve_after\<close> is \<open>group_resolve_threshold_micros\<close> of its trigger
  condition and \<open>ac_stale_deadline\<close> its freshness deadline, both as functions of the instant they are counted
  from, since on a cron schedule they ask the schedule library.
\<close>

record alert_cfg =
  ac_org :: string
  ac_enabled :: bool
  ac_multi_alert_enabled :: bool
  ac_promql_rule_mode :: bool
  ac_trigger :: trigger_condition
  ac_pending_period_sec :: int
  ac_maintains_group_state :: bool
  ac_resolve_after :: "int \<Rightarrow> int"
  ac_stale_deadline :: "int \<Rightarrow> int option"

fun sweep_groups :: "string \<Rightarrow> alert_cfg \<Rightarrow> int \<Rightarrow> int \<Rightarrow> alert_state list \<Rightarrow> alert_store \<times> nat \<times> string list \<Rightarrow> alert_store \<times> nat \<times> string list" where
  "sweep_groups a cfg now grace [] acc = acc"
| "sweep_groups a cfg now grace (s # ss) (db, resolved, to_reap) =
     (let resolve_after = ac_resolve_after cfg (case as_last_seen s of Some t \<Rightarrow> t | None \<Rightarrow> now)
      in case fate_for_alert (ac_promql_rule_mode cfg) s now resolve_after grace of
           Keep \<Rightarrow> sweep_groups a cfg now grace ss (db, resolved, to_reap)
         | Resolve \<Rightarrow>
             (let update = resolve_group_update a (as_group_key s) s now
              in if is_noop update then sweep_groups a cfg now grace ss (db, resolved, to_reap)
                 else sweep_groups a cfg now grace ss (persist_with db update None, resolved + 1, to_reap))
         | Reap \<Rightarrow> sweep_groups a cfg now grace ss (db, resolved, to_reap @ [as_group_key s]))"

definition sweep_alert :: "alert_store \<Rightarrow> string \<Rightarrow> alert_cfg option \<Rightarrow> int \<Rightarrow> int \<Rightarrow> alert_store \<times> nat \<times> nat \<times> nat" where
  "sweep_alert db a alert now grace =
     (let groups = list_groups_with db a
      in if groups = [] then (db, 0, 0, 0)
         else case alert of
                None \<Rightarrow>
                  (let stale = opt_out_evictions (map (\<lambda>s. (as_group_key s, s)) groups)
                   in (delete_groups_with db a stale, 0, 0, length stale))
              | Some cfg \<Rightarrow>
                  if \<not> ac_enabled cfg then (db, 0, 0, 0)
                  else if \<not> ac_multi_alert_enabled cfg then
                    (let stale = opt_out_evictions (map (\<lambda>s. (as_group_key s, s)) groups)
                     in (delete_groups_with db a stale, 0, 0, length stale))
                  else
                    (let rollup = get_with db a ROLLUP_GROUP_KEY;
                         page = (if Option.bind rollup as_groups_firing_is_lower_bound = Some True then Truncated else Complete)
                     in if \<not> may_age_groups (Option.bind rollup as_last_outcome) page then (db, 0, 0, 0)
                        else
                          (let (db, resolved, to_reap) = sweep_groups a cfg now grace groups (db, 0, [])
                           in (if to_reap = [] then db else delete_groups_with db a to_reap, resolved, length to_reap, 0))))"

section \<open>One evaluation\<close>

record run_input =
  ri_outcome :: run_outcome
  ri_level :: "alert_level option"
  ri_grouped :: "group_classification option"
  ri_rule_value :: "string option"
  ri_episode :: episode_input
  ri_now :: int
  ri_uuid :: string
  ri_read_ok :: bool
  ri_write_ok :: bool

record run_result =
  rr_ok :: bool
  rr_recovery :: "recovery_event option"
  rr_nudge :: bool

definition run_failed :: run_result where
  "run_failed = \<lparr>rr_ok = False, rr_recovery = None, rr_nudge = False\<rparr>"

definition stale_to_fresh :: "alert_cfg \<Rightarrow> alert_state option \<Rightarrow> int \<Rightarrow> bool" where
  "stale_to_fresh cfg prev now =
     (case Option.bind prev as_level_at of
        Some level_at \<Rightarrow> (case ac_stale_deadline cfg level_at of Some deadline \<Rightarrow> now > deadline | None \<Rightarrow> False)
      | None \<Rightarrow> False)"

definition run_grouped ::
  "(string \<Rightarrow> string) \<Rightarrow> alert_cfg \<Rightarrow> string \<Rightarrow> group_classification \<Rightarrow> run_input \<Rightarrow> alert_store \<Rightarrow> alert_store \<times> run_result" where
  "run_grouped digest cfg a c i db =
     (if \<not> ri_read_ok i then (db, run_failed)
      else
        (let prev = load_tracked_group_states db a;
             plan = (if ac_promql_rule_mode cfg
                     then plan_rule_updates digest a c prev (ri_now i) (ac_pending_period_sec cfg)
                     else plan_group_updates digest a c prev (ri_now i) (ac_pending_period_sec cfg))
         in if \<not> ri_write_ok i then (db, run_failed)
            else
              (let db = fst (persist_group_plan_with db plan a);
                   rollup = find (\<lambda>u. case su_state u of Some s \<Rightarrow> as_group_key s = ROLLUP_GROUP_KEY | None \<Rightarrow> False)
                     (gp_updates plan);
                   transition_changed = (case rollup of Some u \<Rightarrow> su_transition u \<noteq> None | None \<Rightarrow> False)
               in (db, \<lparr>rr_ok = True, rr_recovery = None,
                        rr_nudge = (transition_changed \<or> stale_to_fresh cfg (map_of prev ROLLUP_GROUP_KEY) (ri_now i))\<rparr>))))"

definition single_update ::
  "alert_cfg \<Rightarrow> string \<Rightarrow> run_input \<Rightarrow> alert_state option \<Rightarrow> state_update \<times> closed_episode option" where
  "single_update cfg a i prev =
     (let state_outcome = (if ri_outcome i = OSuppressed then OFiring else ri_outcome i);
          update = (if ac_promql_rule_mode cfg
                    then apply_rule_rollup_outcome a prev state_outcome (ri_level i) (ri_now i) (ri_rule_value i)
                    else apply_outcome a ROLLUP_GROUP_KEY prev state_outcome (ri_level i) (ri_now i))
      in case su_state update of
           None \<Rightarrow> (update, None)
         | Some s \<Rightarrow>
             (let firing = (case as_level s of Some l \<Rightarrow> level_is_firing l | None \<Rightarrow> False);
                  (s', recovered) = apply_episode s firing (ri_episode i) (ri_now i)
                    (case ei_episode_id (ri_episode i) of Some e \<Rightarrow> e | None \<Rightarrow> ri_uuid i)
              in (update\<lparr>su_state := Some s'\<rparr>, recovered)))"

definition run_single :: "alert_cfg \<Rightarrow> string \<Rightarrow> run_input \<Rightarrow> alert_store \<Rightarrow> alert_store \<times> run_result" where
  "run_single cfg a i db =
     (if \<not> ri_read_ok i then (db, run_failed)
      else
        (let prev = get_with db a ROLLUP_GROUP_KEY;
             (update, recovered) = single_update cfg a i prev;
             ledger = ledger_write_for_evaluation (ac_org cfg) a (ri_outcome i) (ri_level i)
                        (ac_maintains_group_state cfg) (ac_trigger cfg) (ri_now i)
         in if is_noop update \<and> ledger = None then (db, \<lparr>rr_ok = True, rr_recovery = None, rr_nudge = False\<rparr>)
            else if \<not> ri_write_ok i then (db, run_failed)
            else (persist_with db update ledger,
                  \<lparr>rr_ok = True,
                   rr_recovery = (case (recovered, su_state update) of
                                    (Some c, Some s) \<Rightarrow> Some (recovery_event (ac_org cfg) s c (ri_now i))
                                  | _ \<Rightarrow> None),
                   rr_nudge = (su_transition update \<noteq> None \<or> stale_to_fresh cfg prev (ri_now i))\<rparr>)))"

definition persist_alert_run_state ::
  "(string \<Rightarrow> string) \<Rightarrow> alert_cfg \<Rightarrow> string \<Rightarrow> run_input \<Rightarrow> alert_store \<Rightarrow> alert_store \<times> run_result" where
  "persist_alert_run_state digest cfg a i db =
     (case ri_grouped i of
        Some c \<Rightarrow> if ri_outcome i \<noteq> OSkipped then run_grouped digest cfg a c i db else run_single cfg a i db
      | None \<Rightarrow> run_single cfg a i db)"

section \<open>Effects on one row\<close>

lemma write_transition_states [simp]:
  "db_states (write_transition db t) = db_states db" "db_states (write_transition_opt db ot) = db_states db"
  "db_ledger (write_transition db t) = db_ledger db" "db_ledger (write_transition_opt db ot) = db_ledger db"
  by (auto simp: write_transition_def write_transition_opt_def split: option.splits)

lemma get_row_write:
  "get_row (write_update db u) a g =
     (case su_state u of
        Some s \<Rightarrow> if (a, g) = (as_alert_id s, as_group_key s) then Some (upsert (get_row db a g) s) else get_row db a g
      | None \<Rightarrow> get_row db a g)"
  by (auto simp: get_row_def write_update_def Let_def update_conv' split: option.splits)

lemma get_row_persist: "get_row (persist_with db u l) a g = get_row (write_update db u) a g"
  by (auto simp: persist_with_def get_row_def write_update_def Let_def split: option.splits)

lemma get_row_delete_groups:
  "get_row (delete_groups_with db a keys) b g = (if b = a \<and> g \<in> set keys then None else get_row db b g)"
proof -
  have "map_of (filter (\<lambda>e. \<not> P (fst e)) xs) k = (if P k then None else map_of xs k)" for P and xs :: "((string \<times> string) \<times> stored_row) list" and k
    by (induction xs) auto
  from this [of "\<lambda>k. fst k = a \<and> snd k \<in> set keys"] show ?thesis
    by (auto simp: get_row_def delete_groups_with_def)
qed

lemma get_row_downtime:
  "get_row (set_last_downtime_id_with db b d) a g =
     (if a = b \<and> g = ROLLUP_GROUP_KEY then
        (case (d, get_row db a g) of
           (None, None) \<Rightarrow> None
         | (x, Some r) \<Rightarrow> Some (r\<lparr>sr_last_downtime_id := x\<rparr>)
         | (Some x, None) \<Rightarrow> Some \<lparr>sr_state = alert_state_empty b ROLLUP_GROUP_KEY, sr_last_downtime_id = Some x\<rparr>)
      else get_row db a g)"
  by (auto simp: get_row_def set_last_downtime_id_with_def Let_def update_conv' split: option.splits)

lemma get_row_advance:
  "get_row (fst (advance_delivery_state_with db b h e out)) a g =
     (if (a, g) = (b, h) \<and> snd (advance_delivery_state_with db b h e out) then
        (case (get_row db a g, out) of
           (Some r, Delivered m t) \<Rightarrow>
             Some (r\<lparr>sr_state := the (delivery_success_update (sr_state r) e m t)\<rparr>)
         | (Some r, Failed t) \<Rightarrow>
             Some (r\<lparr>sr_state := the (su_state (the (delivery_failure_update (sr_state r) e t)))\<rparr>)
         | (None, _) \<Rightarrow> None)
      else get_row db a g)"
  by (auto simp: get_row_def advance_delivery_state_with_def Let_def update_conv' delivery_success_update_def
      delivery_failure_update_def split: option.splits delivery_outcome.splits)

section \<open>Delivery columns have one writer\<close>

definition delivery_cols :: "stored_row \<Rightarrow> int option \<times> alert_level option" where
  "delivery_cols r = (as_silenced_until (sr_state r), as_last_notified_level (sr_state r))"

definition keeps :: "alert_store \<Rightarrow> alert_store \<Rightarrow> bool" where
  "keeps db db' \<longleftrightarrow> (\<forall>a g r. get_row db a g = Some r \<longrightarrow>
     (\<exists>r'. get_row db' a g = Some r' \<and> delivery_cols r' = delivery_cols r))"

lemma keeps_refl [simp]: "keeps db db"
  by (simp add: keeps_def)

lemma keeps_trans: "keeps db db' \<Longrightarrow> keeps db' db'' \<Longrightarrow> keeps db db''"
  unfolding keeps_def by metis

lemma keeps_write_update: "keeps db (write_update db u)"
  by (auto simp: keeps_def get_row_write upsert_def delivery_cols_def split: option.splits)

lemma keeps_persist: "keeps db (persist_with db u l)"
  using keeps_write_update [of db u] by (simp add: keeps_def get_row_persist)

lemma keeps_fold: "keeps db (fold (\<lambda>u db. write_update db u) us db)"
  by (induction us arbitrary: db) (auto intro: keeps_trans keeps_write_update)

lemma keeps_sweep_groups: "keeps db (fst (sweep_groups a cfg now grace ss (db, n, ks)))"
proof (induction ss arbitrary: db n ks)
  case (Cons s ss)
  show ?case using Cons.IH keeps_trans [OF keeps_persist Cons.IH]
    by (simp add: Let_def split: group_fate.split)
qed simp

datatype store_op =
    OpRun alert_cfg string run_input
  | OpSweep string "alert_cfg option" int int
  | OpDeliver string string delivery_episode delivery_outcome
  | OpDowntime string "string option"
  | OpReplicate state_update "eval_ledger_write option"
  | OpDeleteGroups string "string list"

fun store_step :: "(string \<Rightarrow> string) \<Rightarrow> store_op \<Rightarrow> alert_store \<Rightarrow> alert_store" where
  "store_step digest (OpRun cfg a i) db = fst (persist_alert_run_state digest cfg a i db)"
| "store_step digest (OpSweep a cfg now grace) db = fst (sweep_alert db a cfg now grace)"
| "store_step digest (OpDeliver a g e out) db = fst (advance_delivery_state_with db a g e out)"
| "store_step digest (OpDowntime a d) db = set_last_downtime_id_with db a d"
| "store_step digest (OpReplicate u l) db = persist_with db u l"
| "store_step digest (OpDeleteGroups a ks) db = delete_groups_with db a ks"

text \<open>A step keeps the delivery columns of every row it does not delete.\<close>

definition keeps_present :: "alert_store \<Rightarrow> alert_store \<Rightarrow> bool" where
  "keeps_present db db' \<longleftrightarrow> (\<forall>a g r r'. get_row db a g = Some r \<and> get_row db' a g = Some r' \<longrightarrow> delivery_cols r' = delivery_cols r)"

lemma keeps_present_keeps: "keeps db db' \<Longrightarrow> keeps_present db db'"
  unfolding keeps_def keeps_present_def by fastforce

lemma keeps_present_delete: "keeps db db' \<Longrightarrow> keeps_present db (delete_groups_with db' a ks)"
  unfolding keeps_def keeps_present_def by (fastforce simp: get_row_delete_groups split: if_splits)

lemma keeps_present_plan: "keeps_present db (fst (persist_group_plan_with db plan a))"
  by (simp add: persist_group_plan_with_def keeps_present_delete keeps_fold keeps_present_keeps)

lemma keeps_present_run: "keeps_present db (fst (persist_alert_run_state digest cfg a i db))"
proof -
  have "keeps_present db (fst (run_single cfg a i db))"
    by (auto simp: run_single_def Let_def keeps_present_keeps keeps_persist split: prod.splits)
  moreover have "keeps_present db (fst (run_grouped digest cfg a c i db))" for c
    by (auto simp: run_grouped_def Let_def keeps_present_keeps keeps_present_plan split: prod.splits)
  ultimately show ?thesis by (simp add: persist_alert_run_state_def split: option.split)
qed

lemma keeps_present_sweep: "keeps_present db (fst (sweep_alert db a cfg now grace))"
proof -
  have "keeps_present db (fst (sweep_groups a c now grace ss (db, n, ks)))"
    "keeps_present db (delete_groups_with (fst (sweep_groups a c now grace ss (db, n, ks))) b l)" for c ss n ks b l
    using keeps_sweep_groups keeps_present_keeps keeps_present_delete by blast+
  then show ?thesis
    by (auto simp: sweep_alert_def Let_def keeps_present_keeps keeps_present_delete case_prod_beta split: option.splits)
qed

lemma failed_cols:
  assumes "get_row db b h = Some r" "snd (advance_delivery_state_with db b h e (Failed t))"
  shows "delivery_cols (r\<lparr>sr_state := the (su_state (the (delivery_failure_update (sr_state r) e t)))\<rparr>) = delivery_cols r"
  using assms
  by (auto simp: advance_delivery_state_with_def get_row_def delivery_failure_update_def delivery_cols_def Let_def
      split: if_splits option.splits)

lemma store_step_keeps:
  assumes "\<forall>e m t. x \<noteq> OpDeliver a g e (Delivered m t)"
    and "get_row db a g = Some r" "get_row (store_step digest x db) a g = Some r'"
  shows "delivery_cols r' = delivery_cols r"
proof (cases x)
  case (OpRun cfg b i)
  then show ?thesis using assms(2,3) keeps_present_run [of db digest cfg b i] by (auto simp: keeps_present_def)
next
  case (OpSweep b cfg now grace)
  then show ?thesis using assms(2,3) keeps_present_sweep [of db b cfg now grace] by (auto simp: keeps_present_def)
next
  case (OpDeliver b h e out)
  then show ?thesis using assms failed_cols
    by (cases out) (auto simp: get_row_advance split: if_splits)
next
  case (OpDowntime b d)
  then show ?thesis using assms(2,3) by (auto simp: get_row_downtime delivery_cols_def split: if_splits option.splits)
next
  case (OpReplicate u l)
  then show ?thesis using assms(2,3) keeps_present_keeps [OF keeps_persist [of db u l]] by (auto simp: keeps_present_def)
next
  case (OpDeleteGroups b ks)
  then show ?thesis using assms(2,3) by (auto simp: get_row_delete_groups split: if_splits)
qed

text \<open>
  C5. The silence window and the last notified level of a group have one writer. Whatever else happens to
  the store (an evaluation of any alert, a sweep, a downtime, a replicated or late write computed from rows
  read long before, a failed send, a deletion), if the row is there before and after then the two columns
  are unchanged, unless the step records a delivery of that very group.
\<close>

theorem delivery_columns_one_writer:
  assumes "\<forall>e m t. x \<noteq> OpDeliver a g e (Delivered m t)"
    and "get_row db a g = Some r" "get_row (store_step digest x db) a g = Some r'"
  shows "as_silenced_until (sr_state r') = as_silenced_until (sr_state r) \<and>
    as_last_notified_level (sr_state r') = as_last_notified_level (sr_state r)"
  using store_step_keeps [OF assms] by (simp add: delivery_cols_def)

definition silenced_store :: alert_store where
  "silenced_store =
     \<lparr>db_states = [((''a'', ''g''), \<lparr>sr_state = firing_row\<lparr>as_silenced_until := Some 900, as_last_notified_level := Some LCritical\<rparr>,
                                      sr_last_downtime_id = None\<rparr>)],
      db_transitions = [], db_ledger = empty_table, db_multi = [''a'']\<rparr>"

definition stale_write :: store_op where
  "stale_write = OpReplicate \<lparr>su_state = Some firing_row, su_transition = None\<rparr> None"

theorem delivery_columns_one_writer_witness:
  "\<exists>r'. get_row (store_step (\<lambda>x. x) stale_write silenced_store) ''a'' ''g'' = Some r' \<and>
     as_silenced_until (sr_state r') = Some 900"
proof -
  let ?r = "\<lparr>sr_state = firing_row\<lparr>as_silenced_until := Some 900, as_last_notified_level := Some LCritical\<rparr>, sr_last_downtime_id = None\<rparr>"
  have before: "get_row silenced_store ''a'' ''g'' = Some ?r" by (simp add: get_row_def silenced_store_def)
  have "\<exists>r'. get_row (store_step (\<lambda>x. x) stale_write silenced_store) ''a'' ''g'' = Some r'"
    by (simp add: stale_write_def get_row_persist get_row_write firing_row_def alert_state_empty_def)
  then obtain r' where after: "get_row (store_step (\<lambda>x. x) stale_write silenced_store) ''a'' ''g'' = Some r'" by blast
  have "\<forall>e m t. stale_write \<noteq> OpDeliver ''a'' ''g'' e (Delivered m t)" by (simp add: stale_write_def)
  from delivery_columns_one_writer [OF this before after] after show ?thesis by simp
qed

section \<open>Redelivery\<close>

lemma upsert_twice: "upsert (Some (upsert e s)) s = upsert e s"
  by (cases e) (simp_all add: upsert_def)

text \<open>
  Writing the same update again changes nothing: neither the rows nor the transition log, which is keyed
  by alert, group and time, so a message the super cluster redelivers is harmless.
\<close>

theorem replayed_update_idempotent: "write_update (write_update db u) u = write_update db u"
proof (cases "su_state u")
  case (Some s)
  let ?k = "(as_alert_id s, as_group_key s)"
  define x where "x = write_update db u"
  have x: "x = write_transition_opt (db\<lparr>db_states := AList.update ?k (upsert (map_of (db_states db) ?k) s) (db_states db)\<rparr>) (su_transition u)"
    by (simp add: x_def write_update_def Some Let_def)
  have "AList.update ?k (upsert (map_of (db_states x) ?k) s) (db_states x) = db_states x"
    by (simp add: x update_conv' upsert_twice)
  then have "write_update x u = write_transition_opt x (su_transition u)" by (simp add: write_update_def Some Let_def)
  also have "\<dots> = x"
    by (auto simp: x write_transition_opt_def write_transition_def split: option.splits)
  finally show ?thesis by (simp add: x_def)
qed (simp add: write_update_def)

section \<open>Well-formed stores\<close>

definition same_identity :: "state_transition \<Rightarrow> state_transition \<Rightarrow> bool" where
  "same_identity t u \<longleftrightarrow> st_alert_id t = st_alert_id u \<and> st_group_key t = st_group_key u \<and> st_at t = st_at u"

definition store_ok :: "alert_store \<Rightarrow> bool" where
  "store_ok db \<longleftrightarrow>
     distinct (map fst (db_states db)) \<and>
     (\<forall>a g r. get_row db a g = Some r \<longrightarrow> as_alert_id (sr_state r) = a \<and> as_group_key (sr_state r) = g) \<and>
     sorted_wrt (\<lambda>t u. \<not> same_identity t u) (db_transitions db) \<and>
     table_ok (db_ledger db)"

lemma distinct_update_keys: "distinct (map fst al) \<Longrightarrow> distinct (map fst (AList.update k v al))"
  by (simp add: distinct_update)

lemma write_transition_ok:
  "sorted_wrt (\<lambda>t u. \<not> same_identity t u) (db_transitions db) \<Longrightarrow>
   sorted_wrt (\<lambda>t u. \<not> same_identity t u) (db_transitions (write_transition_opt db ot))"
  by (auto simp: write_transition_opt_def write_transition_def sorted_wrt_append same_identity_def split: option.splits)

lemma write_update_ok:
  assumes "store_ok db"
  shows "store_ok (write_update db u)"
proof -
  have "distinct (map fst (db_states (write_update db u)))" "db_ledger (write_update db u) = db_ledger db"
    using assms by (auto simp: store_ok_def write_update_def Let_def distinct_update_keys split: option.splits)
  moreover have "sorted_wrt (\<lambda>t u. \<not> same_identity t u) (db_transitions (write_update db u))"
    using assms by (auto simp: store_ok_def write_update_def Let_def intro!: write_transition_ok split: option.splits)
  moreover have "as_alert_id (sr_state r) = a \<and> as_group_key (sr_state r) = g" if "get_row (write_update db u) a g = Some r" for a g r
    using that assms by (auto simp: get_row_write store_ok_def upsert_def split: option.splits if_splits)
  ultimately show ?thesis using assms by (simp add: store_ok_def)
qed

lemma persist_ok: "store_ok db \<Longrightarrow> store_ok (persist_with db u l)"
proof -
  assume "store_ok db"
  then have ok: "store_ok (write_update db u)" by (rule write_update_ok)
  have "store_ok (x\<lparr>db_ledger := t\<rparr>)" if "store_ok x" "table_ok t" for x t
    using that by (simp add: store_ok_def get_row_def)
  then show ?thesis using ok \<open>store_ok db\<close> record_table_ok
    by (auto simp: persist_with_def Let_def store_ok_def [of "write_update db u"] split: option.splits)
qed

lemma fold_update_ok: "store_ok db \<Longrightarrow> store_ok (fold (\<lambda>u db. write_update db u) us db)"
  by (induction us arbitrary: db) (simp_all add: write_update_ok)

lemma delete_groups_ok: "store_ok db \<Longrightarrow> store_ok (delete_groups_with db a ks)"
proof -
  assume ok: "store_ok db"
  have "distinct (map fst (db_states (delete_groups_with db a ks)))"
    using ok by (auto simp: store_ok_def delete_groups_with_def distinct_map_filter)
  moreover have "db_transitions (delete_groups_with db a ks) = db_transitions db" "db_ledger (delete_groups_with db a ks) = db_ledger db"
    by (auto simp: delete_groups_with_def)
  ultimately show ?thesis using ok by (auto simp: store_ok_def get_row_delete_groups split: if_splits)
qed

lemma set_row_ok:
  assumes "store_ok db" "as_alert_id (sr_state r) = a" "as_group_key (sr_state r) = g"
  shows "store_ok (db\<lparr>db_states := AList.update (a, g) r (db_states db)\<rparr>)"
  using assms by (auto simp: store_ok_def get_row_def distinct_update_keys update_conv' split: if_splits)

lemma advance_ok: "store_ok db \<Longrightarrow> store_ok (fst (advance_delivery_state_with db a g e out))"
proof -
  assume ok: "store_ok db"
  have tr: "store_ok (write_transition_opt x ot)" if "store_ok x" for x ot
    using that write_transition_ok by (auto simp: store_ok_def get_row_def)
  have key: "as_alert_id (sr_state r) = a \<and> as_group_key (sr_state r) = g" if "map_of (db_states db) (a, g) = Some r" for r
    using that ok by (auto simp: store_ok_def get_row_def)
  show ?thesis unfolding advance_delivery_state_with_def Let_def
    by (auto split: option.splits delivery_outcome.splits dest!: key intro!: ok tr set_row_ok)
qed

lemma downtime_ok: "store_ok db \<Longrightarrow> store_ok (set_last_downtime_id_with db a d)"
proof -
  assume ok: "store_ok db"
  have key: "as_alert_id (sr_state r) = a \<and> as_group_key (sr_state r) = ROLLUP_GROUP_KEY" if "map_of (db_states db) (a, ROLLUP_GROUP_KEY) = Some r" for r
    using that ok by (auto simp: store_ok_def get_row_def)
  show ?thesis unfolding set_last_downtime_id_with_def Let_def
    by (auto split: option.splits dest!: key intro!: ok set_row_ok simp: alert_state_empty_def)
qed

lemma sweep_groups_ok: "store_ok db \<Longrightarrow> store_ok (fst (sweep_groups a cfg now grace ss (db, n, ks)))"
proof (induction ss arbitrary: db n ks)
  case (Cons s ss)
  then show ?case using persist_ok [OF Cons.prems] by (simp add: Let_def split: group_fate.split)
qed simp

lemma sweep_alert_ok: "store_ok db \<Longrightarrow> store_ok (fst (sweep_alert db a cfg now grace))"
  by (auto simp: sweep_alert_def Let_def case_prod_beta delete_groups_ok sweep_groups_ok split: option.splits)

lemma run_ok: "store_ok db \<Longrightarrow> store_ok (fst (persist_alert_run_state digest cfg a i db))"
proof -
  assume ok: "store_ok db"
  have "store_ok (fst (run_single cfg a i db))"
    using ok by (auto simp: run_single_def Let_def persist_ok split: prod.splits)
  moreover have "store_ok (fst (run_grouped digest cfg a c i db))" for c
    using ok by (auto simp: run_grouped_def Let_def persist_group_plan_with_def delete_groups_ok fold_update_ok)
  ultimately show ?thesis by (simp add: persist_alert_run_state_def split: option.split)
qed

definition store_run :: "(string \<Rightarrow> string) \<Rightarrow> store_op list \<Rightarrow> alert_store \<Rightarrow> alert_store" where
  "store_run digest ops db = fold (store_step digest) ops db"

definition empty_store :: "string list \<Rightarrow> alert_store" where
  "empty_store multi = \<lparr>db_states = [], db_transitions = [], db_ledger = empty_table, db_multi = multi\<rparr>"

lemma store_step_ok: "store_ok db \<Longrightarrow> store_ok (store_step digest x db)"
  by (cases x) (simp_all add: run_ok sweep_alert_ok advance_ok downtime_ok persist_ok delete_groups_ok)

text \<open>
  C15. The tables stay consistent. From an empty store, through any interleaving of evaluations of any
  alerts, sweeps, delivery callbacks, downtimes, replicated writes and deletions, there is one row per alert
  and group and it carries that key, no two logged transitions have the same alert, group and time, and the
  availability ledger keeps its runs ordered and disjoint.
\<close>

theorem store_stays_consistent: "store_ok (store_run digest ops (empty_store multi))"
proof -
  have "store_ok (empty_store multi)"
    by (simp add: store_ok_def empty_store_def empty_table_def table_ok_def rows_of_def get_row_def)
  then show ?thesis unfolding store_run_def
    by (induction ops arbitrary: multi rule: rev_induct) (simp_all add: store_step_ok)
qed

section \<open>Recoveries through the store\<close>

definition ep_open :: "alert_store \<Rightarrow> string \<Rightarrow> string list" where
  "ep_open db a = (case get_row db a ROLLUP_GROUP_KEY of Some r \<Rightarrow> open_episode (sr_state r) | None \<Rightarrow> [])"

definition episode_id_of :: "run_input \<Rightarrow> string" where
  "episode_id_of i = (case ei_episode_id (ri_episode i) of Some e \<Rightarrow> e | None \<Rightarrow> ri_uuid i)"

definition step_events :: "(string \<Rightarrow> string) \<Rightarrow> string \<Rightarrow> store_op \<Rightarrow> alert_store \<Rightarrow> recovery_event list" where
  "step_events digest a x db =
     (case x of
        OpRun cfg b i \<Rightarrow> if b = a then (case rr_recovery (snd (persist_alert_run_state digest cfg b i db)) of Some e \<Rightarrow> [e] | None \<Rightarrow> []) else []
      | _ \<Rightarrow> [])"

definition step_delivered :: "string \<Rightarrow> store_op \<Rightarrow> string list" where
  "step_delivered a x =
     (case x of OpRun cfg b i \<Rightarrow> if b = a \<and> ei_delivered (ri_episode i) then [episode_id_of i] else [] | _ \<Rightarrow> [])"

fun recoveries :: "(string \<Rightarrow> string) \<Rightarrow> string \<Rightarrow> store_op list \<Rightarrow> alert_store \<Rightarrow> recovery_event list" where
  "recoveries digest a [] db = []"
| "recoveries digest a (x # xs) db = step_events digest a x db @ recoveries digest a xs (store_step digest x db)"

text \<open>The steps that leave the rollup row of an ungrouped alert to its evaluations.\<close>

fun leaves_rollup :: "string \<Rightarrow> store_op \<Rightarrow> bool" where
  "leaves_rollup a (OpRun cfg b i) \<longleftrightarrow> (b = a \<longrightarrow> ri_grouped i = None)"
| "leaves_rollup a (OpReplicate u l) \<longleftrightarrow> (case su_state u of Some s \<Rightarrow> as_alert_id s \<noteq> a | None \<Rightarrow> True)"
| "leaves_rollup a (OpDeleteGroups b ks) \<longleftrightarrow> (b = a \<longrightarrow> ROLLUP_GROUP_KEY \<notin> set ks)"
| "leaves_rollup a _ \<longleftrightarrow> True"

lemma apply_outcome_key:
  "su_state (apply_outcome a g p o' l t) = Some s \<Longrightarrow> as_alert_id s = a \<and> as_group_key s = g"
  by (auto simp: apply_outcome_def state_update_noop_def Let_def split: if_splits option.splits)

lemma fold_update_other:
  "\<forall>u \<in> set us. \<forall>s. su_state u = Some s \<longrightarrow> as_alert_id s = b \<Longrightarrow> b \<noteq> a \<Longrightarrow>
   get_row (fold (\<lambda>u db. write_update db u) us db) a g = get_row db a g"
  by (induction us arbitrary: db) (auto simp: get_row_write split: option.splits)

lemma resolve_key: "su_state (resolve_group_update a g p t) = Some s \<Longrightarrow> as_alert_id s = a \<and> as_group_key s = g"
  by (auto simp: resolve_group_update_def state_update_noop_def Let_def split: if_splits)

lemma plan_keys:
  "u \<in> set (gp_updates (plan_group_updates digest b c prev t p)) \<Longrightarrow> su_state u = Some s \<Longrightarrow> as_alert_id s = b"
  "u \<in> set (gp_updates (plan_rule_updates digest b c prev t p)) \<Longrightarrow> su_state u = Some s \<Longrightarrow> as_alert_id s = b"
  by (auto simp: plan_group_updates_def group_update_def rollup_update_def plan_rule_updates_def rule_update_def Let_def
      dest!: apply_outcome_key resolve_key split: if_splits prod.splits)

definition prev_open :: "alert_state option \<Rightarrow> string list" where
  "prev_open prev = (case prev of Some p \<Rightarrow> open_episode p | None \<Rightarrow> [])"

lemma apply_outcome_open:
  assumes "su_state (apply_outcome a g p o' l t) = Some s"
  shows "open_episode s = prev_open p"
proof -
  have "as_episode_id s = Option.bind p as_episode_id"
    using assms by (auto simp: apply_outcome_def state_update_noop_def Let_def split: if_splits option.splits)
  then show ?thesis by (cases p) (simp_all add: open_episode_def prev_open_def)
qed

lemma apply_episode_key:
  "apply_episode s f e t n = (s', c) \<Longrightarrow> as_alert_id s' = as_alert_id s \<and> as_group_key s' = as_group_key s"
  by (auto simp: apply_episode_def Let_def split: if_splits option.splits)

lemma single_update_spec:
  assumes "single_update cfg a i prev = (u, c)"
  shows "(su_state u = None \<longrightarrow> c = None) \<and>
    (\<forall>s'. su_state u = Some s' \<longrightarrow> as_alert_id s' = a \<and> as_group_key s' = ROLLUP_GROUP_KEY \<and>
       subseq ((case c of Some c' \<Rightarrow> [ce_episode_id c'] | None \<Rightarrow> []) @ open_episode s')
         (prev_open prev @ (if ei_delivered (ri_episode i) then [episode_id_of i] else [])))"
proof -
  define so where "so = (if ri_outcome i = OSuppressed then OFiring else ri_outcome i)"
  define base where "base = (if ac_promql_rule_mode cfg
      then apply_rule_rollup_outcome a prev so (ri_level i) (ri_now i) (ri_rule_value i)
      else apply_outcome a ROLLUP_GROUP_KEY prev so (ri_level i) (ri_now i))"
  have base: "su_state base = su_state (apply_outcome a ROLLUP_GROUP_KEY prev so (ri_level i) (ri_now i))"
    by (simp add: base_def apply_rule_rollup_outcome_def Let_def)
  show ?thesis
  proof (cases "su_state base")
    case None
    then show ?thesis using assms by (auto simp: single_update_def Let_def so_def [symmetric] base_def [symmetric])
  next
    case (Some s)
    let ?f = "case as_level s of Some l \<Rightarrow> level_is_firing l | None \<Rightarrow> False"
    obtain s' where ep: "apply_episode s ?f (ri_episode i) (ri_now i) (episode_id_of i) = (s', c)" and u: "su_state u = Some s'"
      using assms Some
      by (auto simp: single_update_def Let_def so_def [symmetric] base_def [symmetric] episode_id_of_def case_prod_beta prod_eq_iff)
    have k: "as_alert_id s = a \<and> as_group_key s = ROLLUP_GROUP_KEY" "open_episode s = prev_open prev"
      using Some base apply_outcome_key apply_outcome_open by metis+
    have "subseq ((case c of Some c' \<Rightarrow> [ce_episode_id c'] | None \<Rightarrow> []) @ open_episode s')
        (prev_open prev @ (if ?f \<and> ei_delivered (ri_episode i) then [episode_id_of i] else []))"
      using apply_episode_ids [OF ep] by (simp add: k)
    also have "subseq \<dots> (prev_open prev @ (if ei_delivered (ri_episode i) then [episode_id_of i] else []))"
      by (rule list_emb_append_mono [OF subseq_order.refl]) auto
    finally show ?thesis using u k apply_episode_key [OF ep] by simp
  qed
qed

lemma run_other:
  assumes "b \<noteq> a"
  shows "get_row (fst (persist_alert_run_state digest cfg b i db)) a g = get_row db a g"
proof -
  have "get_row (fst (run_grouped digest cfg b c i db)) a g = get_row db a g" for c
  proof -
    have "get_row (fold (\<lambda>u db. write_update db u) (gp_updates pl) db) a g = get_row db a g"
      if "pl = plan_group_updates digest b c prev t p \<or> pl = plan_rule_updates digest b c prev t p" for pl prev t p
      using that plan_keys [where b = b] by (intro fold_update_other [OF _ assms]) blast
    then show ?thesis using assms
      by (auto simp: run_grouped_def persist_group_plan_with_def get_row_delete_groups Let_def)
  qed
  moreover have "get_row (fst (run_single cfg b i db)) a g = get_row db a g"
    using assms single_update_spec [of cfg b i "get_with db b ROLLUP_GROUP_KEY"]
    by (auto simp: run_single_def get_row_persist get_row_write Let_def split: option.splits prod.splits)
  ultimately show ?thesis by (simp add: persist_alert_run_state_def split: option.split)
qed

lemma run_single_ids:
  "subseq (map re_episode_id (case rr_recovery (snd (run_single cfg a i db)) of Some e \<Rightarrow> [e] | None \<Rightarrow> []) @
           ep_open (fst (run_single cfg a i db)) a)
     (ep_open db a @ (if ei_delivered (ri_episode i) then [episode_id_of i] else []))"
proof -
  have eo: "ep_open db a = prev_open (get_with db a ROLLUP_GROUP_KEY)"
    by (simp add: ep_open_def prev_open_def get_with_def split: option.split)
  obtain u c where u: "single_update cfg a i (get_with db a ROLLUP_GROUP_KEY) = (u, c)" by fastforce
  note sp = single_update_spec [OF u]
  have up: "open_episode (sr_state (upsert e s)) = open_episode s" for e s
    by (simp add: upsert_def open_episode_def split: option.split)
  have skip: "subseq (ep_open db a) (ep_open db a @ ys)" for ys by (simp add: prefix_imp_subseq)
  show ?thesis
  proof (cases "su_state u")
    case None
    then have "get_row (persist_with db u l) a ROLLUP_GROUP_KEY = get_row db a ROLLUP_GROUP_KEY" for l
      by (simp add: get_row_persist get_row_write)
    then have "ep_open (persist_with db u l) a = ep_open db a" for l by (simp add: ep_open_def)
    then show ?thesis using sp None skip by (auto simp: run_single_def u run_failed_def Let_def)
  next
    case (Some s')
    then have "get_row (persist_with db u l) a ROLLUP_GROUP_KEY = Some (upsert (get_row db a ROLLUP_GROUP_KEY) s')" for l
      using sp by (simp add: get_row_persist get_row_write)
    then have "ep_open (persist_with db u l) a = open_episode s'" for l by (simp add: ep_open_def up)
    then show ?thesis using sp Some skip eo
      by (cases c) (auto simp: run_single_def u run_failed_def is_noop_def recovery_event_def Let_def)
  qed
qed

lemma sweep_groups_rollup:
  assumes "\<forall>s \<in> set ss. as_group_key s \<noteq> ROLLUP_GROUP_KEY" "ROLLUP_GROUP_KEY \<notin> set ks"
  shows "get_row (fst (sweep_groups b cfg now grace ss (db, n, ks))) a ROLLUP_GROUP_KEY = get_row db a ROLLUP_GROUP_KEY \<and>
    ROLLUP_GROUP_KEY \<notin> set (snd (snd (sweep_groups b cfg now grace ss (db, n, ks))))"
  using assms
proof (induction ss arbitrary: db n ks)
  case (Cons s ss)
  have "get_row (persist_with db (resolve_group_update b (as_group_key s) s now) None) a ROLLUP_GROUP_KEY = get_row db a ROLLUP_GROUP_KEY"
    using Cons.prems(1) by (auto simp: get_row_persist get_row_write dest: resolve_key split: option.split)
  moreover note IH = Cons.IH [where db = db] Cons.IH [where db = "persist_with db (resolve_group_update b (as_group_key s) s now) None"]
  moreover have "ROLLUP_GROUP_KEY \<noteq> as_group_key s" using Cons.prems(1) by auto
  ultimately show ?case using Cons.prems
    by (cases "fate_for_alert (ac_promql_rule_mode cfg) s now
        (ac_resolve_after cfg (case as_last_seen s of Some t \<Rightarrow> t | None \<Rightarrow> now)) grace") (simp_all add: Let_def)
qed simp

lemma list_groups_keys:
  assumes "store_ok db" "s \<in> set (list_groups_with db b)"
  shows "as_group_key s \<noteq> ROLLUP_GROUP_KEY"
proof -
  obtain a g r where e: "((a, g), r) \<in> set (db_states db)" "g \<noteq> ROLLUP_GROUP_KEY" "s = sr_state r"
    using assms(2) by (auto simp: list_groups_with_def)
  then have "get_row db a g = Some r" using assms(1) by (simp add: get_row_def store_ok_def map_of_is_SomeI)
  then show ?thesis using e assms(1) by (auto simp: store_ok_def)
qed

lemma sweep_rollup:
  assumes "store_ok db"
  shows "get_row (fst (sweep_alert db b cfg now grace)) a ROLLUP_GROUP_KEY = get_row db a ROLLUP_GROUP_KEY"
proof -
  have ks: "\<forall>s \<in> set (list_groups_with db b). as_group_key s \<noteq> ROLLUP_GROUP_KEY" using list_groups_keys [OF assms] by blast
  have "ROLLUP_GROUP_KEY \<notin> set (opt_out_evictions (map (\<lambda>s. (as_group_key s, s)) (list_groups_with db b)))"
    by (auto simp: opt_out_evictions_def)
  then show ?thesis using sweep_groups_rollup [OF ks, of "[]"]
    by (auto simp: sweep_alert_def get_row_delete_groups Let_def case_prod_beta split: option.splits)
qed

lemma advance_open: "ep_open (fst (advance_delivery_state_with db b g e out)) a = ep_open db a"
proof -
  have "ep_open (db\<lparr>db_states := AList.update (b, g) (r\<lparr>sr_state := s\<rparr>) (db_states db)\<rparr>) a = ep_open db a"
    if "map_of (db_states db) (b, g) = Some r" "open_episode s = open_episode (sr_state r)" for r s
    using that by (auto simp: ep_open_def get_row_def update_conv')
  moreover have "ep_open (write_transition_opt x t) a = ep_open x a" for x t by (simp add: ep_open_def get_row_def)
  moreover have "open_episode (s\<lparr>as_last_notified_level := x, as_silenced_until := y\<rparr>) = open_episode s"
    "open_episode (s\<lparr>as_last_outcome := p, as_last_outcome_at := q, as_since := v\<rparr>) = open_episode s" for s x y p q v
    by (simp_all add: open_episode_def)
  ultimately show ?thesis
    by (simp add: advance_delivery_state_with_def Let_def split: option.split delivery_outcome.split)
qed

lemma step_ids:
  assumes "store_ok db" "leaves_rollup a x"
  shows "subseq (map re_episode_id (step_events digest a x db) @ ep_open (store_step digest x db) a)
    (ep_open db a @ step_delivered a x)"
proof (cases x)
  case (OpRun cfg b i)
  show ?thesis
  proof (cases "b = a")
    case True
    then show ?thesis using OpRun assms(2) run_single_ids [of cfg a i db]
      by (simp add: step_events_def step_delivered_def persist_alert_run_state_def)
  next
    case False
    then show ?thesis using OpRun run_other [OF False] by (simp add: step_events_def step_delivered_def ep_open_def)
  qed
next
  case (OpSweep b cfg now grace)
  then show ?thesis using sweep_rollup [OF assms(1)] by (simp add: step_events_def step_delivered_def ep_open_def)
next
  case (OpDeliver b g e out)
  then show ?thesis by (simp add: step_events_def step_delivered_def advance_open)
next
  case (OpDowntime b d)
  then show ?thesis
    by (auto simp: step_events_def step_delivered_def ep_open_def get_row_downtime open_episode_def alert_state_empty_def split: option.splits)
next
  case (OpReplicate u l)
  then have "get_row (persist_with db u l) a g = get_row db a g" for g
    using assms(2) by (auto simp: get_row_persist get_row_write split: option.splits)
  then show ?thesis using OpReplicate by (simp add: step_events_def step_delivered_def ep_open_def)
next
  case (OpDeleteGroups b ks)
  then show ?thesis using assms(2) by (auto simp: step_events_def step_delivered_def ep_open_def get_row_delete_groups)
qed

lemma recoveries_ids:
  assumes "store_ok db" "\<forall>x \<in> set ops. leaves_rollup a x"
  shows "subseq (map re_episode_id (recoveries digest a ops db) @ ep_open (store_run digest ops db) a)
    (ep_open db a @ concat (map (step_delivered a) ops))"
  using assms
proof (induction ops arbitrary: db)
  case (Cons x xs)
  let ?db = "store_step digest x db" and ?e = "map re_episode_id (step_events digest a x db)"
    and ?r = "concat (map (step_delivered a) xs)"
  have "subseq (?e @ map re_episode_id (recoveries digest a xs ?db) @ ep_open (store_run digest xs ?db) a) (?e @ ep_open ?db a @ ?r)"
    using Cons store_step_ok by (intro list_emb_append_mono [OF subseq_order.refl]) simp
  also have "subseq ((?e @ ep_open ?db a) @ ?r) ((ep_open db a @ step_delivered a x) @ ?r)"
    using step_ids [OF Cons.prems(1)] Cons.prems(2) by (intro list_emb_append_mono [OF _ subseq_order.refl]) simp
  then have "subseq (?e @ ep_open ?db a @ ?r) ((ep_open db a @ step_delivered a x) @ ?r)" by (simp only: append_assoc)
  finally show ?case by (simp add: store_run_def)
qed (simp add: store_run_def)

text \<open>
  C3. End to end, an alert announces at most one recovery per notification delivered. From an empty store, through any
  interleaving of evaluations (whose reads and writes may fail), delivery callbacks, sweeps, downtimes and
  activity of other alerts, the identifiers of the recovery events of an ungrouped alert, followed by that
  of an episode still open in its row, form a subsequence of the identifiers of its delivered evaluations.
\<close>

theorem recoveries_once_per_delivery:
  assumes "\<forall>x \<in> set ops. leaves_rollup a x"
  shows "subseq (map re_episode_id (recoveries digest a ops (empty_store multi)) @
                 ep_open (store_run digest ops (empty_store multi)) a)
    (concat (map (step_delivered a) ops))"
proof -
  have "store_ok (empty_store multi)"
    by (simp add: store_ok_def empty_store_def empty_table_def table_ok_def rows_of_def get_row_def)
  from recoveries_ids [OF this assms] show ?thesis by (simp add: ep_open_def get_row_def empty_store_def)
qed

definition plain_alert :: alert_cfg where
  "plain_alert = \<lparr>ac_org = ''o'', ac_enabled = True, ac_multi_alert_enabled = False, ac_promql_rule_mode = False,
     ac_trigger = tc_example, ac_pending_period_sec = 0, ac_maintains_group_state = False,
     ac_resolve_after = (\<lambda>t. 180000000), ac_stale_deadline = (\<lambda>t. Some (t + 180000000))\<rparr>"

definition run_at :: "int \<Rightarrow> run_outcome \<Rightarrow> alert_level \<Rightarrow> bool \<Rightarrow> string \<Rightarrow> store_op" where
  "run_at t o' l delivered e = OpRun plain_alert ''a''
     \<lparr>ri_outcome = o', ri_level = Some l, ri_grouped = None, ri_rule_value = None,
      ri_episode = \<lparr>ei_delivered = delivered, ei_incident_id = None, ei_keep_firing_for_secs = 0, ei_episode_id = Some e\<rparr>,
      ri_now = t, ri_uuid = [], ri_read_ok = True, ri_write_ok = True\<rparr>"

definition page_and_recover :: "store_op list" where
  "page_and_recover = [run_at 0 OFiring LCritical True ''e1'', run_at 60000000 OFiring LCritical False ''e2'',
     run_at 120000000 ONormal LOk False ''e3'', run_at 180000000 ONormal LOk False ''e4'']"

lemma page_and_recover_events:
  "map re_episode_id (recoveries (\<lambda>x. x) ''a'' page_and_recover (empty_store [])) = [''e1'']"
  by code_simp

theorem recoveries_once_per_delivery_witness:
  "map re_episode_id (recoveries (\<lambda>x. x) ''a'' page_and_recover (empty_store [])) = [''e1''] \<and>
   subseq (map re_episode_id (recoveries (\<lambda>x. x) ''a'' page_and_recover (empty_store [])) @
           ep_open (store_run (\<lambda>x. x) page_and_recover (empty_store [])) ''a'')
     (concat (map (step_delivered ''a'') page_and_recover))"
  by (intro conjI page_and_recover_events recoveries_once_per_delivery) (simp add: page_and_recover_def run_at_def)

section \<open>Rows of a capped alert\<close>

lemma fold_update_untouched:
  "\<forall>u \<in> set us. \<forall>s. su_state u = Some s \<longrightarrow> as_group_key s \<noteq> g \<Longrightarrow>
   get_row (fold (\<lambda>u db. write_update db u) us db) a g = get_row db a g"
  by (induction us arbitrary: db) (auto simp: get_row_write split: option.splits)

lemma plan_group_keys:
  assumes "u \<in> set (gp_updates (plan_group_updates digest a c prev t p))" "su_state u = Some s"
  shows "as_group_key s = ROLLUP_GROUP_KEY \<or> as_group_key s \<in> set (group_keys digest c)"
  using assms
  by (auto simp: plan_group_updates_def group_update_def rollup_update_def group_keys_def Let_def dest!: apply_outcome_key)

lemma tracked_keys:
  assumes "store_ok db" "get_row db a g = Some r" "g \<noteq> ROLLUP_GROUP_KEY"
  shows "g \<in> set (map fst (load_tracked_group_states db a))"
proof -
  have "((a, g), r) \<in> set (db_states db)" using assms(2) by (auto simp: get_row_def dest: map_of_SomeD)
  then have "sr_state r \<in> set (list_groups_with db a)" using assms(3) by (force simp: list_groups_with_def)
  moreover have "as_group_key (sr_state r) = g" using assms by (auto simp: store_ok_def)
  ultimately have "g \<in> set (map fst (map (\<lambda>s. (as_group_key s, s)) (list_groups_with db a)))" by force
  then show ?thesis
    by (cases "get_with db a ROLLUP_GROUP_KEY") (simp_all add: load_tracked_group_states_def Let_def dom_update image_image)
qed

lemma capped_rows:
  assumes ok: "store_ok db" and cap: "gc_cap c = Exceeded n m" and multi: "a \<in> set (db_multi db)"
    and row: "get_row (fst (persist_group_plan_with db
      (plan_group_updates digest a c (load_tracked_group_states db a) t p) a)) a g = Some r" "g \<noteq> ROLLUP_GROUP_KEY"
  shows "g \<in> set (group_keys digest c)"
proof (rule ccontr)
  let ?prev = "load_tracked_group_states db a"
  let ?plan = "plan_group_updates digest a c ?prev t p"
  assume out: "g \<notin> set (group_keys digest c)"
  have "get_row (fold (\<lambda>u db. write_update db u) (gp_updates ?plan) db) a g = get_row db a g"
    using plan_group_keys [of _ digest a c ?prev t p] out row(2) by (intro fold_update_untouched) blast
  then have g: "g \<notin> set (gp_evicted ?plan)" "get_row db a g = Some r"
    using row(1) multi by (auto simp: persist_group_plan_with_def get_row_delete_groups split: if_splits)
  have "g \<in> set (gp_evicted ?plan)"
    using tracked_keys [OF ok g(2) row(2)] out row(2) cap by (auto simp: plan_group_updates_def group_keys_def Let_def)
  then show False using g(1) by simp
qed

text \<open>
  C38. An overflowing alert stores no more rows than its cap. When an evaluation observes more groups than the
  cap and its plan is committed to a consistent store, the alert is left with at most that many group rows,
  whatever rows it had before.
\<close>

theorem overflow_bounds_rows:
  assumes "store_ok db" "a \<in> set (db_multi db)" "0 < cap" "cap < length obs"
    and c_def: "c = with_page (classify_groups_by digest obs f cap) page"
  shows "card {g. g \<noteq> ROLLUP_GROUP_KEY \<and> get_row (fst (persist_group_plan_with db
    (plan_group_updates digest a c (load_tracked_group_states db a) t p) a)) a g \<noteq> None} \<le> cap"
proof -
  have c: "gc_cap c = Exceeded (length obs) cap" "length (gc_groups c) \<le> cap"
    using assms(3,4) by (auto simp: c_def with_page_def classify_groups_by_def Let_def)
  have "{g. g \<noteq> ROLLUP_GROUP_KEY \<and> get_row (fst (persist_group_plan_with db
      (plan_group_updates digest a c (load_tracked_group_states db a) t p) a)) a g \<noteq> None} \<subseteq> set (group_keys digest c)"
    using capped_rows [OF assms(1) c(1) assms(2)] by blast
  then have "card {g. g \<noteq> ROLLUP_GROUP_KEY \<and> get_row (fst (persist_group_plan_with db
      (plan_group_updates digest a c (load_tracked_group_states db a) t p) a)) a g \<noteq> None} \<le> length (group_keys digest c)"
    using card_length [of "group_keys digest c"] by (meson List.finite_set card_mono order_trans)
  then show ?thesis using c(2) by (simp add: group_keys_def)
qed

definition two_hosts :: "group_observation list" where
  "two_hosts = [\<lparr>go_labels = [(''host'', ''a'')], go_actual_value = Fin 1\<rparr>, \<lparr>go_labels = [(''host'', ''b'')], go_actual_value = Fin 2\<rparr>]"

theorem overflow_bounds_rows_witness:
  "card {g. g \<noteq> ROLLUP_GROUP_KEY \<and> get_row (fst (persist_group_plan_with silenced_store
    (plan_group_updates (\<lambda>x. x) ''a'' (with_page (classify_groups_by (\<lambda>x. x) two_hosts (\<lambda>v. Some LCritical) 1) fetch_page_default)
      (load_tracked_group_states silenced_store ''a'') 500 0) ''a'')) ''a'' g \<noteq> None} \<le> 1"
  by (rule overflow_bounds_rows [OF _ _ _ _ refl])
    (simp_all add: silenced_store_def two_hosts_def store_ok_def get_row_def empty_table_def table_ok_def rows_of_def
      firing_row_def alert_state_empty_def)

end
