(* ===== verification/Alert_Composite.thy ===== *)
theory Alert_Composite
  imports Alert_State
begin

text \<open>
  Composite alerts (\<open>src/config/src/meta/alerts/composite.rs\<close>): a boolean expression over the states of
  other alerts. Strings are UTF-8 bytes; the validity of a KSUID, decided by a library, is the parameter
  \<open>ksuid\<close>; the text of a parse error is abstracted to its kind. The recursive descent carries fuel, of
  which \<open>parse_expr\<close> gives six units per token and nine more; \<open>parse_expr_returns\<close> shows that it never runs
  out. The checks on the graph of composites are in \<open>Alert_Nesting\<close>.
\<close>

section \<open>Expressions\<close>

datatype composite_expr = Child string | And composite_expr composite_expr | Or composite_expr composite_expr | Not composite_expr

datatype token = TIdent string | TAnd | TOr | TNot | TLParen | TRParen

datatype parse_error = ExprTooLong | ExpectedPair char | UnclosedBrace | BadOperand | UnexpectedChar | UnclosedParen
  | UnexpectedToken token | UnexpectedEnd | EmptyExpr | TrailingTokens | OutOfFuel

datatype composite_error = UnknownChild string | TooFewChildren nat nat | TooManyChildren nat nat | DuplicateChild string
  | Cycle "string list" | TooDeep nat | ParseErr parse_error | DeadlineOverflow | BadFrequency | BadStaleK
  | BadCron | BadTimezone | OffsetOverflow | BadTimestamp | NoOccurrence

definition MAX_CHILDREN :: nat where "MAX_CHILDREN = 10"
definition MIN_CHILDREN :: nat where "MIN_CHILDREN = 2"
definition MAX_DEPTH :: nat where "MAX_DEPTH = 2"
definition STALE_FREQUENCY_MULTIPLIER :: int where "STALE_FREQUENCY_MULTIPLIER = 3"
definition MAX_EXPRESSION_BYTES :: nat where "MAX_EXPRESSION_BYTES = 4 * 1024"

section \<open>Tokens\<close>

definition operand_ok :: "(string \<Rightarrow> bool) \<Rightarrow> string \<Rightarrow> bool" where
  "operand_ok ksuid raw \<longleftrightarrow> raw \<noteq> [] \<and> CHR ''{'' \<notin> set raw \<and> CHR ''}'' \<notin> set raw \<and> ksuid raw"

function scan :: "(string \<Rightarrow> bool) \<Rightarrow> string \<Rightarrow> (token list, parse_error) result" where
  "scan ksuid s =
     (case s of
        [] \<Rightarrow> Ok []
      | c # cs \<Rightarrow>
          (case strip_one ws_seqs s of
             Some rest \<Rightarrow> scan ksuid rest
           | None \<Rightarrow>
               if c = CHR ''('' then map_sum id ((#) TLParen) (scan ksuid cs)
               else if c = CHR '')'' then map_sum id ((#) TRParen) (scan ksuid cs)
               else if c = CHR ''!'' then map_sum id ((#) TNot) (scan ksuid cs)
               else if c = CHR ''&'' \<or> c = CHR ''|'' then
                 (if cs \<noteq> [] \<and> hd cs = c
                  then map_sum id ((#) (if c = CHR ''&'' then TAnd else TOr)) (scan ksuid (tl cs))
                  else Err (ExpectedPair c))
               else if c = CHR ''{'' then
                 (let raw = takeWhile (\<lambda>x. x \<noteq> CHR ''}'') cs
                  in if CHR ''}'' \<notin> set cs then Err UnclosedBrace
                     else if \<not> operand_ok ksuid raw then Err BadOperand
                     else map_sum id ((#) (TIdent raw)) (scan ksuid (drop (length raw + 1) cs)))
               else Err UnexpectedChar))"
  by pat_completeness auto
termination
  by (relation "measure (\<lambda>(k, s). length s)") (auto dest: strip_one_shorter simp: neq_Nil_conv)

declare scan.simps [simp del]

definition tokenize :: "(string \<Rightarrow> bool) \<Rightarrow> string \<Rightarrow> (token list, parse_error) result" where
  "tokenize ksuid input = (if length input > MAX_EXPRESSION_BYTES then Err ExprTooLong else scan ksuid input)"

section \<open>Parser\<close>

type_synonym parsed = "(composite_expr \<times> token list, parse_error) result"

text \<open>One case per method of the parser; the loops of \<open>parse_or\<close> and \<open>parse_and\<close> carry their left operand.\<close>

datatype parser_step = POr | POrLoop composite_expr | PAnd | PAndLoop composite_expr | PUnary | PAtom

primrec parse :: "nat \<Rightarrow> parser_step \<Rightarrow> token list \<Rightarrow> parsed" where
  "parse 0 m ts = Err OutOfFuel"
| "parse (Suc n) m ts =
     (case m of
        POr \<Rightarrow> (case parse n PAnd ts of Inl e \<Rightarrow> Inl e | Inr (lhs, ts') \<Rightarrow> parse n (POrLoop lhs) ts')
      | POrLoop lhs \<Rightarrow>
          (case ts of
             TOr # ts' \<Rightarrow> (case parse n PAnd ts' of Inl e \<Rightarrow> Inl e | Inr (rhs, ts'') \<Rightarrow> parse n (POrLoop (Or lhs rhs)) ts'')
           | _ \<Rightarrow> Ok (lhs, ts))
      | PAnd \<Rightarrow> (case parse n PUnary ts of Inl e \<Rightarrow> Inl e | Inr (lhs, ts') \<Rightarrow> parse n (PAndLoop lhs) ts')
      | PAndLoop lhs \<Rightarrow>
          (case ts of
             TAnd # ts' \<Rightarrow> (case parse n PUnary ts' of Inl e \<Rightarrow> Inl e | Inr (rhs, ts'') \<Rightarrow> parse n (PAndLoop (And lhs rhs)) ts'')
           | _ \<Rightarrow> Ok (lhs, ts))
      | PUnary \<Rightarrow>
          (case ts of
             TNot # ts' \<Rightarrow> (case parse n PUnary ts' of Inl e \<Rightarrow> Inl e | Inr (e, ts'') \<Rightarrow> Ok (Not e, ts''))
           | _ \<Rightarrow> parse n PAtom ts)
      | PAtom \<Rightarrow>
          (case ts of
             [] \<Rightarrow> Err UnexpectedEnd
           | t # ts' \<Rightarrow>
               (case t of
                  TIdent name \<Rightarrow> Ok (Child name, ts')
                | TLParen \<Rightarrow>
                    (case parse n POr ts' of
                       Inl e \<Rightarrow> Inl e
                     | Inr (inner, ts'') \<Rightarrow> (case ts'' of TRParen # ts3 \<Rightarrow> Ok (inner, ts3) | _ \<Rightarrow> Err UnclosedParen))
                | _ \<Rightarrow> Err (UnexpectedToken t))))"

definition parse_or :: "nat \<Rightarrow> token list \<Rightarrow> parsed" where "parse_or n = parse n POr"
definition parse_and :: "nat \<Rightarrow> token list \<Rightarrow> parsed" where "parse_and n = parse n PAnd"
definition parse_unary :: "nat \<Rightarrow> token list \<Rightarrow> parsed" where "parse_unary n = parse n PUnary"
definition parse_atom :: "nat \<Rightarrow> token list \<Rightarrow> parsed" where "parse_atom n = parse n PAtom"

definition parse_tokens :: "token list \<Rightarrow> (composite_expr, parse_error) result" where
  "parse_tokens tokens =
     (if tokens = [] then Err EmptyExpr
      else case parse_or (6 * length tokens + 9) tokens of
             Inl e \<Rightarrow> Inl e
           | Inr (expr, rest) \<Rightarrow> if rest \<noteq> [] then Err TrailingTokens else Ok expr)"

definition parse_expr :: "(string \<Rightarrow> bool) \<Rightarrow> string \<Rightarrow> (composite_expr, parse_error) result" where
  "parse_expr ksuid input = (case tokenize ksuid input of Inl e \<Rightarrow> Inl e | Inr tokens \<Rightarrow> parse_tokens tokens)"

section \<open>References and the stored form\<close>

fun walk_refs :: "composite_expr \<Rightarrow> string list \<Rightarrow> (string list, composite_error) result" where
  "walk_refs (Child i) out = (if i \<in> set out then Err (DuplicateChild i) else Ok (out @ [i]))"
| "walk_refs (And l r) out = (case walk_refs l out of Inl e \<Rightarrow> Inl e | Inr out' \<Rightarrow> walk_refs r out')"
| "walk_refs (Or l r) out = (case walk_refs l out of Inl e \<Rightarrow> Inl e | Inr out' \<Rightarrow> walk_refs r out')"
| "walk_refs (Not e) out = walk_refs e out"

definition collect_references :: "composite_expr \<Rightarrow> (string list, composite_error) result" where
  "collect_references e = walk_refs e []"

fun canonical_expression :: "composite_expr \<Rightarrow> string" where
  "canonical_expression (Child i) = ''{'' @ i @ ''}''"
| "canonical_expression (And l r) = ''('' @ canonical_expression l @ '' && '' @ canonical_expression r @ '')''"
| "canonical_expression (Or l r) = ''('' @ canonical_expression l @ '' || '' @ canonical_expression r @ '')''"
| "canonical_expression (Not e) = ''(!'' @ canonical_expression e @ '')''"

section \<open>Children\<close>

record child_state =
  cs_level :: "alert_level option"
  cs_level_at :: "int option"
  cs_frequency_secs :: int

definition is_stale :: "child_state \<Rightarrow> int \<Rightarrow> bool" where
  "is_stale c now =
     (case cs_level_at c of
        None \<Rightarrow> True
      | Some t \<Rightarrow> saturating_sub now t > saturating_mul (saturating_mul STALE_FREQUENCY_MULTIPLIER (cs_frequency_secs c)) 1000000)"

datatype stale_child_policy = UseLastState | TreatAsFalse | TreatAsTrue

definition level_truth :: "alert_level option \<Rightarrow> bool \<Rightarrow> bool" where
  "level_truth level warning_counts_as_firing =
     (case level of Some LCritical \<Rightarrow> True | Some LWarning \<Rightarrow> warning_counts_as_firing | _ \<Rightarrow> False)"

definition child_truth ::
  "string \<Rightarrow> (string \<rightharpoonup> child_state) \<Rightarrow> bool \<Rightarrow> stale_child_policy \<Rightarrow> int \<Rightarrow> (bool, composite_error) result" where
  "child_truth name states warning_counts policy now =
     (case states name of
        None \<Rightarrow> Err (UnknownChild name)
      | Some s \<Rightarrow>
          if is_stale s now
          then Ok (case policy of TreatAsFalse \<Rightarrow> False | TreatAsTrue \<Rightarrow> True | UseLastState \<Rightarrow> level_truth (cs_level s) warning_counts)
          else Ok (level_truth (cs_level s) warning_counts))"

fun preflight :: "composite_expr \<Rightarrow> (string \<rightharpoonup> child_state) \<Rightarrow> (unit, composite_error) result" where
  "preflight (Child i) states = (if states i \<noteq> None then Ok () else Err (UnknownChild i))"
| "preflight (And l r) states = (case preflight l states of Inl e \<Rightarrow> Inl e | Inr _ \<Rightarrow> preflight r states)"
| "preflight (Or l r) states = (case preflight l states of Inl e \<Rightarrow> Inl e | Inr _ \<Rightarrow> preflight r states)"
| "preflight (Not e) states = preflight e states"

fun evaluate_preflighted ::
  "composite_expr \<Rightarrow> (string \<rightharpoonup> child_state) \<Rightarrow> bool \<Rightarrow> stale_child_policy \<Rightarrow> int \<Rightarrow> (bool, composite_error) result" where
  "evaluate_preflighted (Child name) states w p now = child_truth name states w p now"
| "evaluate_preflighted (Not e) states w p now =
     (case evaluate_preflighted e states w p now of Inl e' \<Rightarrow> Inl e' | Inr b \<Rightarrow> Ok (\<not> b))"
| "evaluate_preflighted (And l r) states w p now =
     (case evaluate_preflighted l states w p now of
        Inl e \<Rightarrow> Inl e
      | Inr b \<Rightarrow> if b then evaluate_preflighted r states w p now else Ok False)"
| "evaluate_preflighted (Or l r) states w p now =
     (case evaluate_preflighted l states w p now of
        Inl e \<Rightarrow> Inl e
      | Inr b \<Rightarrow> if b then Ok True else evaluate_preflighted r states w p now)"

definition evaluate_expr ::
  "composite_expr \<Rightarrow> (string \<rightharpoonup> child_state) \<Rightarrow> bool \<Rightarrow> stale_child_policy \<Rightarrow> int \<Rightarrow> (bool, composite_error) result" where
  "evaluate_expr e states w p now =
     (case preflight e states of Inl err \<Rightarrow> Inl err | Inr _ \<Rightarrow> evaluate_preflighted e states w p now)"

fun evaluate_truths :: "composite_expr \<Rightarrow> (string \<Rightarrow> bool) \<Rightarrow> bool" where
  "evaluate_truths (Child i) truths = truths i"
| "evaluate_truths (And l r) truths = (evaluate_truths l truths \<and> evaluate_truths r truths)"
| "evaluate_truths (Or l r) truths = (evaluate_truths l truths \<or> evaluate_truths r truths)"
| "evaluate_truths (Not e) truths = (\<not> evaluate_truths e truths)"

definition result_level :: "bool \<Rightarrow> alert_level" where
  "result_level fired = (if fired then LCritical else LOk)"

section \<open>Freshness deadline\<close>

text \<open>
  Parsing a cron expression and a time zone name, the offset of a zone at an instant, the range of instants
  of a calendar date and the next occurrence of a schedule are the library's. A fixed offset is accepted if
  it is less than a day.
\<close>

record ('s, 'z) cron_lib =
  cl_schedule :: "string \<Rightarrow> 's option"
  cl_zone :: "string \<Rightarrow> 'z option"
  cl_offset :: "'z \<Rightarrow> int \<Rightarrow> int"
  cl_instant_ok :: "int \<Rightarrow> bool"
  cl_next :: "'s \<Rightarrow> int \<Rightarrow> int \<Rightarrow> int option"

definition legacy_timezone :: "int \<Rightarrow> (int option, composite_error) result" where
  "legacy_timezone legacy_tz_offset =
     (let secs = legacy_tz_offset * 60
      in if secs < - (2 ^ 31) \<or> secs \<ge> 2 ^ 31 then Err OffsetOverflow
         else Ok (if \<bar>secs\<bar> < 86400 then Some secs else None))"

primrec kth_occurrence ::
  "('s, 'z) cron_lib \<Rightarrow> 's \<Rightarrow> 'z option \<Rightarrow> int option \<Rightarrow> nat \<Rightarrow> int \<Rightarrow> (int, composite_error) result" where
  "kth_occurrence lib sched tz legacy 0 cursor = Ok cursor"
| "kth_occurrence lib sched tz legacy (Suc k) cursor =
     (if \<not> cl_instant_ok lib cursor then Err BadTimestamp
      else case (case tz of Some z \<Rightarrow> Some (cl_offset lib z cursor) | None \<Rightarrow> legacy) of
             None \<Rightarrow> Err BadTimezone
           | Some offset \<Rightarrow>
               (case cl_next lib sched offset cursor of
                  None \<Rightarrow> Err NoOccurrence
                | Some next \<Rightarrow> kth_occurrence lib sched tz legacy k next))"

definition alert_stale_deadline_micros ::
  "('s, 'z) cron_lib \<Rightarrow> int \<Rightarrow> trigger_condition \<Rightarrow> int \<Rightarrow> int \<Rightarrow> (int, composite_error) result" where
  "alert_stale_deadline_micros lib level_at condition legacy_tz_offset stale_k =
     (if stale_k \<le> 0 then Err BadStaleK
      else if tc_frequency_type condition \<noteq> Cron then
        (if tc_frequency condition \<le> 0 then Err BadFrequency
         else case Option.bind (Option.bind (checked_mul (tc_frequency condition) stale_k) (\<lambda>s. checked_mul s 1000000))
                     (\<lambda>window. checked_add level_at window) of
                Some d \<Rightarrow> Ok d
              | None \<Rightarrow> Err DeadlineOverflow)
      else case cl_schedule lib (tc_cron condition) of
             None \<Rightarrow> Err BadCron
           | Some sched \<Rightarrow>
               (let tz = Option.bind (tc_timezone condition) (cl_zone lib)
                in case legacy_timezone legacy_tz_offset of
                     Inl e \<Rightarrow> Inl e
                   | Inr legacy \<Rightarrow>
                       if tz = None \<and> legacy = None then Err BadTimezone
                       else kth_occurrence lib sched tz legacy (nat stale_k) level_at))"

lemma kth_occurrence_later:
  assumes "\<And>s off t t'. cl_next lib s off t = Some t' \<Longrightarrow> t < t'"
  shows "kth_occurrence lib sched tz legacy k cursor = Ok d \<Longrightarrow> cursor + int k \<le> d"
proof (induction k arbitrary: cursor)
  case (Suc k)
  then obtain off nxt where "cl_next lib sched off cursor = Some nxt" "kth_occurrence lib sched tz legacy k nxt = Ok d"
    by (auto split: if_splits option.splits)
  then show ?case using assms [of sched off cursor nxt] Suc.IH [of nxt] by simp
qed simp

text \<open>A deadline is always later than the evaluation it is counted from.\<close>

lemma deadline_later:
  assumes "\<And>s off t t'. cl_next lib s off t = Some t' \<Longrightarrow> t < t'"
    and "alert_stale_deadline_micros lib level_at condition offset k = Ok d"
  shows "level_at < d"
proof (cases "tc_frequency_type condition = Cron")
  case True
  then obtain sched tz legacy where "kth_occurrence lib sched tz legacy (nat k) level_at = Ok d" "0 < k"
    using assms(2) by (auto simp: alert_stale_deadline_micros_def Let_def split: if_splits option.splits sum.splits)
  then show ?thesis using kth_occurrence_later [OF assms(1)] by fastforce
next
  case False
  then have "0 < k" "0 < tc_frequency condition" "d = level_at + tc_frequency condition * k * 1000000"
    using assms(2)
    by (auto simp: alert_stale_deadline_micros_def checked_mul_def checked_add_def checked_i64_def bind_eq_Some_conv split: if_splits option.splits)
  then show ?thesis by simp
qed

section \<open>The parser always returns\<close>

fun fuel_for :: "parser_step \<Rightarrow> nat \<Rightarrow> nat" where
  "fuel_for POr k = 6 * k + 5"
| "fuel_for PAnd k = 6 * k + 4"
| "fuel_for PUnary k = 6 * k + 3"
| "fuel_for PAtom k = 6 * k + 2"
| "fuel_for _ k = 6 * k + 1"

fun consumes :: "parser_step \<Rightarrow> nat" where
  "consumes (POrLoop _) = 0"
| "consumes (PAndLoop _) = 0"
| "consumes _ = 1"

definition returns :: "parser_step \<Rightarrow> token list \<Rightarrow> parsed \<Rightarrow> bool" where
  "returns m ts r = (case r of Inl e \<Rightarrow> e \<noteq> OutOfFuel | Inr (_, rest) \<Rightarrow> length rest + consumes m \<le> length ts)"

lemma returns_simps [simp]:
  "returns m ts (Inl e) \<longleftrightarrow> e \<noteq> OutOfFuel"
  "returns m ts (Inr (x, rest)) \<longleftrightarrow> length rest + consumes m \<le> length ts"
  by (simp_all add: returns_def)

lemma returns_bind:
  assumes "returns m' ts' r" "\<And>x rest. length rest + consumes m' \<le> length ts' \<Longrightarrow> returns m ts (k x rest)"
  shows "returns m ts (case r of Inl e \<Rightarrow> Inl e | Inr (x, rest) \<Rightarrow> k x rest)"
  using assms by (auto simp: returns_def [of m'] split: sum.splits prod.splits)

lemma returns_weaken: "returns m ts' r \<Longrightarrow> length ts' + consumes m' \<le> length ts + consumes m \<Longrightarrow> returns m' ts r"
  by (auto simp: returns_def split: sum.splits prod.splits)

lemma parse_returns: "fuel_for m (length ts) \<le> n \<Longrightarrow> returns m ts (parse n m ts)"
proof (induction n arbitrary: m ts)
  case 0
  then show ?case by (cases m) auto
next
  case (Suc n)
  have call: "returns m' ts' (parse n m' ts')" if "fuel_for m' (length ts') \<le> n" for m' ts' using Suc.IH that .
  show ?case
  proof (cases m)
    case POr
    have "returns POr ts (parse n (POrLoop l) ts')" if "length ts' + 1 \<le> length ts" for l ts'
      using that Suc.prems POr by (intro returns_weaken [OF call]) simp_all
    then show ?thesis using POr Suc.prems by (auto intro!: returns_bind [OF call])
  next
    case (POrLoop l)
    have "returns m ts (parse n (POrLoop e) ts')" if "length ts' < length ts" for e ts'
      using that Suc.prems POrLoop by (intro returns_weaken [OF call]) simp_all
    then show ?thesis using POrLoop Suc.prems
      by (auto intro!: returns_bind [OF call] split: list.split token.split)
  next
    case PAnd
    have "returns PAnd ts (parse n (PAndLoop l) ts')" if "length ts' + 1 \<le> length ts" for l ts'
      using that Suc.prems PAnd by (intro returns_weaken [OF call]) simp_all
    then show ?thesis using PAnd Suc.prems by (auto intro!: returns_bind [OF call])
  next
    case (PAndLoop l)
    have "returns m ts (parse n (PAndLoop e) ts')" if "length ts' < length ts" for e ts'
      using that Suc.prems PAndLoop by (intro returns_weaken [OF call]) simp_all
    then show ?thesis using PAndLoop Suc.prems
      by (auto intro!: returns_bind [OF call] split: list.split token.split)
  next
    case PUnary
    have "returns PUnary ts (parse n PAtom ts)" using Suc.prems PUnary by (intro returns_weaken [OF call]) simp_all
    then show ?thesis using PUnary Suc.prems
      by (auto intro!: returns_bind [OF call] split: list.split token.split)
  next
    case PAtom
    then show ?thesis using Suc.prems
      by (auto intro!: returns_bind [OF call] split: list.split token.split)
  qed
qed

lemma map_sum_Inl [simp]: "map_sum id f r = Inl e \<longleftrightarrow> r = Inl e"
  by (cases r) simp_all

lemma scan_no_fuel_error: "scan ksuid s \<noteq> Inl OutOfFuel"
proof (induction "length s" arbitrary: s rule: less_induct)
  case less
  show ?case
  proof (cases s)
    case (Cons c cs)
    have tail: "scan ksuid (drop k cs) \<noteq> Inl OutOfFuel" for k using less [of "drop k cs"] Cons by simp
    show ?thesis
    proof (cases "strip_one ws_seqs s")
      case None
      then show ?thesis using Cons tail [of 0] tail [of 1] tail [of "length (takeWhile (\<lambda>x. x \<noteq> CHR ''}'') cs) + 1"]
        by (subst scan.simps) (simp add: Let_def drop_Suc)
    next
      case (Some t)
      then show ?thesis using less [OF strip_one_shorter [OF Some]] Cons by (subst scan.simps) simp
    qed
  qed (simp add: scan.simps)
qed

text \<open>
  The parser returns on every input. Whatever the bytes of the expression and whatever the KSUID check
  says, the recursive descent ends with an expression or one of the errors of the grammar, within six calls
  per token.
\<close>

theorem parse_expr_returns: "parse_expr ksuid input \<noteq> Err OutOfFuel"
proof -
  have "parse_tokens ts \<noteq> Inl OutOfFuel" for ts
    using parse_returns [of POr ts "6 * length ts + 9"]
    by (auto simp: parse_tokens_def parse_or_def returns_def split: sum.splits)
  then show ?thesis
    using scan_no_fuel_error by (auto simp: parse_expr_def tokenize_def split: sum.splits if_splits)
qed

section \<open>Reading back the stored form\<close>

fun ctoks :: "composite_expr \<Rightarrow> token list" where
  "ctoks (Child i) = [TIdent i]"
| "ctoks (And l r) = TLParen # ctoks l @ TAnd # ctoks r @ [TRParen]"
| "ctoks (Or l r) = TLParen # ctoks l @ TOr # ctoks r @ [TRParen]"
| "ctoks (Not e) = TLParen # TNot # ctoks e @ [TRParen]"

fun operands :: "composite_expr \<Rightarrow> string set" where
  "operands (Child i) = {i}"
| "operands (And l r) = operands l \<union> operands r"
| "operands (Or l r) = operands l \<union> operands r"
| "operands (Not e) = operands e"

lemma scan_symbols [simp]:
  "scan k (CHR '' '' # s) = scan k s"
  "scan k (CHR ''('' # s) = map_sum id ((#) TLParen) (scan k s)"
  "scan k (CHR '')'' # s) = map_sum id ((#) TRParen) (scan k s)"
  "scan k (CHR ''!'' # s) = map_sum id ((#) TNot) (scan k s)"
  "scan k (CHR ''&'' # CHR ''&'' # s) = map_sum id ((#) TAnd) (scan k s)"
  "scan k (CHR ''|'' # CHR ''|'' # s) = map_sum id ((#) TOr) (scan k s)"
  by (subst scan.simps, simp add: strip_one_def ws_seqs_def)+

lemma scan_operand:
  assumes "operand_ok k i"
  shows "scan k (CHR ''{'' # i @ CHR ''}'' # s) = map_sum id ((#) (TIdent i)) (scan k s)"
proof -
  have "takeWhile (\<lambda>x. x \<noteq> CHR ''}'') (i @ CHR ''}'' # s) = i"
    using assms by (auto simp: operand_ok_def takeWhile_append)
  then show ?thesis using assms
    by (subst scan.simps) (simp add: strip_one_def ws_seqs_def)
qed

definition prepend :: "token list \<Rightarrow> (token list, parse_error) result \<Rightarrow> (token list, parse_error) result" where
  "prepend ts r = map_sum id (\<lambda>x. ts @ x) r"

lemma prepend_simps: "map_sum id ((#) t) r = prepend [t] r" "prepend ts (prepend ts' r) = prepend (ts @ ts') r"
  by (cases r; simp add: prepend_def)+

lemma scan_canonical:
  "\<forall>i \<in> operands e. operand_ok k i \<Longrightarrow> scan k (canonical_expression e @ s) = prepend (ctoks e) (scan k s)"
proof (induction e arbitrary: s)
  case (Child i)
  then show ?case using scan_operand [of k i s] by (simp add: prepend_simps)
qed (simp_all add: prepend_simps)

lemma parse_unary_ctoks: "parse (Suc n) PUnary (ctoks e @ rest) = parse n PAtom (ctoks e @ rest)"
  by (cases e) simp_all

lemma parse_or_single:
  assumes "parse n PUnary ts = Ok (e, rest)" "rest = [] \<or> hd rest = TRParen"
  shows "0 < n \<Longrightarrow> parse (Suc (Suc n)) POr ts = Ok (e, rest)"
  using assms by (cases n; cases rest) simp_all

lemma parse_ctoks: "6 * length (ctoks e) + 2 \<le> n \<Longrightarrow> parse n PAtom (ctoks e @ rest) = Ok (e, rest)"
proof (induction e arbitrary: n rest)
  case (Child i)
  then obtain n' where "n = Suc n'" by (cases n) auto
  then show ?case by simp
next
  case (And l r)
  define m where "m = n - 6"
  have n: "n = Suc (Suc (Suc (Suc (Suc (Suc m)))))" and m: "6 * length (ctoks l) + 2 \<le> Suc (Suc m)" "6 * length (ctoks r) + 2 \<le> Suc m"
    using And.prems by (simp_all add: m_def)
  show ?case using And.IH(1) [OF m(1)] And.IH(2) [OF m(2)] parse_unary_ctoks by (simp add: n)
next
  case (Or l r)
  define m where "m = n - 6"
  have n: "n = Suc (Suc (Suc (Suc (Suc (Suc m)))))" and m: "6 * length (ctoks l) + 2 \<le> Suc (Suc m)" "6 * length (ctoks r) + 2 \<le> Suc m"
    using Or.prems by (simp_all add: m_def)
  show ?case using Or.IH(1) [OF m(1)] Or.IH(2) [OF m(2)] parse_unary_ctoks by (simp add: n)
next
  case (Not e)
  define m where "m = n - 6"
  have n: "n = Suc (Suc (Suc (Suc (Suc (Suc m)))))" and m: "6 * length (ctoks e) + 2 \<le> Suc m"
    using Not.prems by (simp_all add: m_def)
  show ?case using Not.IH [OF m] parse_unary_ctoks by (simp add: n)
qed

lemma parse_tokens_ctoks: "parse_tokens (ctoks e) = Ok e"
proof -
  have "ctoks e \<noteq> []" by (cases e) simp_all
  moreover have "parse (Suc (6 * length (ctoks e) + 6)) PUnary (ctoks e @ []) = Ok (e, [])"
    unfolding parse_unary_ctoks by (rule parse_ctoks) simp
  then have "parse (Suc (Suc (6 * length (ctoks e) + 7))) POr (ctoks e) = Ok (e, [])"
    by (intro parse_or_single) (simp_all add: add.commute)
  ultimately show ?thesis by (simp add: parse_tokens_def parse_or_def numeral_eq_Suc)
qed

lemma parse_operands: "parse n m ts = Ok (e, rest) \<Longrightarrow> \<forall>i. TIdent i \<in> set ts \<longrightarrow> ok i \<Longrightarrow>
    (\<forall>l. m = POrLoop l \<or> m = PAndLoop l \<longrightarrow> (\<forall>i \<in> operands l. ok i)) \<Longrightarrow>
    (\<forall>i \<in> operands e. ok i) \<and> set rest \<subseteq> set ts"
proof (induction n arbitrary: m ts e rest)
  case (Suc n)
  note IH = Suc.IH
  show ?case
  proof (cases m)
    case POr
    then obtain l ts' where 1: "parse n PAnd ts = Ok (l, ts')" and 2: "parse n (POrLoop l) ts' = Ok (e, rest)"
      using Suc.prems(1) by (auto split: sum.splits)
    have "(\<forall>i \<in> operands l. ok i) \<and> set ts' \<subseteq> set ts" using IH [OF 1] Suc.prems(2) by simp
    then show ?thesis using IH [OF 2] Suc.prems(2) by blast
  next
    case (POrLoop l)
    then consider "e = l" "rest = ts" | r ts' ts'' where "ts = TOr # ts'" "parse n PAnd ts' = Ok (r, ts'')" "parse n (POrLoop (Or l r)) ts'' = Ok (e, rest)"
      using Suc.prems(1) by (auto split: list.splits token.splits sum.splits)
    then show ?thesis
    proof cases
      case 2
      have r: "\<forall>i \<in> operands r. ok i" "set ts'' \<subseteq> set ts'" using IH [OF 2(2)] Suc.prems(2) 2(1) by simp_all
      then have "\<forall>i \<in> operands (Or l r). ok i" using Suc.prems(3) POrLoop by auto
      moreover have "\<forall>i. TIdent i \<in> set ts'' \<longrightarrow> ok i" using r(2) Suc.prems(2) 2(1) by auto
      ultimately have "(\<forall>i \<in> operands e. ok i) \<and> set rest \<subseteq> set ts''" using IH [OF 2(3)] by simp
      then show ?thesis using r(2) 2(1) by auto
    qed (use Suc.prems(3) POrLoop in auto)
  next
    case PAnd
    then obtain l ts' where 1: "parse n PUnary ts = Ok (l, ts')" and 2: "parse n (PAndLoop l) ts' = Ok (e, rest)"
      using Suc.prems(1) by (auto split: sum.splits)
    have "(\<forall>i \<in> operands l. ok i) \<and> set ts' \<subseteq> set ts" using IH [OF 1] Suc.prems(2) by simp
    then show ?thesis using IH [OF 2] Suc.prems(2) by blast
  next
    case (PAndLoop l)
    then consider "e = l" "rest = ts" | r ts' ts'' where "ts = TAnd # ts'" "parse n PUnary ts' = Ok (r, ts'')" "parse n (PAndLoop (And l r)) ts'' = Ok (e, rest)"
      using Suc.prems(1) by (auto split: list.splits token.splits sum.splits)
    then show ?thesis
    proof cases
      case 2
      have r: "\<forall>i \<in> operands r. ok i" "set ts'' \<subseteq> set ts'" using IH [OF 2(2)] Suc.prems(2) 2(1) by simp_all
      then have "\<forall>i \<in> operands (And l r). ok i" using Suc.prems(3) PAndLoop by auto
      moreover have "\<forall>i. TIdent i \<in> set ts'' \<longrightarrow> ok i" using r(2) Suc.prems(2) 2(1) by auto
      ultimately have "(\<forall>i \<in> operands e. ok i) \<and> set rest \<subseteq> set ts''" using IH [OF 2(3)] by simp
      then show ?thesis using r(2) 2(1) by auto
    qed (use Suc.prems(3) PAndLoop in auto)
  next
    case PUnary
    then consider "parse n PAtom ts = Ok (e, rest)" | ts' e' where "ts = TNot # ts'" "parse n PUnary ts' = Ok (e', rest)" "e = Not e'"
      using Suc.prems(1) by (auto split: list.splits token.splits sum.splits)
    then show ?thesis
    proof cases
      case 1
      then show ?thesis using IH [OF 1] Suc.prems(2) by simp
    next
      case 2
      then show ?thesis using IH [OF 2(2)] Suc.prems(2) by auto
    qed
  next
    case PAtom
    then consider i where "ts = TIdent i # rest" "e = Child i" | ts' where "ts = TLParen # ts'" "parse n POr ts' = Ok (e, TRParen # rest)"
      using Suc.prems(1) by (auto split: list.splits token.splits sum.splits)
    then show ?thesis
    proof cases
      case 2
      then show ?thesis using IH [OF 2(2)] Suc.prems(2) by auto
    qed (use Suc.prems(2) in auto)
  qed
qed simp

lemma map_sum_Inr_cons: "map_sum id ((#) t) r = Inr ts \<longleftrightarrow> (\<exists>ts'. r = Inr ts' \<and> ts = t # ts')"
  by (cases r) auto

lemma scan_operands: "scan k s = Inr ts \<Longrightarrow> TIdent i \<in> set ts \<Longrightarrow> operand_ok k i"
proof (induction "length s" arbitrary: s ts rule: less_induct)
  case less
  show ?case
  proof (cases s)
    case Nil
    then show ?thesis using less.prems by (simp add: scan.simps)
  next
    case (Cons c cs)
    have tail: "scan k (drop j cs) = Inr ts' \<Longrightarrow> TIdent i \<in> set ts' \<Longrightarrow> operand_ok k i" for j ts'
      using less.hyps [of "drop j cs" ts'] Cons by simp
    show ?thesis
    proof (cases "strip_one ws_seqs s")
      case None
      then show ?thesis
        using less.prems Cons tail [of 0] tail [of 1] tail [of "length (takeWhile (\<lambda>x. x \<noteq> CHR ''}'') cs) + 1"]
        by (subst (asm) scan.simps) (auto simp: Let_def drop_Suc map_sum_Inr_cons split: if_splits)
    next
      case (Some t)
      then show ?thesis using less.hyps [OF strip_one_shorter [OF Some], of ts] less.prems Cons
        by (subst (asm) scan.simps) simp
    qed
  qed
qed

lemma parsed_operands:
  assumes "parse_expr k x = Ok e"
  shows "\<forall>i \<in> operands e. operand_ok k i"
proof -
  obtain ts where ts: "scan k x = Inr ts" and e: "parse_tokens ts = Ok e"
    using assms by (auto simp: parse_expr_def tokenize_def split: sum.splits if_splits)
  obtain rest where "parse (6 * length ts + 9) POr ts = Ok (e, rest)"
    using e by (auto simp: parse_tokens_def parse_or_def split: sum.splits if_splits)
  then show ?thesis using parse_operands [of "6 * length ts + 9" POr ts e rest "operand_ok k"] scan_operands [OF ts] by auto
qed

lemma canonical_reads_back:
  assumes "\<forall>i \<in> operands e. operand_ok k i" "length (canonical_expression e) \<le> MAX_EXPRESSION_BYTES"
  shows "parse_expr k (canonical_expression e) = Ok e"
proof -
  have "scan k (canonical_expression e @ []) = Inr (ctoks e)"
    unfolding scan_canonical [OF assms(1)] by (simp add: prepend_def scan.simps)
  then show ?thesis using assms(2) by (simp add: parse_expr_def tokenize_def parse_tokens_ctoks)
qed

text \<open>
  C32. What is stored means what was written. If an expression is accepted and its canonical form, the only
  one stored, is within the size the parser accepts, then reading the canonical form back gives the same
  expression: no precedence or grouping is lost.
\<close>

theorem stored_expression_reads_back:
  assumes "parse_expr k x = Ok e" "length (canonical_expression e) \<le> MAX_EXPRESSION_BYTES"
  shows "parse_expr k (canonical_expression e) = Ok e"
  by (rule canonical_reads_back [OF parsed_operands [OF assms(1)] assms(2)])

lemma example_parses:
  "parse_expr (\<lambda>_. True) ''{a}||{b}&&!{c}'' = Ok (Or (Child ''a'') (And (Child ''b'') (Not (Child ''c''))))"
  by code_simp

theorem stored_expression_reads_back_witness:
  "parse_expr (\<lambda>_. True) ''({a} || ({b} && (!{c})))'' = Ok (Or (Child ''a'') (And (Child ''b'') (Not (Child ''c''))))"
  using stored_expression_reads_back [OF example_parses] by (simp add: MAX_EXPRESSION_BYTES_def)

text \<open>
  The canonical form may be up to three times as long as what was written, and nothing checks it: an
  accepted expression of two children may be stored in a form that the parser refuses.
\<close>

lemma parse_nots: "m + 2 \<le> n \<Longrightarrow> parse n PUnary (replicate m TNot @ TIdent b # rest) = Ok ((Not ^^ m) (Child b), rest)"
proof (induction m arbitrary: n)
  case 0
  then obtain n' where "n = Suc (Suc n')" by (metis add_0 add_2_eq_Suc le_Suc_ex)
  then show ?case by simp
next
  case (Suc m)
  then obtain n' where "n = Suc n'" by (cases n) auto
  then show ?case using Suc by simp
qed

lemma canonical_nots: "length (canonical_expression ((Not ^^ m) e)) = 3 * m + length (canonical_expression e)"
  by (induction m) simp_all

lemma scan_nots: "scan k (replicate m CHR ''!'' @ s) = prepend (replicate m TNot) (scan k s)"
proof (induction m)
  case 0
  then show ?case by (cases "scan k s") (simp_all add: prepend_def)
qed (simp_all add: prepend_simps)

definition many_nots :: "nat \<Rightarrow> string" where
  "many_nots m = ''{a}&&'' @ replicate m CHR ''!'' @ ''{b}''"

lemma parse_many_nots:
  assumes "length (many_nots m) \<le> MAX_EXPRESSION_BYTES"
  shows "parse_expr (\<lambda>_. True) (many_nots m) = Ok (And (Child ''a'') ((Not ^^ m) (Child ''b'')))"
proof -
  let ?k = "\<lambda>_::string. True"
  let ?ts = "TIdent ''a'' # TAnd # replicate m TNot @ [TIdent ''b'']"
  have ok: "operand_ok ?k ''a''" "operand_ok ?k ''b''" by (simp_all add: operand_ok_def)
  have "scan ?k (many_nots m) = Inr ?ts"
    using scan_operand [OF ok(1), of "''&&'' @ replicate m CHR ''!'' @ ''{b}''"] scan_operand [OF ok(2), of "[]"]
    unfolding many_nots_def by (simp add: scan_nots scan.simps [of ?k "[]"] prepend_def)
  moreover have "parse_tokens ?ts = Ok (And (Child ''a'') ((Not ^^ m) (Child ''b'')))"
    using parse_nots [of m "6 * m + 24" "''b''" "[]"]
    by (simp add: parse_tokens_def parse_or_def eval_nat_numeral)
  ultimately show ?thesis using assms by (simp add: parse_expr_def tokenize_def)
qed

theorem accepted_expression_may_not_read_back:
  "\<exists>x e. parse_expr (\<lambda>_. True) x = Ok e \<and> collect_references e = Ok [''a'', ''b''] \<and>
     parse_expr (\<lambda>_. True) (canonical_expression e) = Err ExprTooLong"
proof (intro exI conjI)
  define m :: nat where "m = 1500"
  let ?e = "And (Child ''a'') ((Not ^^ m) (Child ''b''))"
  show "parse_expr (\<lambda>_. True) (many_nots m) = Ok ?e"
    by (rule parse_many_nots) (simp add: many_nots_def m_def MAX_EXPRESSION_BYTES_def)
  have "walk_refs ((Not ^^ m) (Child ''b'')) [''a''] = Ok [''a'', ''b'']" by (induction m) simp_all
  then show "collect_references ?e = Ok [''a'', ''b'']" by (simp add: collect_references_def)
  have "length (canonical_expression ?e) > MAX_EXPRESSION_BYTES"
    by (simp add: canonical_nots m_def MAX_EXPRESSION_BYTES_def)
  then show "parse_expr (\<lambda>_. True) (canonical_expression ?e) = Err ExprTooLong"
    unfolding parse_expr_def tokenize_def by simp
qed

section \<open>Evaluation\<close>

fun first_unknown :: "composite_expr \<Rightarrow> (string \<rightharpoonup> child_state) \<Rightarrow> string option" where
  "first_unknown (Child i) states = (if states i = None then Some i else None)"
| "first_unknown (And l r) states = (case first_unknown l states of None \<Rightarrow> first_unknown r states | Some i \<Rightarrow> Some i)"
| "first_unknown (Or l r) states = (case first_unknown l states of None \<Rightarrow> first_unknown r states | Some i \<Rightarrow> Some i)"
| "first_unknown (Not e) states = first_unknown e states"

lemma preflight_first_unknown:
  "preflight e states = (case first_unknown e states of Some i \<Rightarrow> Err (UnknownChild i) | None \<Rightarrow> Ok ())"
  by (induction e) (simp_all split: option.split)

lemma first_unknown_None: "first_unknown e states = None \<longleftrightarrow> operands e \<subseteq> dom states"
  by (induction e) (auto split: option.splits)

lemma evaluate_known:
  assumes "operands e \<subseteq> dom states" "\<And>i. i \<in> operands e \<Longrightarrow> child_truth i states w p now = Ok (truths i)"
  shows "evaluate_preflighted e states w p now = Ok (evaluate_truths e truths)"
  using assms by (induction e) simp_all

definition truth_of :: "(string \<rightharpoonup> child_state) \<Rightarrow> bool \<Rightarrow> stale_child_policy \<Rightarrow> int \<Rightarrow> string \<Rightarrow> bool" where
  "truth_of states w p now i =
     (case states i of
        None \<Rightarrow> False
      | Some s \<Rightarrow>
          (if is_stale s now \<and> p \<noteq> UseLastState then p = TreatAsTrue
           else cs_level s = Some LCritical \<or> (w \<and> cs_level s = Some LWarning)))"

lemma child_truth_known: "states i \<noteq> None \<Longrightarrow> child_truth i states w p now = Ok (truth_of states w p now i)"
  by (auto simp: child_truth_def truth_of_def level_truth_def split: option.splits stale_child_policy.split alert_level.splits)

lemma evaluate_expr_formula:
  "evaluate_expr e states w p now =
     (case first_unknown e states of
        Some i \<Rightarrow> Err (UnknownChild i)
      | None \<Rightarrow> Ok (evaluate_truths e (truth_of states w p now)))"
proof (cases "first_unknown e states")
  case None
  have "states i \<noteq> None" if "i \<in> operands e" for i using that None first_unknown_None by blast
  then have "evaluate_preflighted e states w p now = Ok (evaluate_truths e (truth_of states w p now))"
    using None by (intro evaluate_known) (auto simp: first_unknown_None child_truth_known)
  then show ?thesis using None by (simp add: evaluate_expr_def preflight_first_unknown)
qed (simp add: evaluate_expr_def preflight_first_unknown)

text \<open>
  A composite is evaluated as its formula. If a child is missing, the first missing one in reading
  order is reported, even where the value of the formula does not depend on it; otherwise the short-circuit
  evaluation returns the truth value of the formula, where a child is true when it is critical, or warning
  when warnings count, and a child whose state is stale is what the policy says.
\<close>

theorem composite_evaluates_formula:
  "evaluate_expr e states w p now =
     (case first_unknown e states of
        Some i \<Rightarrow> Err (UnknownChild i)
      | None \<Rightarrow> Ok (evaluate_truths e (truth_of states w p now)))"
  by (rule evaluate_expr_formula)

end
