(* ===== verification/Alert_Nesting.thy ===== *)
theory Alert_Nesting
  imports Alert_Composite
begin

text \<open>
  The guards on the children of a composite (\<open>src/config/src/meta/alerts/composite.rs\<close>): the number and
  the identity of the children, and the search for cycles and for nesting deeper than \<open>MAX_DEPTH\<close>. The
  hash map of composites is an association list whose order is arbitrary. The two recursive searches carry
  fuel, one more unit than there are composites, which is shown never to run out.
\<close>

section \<open>Guards\<close>

fun first_duplicate :: "string list \<Rightarrow> string list \<Rightarrow> string option" where
  "first_duplicate seen [] = None"
| "first_duplicate seen (c # cs) = (if c \<in> set seen then Some c else first_duplicate (c # seen) cs)"

definition validate_children :: "string list \<Rightarrow> (unit, composite_error) result" where
  "validate_children children =
     (if length children < MIN_CHILDREN then Err (TooFewChildren (length children) MIN_CHILDREN)
      else if length children > MAX_CHILDREN then Err (TooManyChildren (length children) MAX_CHILDREN)
      else case first_duplicate [] children of Some c \<Rightarrow> Err (DuplicateChild c) | None \<Rightarrow> Ok ())"

type_synonym graph = "(string \<times> string list) list"

definition cycle_path :: "string \<Rightarrow> string list \<Rightarrow> string list" where
  "cycle_path i visiting =
     (let c = dropWhile (\<lambda>x. x \<noteq> i) visiting in if length c > 1 then c @ [i] else c)"

fun visit :: "graph \<Rightarrow> nat \<Rightarrow> string \<Rightarrow> string list \<Rightarrow> string set \<Rightarrow> (string set, composite_error) result option"
and visit_all :: "graph \<Rightarrow> nat \<Rightarrow> string list \<Rightarrow> string list \<Rightarrow> string set \<Rightarrow> (string set, composite_error) result option" where
  "visit g 0 i visiting finished = None"
| "visit g (Suc n) i visiting finished =
     (if i \<in> finished \<or> map_of g i = None then Some (Ok finished)
      else if i \<in> set visiting then Some (Err (Cycle (cycle_path i visiting)))
      else case visit_all g n (the (map_of g i)) (visiting @ [i]) finished of
             Some (Inr finished') \<Rightarrow> Some (Ok (insert i finished'))
           | r \<Rightarrow> r)"
| "visit_all g n [] visiting finished = Some (Ok finished)"
| "visit_all g n (c # cs) visiting finished =
     (case visit g n c visiting finished of
        Some (Inr finished') \<Rightarrow> visit_all g n cs visiting finished'
      | r \<Rightarrow> r)"

fun candidate_depth :: "graph \<Rightarrow> nat \<Rightarrow> string \<Rightarrow> (string \<rightharpoonup> nat) \<Rightarrow> (nat \<times> (string \<rightharpoonup> nat)) option"
and max_depth :: "graph \<Rightarrow> nat \<Rightarrow> string list \<Rightarrow> (string \<rightharpoonup> nat) \<Rightarrow> (nat \<times> (string \<rightharpoonup> nat)) option" where
  "candidate_depth g 0 i memo = None"
| "candidate_depth g (Suc n) i memo =
     (case memo i of
        Some d \<Rightarrow> Some (d, memo)
      | None \<Rightarrow>
          (case map_of g i of
             None \<Rightarrow> Some (0, memo(i \<mapsto> 0))
           | Some children \<Rightarrow>
               (case max_depth g n children memo of
                  None \<Rightarrow> None
                | Some (m, memo') \<Rightarrow> Some (1 + m, memo'(i \<mapsto> 1 + m)))))"
| "max_depth g n [] memo = Some (0, memo)"
| "max_depth g n (c # cs) memo =
     (case candidate_depth g n c memo of
        None \<Rightarrow> None
      | Some (d, memo') \<Rightarrow>
          (case max_depth g n cs memo' of None \<Rightarrow> None | Some (m, memo'') \<Rightarrow> Some (max d m, memo'')))"

fun any_too_deep :: "graph \<Rightarrow> nat \<Rightarrow> string list \<Rightarrow> (string \<rightharpoonup> nat) \<Rightarrow> bool option" where
  "any_too_deep g n [] memo = Some False"
| "any_too_deep g n (i # is) memo =
     (case candidate_depth g n i memo of
        None \<Rightarrow> None
      | Some (d, memo') \<Rightarrow> if d > MAX_DEPTH then Some True else any_too_deep g n is memo')"

fun visit_keys :: "graph \<Rightarrow> nat \<Rightarrow> string list \<Rightarrow> string set \<Rightarrow> (string set, composite_error) result option" where
  "visit_keys g n [] finished = Some (Ok finished)"
| "visit_keys g n (i # is) finished =
     (case visit g n i [] finished of
        Some (Inr finished') \<Rightarrow> visit_keys g n is finished'
      | r \<Rightarrow> r)"

definition candidate_graph :: "string \<Rightarrow> string list \<Rightarrow> graph \<Rightarrow> graph" where
  "candidate_graph composite_id children existing =
     (composite_id, children) # filter (\<lambda>e. fst e \<noteq> composite_id) existing"

definition validate_no_cycle :: "string \<Rightarrow> string list \<Rightarrow> graph \<Rightarrow> (unit, composite_error) result option" where
  "validate_no_cycle composite_id children existing =
     (let candidate = candidate_graph composite_id children existing;
          keys = map fst candidate;
          fuel = length keys + 1
      in case visit_keys candidate fuel keys {} of
           None \<Rightarrow> None
         | Some (Inl e) \<Rightarrow> Some (Err e)
         | Some (Inr _) \<Rightarrow>
             (case any_too_deep candidate fuel keys Map.empty of
                None \<Rightarrow> None
              | Some True \<Rightarrow> Some (Err (TooDeep MAX_DEPTH))
              | Some False \<Rightarrow> Some (Ok ())))"

section \<open>Nesting\<close>

definition child_of :: "graph \<Rightarrow> string \<Rightarrow> string \<Rightarrow> bool" where
  "child_of g i c \<longleftrightarrow> (\<exists>cs. map_of g i = Some cs \<and> c \<in> set cs)"

primrec has_chain :: "graph \<Rightarrow> nat \<Rightarrow> string \<Rightarrow> bool" where
  "has_chain g 0 i = True"
| "has_chain g (Suc k) i = (map_of g i \<noteq> None \<and> (k = 0 \<or> (\<exists>c. child_of g i c \<and> has_chain g k c)))"

inductive tame :: "graph \<Rightarrow> string \<Rightarrow> bool" for g where
  tameI: "(\<And>c. child_of g i c \<Longrightarrow> tame g c) \<Longrightarrow> tame g i"

lemma tame_leaf: "map_of g i = None \<Longrightarrow> tame g i"
  by (rule tameI) (simp add: child_of_def)

lemma tame_acyclic: "tame g i \<Longrightarrow> \<not> (child_of g)\<^sup>+\<^sup>+ i i"
proof (induction rule: tame.induct)
  case (tameI i)
  then show ?case by (metis tranclpD rtranclp_into_tranclp1)
qed

lemma path_tranclp: "successively R (x # ys @ [z]) \<Longrightarrow> R\<^sup>+\<^sup>+ x z"
proof (induction ys arbitrary: x)
  case (Cons y ys)
  then have "R x y" "R\<^sup>+\<^sup>+ y z" by simp_all
  then show ?case by (rule tranclp_into_tranclp2)
qed auto

lemma cycle_step: "R\<^sup>+\<^sup>+ x x \<Longrightarrow> \<exists>z. R x z \<and> R\<^sup>+\<^sup>+ z z"
  by (drule tranclpD) (auto intro: rtranclp_into_tranclp1)

lemma cycle_has_chain: "(child_of g)\<^sup>+\<^sup>+ x x \<Longrightarrow> has_chain g k x"
proof (induction k arbitrary: x)
  case (Suc k)
  then obtain z where "child_of g x z" "has_chain g k z" by (metis cycle_step)
  then show ?case by (auto simp: child_of_def)
qed simp

lemma has_chain_path:
  "has_chain g (Suc k) i \<Longrightarrow> \<exists>p. length p = Suc k \<and> hd p = i \<and> set p \<subseteq> dom (map_of g) \<and> successively (child_of g) p"
proof (induction k arbitrary: i)
  case 0
  then show ?case by (intro exI [of _ "[i]"]) auto
next
  case (Suc k)
  then obtain c where c: "child_of g i c" "has_chain g (Suc k) c" and i: "i \<in> dom (map_of g)" by auto
  obtain p where "length p = Suc k" "hd p = c" "set p \<subseteq> dom (map_of g)" "successively (child_of g) p"
    using Suc.IH [OF c(2)] by blast
  then show ?case using c(1) i by (intro exI [of _ "i # p"]) (cases p; auto)
qed

lemma long_chain_cycles:
  assumes "has_chain g (Suc k) i" "card (dom (map_of g)) \<le> k"
  shows "\<exists>x. (child_of g)\<^sup>+\<^sup>+ x x"
proof -
  obtain p where p: "length p = Suc k" "set p \<subseteq> dom (map_of g)" "successively (child_of g) p"
    using has_chain_path [OF assms(1)] by blast
  have "\<not> distinct p"
    using card_mono [OF finite_dom_map_of p(2)] p(1) assms(2) distinct_card [of p] by auto
  then obtain xs ys zs y where "p = xs @ [y] @ ys @ [y] @ zs" using not_distinct_decomp by blast
  then have "p = xs @ (y # ys @ [y]) @ zs" by simp
  then have "successively (child_of g) (y # ys @ [y])" using p(3) by (simp only: successively_append_iff)
  then show ?thesis using path_tranclp [of "child_of g"] by blast
qed

subsection \<open>The search for cycles\<close>

lemma path_length:
  "distinct v \<Longrightarrow> set v \<subseteq> dom (map_of g) \<Longrightarrow> length v \<le> card (dom (map_of g))"
  by (metis card_mono distinct_card finite_dom_map_of)

lemma visit_returns:
  "distinct v \<Longrightarrow> set v \<subseteq> dom (map_of g) \<Longrightarrow> card (dom (map_of g)) < length v + n \<Longrightarrow> visit g n i v fin \<noteq> None"
  "distinct v \<Longrightarrow> set v \<subseteq> dom (map_of g) \<Longrightarrow> card (dom (map_of g)) < length v + n \<Longrightarrow> visit_all g n cs v fin \<noteq> None"
proof (induction g n i v fin and g n cs v fin rule: visit_visit_all.induct)
  case (1 g i v fin)
  then show ?case using path_length [of v g] by simp
next
  case (2 g n i v fin)
  show ?case
  proof (cases "i \<in> fin \<or> map_of g i = None \<or> i \<in> set v")
    case False
    then have "visit_all g n (the (map_of g i)) (v @ [i]) fin \<noteq> None" using 2 by (intro 2(1)) auto
    then show ?thesis using False by (simp split: option.split sum.split)
  qed auto
qed (auto split: option.splits sum.splits)

lemma visit_tame:
  "visit g n i v fin = Some (Inr fin') \<Longrightarrow> \<forall>x \<in> fin. tame g x \<Longrightarrow> (\<forall>x \<in> fin'. tame g x) \<and> tame g i"
  "visit_all g n cs v fin = Some (Inr fin') \<Longrightarrow> \<forall>x \<in> fin. tame g x \<Longrightarrow>
     (\<forall>x \<in> fin'. tame g x) \<and> (\<forall>c \<in> set cs. tame g c)"
proof (induction g n i v fin and g n cs v fin arbitrary: fin' and fin' rule: visit_visit_all.induct)
  case (2 g n i v fin)
  show ?case
  proof (cases "i \<in> fin \<or> map_of g i = None")
    case True
    then show ?thesis using 2(2,3) tame_leaf by auto
  next
    case False
    then obtain f where f: "visit_all g n (the (map_of g i)) (v @ [i]) fin = Some (Inr f)" "fin' = insert i f" "i \<notin> set v"
      using 2(2) by (auto split: option.splits sum.splits if_splits)
    then have "(\<forall>x \<in> f. tame g x) \<and> (\<forall>c \<in> set (the (map_of g i)). tame g c)"
      using 2(1) [OF False] 2(3) by simp
    moreover have "tame g i"
    proof (rule tameI)
      fix c
      assume "child_of g i c"
      then show "tame g c" using calculation by (auto simp: child_of_def)
    qed
    ultimately show ?thesis using f(2) by simp
  qed
qed (auto split: option.splits sum.splits)

lemma cycle_path_cyclic:
  assumes "successively R (v @ [i])" "i \<in> set v"
  shows "R\<^sup>+\<^sup>+ (hd (cycle_path i v)) (hd (cycle_path i v))"
proof -
  obtain xs ys where v: "v = xs @ i # ys" "i \<notin> set xs" using split_list_first [OF assms(2)] by blast
  then have c: "dropWhile (\<lambda>x. x \<noteq> i) v = i # ys" by (simp add: dropWhile_append)
  have "successively R (xs @ (i # ys @ [i]))" using assms(1) v(1) by simp
  then have "R\<^sup>+\<^sup>+ i i" by (intro path_tranclp [of R i ys]) (simp only: successively_append_iff)
  then show ?thesis by (simp add: cycle_path_def c Let_def)
qed

lemma visit_cycle:
  "visit g n i v fin = Some (Inl e) \<Longrightarrow> successively (child_of g) (v @ [i]) \<Longrightarrow>
     \<exists>p. e = Cycle p \<and> (child_of g)\<^sup>+\<^sup>+ (hd p) (hd p)"
  "visit_all g n cs v fin = Some (Inl e) \<Longrightarrow> \<forall>c \<in> set cs. successively (child_of g) (v @ [c]) \<Longrightarrow>
     \<exists>p. e = Cycle p \<and> (child_of g)\<^sup>+\<^sup>+ (hd p) (hd p)"
proof (induction g n i v fin and g n cs v fin rule: visit_visit_all.induct)
  case (2 g n i v fin)
  show ?case
  proof (cases "i \<in> set v")
    case True
    then show ?thesis using 2(2) cycle_path_cyclic [OF 2(3) True] by (auto split: if_splits)
  next
    case False
    then have "visit_all g n (the (map_of g i)) (v @ [i]) fin = Some (Inl e)" "\<not> (i \<in> fin \<or> map_of g i = None)"
      using 2(2) by (auto split: option.splits sum.splits if_splits)
    moreover have "\<forall>c \<in> set (the (map_of g i)). successively (child_of g) ((v @ [i]) @ [c])"
      using 2(3) calculation(2) by (auto simp: successively_append_iff child_of_def)
    ultimately show ?thesis by (intro 2(1) False) simp_all
  qed
qed (auto split: option.splits sum.splits)

lemma visit_keys_spec:
  assumes "card (dom (map_of g)) < n" "\<forall>x \<in> fin. tame g x"
  shows "(\<exists>fin'. visit_keys g n ks fin = Some (Inr fin') \<and> (\<forall>i \<in> set ks. tame g i)) \<or>
    (\<exists>p. visit_keys g n ks fin = Some (Inl (Cycle p)) \<and> (child_of g)\<^sup>+\<^sup>+ (hd p) (hd p))"
  using assms(2)
proof (induction ks arbitrary: fin)
  case (Cons i ks)
  obtain r where r: "visit g n i [] fin = Some r" using visit_returns(1) [of "[]" g n i fin] assms(1) by auto
  show ?case
  proof (cases r)
    case (Inl e)
    then show ?thesis using visit_cycle(1) [of g n i "[]" fin e] r by auto
  next
    case (Inr f)
    then show ?thesis using visit_tame(1) [of g n i "[]" fin f] r Cons.prems Cons.IH [of f] by auto
  qed
qed simp

subsection \<open>The depth\<close>

definition depth_is :: "graph \<Rightarrow> string \<Rightarrow> nat \<Rightarrow> bool" where
  "depth_is g i d \<longleftrightarrow> (\<forall>k. has_chain g k i \<longleftrightarrow> k \<le> d)"

definition memo_ok :: "graph \<Rightarrow> (string \<rightharpoonup> nat) \<Rightarrow> bool" where
  "memo_ok g memo \<longleftrightarrow> (\<forall>i d. memo i = Some d \<longrightarrow> depth_is g i d)"

lemma memo_ok_upd: "memo_ok g memo \<Longrightarrow> depth_is g i d \<Longrightarrow> memo_ok g (memo(i \<mapsto> d))"
  by (auto simp: memo_ok_def)

lemma depth_leaf: "map_of g i = None \<Longrightarrow> depth_is g i 0"
  unfolding depth_is_def by (intro allI, case_tac k) simp_all

lemma depth_node:
  assumes "map_of g i = Some cs" "\<And>k. k = 0 \<or> (\<exists>c \<in> set cs. has_chain g k c) \<longleftrightarrow> k \<le> m"
  shows "depth_is g i (1 + m)"
proof -
  have "has_chain g (Suc k) i \<longleftrightarrow> k \<le> m" for k using assms(2) [of k] assms(1) by (auto simp: child_of_def)
  then have "has_chain g k i \<longleftrightarrow> k \<le> 1 + m" for k by (cases k) simp_all
  then show ?thesis by (simp add: depth_is_def)
qed

lemma candidate_depth_exact:
  "candidate_depth g n i memo = Some (d, memo') \<Longrightarrow> memo_ok g memo \<Longrightarrow> depth_is g i d \<and> memo_ok g memo'"
  "max_depth g n cs memo = Some (m, memo') \<Longrightarrow> memo_ok g memo \<Longrightarrow>
     (\<forall>k. k = 0 \<or> (\<exists>c \<in> set cs. has_chain g k c) \<longleftrightarrow> k \<le> m) \<and> memo_ok g memo'"
proof (induction g n i memo and g n cs memo arbitrary: d memo' and m memo' rule: candidate_depth_max_depth.induct)
  case (2 g n i memo)
  show ?case
  proof (cases "memo i")
    case (Some d')
    then show ?thesis using 2 by (auto simp: memo_ok_def)
  next
    case None
    show ?thesis
    proof (cases "map_of g i")
      case None
      then show ?thesis using \<open>memo i = None\<close> 2(2,3) memo_ok_upd depth_leaf by auto
    next
      case (Some cs)
      then obtain m memo1 where m: "max_depth g n cs memo = Some (m, memo1)" "d = 1 + m" "memo' = memo1(i \<mapsto> d)"
        using \<open>memo i = None\<close> 2(2) by (auto split: option.splits)
      have "(\<forall>k. k = 0 \<or> (\<exists>c \<in> set cs. has_chain g k c) \<longleftrightarrow> k \<le> m) \<and> memo_ok g memo1"
        using 2(1) [OF \<open>memo i = None\<close> Some m(1) 2(3)] .
      then show ?thesis using m(2,3) depth_node [OF Some, of m] memo_ok_upd by blast
    qed
  qed
next
  case (4 g n c cs memo)
  obtain d memo1 m' where 1: "candidate_depth g n c memo = Some (d, memo1)" and 2: "max_depth g n cs memo1 = Some (m', memo')"
    and m: "m = max d m'"
    using 4(3) by (auto split: option.splits)
  have c: "depth_is g c d" "memo_ok g memo1" using 4(1) [OF 1 4(4)] by simp_all
  have rest: "k = 0 \<or> (\<exists>c \<in> set cs. has_chain g k c) \<longleftrightarrow> k \<le> m'" "memo_ok g memo'" for k
    using 4(2) [OF 1 refl 2 c(2)] by simp_all
  have "k = 0 \<or> (\<exists>c \<in> set (c # cs). has_chain g k c) \<longleftrightarrow> k \<le> m" for k
    using c(1) rest(1) [of k] by (auto simp: m le_max_iff_disj depth_is_def)
  then show ?case using rest(2) by simp
qed auto

lemma candidate_depth_none:
  "candidate_depth g n i memo = None \<Longrightarrow> has_chain g n i"
  "max_depth g n cs memo = None \<Longrightarrow> \<exists>c \<in> set cs. has_chain g n c"
proof (induction g n i memo and g n cs memo rule: candidate_depth_max_depth.induct)
  case (4 g n c cs memo)
  show ?case
  proof (cases "candidate_depth g n c memo")
    case (Some r)
    obtain d memo' where r: "r = (d, memo')" by fastforce
    show ?thesis using 4(2) [OF Some r [symmetric]] 4(3) Some r by (auto split: option.splits)
  qed (use 4(1) in simp)
qed (auto simp: child_of_def split: option.splits)

lemma any_too_deep_spec:
  assumes "\<And>i. \<not> has_chain g n i" "memo_ok g memo"
  shows "any_too_deep g n ks memo = Some (\<exists>i \<in> set ks. has_chain g (Suc MAX_DEPTH) i)"
  using assms(2)
proof (induction ks arbitrary: memo)
  case (Cons i ks)
  obtain d memo' where d: "candidate_depth g n i memo = Some (d, memo')"
    using candidate_depth_none(1) [of g n i memo] assms(1) by (cases "candidate_depth g n i memo") auto
  then have "depth_is g i d" "memo_ok g memo'" using candidate_depth_exact(1) Cons.prems by blast+
  moreover from this have "has_chain g (Suc MAX_DEPTH) i \<longleftrightarrow> MAX_DEPTH < d" by (simp only: depth_is_def Suc_le_eq)
  ultimately show ?case using d Cons.IH [of memo'] by (simp del: has_chain.simps)
qed simp

subsection \<open>The whole check\<close>

lemma three_deep: "has_chain g (Suc MAX_DEPTH) a \<longleftrightarrow> (\<exists>b c. child_of g a b \<and> child_of g b c \<and> map_of g c \<noteq> None)"
  by (auto simp: MAX_DEPTH_def numeral_2_eq_2 child_of_def)

lemma child_of_key: "child_of g a b \<Longrightarrow> a \<in> set (map fst g)"
  using map_of_eq_None_iff [of g a] by (auto simp: child_of_def)

lemma card_dom_le: "card (dom (map_of g)) \<le> length (map fst g)"
  unfolding dom_map_of_conv_image_fst by (metis card_length set_map)

text \<open>
  C16. The nesting check decides exactly what it says. It returns on every set of composites. It accepts the
  children of a composite only if, with them in place, no composite reaches a composite that reaches a
  composite, which also rules out every cycle; it reports a cycle only at a composite that reaches itself;
  and it reports excessive depth only if there is such a chain of three and no cycle anywhere.
\<close>

theorem nesting_check_exact:
  "case validate_no_cycle i cs g of
     None \<Rightarrow> False
   | Some r \<Rightarrow>
       (let child = child_of (candidate_graph i cs g);
            deep = (\<exists>a b c. child a b \<and> child b c \<and> map_of (candidate_graph i cs g) c \<noteq> None)
        in case r of
             Inr _ \<Rightarrow> \<not> deep \<and> (\<nexists>x. child\<^sup>+\<^sup>+ x x)
           | Inl (Cycle p) \<Rightarrow> deep \<and> child\<^sup>+\<^sup>+ (hd p) (hd p)
           | Inl e \<Rightarrow> e = TooDeep 2 \<and> deep \<and> (\<nexists>x. child\<^sup>+\<^sup>+ x x))"
proof -
  define C where "C = candidate_graph i cs g"
  let ?keys = "map fst C" and ?n = "length (map fst C) + 1"
  have v: "validate_no_cycle i cs g =
     (case visit_keys C ?n ?keys {} of
           None \<Rightarrow> None
         | Some (Inl e) \<Rightarrow> Some (Err e)
         | Some (Inr _) \<Rightarrow>
             (case any_too_deep C ?n ?keys Map.empty of
                None \<Rightarrow> None
              | Some True \<Rightarrow> Some (Err (TooDeep MAX_DEPTH))
              | Some False \<Rightarrow> Some (Ok ())))"
    by (simp only: validate_no_cycle_def C_def Let_def)
  have small: "card (dom (map_of C)) < ?n" using card_dom_le [of C] by simp
  consider (ok) f where "visit_keys C ?n ?keys {} = Some (Inr f)" "\<forall>k \<in> set ?keys. tame C k"
    | (cyclic) p where "visit_keys C ?n ?keys {} = Some (Inl (Cycle p))" "(child_of C)\<^sup>+\<^sup>+ (hd p) (hd p)"
    using visit_keys_spec [OF small, of "{}" ?keys] by auto
  then show ?thesis
  proof cases
    case ok
    have "tame C x" for x
      using ok(2) tame_leaf [of C x] map_of_eq_None_iff [of C x] by auto
    then have acyclic: "\<nexists>x. (child_of C)\<^sup>+\<^sup>+ x x" using tame_acyclic by blast
    then have "\<not> has_chain C ?n x" for x
      using long_chain_cycles [of C "length (map fst C)" x] card_dom_le [of C] by auto
    then have "any_too_deep C ?n ?keys Map.empty = Some (\<exists>x \<in> set ?keys. has_chain C (Suc MAX_DEPTH) x)"
      by (intro any_too_deep_spec) (simp_all add: memo_ok_def)
    moreover have "(\<exists>x \<in> set ?keys. has_chain C (Suc MAX_DEPTH) x) \<longleftrightarrow>
        (\<exists>a b c. child_of C a b \<and> child_of C b c \<and> map_of C c \<noteq> None)"
      unfolding three_deep using child_of_key [of C] by blast
    ultimately show ?thesis using acyclic ok(1)
      by (simp add: v C_def [symmetric] Let_def MAX_DEPTH_def split: bool.split)
  next
    case cyclic
    then have "\<exists>a b c. child_of C a b \<and> child_of C b c \<and> map_of C c \<noteq> None"
      using cycle_has_chain [of C "hd p" "Suc MAX_DEPTH"] unfolding three_deep by blast
    then show ?thesis using cyclic by (simp add: v C_def [symmetric] Let_def)
  qed
qed

end
