(* ===== verification/Alert_Runtime.thy ===== *)
theory Alert_Runtime
  imports Alert_Composite
begin

text \<open>
  One run of a composite (\<open>src/core/src/alerts/composite/runtime.rs\<close>): the stored expression is parsed,
  the loaded children are checked against it, each is judged fresh or stale, and the formula is combined.
  The run also says when the first fresh child will become stale, which is when the scheduler looks again.
  A \<open>HashMap\<close> is an association list; the text of an error is abstracted to its kind.
\<close>

section \<open>Inputs and results\<close>

record composite_state_input =
  ci_alert_id :: string
  ci_name :: string
  ci_alert_type :: string
  ci_enabled :: bool
  ci_level :: "alert_level option"
  ci_level_at :: "int option"
  ci_effective_cadence_seconds :: int
  ci_stale_deadline :: "int option"

record evaluated_child =
  ec_alert_id :: string
  ec_name :: string
  ec_alert_type :: string
  ec_enabled :: bool
  ec_level :: "alert_level option"
  ec_level_at :: "int option"
  ec_stale_deadline :: int
  ec_stale :: bool
  ec_truth :: bool

record composite_evaluation =
  cr_result :: bool
  cr_level :: alert_level
  cr_children :: "evaluated_child list"
  cr_next_stale_deadline :: "int option"

datatype invalid_expression = Unparsable parse_error | ReferencedTwice string | IndexMismatch

datatype evaluation_failure =
    InvalidExpression invalid_expression
  | ChildMissing string
  | DuplicateInput string
  | InvalidCadence string

section \<open>The run\<close>

fun references_visit ::
  "composite_expr \<Rightarrow> string list \<times> string list \<Rightarrow> (string list \<times> string list, evaluation_failure) result" where
  "references_visit (Child i) (seen, ordered) =
     (if i \<in> set seen then Err (InvalidExpression (ReferencedTwice i)) else Ok (i # seen, ordered @ [i]))"
| "references_visit (And l r) acc = (case references_visit l acc of Inl e \<Rightarrow> Inl e | Inr acc' \<Rightarrow> references_visit r acc')"
| "references_visit (Or l r) acc = (case references_visit l acc of Inl e \<Rightarrow> Inl e | Inr acc' \<Rightarrow> references_visit r acc')"
| "references_visit (Not e) acc = references_visit e acc"

definition references_in_order :: "composite_expr \<Rightarrow> (string list, evaluation_failure) result" where
  "references_in_order e = (case references_visit e ([], []) of Inl f \<Rightarrow> Inl f | Inr (_, ordered) \<Rightarrow> Ok ordered)"

type_synonym inputs = "(string \<times> composite_state_input) list"

fun load_inputs :: "composite_state_input list \<Rightarrow> inputs \<Rightarrow> (inputs, evaluation_failure) result" where
  "load_inputs [] inputs = Ok inputs"
| "load_inputs (c # cs) inputs =
     (let i = ci_alert_id c
      in if ci_effective_cadence_seconds c \<le> 0 then Err (InvalidCadence i)
         else if map_of inputs i \<noteq> None then Err (DuplicateInput i)
         else load_inputs cs ((i, c) # inputs))"

fun first_missing :: "string list \<Rightarrow> inputs \<Rightarrow> string option" where
  "first_missing [] inputs = None"
| "first_missing (r # rs) inputs = (if map_of inputs r = None then Some r else first_missing rs inputs)"

definition input_deadline :: "composite_state_input \<Rightarrow> int \<Rightarrow> int option" where
  "input_deadline c now =
     (case (ci_level_at c, ci_stale_deadline c) of
        (Some _, Some deadline) \<Rightarrow> Some deadline
      | (Some level_at, None) \<Rightarrow>
          Option.bind (Option.bind (checked_mul (ci_effective_cadence_seconds c) 3) (\<lambda>s. checked_mul s 1000000))
            (\<lambda>window. checked_add level_at window)
      | (None, _) \<Rightarrow> Some (saturating_sub now 1))"

definition evaluate_child ::
  "composite_state_input \<Rightarrow> string \<Rightarrow> int \<Rightarrow> bool \<Rightarrow> stale_child_policy \<Rightarrow> int \<Rightarrow> evaluated_child" where
  "evaluate_child c reference stale_deadline w p now =
     (let stale = (ci_level_at c = None \<or> now > stale_deadline);
          truth = (if stale
                   then (case p of UseLastState \<Rightarrow> level_truth (ci_level c) w | TreatAsFalse \<Rightarrow> False | TreatAsTrue \<Rightarrow> True)
                   else level_truth (ci_level c) w)
      in \<lparr>ec_alert_id = reference, ec_name = ci_name c, ec_alert_type = ci_alert_type c, ec_enabled = ci_enabled c,
          ec_level = ci_level c, ec_level_at = ci_level_at c, ec_stale_deadline = stale_deadline,
          ec_stale = stale, ec_truth = truth\<rparr>)"

fun evaluate_children ::
  "inputs \<Rightarrow> bool \<Rightarrow> stale_child_policy \<Rightarrow> int \<Rightarrow> string list \<Rightarrow> evaluated_child list \<times> int option \<Rightarrow>
   (evaluated_child list \<times> int option, evaluation_failure) result" where
  "evaluate_children inputs w p now [] acc = Ok acc"
| "evaluate_children inputs w p now (r # rs) (diagnostics, nxt) =
     (let c = the (map_of inputs r)
      in case input_deadline c now of
           None \<Rightarrow> Err (InvalidCadence r)
         | Some d \<Rightarrow>
             (let ec = evaluate_child c r d w p now;
                  nxt = (if ec_stale ec then nxt else Some (case nxt of None \<Rightarrow> d | Some current \<Rightarrow> min current d))
              in evaluate_children inputs w p now rs (diagnostics @ [ec], nxt)))"

definition truths_of :: "evaluated_child list \<Rightarrow> string \<Rightarrow> bool" where
  "truths_of ds i = (case map_of (rev (map (\<lambda>d. (ec_alert_id d, ec_truth d)) ds)) i of Some b \<Rightarrow> b | None \<Rightarrow> False)"

definition composite_evaluate ::
  "(string \<Rightarrow> bool) \<Rightarrow> string \<Rightarrow> composite_state_input list \<Rightarrow> bool \<Rightarrow> stale_child_policy \<Rightarrow> int \<Rightarrow>
   (composite_evaluation, evaluation_failure) result" where
  "composite_evaluate ksuid expression children w p now =
     (case parse_expr ksuid expression of
        Inl e \<Rightarrow> Err (InvalidExpression (Unparsable e))
      | Inr parsed \<Rightarrow>
          (case references_in_order parsed of
             Inl e \<Rightarrow> Inl e
           | Inr references \<Rightarrow>
               (case load_inputs children [] of
                  Inl e \<Rightarrow> Inl e
                | Inr inputs \<Rightarrow>
                    (case first_missing references inputs of
                       Some r \<Rightarrow> Err (ChildMissing r)
                     | None \<Rightarrow>
                         if length inputs \<noteq> length references then Err (InvalidExpression IndexMismatch)
                         else case evaluate_children inputs w p now references ([], None) of
                                Inl e \<Rightarrow> Inl e
                              | Inr (diagnostics, nxt) \<Rightarrow>
                                  (let result = evaluate_truths parsed (truths_of diagnostics)
                                   in Ok \<lparr>cr_result = result, cr_level = result_level result,
                                          cr_children = diagnostics, cr_next_stale_deadline = nxt\<rparr>)))))"

section \<open>A run stands until the deadline it reports\<close>

definition same_verdicts :: "evaluated_child list \<Rightarrow> evaluated_child list \<Rightarrow> bool" where
  "same_verdicts ds es \<longleftrightarrow> map (\<lambda>d. d\<lparr>ec_stale_deadline := 0\<rparr>) ds = map (\<lambda>d. d\<lparr>ec_stale_deadline := 0\<rparr>) es"

lemma same_verdicts_append: "same_verdicts ds es \<Longrightarrow> same_verdicts [d] [e] \<Longrightarrow> same_verdicts (ds @ [d]) (es @ [e])"
  by (simp add: same_verdicts_def)

lemma same_verdicts_truths:
  assumes "same_verdicts ds es"
  shows "truths_of ds = truths_of es"
proof -
  let ?v = "\<lambda>d::evaluated_child. (ec_alert_id d, ec_truth d)"
  have "map ?v xs = map ?v (map (\<lambda>d. d\<lparr>ec_stale_deadline := 0\<rparr>) xs)" for xs by simp
  then have "map ?v ds = map ?v es" using assms unfolding same_verdicts_def by metis
  then show ?thesis by (simp add: truths_of_def fun_eq_iff)
qed

lemma next_deadline_le:
  "evaluate_children inputs w p now rs (ds, Some a) = Ok (ds', nxt) \<Longrightarrow> \<exists>b. nxt = Some b \<and> b \<le> a"
proof (induction rs arbitrary: ds a)
  case (Cons r rs)
  then obtain ds1 a1 where "evaluate_children inputs w p now rs (ds1, Some a1) = Ok (ds', nxt)" "a1 \<le> a"
    by (fastforce simp: Let_def split: option.splits if_splits)
  then show ?case using Cons.IH by fastforce
qed auto

lemma child_stands:
  assumes "input_deadline c now = Some d" "now \<le> now'"
    and "\<not> ec_stale (evaluate_child c r d w p now) \<Longrightarrow> now' \<le> d"
  shows "\<exists>d'. input_deadline c now' = Some d' \<and> (\<not> ec_stale (evaluate_child c r d w p now) \<longrightarrow> d' = d) \<and>
    ec_stale (evaluate_child c r d' w p now') = ec_stale (evaluate_child c r d w p now) \<and>
    same_verdicts [evaluate_child c r d w p now] [evaluate_child c r d' w p now']"
  using assms
  by (cases "ci_level_at c")
    (auto simp: input_deadline_def evaluate_child_def same_verdicts_def Let_def split: option.splits stale_child_policy.splits)

lemma children_stand:
  assumes "evaluate_children inputs w p now rs (ds, nxt0) = Ok (ds', nxt)" "now \<le> now'"
    and "\<And>d. nxt = Some d \<Longrightarrow> now' \<le> d" "same_verdicts ds es"
  shows "\<exists>es'. evaluate_children inputs w p now' rs (es, nxt0) = Ok (es', nxt) \<and> same_verdicts ds' es'"
  using assms(1,4)
proof (induction rs arbitrary: ds es nxt0)
  case (Cons r rs)
  define c where "c = the (map_of inputs r)"
  obtain d where d: "input_deadline c now = Some d"
    using Cons.prems(1) by (auto simp: c_def Let_def split: option.splits)
  let ?ec = "evaluate_child c r d w p now"
  let ?n = "if ec_stale ?ec then nxt0 else Some (case nxt0 of None \<Rightarrow> d | Some current \<Rightarrow> min current d)"
  have rest: "evaluate_children inputs w p now rs (ds @ [?ec], ?n) = Ok (ds', nxt)"
    using Cons.prems(1) d by (simp add: c_def [symmetric] Let_def)
  have "now' \<le> d" if fresh: "\<not> ec_stale ?ec"
  proof -
    obtain b where "nxt = Some b" "b \<le> (case nxt0 of None \<Rightarrow> d | Some current \<Rightarrow> min current d)"
      using next_deadline_le [of inputs w p now rs "ds @ [?ec]" _ ds' nxt] rest fresh by auto
    then show ?thesis using assms(3) [of b] by (auto split: option.splits)
  qed
  then obtain d' where d': "input_deadline c now' = Some d'" "\<not> ec_stale ?ec \<longrightarrow> d' = d"
      "ec_stale (evaluate_child c r d' w p now') = ec_stale ?ec" "same_verdicts [?ec] [evaluate_child c r d' w p now']"
    using child_stands [OF d assms(2), of r w p] by blast
  obtain es' where "evaluate_children inputs w p now' rs (es @ [evaluate_child c r d' w p now'], ?n) = Ok (es', nxt)"
      "same_verdicts ds' es'"
    using Cons.IH [OF rest same_verdicts_append [OF Cons.prems(2) d'(4)]] by blast
  then show ?case using d' by (auto simp: c_def [symmetric] Let_def)
qed simp

text \<open>
  C21. A run stands until the deadline it reports. Evaluating the same children again at any later time, up to
  and including the reported deadline, or at any later time at all if none is reported, gives the same
  result, the same level, the same verdict on every child and the same deadline: between a run and its
  deadline a composite changes only if a child does.
\<close>

theorem run_stands_until_deadline:
  assumes "composite_evaluate ksuid x children w p now = Ok r" "now \<le> now'"
    and "\<And>d. cr_next_stale_deadline r = Some d \<Longrightarrow> now' \<le> d"
  shows "\<exists>r'. composite_evaluate ksuid x children w p now' = Ok r' \<and> cr_result r' = cr_result r \<and>
    cr_level r' = cr_level r \<and> cr_next_stale_deadline r' = cr_next_stale_deadline r \<and>
    same_verdicts (cr_children r) (cr_children r')"
proof -
  obtain e refs inputs ds nxt where run: "parse_expr ksuid x = Inr e" "references_in_order e = Inr refs"
      "load_inputs children [] = Inr inputs" "first_missing refs inputs = None" "length inputs = length refs"
      "evaluate_children inputs w p now refs ([], None) = Ok (ds, nxt)"
    and r: "r = \<lparr>cr_result = evaluate_truths e (truths_of ds), cr_level = result_level (evaluate_truths e (truths_of ds)),
                cr_children = ds, cr_next_stale_deadline = nxt\<rparr>"
    using assms(1) by (auto simp: composite_evaluate_def Let_def split: sum.splits option.splits if_splits)
  have "same_verdicts [] []" by (simp add: same_verdicts_def)
  then obtain es where es: "evaluate_children inputs w p now' refs ([], None) = Ok (es, nxt)" "same_verdicts ds es"
    using children_stand [OF run(6) assms(2), of "[]"] assms(3) by (auto simp: r)
  then show ?thesis using run same_verdicts_truths [OF es(2)] by (simp add: composite_evaluate_def r Let_def)
qed

section \<open>Agreement with the reference evaluator\<close>

lemma references_visit_ordered:
  "references_visit e (seen, ordered) = Inr (seen', ordered') \<Longrightarrow> set ordered' = set ordered \<union> operands e"
proof (induction e arbitrary: seen ordered seen' ordered')
  case (And l r)
  then obtain s1 o1 where "references_visit l (seen, ordered) = Inr (s1, o1)" "references_visit r (s1, o1) = Inr (seen', ordered')"
    by (auto split: sum.splits)
  then show ?case using And.IH by auto
next
  case (Or l r)
  then obtain s1 o1 where "references_visit l (seen, ordered) = Inr (s1, o1)" "references_visit r (s1, o1) = Inr (seen', ordered')"
    by (auto split: sum.splits)
  then show ?case using Or.IH by auto
qed (auto split: if_splits)

lemma references_set: "references_in_order e = Ok refs \<Longrightarrow> set refs = operands e"
  using references_visit_ordered [of e "[]" "[]"] by (auto simp: references_in_order_def split: sum.splits)

lemma first_missing_None: "first_missing rs inputs = None \<longleftrightarrow> (\<forall>r \<in> set rs. map_of inputs r \<noteq> None)"
  by (induction rs) auto

lemma load_inputs_Some:
  "load_inputs cs inputs = Inr inputs' \<Longrightarrow> map_of inputs' i = Some c \<Longrightarrow>
     map_of inputs i = Some c \<or> (c \<in> set cs \<and> 0 < ci_effective_cadence_seconds c)"
  by (induction cs arbitrary: inputs) (fastforce simp: Let_def split: if_splits)+

lemma evaluate_children_list:
  "evaluate_children inputs w p now rs (ds, nxt) = Ok (ds', nxt') \<Longrightarrow>
     (\<forall>r \<in> set rs. input_deadline (the (map_of inputs r)) now \<noteq> None) \<and>
     ds' = ds @ map (\<lambda>r. evaluate_child (the (map_of inputs r)) r (the (input_deadline (the (map_of inputs r)) now)) w p now) rs"
proof (induction rs arbitrary: ds nxt)
  case (Cons r rs)
  define c where "c = the (map_of inputs r)"
  obtain d where d: "input_deadline c now = Some d"
    using Cons.prems by (auto simp: c_def Let_def split: option.splits)
  then obtain nxt1 where "evaluate_children inputs w p now rs (ds @ [evaluate_child c r d w p now], nxt1) = Ok (ds', nxt')"
    using Cons.prems by (auto simp: c_def [symmetric] Let_def)
  from Cons.IH [OF this] show ?case using d by (simp add: c_def)
qed simp

lemma truths_of_map:
  assumes "i \<in> set rs" "\<And>r. ec_alert_id (f r) = r"
  shows "truths_of (map f rs) i = ec_truth (f i)"
proof -
  have "map_of (rev (map (\<lambda>r. (r, ec_truth (f r))) rs)) i = Some (ec_truth (f i))" using assms(1)
    by (subst rev_map) (simp add: map_of_map_restrict)
  then show ?thesis by (simp add: truths_of_def comp_def assms(2))
qed

definition child_state_of :: "composite_state_input list \<Rightarrow> string \<Rightarrow> child_state option" where
  "child_state_of children i =
     map_option (\<lambda>c. \<lparr>cs_level = ci_level c, cs_level_at = ci_level_at c, cs_frequency_secs = ci_effective_cadence_seconds c\<rparr>)
       (List.find (\<lambda>c. ci_alert_id c = i) children)"

lemma load_inputs_find:
  "load_inputs cs inputs = Inr inputs' \<Longrightarrow>
     map_of inputs' i = (case map_of inputs i of Some c \<Rightarrow> Some c | None \<Rightarrow> List.find (\<lambda>c. ci_alert_id c = i) cs)"
proof (induction cs arbitrary: inputs)
  case Nil
  then show ?case by (auto split: option.splits)
next
  case (Cons c cs)
  then have "map_of inputs (ci_alert_id c) = None" "load_inputs cs ((ci_alert_id c, c) # inputs) = Inr inputs'"
    by (auto simp: Let_def split: if_splits)
  then show ?case using Cons.IH by (auto split: option.splits)
qed

lemma cadence_deadline:
  assumes "ci_stale_deadline c = None" "ci_level_at c = Some t" "0 \<le> t" "0 < ci_effective_cadence_seconds c" "i64_ok now"
    and "input_deadline c now = Some d"
  shows "is_stale \<lparr>cs_level = l, cs_level_at = ci_level_at c, cs_frequency_secs = ci_effective_cadence_seconds c\<rparr> now \<longleftrightarrow> now > d"
  using assms
  by (auto simp: input_deadline_def is_stale_def STALE_FREQUENCY_MULTIPLIER_def bind_eq_Some_conv i64_defs split: if_splits)

lemma child_verdict_agrees:
  assumes "child_state_of children i = Some (\<lparr>cs_level = ci_level c, cs_level_at = ci_level_at c, cs_frequency_secs = ci_effective_cadence_seconds c\<rparr>)"
    and "ci_stale_deadline c = None" "\<And>t. ci_level_at c = Some t \<Longrightarrow> 0 \<le> t" "0 < ci_effective_cadence_seconds c" "i64_ok now"
    and "input_deadline c now = Some d"
  shows "ec_truth (evaluate_child c i d w p now) = truth_of (child_state_of children) w p now i"
proof (cases "ci_level_at c")
  case None
  then show ?thesis using assms(1)
    by (auto simp: evaluate_child_def truth_of_def is_stale_def level_truth_def Let_def
        split: stale_child_policy.splits option.splits alert_level.splits)
next
  case (Some t)
  then show ?thesis using assms(1) cadence_deadline [OF assms(2) Some assms(3) assms(4-6)]
    by (auto simp: evaluate_child_def truth_of_def level_truth_def Let_def
        split: stale_child_policy.splits option.splits alert_level.splits)
qed

lemma evaluate_truths_cong: "(\<And>i. i \<in> operands e \<Longrightarrow> f i = g i) \<Longrightarrow> evaluate_truths e f = evaluate_truths e g"
  by (induction e) auto

text \<open>
  C33. The run agrees with the expression evaluator. Where every child's staleness is derived from its cadence
  and no time is negative, a run that returns has parsed the expression, found a loaded child for each of
  its operands and none besides, judged each of them once, and its result is the one \<open>evaluate_expr\<close> gives
  for the same child states: the two ways the code decides staleness, a deadline and an age, do not diverge.
\<close>

theorem run_agrees_with_evaluator:
  assumes "composite_evaluate ksuid x children w p now = Ok r" "i64_ok now"
    and "\<forall>c \<in> set children. ci_stale_deadline c = None \<and> (\<forall>t. ci_level_at c = Some t \<longrightarrow> 0 \<le> t)"
  shows "\<exists>e. parse_expr ksuid x = Ok e \<and> evaluate_expr e (child_state_of children) w p now = Ok (cr_result r) \<and>
    ec_alert_id ` set (cr_children r) = operands e"
proof -
  obtain e refs inputs ds nxt where run: "parse_expr ksuid x = Inr e" "references_in_order e = Inr refs"
      "load_inputs children [] = Inr inputs" "first_missing refs inputs = None"
      "evaluate_children inputs w p now refs ([], None) = Ok (ds, nxt)"
    and r: "cr_result r = evaluate_truths e (truths_of ds)" "cr_children r = ds"
    using assms(1) by (auto simp: composite_evaluate_def Let_def split: sum.splits option.splits if_splits)
  let ?c = "\<lambda>i. the (map_of inputs i)"
  let ?ec = "\<lambda>i. evaluate_child (?c i) i (the (input_deadline (?c i) now)) w p now"
  have id: "ec_alert_id (?ec i) = i" for i by (simp add: evaluate_child_def Let_def)
  have ds: "ds = map ?ec refs" and dl: "\<forall>i \<in> set refs. input_deadline (?c i) now \<noteq> None"
    using evaluate_children_list [OF run(5)] by simp_all
  have refs: "set refs = operands e" using references_set run(2) by blast
  have known: "map_of inputs i \<noteq> None" if "i \<in> operands e" for i using that run(4) refs first_missing_None by metis
  have find: "map_of inputs i = List.find (\<lambda>c. ci_alert_id c = i) children" for i
    using load_inputs_find [OF run(3)] by simp
  have truth: "truths_of ds i = truth_of (child_state_of children) w p now i" if i: "i \<in> operands e" for i
  proof -
    obtain c where c: "map_of inputs i = Some c" using known [OF i] by blast
    then have "c \<in> set children" "0 < ci_effective_cadence_seconds c" using load_inputs_Some [OF run(3) c] by auto
    then have "ec_truth (?ec i) = truth_of (child_state_of children) w p now i"
      using assms(2,3) c dl i refs find [of i] by (intro child_verdict_agrees) (auto simp: child_state_of_def)
    then show ?thesis using truths_of_map [of i refs ?ec, OF _ id] i refs ds by simp
  qed
  have "first_unknown e (child_state_of children) = None"
    using known find by (auto simp: first_unknown_None child_state_of_def dom_def)
  then have "evaluate_expr e (child_state_of children) w p now = Ok (evaluate_truths e (truth_of (child_state_of children) w p now))"
    by (simp add: evaluate_expr_formula)
  moreover have "ec_alert_id ` set ds = operands e" by (simp add: ds image_image id refs)
  ultimately show ?thesis using run(1) r evaluate_truths_cong [OF truth] by auto
qed

definition two_children :: "composite_state_input list" where
  "two_children =
     [\<lparr>ci_alert_id = ''a'', ci_name = ''cpu'', ci_alert_type = ''scheduled'', ci_enabled = True, ci_level = Some LCritical,
       ci_level_at = Some 1000000, ci_effective_cadence_seconds = 60, ci_stale_deadline = None\<rparr>,
      \<lparr>ci_alert_id = ''b'', ci_name = ''disk'', ci_alert_type = ''scheduled'', ci_enabled = True, ci_level = Some LOk,
       ci_level_at = Some 2000000, ci_effective_cadence_seconds = 60, ci_stale_deadline = None\<rparr>]"

lemma two_children_run:
  "composite_evaluate (\<lambda>_. True) ''{a}&&!{b}'' two_children False TreatAsFalse 3000000 =
     Ok \<lparr>cr_result = True, cr_level = LCritical,
         cr_children =
           [\<lparr>ec_alert_id = ''a'', ec_name = ''cpu'', ec_alert_type = ''scheduled'', ec_enabled = True,
             ec_level = Some LCritical, ec_level_at = Some 1000000, ec_stale_deadline = 181000000, ec_stale = False, ec_truth = True\<rparr>,
            \<lparr>ec_alert_id = ''b'', ec_name = ''disk'', ec_alert_type = ''scheduled'', ec_enabled = True,
             ec_level = Some LOk, ec_level_at = Some 2000000, ec_stale_deadline = 182000000, ec_stale = False, ec_truth = False\<rparr>],
         cr_next_stale_deadline = Some 181000000\<rparr>"
  by code_simp

theorem run_stands_until_deadline_witness:
  "\<exists>r'. composite_evaluate (\<lambda>_. True) ''{a}&&!{b}'' two_children False TreatAsFalse 181000000 = Ok r' \<and> cr_result r'"
  using run_stands_until_deadline [OF two_children_run, of 181000000] by fastforce

theorem run_agrees_with_evaluator_witness:
  "\<exists>e. parse_expr (\<lambda>_. True) ''{a}&&!{b}'' = Ok e \<and>
     evaluate_expr e (child_state_of two_children) False TreatAsFalse 3000000 = Ok True"
  using run_agrees_with_evaluator [OF two_children_run] by (auto simp: two_children_def i64_ok_def)

end
