(* ===== verification/Slo_Window.thy ===== *)
theory Slo_Window
  imports OO_Prelude
begin

text \<open>
  Slices and windows of an SLO (\<open>src/config/src/meta/slo/window.rs\<close>) and the progress of its measuring
  passes (\<open>run_pass\<close> of \<open>src/core/src/slo/job.rs\<close>, the watermark of \<open>src/infra/src/table/slo.rs\<close>). Times are
  seconds; sums and differences of them stay far inside \<open>i64\<close>.
\<close>

section \<open>The slice grid\<close>

definition align_down :: "int \<Rightarrow> int \<Rightarrow> int" where
  "align_down ts_secs slice_interval_secs =
     (if slice_interval_secs \<le> 0 then ts_secs else div_euclid ts_secs slice_interval_secs * slice_interval_secs)"

definition align_up :: "int \<Rightarrow> int \<Rightarrow> int" where
  "align_up ts_secs slice_interval_secs =
     (if slice_interval_secs \<le> 0 then ts_secs
      else let down = align_down ts_secs slice_interval_secs
           in if down = ts_secs then down else down + slice_interval_secs)"

record ingest_range_rec =
  ir_start :: int
  ir_end :: int

definition slice_count :: "ingest_range_rec \<Rightarrow> int \<Rightarrow> int" where
  "slice_count r slice_interval_secs =
     (if slice_interval_secs \<le> 0 then 0 else max (ir_end r - ir_start r) 0 div slice_interval_secs)"

function grid_from :: "int \<Rightarrow> int \<Rightarrow> int \<Rightarrow> int list" where
  "grid_from s hi step = (if s < hi \<and> 0 < step then s # grid_from (s + step) hi step else [])"
  by pat_completeness auto
termination by (relation "measure (\<lambda>(s, hi, step). nat (hi - s))") auto

declare grid_from.simps [simp del]

definition slice_starts :: "ingest_range_rec \<Rightarrow> int \<Rightarrow> int list" where
  "slice_starts r slice_interval_secs =
     (if slice_interval_secs \<le> 0 then [] else grid_from (ir_start r) (ir_end r) slice_interval_secs)"

record ingest_range_params =
  ip_now_secs :: int
  ip_watermark_end :: "int option"
  ip_slice_interval_secs :: int
  ip_ingest_delay_secs :: int
  ip_recompute_slices :: int
  ip_generation_reset_time :: int

definition ingest_range :: "ingest_range_params \<Rightarrow> ingest_range_rec option" where
  "ingest_range params =
     (let slice = ip_slice_interval_secs params
      in if slice \<le> 0 then None
         else
           (let end' = align_down (ip_now_secs params - ip_ingest_delay_secs params) slice
            in if (case ip_watermark_end params of Some watermark \<Rightarrow> end' \<le> watermark | None \<Rightarrow> False) then None
               else
                 (let reach_back = align_down (ip_now_secs params) slice - ip_recompute_slices params * slice;
                      start = (case ip_watermark_end params of
                                 Some watermark \<Rightarrow> min watermark reach_back
                               | None \<Rightarrow> ip_generation_reset_time params);
                      flr = align_up (ip_generation_reset_time params) slice;
                      start = max (align_down start slice) flr
                  in if end' \<le> start then None else Some \<lparr>ir_start = start, ir_end = end'\<rparr>)))"

definition expected_slices :: "int \<Rightarrow> int \<Rightarrow> int \<Rightarrow> int" where
  "expected_slices from_secs to_secs slice_interval_secs =
     (if slice_interval_secs \<le> 0 then 0 else max (to_secs - from_secs) 0 div slice_interval_secs)"

definition read_window :: "int \<Rightarrow> int \<Rightarrow> int \<times> int" where
  "read_window watermark_end window_secs = (watermark_end - window_secs, watermark_end)"

definition watermark_is_stale :: "int \<Rightarrow> int \<Rightarrow> int \<Rightarrow> int \<Rightarrow> bool" where
  "watermark_is_stale now_secs watermark_end slice_interval_secs stale_k \<longleftrightarrow>
     now_secs > watermark_end + stale_k * slice_interval_secs"

definition watermark_is_stale_or_absent :: "int \<Rightarrow> int option \<Rightarrow> int \<Rightarrow> int \<Rightarrow> bool" where
  "watermark_is_stale_or_absent now_secs watermark_end slice_interval_secs stale_k =
     (case watermark_end of
        Some e \<Rightarrow> watermark_is_stale now_secs e slice_interval_secs stale_k
      | None \<Rightarrow> True)"

text \<open>The forward clamp of the status row: the watermark moves only forward.\<close>

definition advance_watermark :: "int option \<Rightarrow> int \<Rightarrow> int option" where
  "advance_watermark stored wm = (case stored of None \<Rightarrow> Some wm | Some w \<Rightarrow> if w < wm then Some wm else Some w)"

section \<open>Alignment\<close>

lemma align_down_eq: "0 < s \<Longrightarrow> align_down t s = t div s * s"
  by (simp add: align_down_def div_euclid_def)

lemma align_down_dvd: "0 < s \<Longrightarrow> s dvd align_down t s"
  by (simp add: align_down_eq)

lemma align_down_le:
  assumes s: "0 < s"
  shows "align_down t s \<le> t" "t < align_down t s + s"
proof -
  have "align_down t s = t - t mod s" using s by (simp add: align_down_eq minus_mod_eq_div_mult)
  then show "align_down t s \<le> t" "t < align_down t s + s" using s pos_mod_bound [of s t] by simp_all
qed

lemma align_down_fixed: "0 < s \<Longrightarrow> align_down t s = t \<longleftrightarrow> s dvd t"
  by (metis align_down_eq dvd_div_mult_self dvd_triv_right)

lemma align_up_dvd: "0 < s \<Longrightarrow> s dvd align_up t s"
  using align_down_dvd [of s t] by (auto simp: align_up_def Let_def)

lemma align_up_ge: "0 < s \<Longrightarrow> t \<le> align_up t s"
  using align_down_le [of s t] by (simp add: align_up_def Let_def)

lemma grid_gap: "s dvd a \<Longrightarrow> s dvd b \<Longrightarrow> a < b \<Longrightarrow> a + s \<le> (b::int)"
  using zdvd_imp_le [of s "b - a"] by (simp add: dvd_diff)

lemma grid_from_iff: "0 < step \<Longrightarrow> t \<in> set (grid_from s hi step) \<longleftrightarrow> s \<le> t \<and> t < hi \<and> step dvd t - s"
proof (induction s hi step rule: grid_from.induct)
  case (1 s hi step)
  show ?case
  proof (cases "s < hi")
    case True
    have "step dvd (t - s) - step \<longleftrightarrow> step dvd t - s" by (rule dvd_diff_left_iff) simp
    then have "step dvd t - (s + step) \<longleftrightarrow> step dvd t - s" by (simp add: algebra_simps)
    moreover have "s \<le> t \<and> step dvd t - s \<longleftrightarrow> t = s \<or> (s + step \<le> t \<and> step dvd t - s)"
      using 1(2) zdvd_imp_le [of step "t - s"] by (cases "s < t") auto
    ultimately show ?thesis using 1(1) [OF _ 1(2)] 1(2) True by (subst grid_from.simps) auto
  qed (subst grid_from.simps, auto)
qed

section \<open>Passes\<close>

text \<open>
  A history of the measuring passes of one generation: the watermarks the status row has held, newest first,
  and the passes that committed, each with the time up to which data had settled when it ran. A pass plans
  its range from a watermark it read earlier, which need not be the stored one any more when it commits, so
  passes may overlap; one that fails leaves no trace here.
\<close>

inductive pass_run :: "int \<Rightarrow> int \<Rightarrow> int option list \<Rightarrow> (ingest_range_rec \<times> int) list \<Rightarrow> bool" for slice reset where
  start: "pass_run slice reset [None] []"
| commit: "pass_run slice reset hs ps \<Longrightarrow> seen \<in> set hs \<Longrightarrow>
    ingest_range \<lparr>ip_now_secs = now, ip_watermark_end = seen, ip_slice_interval_secs = slice,
                  ip_ingest_delay_secs = delay, ip_recompute_slices = k, ip_generation_reset_time = reset\<rparr> = Some r \<Longrightarrow>
    pass_run slice reset (advance_watermark (hd hs) (ir_end r) # hs) ((r, now - delay) # ps)"

lemma ingest_range_some:
  assumes "ingest_range params = Some r"
  defines "s \<equiv> ip_slice_interval_secs params"
  shows "0 < s \<and> s dvd ir_start r \<and> s dvd ir_end r \<and> align_up (ip_generation_reset_time params) s \<le> ir_start r \<and>
    ir_start r < ir_end r \<and> ir_end r \<le> ip_now_secs params - ip_ingest_delay_secs params \<and>
    (case ip_watermark_end params of
       Some w \<Rightarrow> w < ir_end r \<and> ir_start r \<le> max w (align_up (ip_generation_reset_time params) s)
     | None \<Rightarrow> ir_start r = align_up (ip_generation_reset_time params) s)"
proof -
  define g where "g = ip_generation_reset_time params"
  define b where "b = (case ip_watermark_end params of Some w \<Rightarrow> min w (align_down (ip_now_secs params) s - ip_recompute_slices params * s) | None \<Rightarrow> g)"
  have s: "0 < s" and r: "ir_end r = align_down (ip_now_secs params - ip_ingest_delay_secs params) s"
      "ir_start r = max (align_down b s) (align_up g s)" "ir_start r < ir_end r"
    and w: "\<And>w. ip_watermark_end params = Some w \<Longrightarrow> w < ir_end r"
    using assms(1) by (auto simp: ingest_range_def Let_def s_def b_def g_def split: if_splits option.splits)
  have "s dvd ir_start r" using align_down_dvd [OF s] align_up_dvd [OF s] by (simp add: r max_def)
  moreover have "align_down b s \<le> b" "align_down g s \<le> g" "g \<le> align_up g s"
    using align_down_le [OF s] align_up_ge [OF s] by auto
  then have "case ip_watermark_end params of Some w \<Rightarrow> ir_start r \<le> max w (align_up g s) | None \<Rightarrow> ir_start r = align_up g s"
    by (auto simp: r b_def split: option.split)
  ultimately show ?thesis
    using s r align_down_dvd [OF s] align_down_le(1) [OF s] w by (auto simp: g_def split: option.splits)
qed

definition covered :: "(ingest_range_rec \<times> int) list \<Rightarrow> int \<Rightarrow> int \<Rightarrow> bool" where
  "covered ps slice t \<longleftrightarrow> (\<exists>(r, settled) \<in> set ps. t \<in> set (slice_starts r slice) \<and> t + slice \<le> settled)"

lemma covered_mono: "covered ps s t \<Longrightarrow> covered (p # ps) s t"
  by (auto simp: covered_def)

lemma pass_covers:
  assumes "ingest_range params = Some r" "s = ip_slice_interval_secs params" "s dvd t" "ir_start r \<le> t" "t < ir_end r"
  shows "covered ((r, ip_now_secs params - ip_ingest_delay_secs params) # ps) s t"
proof -
  note r = ingest_range_some [OF assms(1), folded assms(2)]
  have "t + s \<le> ir_end r" using r assms by (intro grid_gap) auto
  then show ?thesis using r assms by (auto simp: covered_def slice_starts_def grid_from_iff dvd_diff)
qed

lemma advance_watermark_simps [simp]:
  "advance_watermark None e = Some e" "advance_watermark (Some w) e = Some (max w e)"
  by (auto simp: advance_watermark_def)

lemma pass_run_history: "pass_run s g hs ps \<Longrightarrow> hs \<noteq> [] \<and> (\<forall>h \<in> set hs. \<forall>w. h = Some w \<longrightarrow> (\<exists>w'. hd hs = Some w' \<and> w \<le> w'))"
proof (induction rule: pass_run.induct)
  case (commit hs ps seen now delay k r)
  have "\<exists>w'. advance_watermark (hd hs) (ir_end r) = Some w' \<and> w \<le> w'" if "h \<in> set hs" "h = Some w" for h w
    using commit.IH that by (cases "hd hs") (auto simp: le_max_iff_disj)
  then show ?case by (cases "hd hs") auto
qed simp

lemma pass_run_covers:
  "pass_run s g hs ps \<Longrightarrow> hd hs = Some w \<Longrightarrow> s dvd t \<Longrightarrow> align_up g s \<le> t \<Longrightarrow> t < w \<Longrightarrow> covered ps s t"
proof (induction arbitrary: w rule: pass_run.induct)
  case (commit hs ps seen now delay k r)
  let ?p = "\<lparr>ip_now_secs = now, ip_watermark_end = seen, ip_slice_interval_secs = s,
                  ip_ingest_delay_secs = delay, ip_recompute_slices = k, ip_generation_reset_time = g\<rparr>"
  show ?case
  proof (cases "\<exists>w0. hd hs = Some w0 \<and> t < w0")
    case True
    then show ?thesis using commit.IH commit.prems covered_mono by blast
  next
    case False
    then have "t < ir_end r" using commit.prems by (cases "hd hs") auto
    moreover have "ir_start r \<le> t"
    proof (cases seen)
      case None
      then show ?thesis using ingest_range_some [OF commit.hyps(3)] commit.prems by simp
    next
      case (Some w1)
      then obtain w2 where "hd hs = Some w2" "w1 \<le> w2" using pass_run_history [OF commit.hyps(1)] commit.hyps(2) by blast
      then show ?thesis using Some False ingest_range_some [OF commit.hyps(3)] commit.prems by auto
    qed
    ultimately show ?thesis using pass_covers [OF commit.hyps(3), of s t ps] commit.prems by simp
  qed
qed simp

text \<open>
  C9. The published window has no holes and no open slices. However the passes of a generation are timed,
  however they overlap, and whatever their settle time and late-data reach, every slice of the grid between
  the start of the generation and the watermark has been measured by a committed pass that ran after the
  slice, settle time included, was over.
\<close>

theorem watermark_leaves_no_gap:
  assumes "pass_run slice reset hs ps" "hd hs = Some watermark"
    and "align_down t slice = t" "align_up reset slice \<le> t" "t < watermark"
  shows "\<exists>(r, settled) \<in> set ps. t \<in> set (slice_starts r slice) \<and> t + slice \<le> settled"
proof -
  have "0 < slice" using assms(1,2)
  proof (cases rule: pass_run.cases)
    case (commit hs ps seen now delay k r)
    then show ?thesis using ingest_range_some by fastforce
  qed simp
  then show ?thesis using pass_run_covers [OF assms(1,2)] assms(3-5) by (simp add: align_down_fixed covered_def)
qed

lemma two_passes:
  "pass_run 60 30 [Some 300, Some 180, None] [(\<lparr>ir_start = 120, ir_end = 300\<rparr>, 300), (\<lparr>ir_start = 60, ir_end = 180\<rparr>, 190)]"
proof -
  have 1: "ingest_range \<lparr>ip_now_secs = 200, ip_watermark_end = None, ip_slice_interval_secs = 60, ip_ingest_delay_secs = 10,
      ip_recompute_slices = 2, ip_generation_reset_time = 30\<rparr> = Some \<lparr>ir_start = 60, ir_end = 180\<rparr>" by code_simp
  have 2: "ingest_range \<lparr>ip_now_secs = 310, ip_watermark_end = Some 180, ip_slice_interval_secs = 60, ip_ingest_delay_secs = 10,
      ip_recompute_slices = 3, ip_generation_reset_time = 30\<rparr> = Some \<lparr>ir_start = 120, ir_end = 300\<rparr>" by code_simp
  have "pass_run 60 30 [Some 180, None] [(\<lparr>ir_start = 60, ir_end = 180\<rparr>, 190)]"
    using commit [OF start _ 1] by simp
  from commit [OF this _ 2] show ?thesis by simp
qed

theorem watermark_leaves_no_gap_witness:
  "\<exists>(r, settled) \<in> set [(\<lparr>ir_start = 120, ir_end = 300\<rparr>, 300), (\<lparr>ir_start = 60, ir_end = 180\<rparr>, 190)].
     240 \<in> set (slice_starts r 60) \<and> 240 + 60 \<le> (settled :: int)"
  using watermark_leaves_no_gap [OF two_passes, of 300 240] by (simp add: align_down_def align_up_def div_euclid_def)

end
