(* ===== verification/Slo_Pass.thy ===== *)
theory Slo_Pass
  imports Slo_Window Alert_Ledger "HOL-Library.Product_Lexorder"
begin

text \<open>
  The rows of one measuring pass of an SLO: slices and how readers see them
  (\<open>src/config/src/meta/slo/slice.rs\<close>), the rows a pass builds, fills and rolls up
  (\<open>src/core/src/slo/ingest.rs\<close>), the corrections of downtimes (\<open>src/core/src/slo/corrections.rs\<close>) and the
  running aggregate they are folded into (\<open>group_deltas\<close> of \<open>src/core/src/slo/job.rs\<close>,
  \<open>apply_status_in_txn\<close> of \<open>src/infra/src/table/slo.rs\<close>). The source of a count is a type variable and the
  sum of two floating point numbers the parameter \<open>add64\<close>.
\<close>

section \<open>Slices\<close>

datatype sli_type = SliCount | SliTimeSlice | SliAlert

datatype query_language = Sql | PromQl

datatype 'src sli_config =
    CountCfg 'src
  | TimeSliceCfg (ts_stream: string) (ts_stream_type: string) (ts_query_language: query_language) (ts_query: string)
      (ts_scope: "string option") (ts_comparator: operator) (ts_threshold: f64) (ts_absent_is_bad: bool)
  | AlertCfg string

fun sli_type_of :: "'src sli_config \<Rightarrow> sli_type" where
  "sli_type_of (CountCfg _) = SliCount"
| "sli_type_of (TimeSliceCfg _ _ _ _ _ _ _ _) = SliTimeSlice"
| "sli_type_of (AlertCfg _) = SliAlert"

record slice_row =
  sl_slo_id :: string
  sl_definition_generation :: int
  sl_group_key :: string
  sl_slice_start :: int
  sl_good :: f64
  sl_total :: f64
  sl_rev :: int
  sl_corrected_by :: "string option"

definition is_visible :: "slice_row \<Rightarrow> int \<Rightarrow> int \<Rightarrow> bool" where
  "is_visible row watermark_end generation \<longleftrightarrow>
     sl_definition_generation row = generation \<and> sl_slice_start row < watermark_end"

text \<open>A \<open>BTreeMap\<close> is its list of entries in key order.\<close>

fun bt_insert :: "'k::linorder \<Rightarrow> 'v \<Rightarrow> ('k \<times> 'v) list \<Rightarrow> ('k \<times> 'v) list" where
  "bt_insert k v [] = [(k, v)]"
| "bt_insert k v ((k', v') # m) =
     (if k < k' then (k, v) # (k', v') # m else if k = k' then (k, v) # m else (k', v') # bt_insert k v m)"

definition slice_key :: "slice_row \<Rightarrow> string \<times> int" where
  "slice_key row = (sl_group_key row, sl_slice_start row)"

definition dedupe_step :: "((string \<times> int) \<times> slice_row) list \<Rightarrow> slice_row \<Rightarrow> ((string \<times> int) \<times> slice_row) list" where
  "dedupe_step best row =
     (case map_of best (slice_key row) of
        Some existing \<Rightarrow> if sl_rev existing \<ge> sl_rev row then best else bt_insert (slice_key row) row best
      | None \<Rightarrow> bt_insert (slice_key row) row best)"

definition dedupe_latest_rev :: "slice_row list \<Rightarrow> slice_row list" where
  "dedupe_latest_rev rows = map snd (foldl dedupe_step [] rows)"

definition visible_slices :: "slice_row list \<Rightarrow> int \<Rightarrow> int \<Rightarrow> slice_row list" where
  "visible_slices rows watermark_end generation =
     dedupe_latest_rev (filter (\<lambda>r. is_visible r watermark_end generation) rows)"

datatype gap_fill = CoveredZero | CoveredBad | FillNothing

fun gap_fill_policy :: "sli_type \<Rightarrow> gap_fill" where
  "gap_fill_policy SliCount = CoveredZero"
| "gap_fill_policy SliTimeSlice = FillNothing"
| "gap_fill_policy SliAlert = FillNothing"

definition gap_fill_policy_for :: "'src sli_config \<Rightarrow> gap_fill" where
  "gap_fill_policy_for sli =
     (case sli of
        TimeSliceCfg _ _ _ _ _ _ _ True \<Rightarrow> CoveredBad
      | _ \<Rightarrow> gap_fill_policy (sli_type_of sli))"

definition fill_gaps :: "slice_row list \<Rightarrow> int list \<Rightarrow> string list \<Rightarrow> slice_row \<Rightarrow> sli_type \<Rightarrow> slice_row list" where
  "fill_gaps observed expected_starts group_keys template t =
     (if gap_fill_policy t = FillNothing then observed
      else observed @
        concat (map (\<lambda>g. map (\<lambda>s. template\<lparr>sl_group_key := g, sl_slice_start := s, sl_good := Fin 0, sl_total := Fin 0\<rparr>)
                          (filter (\<lambda>s. (g, s) \<notin> set (map slice_key observed)) expected_starts)) group_keys))"

definition should_emit :: "(f64 \<times> f64) option \<Rightarrow> f64 \<times> f64 \<Rightarrow> bool" where
  "should_emit previous recomputed =
     (case previous of
        None \<Rightarrow> True
      | Some (prev_good, prev_total) \<Rightarrow>
          (let same = (\<lambda>a b. f64_eq a b \<or> (a = NaN \<and> b = NaN))
           in \<not> (same prev_good (fst recomputed) \<and> same prev_total (snd recomputed))))"

datatype observation_error = NotFinite string f64 | NegativeObs string f64 | GoodExceedsTotal f64 f64

definition is_finite :: "f64 \<Rightarrow> bool" where
  "is_finite v = (case v of Fin _ \<Rightarrow> True | _ \<Rightarrow> False)"

definition validate_observation :: "f64 \<Rightarrow> f64 \<Rightarrow> (unit, observation_error) result" where
  "validate_observation good total' =
     (case try_each (\<lambda>(field, v). if \<not> is_finite v then Err (NotFinite field v)
                                  else if f64_lt v (Fin 0) then Err (NegativeObs field v) else Ok ())
             [(''good'', good), (''total'', total')] of
        Inl e \<Rightarrow> Inl e
      | Inr _ \<Rightarrow> if f64_lt total' good then Err (GoodExceedsTotal good total') else Ok ())"

section \<open>Building a pass\<close>

datatype reject_reason = OffGrid | Observation observation_error | AmbiguousSeries

record pass_params =
  pp_slo_id :: string
  pp_definition_generation :: int
  pp_range_start :: int
  pp_range_end :: int
  pp_slice_interval_secs :: int
  pp_rev :: int
  pp_max_groups :: int

record pass_result =
  ps_slices :: "slice_row list"
  ps_rejected :: "(string \<times> reject_reason) list"
  ps_groups_seen :: nat
  ps_group_overflow :: bool

definition classify_time_slice :: "f64 \<Rightarrow> operator \<Rightarrow> f64 \<Rightarrow> int \<Rightarrow> f64 \<times> f64" where
  "classify_time_slice v comparator threshold slice_interval_secs =
     (let interval = as_f64 slice_interval_secs
      in if \<not> is_finite v then (NaN, NaN)
         else case (case comparator of
                      GreaterThan \<Rightarrow> Some (f64_lt threshold v)
                    | GreaterThanEquals \<Rightarrow> Some (f64_le threshold v)
                    | LessThan \<Rightarrow> Some (f64_lt v threshold)
                    | LessThanEquals \<Rightarrow> Some (f64_le v threshold)
                    | _ \<Rightarrow> None) of
                None \<Rightarrow> (NaN, NaN)
              | Some good \<Rightarrow> if good then (interval, interval) else (Fin 0, interval))"

definition slice_units :: "'src sli_config \<Rightarrow> query_row \<Rightarrow> pass_params \<Rightarrow> f64 \<times> f64" where
  "slice_units sli row params =
     (case sli of
        TimeSliceCfg _ _ _ _ _ comparator threshold _ \<Rightarrow>
          classify_time_slice (qr_good row) comparator threshold (pp_slice_interval_secs params)
      | _ \<Rightarrow> (qr_good row, qr_total row))"

definition pass_row :: "pass_params \<Rightarrow> string \<Rightarrow> int \<Rightarrow> f64 \<Rightarrow> f64 \<Rightarrow> slice_row" where
  "pass_row params g t good total' =
     \<lparr>sl_slo_id = pp_slo_id params, sl_definition_generation = pp_definition_generation params, sl_group_key = g,
      sl_slice_start = t, sl_good = good, sl_total = total', sl_rev = pp_rev params, sl_corrected_by = None\<rparr>"

definition build_step :: "'src sli_config \<Rightarrow> pass_params \<Rightarrow> pass_result \<times> string list \<Rightarrow> query_row \<Rightarrow> pass_result \<times> string list" where
  "build_step sli params acc row =
     (case acc of (out, groups) \<Rightarrow>
        (let reject = (\<lambda>reason. (out\<lparr>ps_rejected := ps_rejected out @ [(qr_group_key row, reason)]\<rparr>, groups))
         in if qr_slice_start row < pp_range_start params \<or> qr_slice_start row \<ge> pp_range_end params then reject OffGrid
            else if qr_slice_start row \<noteq> align_down (qr_slice_start row) (pp_slice_interval_secs params) then reject OffGrid
            else
              (let (good, total') = slice_units sli row params
               in case validate_observation good total' of
                    Inl e \<Rightarrow> reject (Observation e)
                  | Inr _ \<Rightarrow>
                      if int (length groups) \<ge> pp_max_groups params \<and> qr_group_key row \<notin> set groups
                      then (out\<lparr>ps_group_overflow := True\<rparr>, groups)
                      else (out\<lparr>ps_slices := ps_slices out @ [pass_row params (qr_group_key row) (qr_slice_start row) good total']\<rparr>,
                            List.insert (qr_group_key row) groups))))"

definition build_slices :: "'src sli_config \<Rightarrow> query_row list \<Rightarrow> pass_params \<Rightarrow> pass_result" where
  "build_slices sli rows params =
     (let (out, groups) = foldl (build_step sli params)
            (\<lparr>ps_slices = [], ps_rejected = [], ps_groups_seen = 0, ps_group_overflow = False\<rparr>, []) rows
      in out\<lparr>ps_groups_seen := length groups\<rparr>)"

definition fill_missing :: "'src sli_config \<Rightarrow> slice_row list \<Rightarrow> pass_params \<Rightarrow> slice_row list" where
  "fill_missing sli present params =
     (let fill = (\<lambda>fill_total.
            (let by_group = sort (remdups (map sl_group_key present));
                 by_group = (if by_group = [] then [[]] else by_group)
             in concat (map (\<lambda>g. map (\<lambda>t. pass_row params g t (Fin 0) fill_total)
                    (filter (\<lambda>t. (g, t) \<notin> set (map slice_key present))
                       (grid_from (pp_range_start params) (pp_range_end params) (pp_slice_interval_secs params)))) by_group)))
      in case gap_fill_policy_for sli of
           CoveredZero \<Rightarrow> fill (Fin 0)
         | CoveredBad \<Rightarrow> fill (as_f64 (pp_slice_interval_secs params))
         | FillNothing \<Rightarrow> [])"

definition rollup_step ::
  "(f64 \<Rightarrow> f64 \<Rightarrow> f64) \<Rightarrow> (int \<times> f64 \<times> f64 \<times> string option) list \<Rightarrow> slice_row \<Rightarrow> (int \<times> f64 \<times> f64 \<times> string option) list" where
  "rollup_step add64 m s =
     (if sl_group_key s = [] then m
      else let (g, t, c) = (case map_of m (sl_slice_start s) of Some e \<Rightarrow> e | None \<Rightarrow> (Fin 0, Fin 0, None))
           in bt_insert (sl_slice_start s)
                (add64 g (sl_good s), add64 t (sl_total s), (case c of Some d \<Rightarrow> Some d | None \<Rightarrow> sl_corrected_by s)) m)"

definition exact_rollup :: "(f64 \<Rightarrow> f64 \<Rightarrow> f64) \<Rightarrow> slice_row list \<Rightarrow> pass_params \<Rightarrow> slice_row list" where
  "exact_rollup add64 slices params =
     map (\<lambda>(t, good, total', c). (pass_row params [] t good total')\<lparr>sl_corrected_by := c\<rparr>)
       (foldl (rollup_step add64) [] slices)"

section \<open>Corrections\<close>

datatype slo_correction_mode = Exclude | CountAsGood

record correction_window =
  cw_downtime_id :: string
  cw_start :: int
  cw_end :: int
  cw_mode :: slo_correction_mode

definition window_for :: "correction_window list \<Rightarrow> int \<Rightarrow> correction_window option" where
  "window_for windows slice_start =
     (let start = saturating_mul slice_start 1000000
      in List.find (\<lambda>w. cw_start w \<le> start \<and> start < cw_end w) windows)"

definition empty_slice :: "string \<Rightarrow> int \<Rightarrow> pass_params \<Rightarrow> slice_row" where
  "empty_slice g t params = pass_row params g t (Fin 0) (Fin 0)"

definition correct :: "slice_row \<Rightarrow> correction_window \<Rightarrow> sli_type \<Rightarrow> int \<Rightarrow> slice_row" where
  "correct s w t slice_interval_secs =
     (let s = s\<lparr>sl_corrected_by := Some (cw_downtime_id w)\<rparr>
      in case (cw_mode w, t) of
           (Exclude, _) \<Rightarrow> s\<lparr>sl_good := Fin 0, sl_total := Fin 0\<rparr>
         | (CountAsGood, SliCount) \<Rightarrow> s\<lparr>sl_good := sl_total s\<rparr>
         | (CountAsGood, _) \<Rightarrow> s\<lparr>sl_good := as_f64 slice_interval_secs, sl_total := as_f64 slice_interval_secs\<rparr>)"

definition correct_in :: "correction_window list \<Rightarrow> sli_type \<Rightarrow> int \<Rightarrow> slice_row \<Rightarrow> slice_row" where
  "correct_in windows t interval s =
     (case window_for windows (sl_slice_start s) of Some w \<Rightarrow> correct s w t interval | None \<Rightarrow> s)"

definition fill_windows :: "slice_row list \<Rightarrow> correction_window list \<Rightarrow> pass_params \<Rightarrow> slice_row list" where
  "fill_windows slices windows params =
     (let groups = sort (remdups (map sl_group_key slices));
          groups = (if groups = [] then [[]] else groups);
          present = set (map slice_key slices)
      in slices @
         concat (map (\<lambda>t. map (\<lambda>g. empty_slice g t params) (filter (\<lambda>g. (g, t) \<notin> present) groups))
           (filter (\<lambda>t. window_for windows t \<noteq> None)
              (grid_from (pp_range_start params) (pp_range_end params) (max (pp_slice_interval_secs params) 1)))))"

definition restore_corrected ::
  "slice_row list \<Rightarrow> correction_window list \<Rightarrow> (string \<times> int) list \<Rightarrow> sli_type \<Rightarrow> pass_params \<Rightarrow> slice_row list \<times> nat" where
  "restore_corrected slices windows corrected_before t params =
     (let present = set (map slice_key slices);
          missing = sort (filter (\<lambda>(g, s). pp_range_start params \<le> s \<and> s < pp_range_end params \<and> (g, s) \<notin> present)
                            (remdups corrected_before));
          restored = map (\<lambda>(g, s). correct_in windows t (pp_slice_interval_secs params) (empty_slice g s params)) missing;
          grouped_starts = set (map sl_slice_start (filter (\<lambda>s. sl_group_key s \<noteq> []) (slices @ restored)));
          keep = (\<lambda>s. sl_group_key s \<noteq> [] \<or> sl_slice_start s \<notin> grouped_starts)
      in (filter keep slices @ filter keep restored, length (filter keep restored)))"

definition apply_corrections ::
  "slice_row list \<Rightarrow> correction_window list \<Rightarrow> (string \<times> int) list \<Rightarrow> sli_type \<Rightarrow> pass_params \<Rightarrow> slice_row list \<times> nat" where
  "apply_corrections slices windows corrected_before t params =
     (if windows = [] \<and> corrected_before = [] then (slices, 0)
      else
        (let filled = fill_windows slices windows params;
             added = length filled - length slices;
             corrected = map (correct_in windows t (pp_slice_interval_secs params)) filled;
             (out, restored) = restore_corrected corrected windows corrected_before t params
         in (out, added + restored)))"

definition remeasure_span :: "correction_window list \<Rightarrow> int \<Rightarrow> int \<Rightarrow> int \<Rightarrow> (int \<times> int) option" where
  "remeasure_span windows frm to slice_interval_secs =
     Option.bind (min_opt (map (\<lambda>w. div_euclid (cw_start w) 1000000) windows)) (\<lambda>start.
     Option.bind (max_opt (map (\<lambda>w. div_euclid (cw_end w + 999999) 1000000) windows)) (\<lambda>end'.
       (let start = align_down (max start frm) slice_interval_secs;
            end' = align_up (min end' to) slice_interval_secs
        in if start < end' then Some (start, end') else None)))"

definition changed_windows :: "correction_window list \<Rightarrow> correction_window list \<Rightarrow> correction_window list" where
  "changed_windows old new = filter (\<lambda>w. w \<notin> set new) old @ filter (\<lambda>w. w \<notin> set old) new"

section \<open>One pass\<close>

definition measure_rows ::
  "(f64 \<Rightarrow> f64 \<Rightarrow> f64) \<Rightarrow> 'src sli_config \<Rightarrow> bool \<Rightarrow> query_row list \<Rightarrow> correction_window list \<Rightarrow> (string \<times> int) list \<Rightarrow>
   pass_params \<Rightarrow> pass_result" where
  "measure_rows add64 sli grouped rows windows corrected_before params =
     (let result = build_slices sli rows params;
          slices = ps_slices result @ fill_missing sli (ps_slices result) params;
          slices = fst (apply_corrections slices windows corrected_before (sli_type_of sli) params);
          slices = (if grouped then slices @ exact_rollup add64 slices params else slices)
      in result\<lparr>ps_slices := slices\<rparr>)"

section \<open>The running aggregate\<close>

record group_delta =
  gd_group_key :: string
  gd_good_delta :: f64
  gd_total_delta :: f64
  gd_covered_slices_delta :: int

definition delta_step :: "(f64 \<Rightarrow> f64 \<Rightarrow> f64) \<Rightarrow> (string \<times> f64 \<times> f64 \<times> int) list \<Rightarrow> slice_row \<Rightarrow> (string \<times> f64 \<times> f64 \<times> int) list" where
  "delta_step add64 m s =
     (let (g, t, n) = (case map_of m (sl_group_key s) of Some e \<Rightarrow> e | None \<Rightarrow> (Fin 0, Fin 0, 0))
      in bt_insert (sl_group_key s) (add64 g (sl_good s), add64 t (sl_total s), n + 1) m)"

definition group_deltas :: "(f64 \<Rightarrow> f64 \<Rightarrow> f64) \<Rightarrow> slice_row list \<Rightarrow> group_delta list" where
  "group_deltas add64 slices =
     map (\<lambda>(g, good, total', n). \<lparr>gd_group_key = g, gd_good_delta = good, gd_total_delta = total', gd_covered_slices_delta = n\<rparr>)
       (foldl (delta_step add64) [] slices)"

datatype writer = Incremental | Backfill

record 'j status_write =
  sw_slo_id :: string
  sw_definition_generation :: int
  sw_writer :: writer
  sw_deltas :: "group_delta list"
  sw_watermark_end :: "int option"
  sw_trailing_slices :: "'j option"
  sw_burn_windows :: "'j option"
  sw_computed_at :: int

text \<open>A row of \<open>slo_status\<close> under its key, the SLO and the group: the columns a status write touches.\<close>

record 'j status_row =
  sg_definition_generation :: int
  sg_good :: "f64 option"
  sg_total :: "f64 option"
  sg_covered_slices :: "int option"
  sg_watermark_end :: "int option"
  sg_trailing_slices :: "'j option"
  sg_burn_windows :: "'j option"
  sg_computed_at :: "int option"

datatype write_outcome = Applied | FencedByGeneration int int

type_synonym 'j status_table = "((string \<times> string) \<times> 'j status_row) list"

definition update_row :: "(string \<times> string) \<Rightarrow> ('j status_row \<Rightarrow> 'j status_row) \<Rightarrow> 'j status_table \<Rightarrow> 'j status_table" where
  "update_row k f t = map (\<lambda>(k', r). (k', if k' = k then f r else r)) t"

definition apply_delta ::
  "(f64 \<Rightarrow> f64 \<Rightarrow> f64) \<Rightarrow> 'j status_write \<Rightarrow> 'j status_table \<Rightarrow> group_delta \<Rightarrow> 'j status_table" where
  "apply_delta add64 w t d =
     (let k = (sw_slo_id w, gd_group_key d); coalesce = (\<lambda>x z. case x of Some v \<Rightarrow> v | None \<Rightarrow> z)
      in if map_of t k \<noteq> None
         then update_row k (\<lambda>r. r\<lparr>sg_good := Some (add64 (coalesce (sg_good r) (Fin 0)) (gd_good_delta d)),
                                 sg_total := Some (add64 (coalesce (sg_total r) (Fin 0)) (gd_total_delta d)),
                                 sg_covered_slices := Some ((case sg_covered_slices r of Some n \<Rightarrow> n | None \<Rightarrow> 0) + gd_covered_slices_delta d),
                                 sg_computed_at := Some (sw_computed_at w)\<rparr>) t
         else t @ [(k, \<lparr>sg_definition_generation = sw_definition_generation w, sg_good = Some (gd_good_delta d),
                        sg_total = Some (gd_total_delta d), sg_covered_slices = Some (gd_covered_slices_delta d),
                        sg_watermark_end = None, sg_trailing_slices = None, sg_burn_windows = None,
                        sg_computed_at = Some (sw_computed_at w)\<rparr>)])"

definition apply_status_in_txn ::
  "(f64 \<Rightarrow> f64 \<Rightarrow> f64) \<Rightarrow> 'j status_table \<Rightarrow> 'j status_write \<Rightarrow> 'j status_table \<times> write_outcome" where
  "apply_status_in_txn add64 t w =
     (let rollup = (sw_slo_id w, []);
          stored = map_option sg_definition_generation (map_of t rollup)
      in if stored \<noteq> None \<and> stored \<noteq> Some (sw_definition_generation w)
         then (t, FencedByGeneration (sw_definition_generation w) (the stored))
         else
           (let t = foldl (apply_delta add64 w) t (sw_deltas w);
                t = (case sw_watermark_end w of
                       Some wm \<Rightarrow> if sw_writer w = Incremental
                                  then update_row rollup (\<lambda>r. r\<lparr>sg_watermark_end := advance_watermark (sg_watermark_end r) wm\<rparr>) t
                                  else t
                     | None \<Rightarrow> t);
                t = (case sw_trailing_slices w of
                       Some x \<Rightarrow> update_row rollup (\<lambda>r. r\<lparr>sg_trailing_slices := Some x\<rparr>) t | None \<Rightarrow> t);
                t = (case sw_burn_windows w of
                       Some x \<Rightarrow> update_row rollup (\<lambda>r. r\<lparr>sg_burn_windows := Some x\<rparr>) t | None \<Rightarrow> t)
            in (t, Applied)))"

text \<open>The burn cache of a pass, computed beside its slices, is the pair of arguments \<open>trailing\<close> and \<open>burn\<close>.\<close>

definition pass_status_write ::
  "(f64 \<Rightarrow> f64 \<Rightarrow> f64) \<Rightarrow> pass_params \<Rightarrow> slice_row list \<Rightarrow> 'j option \<Rightarrow> 'j option \<Rightarrow> int \<Rightarrow> 'j status_write" where
  "pass_status_write add64 params slices trailing burn now_secs =
     \<lparr>sw_slo_id = pp_slo_id params, sw_definition_generation = pp_definition_generation params, sw_writer = Incremental,
      sw_deltas = group_deltas add64 slices, sw_watermark_end = Some (pp_range_end params),
      sw_trailing_slices = trailing, sw_burn_windows = burn, sw_computed_at = now_secs\<rparr>"

section \<open>The latest revision wins\<close>

text \<open>The reference: for each key, in order, the first row of the greatest revision.\<close>

definition latest_of :: "slice_row list \<Rightarrow> string \<times> int \<Rightarrow> slice_row option" where
  "latest_of rows k =
     (let c = filter (\<lambda>r. slice_key r = k) rows
      in if c = [] then None else List.find (\<lambda>r. sl_rev r = Max (sl_rev ` set c)) c)"

lemma bt_insert_set: "fst ` set (bt_insert k v m) = insert k (fst ` set m)"
  by (induction k v m rule: bt_insert.induct) auto

lemma bt_insert_sorted: "sorted_wrt (<) (map fst m) \<Longrightarrow> sorted_wrt (<) (map fst (bt_insert k v m))"
proof (induction m)
  case (Cons e m)
  then show ?case using bt_insert_set [of k v m] by (cases e) (auto simp flip: set_map)
qed simp

lemma bt_insert_get: "sorted_wrt (<) (map fst m) \<Longrightarrow> map_of (bt_insert k v m) x = (if x = k then Some v else map_of m x)"
  by (induction m) (auto dest: order.strict_trans)

lemma find_SomeD: "List.find P xs = Some e \<Longrightarrow> e \<in> set xs \<and> P e"
  by (induction xs) (auto split: if_splits)

lemma latest_of_Some:
  assumes "latest_of rows k = Some e"
  shows "e \<in> set rows" "slice_key e = k" "\<And>r. r \<in> set rows \<Longrightarrow> slice_key r = k \<Longrightarrow> sl_rev r \<le> sl_rev e"
proof -
  let ?c = "filter (\<lambda>r. slice_key r = k) rows"
  have "?c \<noteq> []" and f: "List.find (\<lambda>r. sl_rev r = Max (sl_rev ` set ?c)) ?c = Some e"
    using assms by (auto simp: latest_of_def Let_def split: if_splits)
  then have "e \<in> set ?c" "sl_rev e = Max (sl_rev ` set ?c)" using find_SomeD [OF f] by simp_all
  then show "e \<in> set rows" "slice_key e = k" "\<And>r. r \<in> set rows \<Longrightarrow> slice_key r = k \<Longrightarrow> sl_rev r \<le> sl_rev e" by auto
qed

lemma latest_of_None: "latest_of rows k = None \<longleftrightarrow> (\<forall>r \<in> set rows. slice_key r \<noteq> k)"
proof -
  let ?c = "filter (\<lambda>r. slice_key r = k) rows"
  have "List.find (\<lambda>r. sl_rev r = Max (sl_rev ` set ?c)) ?c \<noteq> None" if "?c \<noteq> []"
  proof -
    have "Max (sl_rev ` set ?c) \<in> sl_rev ` set ?c" using that by (intro Max_in) (simp_all del: set_filter)
    then show ?thesis unfolding find_None_iff by (metis (mono_tags, lifting) imageE)
  qed
  then have "latest_of rows k = None \<longleftrightarrow> ?c = []" unfolding latest_of_def Let_def by presburger
  then show ?thesis by (simp add: filter_empty_conv)
qed

lemma find_append: "List.find P (xs @ ys) = (case List.find P xs of Some x \<Rightarrow> Some x | None \<Rightarrow> List.find P ys)"
  by (induction xs) auto

lemma latest_of_snoc:
  "latest_of (rows @ [x]) k =
     (if slice_key x \<noteq> k then latest_of rows k
      else case latest_of rows k of
             None \<Rightarrow> Some x
           | Some e \<Rightarrow> if sl_rev e \<ge> sl_rev x then Some e else Some x)"
proof (cases "slice_key x = k")
  case True
  let ?c = "filter (\<lambda>r. slice_key r = k) rows"
  show ?thesis
  proof (cases "latest_of rows k")
    case None
    then have "?c = []" by (simp add: latest_of_None filter_empty_conv)
    then show ?thesis using True None by (simp add: latest_of_def)
  next
    case (Some e)
    have ne: "?c \<noteq> []" and fnd: "List.find (\<lambda>r. sl_rev r = Max (sl_rev ` set ?c)) ?c = Some e"
      using Some by (auto simp: latest_of_def Let_def split: if_splits)
    have m: "Max (sl_rev ` set ?c) = sl_rev e" using find_SomeD [OF fnd] by simp
    have mx: "Max (sl_rev ` set (?c @ [x])) = max (sl_rev x) (sl_rev e)"
      using Max_insert [of "sl_rev ` set ?c" "sl_rev x"] ne m by (simp del: set_filter)
    show ?thesis
    proof (cases "sl_rev e \<ge> sl_rev x")
      case True
      then show ?thesis using \<open>slice_key x = k\<close> Some fnd m mx by (simp add: latest_of_def Let_def find_append max_def)
    next
      case False
      have "List.find (\<lambda>r. sl_rev r = sl_rev x) ?c = None"
        using latest_of_Some(3) [OF Some] False by (fastforce simp: find_None_iff)
      then show ?thesis using \<open>slice_key x = k\<close> Some False mx by (simp add: latest_of_def Let_def find_append max_def)
    qed
  qed
qed (simp add: latest_of_def)

lemma dedupe_fold:
  "sorted_wrt (<) (map fst (foldl dedupe_step [] rows)) \<and> set (map fst (foldl dedupe_step [] rows)) = slice_key ` set rows \<and>
   (\<forall>k. map_of (foldl dedupe_step [] rows) k = latest_of rows k)"
proof (induction rows rule: rev_induct)
  case (snoc x rows)
  let ?b = "foldl dedupe_step [] rows"
  have b: "map_of ?b k = latest_of rows k" for k using snoc by blast
  show ?case
  proof (cases "\<exists>e. latest_of rows (slice_key x) = Some e \<and> sl_rev e \<ge> sl_rev x")
    case True
    then have "dedupe_step ?b x = ?b" by (auto simp: dedupe_step_def b)
    moreover have "slice_key x \<in> slice_key ` set rows" using True latest_of_Some(1,2) by (metis image_eqI)
    moreover have "latest_of (rows @ [x]) k = latest_of rows k" for k using True by (auto simp: latest_of_snoc)
    ultimately show ?thesis using snoc by (simp add: insert_absorb)
  next
    case False
    then have d: "dedupe_step ?b x = bt_insert (slice_key x) x ?b"
      by (auto simp: dedupe_step_def b split: option.splits)
    have "latest_of (rows @ [x]) k = (if k = slice_key x then Some x else latest_of rows k)" for k
      using False by (auto simp: latest_of_snoc split: option.splits)
    moreover have "map_of (bt_insert (slice_key x) x ?b) k = (if k = slice_key x then Some x else latest_of rows k)" for k
      using bt_insert_get [of ?b] snoc b by simp
    ultimately show ?thesis using snoc bt_insert_sorted [of ?b] bt_insert_set [of _ _ ?b] by (simp add: d)
  qed
qed (simp add: latest_of_def)

lemma visible_slices_latest:
  "visible_slices rows watermark_end generation =
     (let vis = filter (\<lambda>r. is_visible r watermark_end generation) rows
      in map (\<lambda>k. the (latest_of vis k)) (sorted_list_of_set (slice_key ` set vis)))"
proof -
  define vis where "vis = filter (\<lambda>r. is_visible r watermark_end generation) rows"
  let ?b = "foldl dedupe_step [] vis"
  have sorted: "sorted_wrt (<) (map fst ?b)" and keys: "set (map fst ?b) = slice_key ` set vis"
    and get: "\<And>k. map_of ?b k = latest_of vis k"
    using dedupe_fold [of vis] by blast+
  have "map fst ?b = sorted_list_of_set (slice_key ` set vis)"
    by (rule strict_sorted_equal) (simp_all add: sorted keys [symmetric])
  moreover have "map snd ?b = map (\<lambda>k. the (latest_of vis k)) (map fst ?b)"
    using map_of_eq_Some_iff [of ?b] sorted
    by (auto simp: get [symmetric] strict_sorted_iff intro!: map_cong)
  ultimately show ?thesis
    by (simp add: visible_slices_def dedupe_latest_rev_def vis_def)
qed

lemma latest_of_iff:
  assumes "inj_on (\<lambda>r. (slice_key r, sl_rev r)) (set rows)"
  shows "latest_of rows k = Some r \<longleftrightarrow>
    r \<in> set rows \<and> slice_key r = k \<and> (\<forall>r' \<in> set rows. slice_key r' = k \<longrightarrow> sl_rev r' \<le> sl_rev r)"
proof
  assume "latest_of rows k = Some r"
  then show "r \<in> set rows \<and> slice_key r = k \<and> (\<forall>r' \<in> set rows. slice_key r' = k \<longrightarrow> sl_rev r' \<le> sl_rev r)"
    using latest_of_Some by blast
next
  assume r: "r \<in> set rows \<and> slice_key r = k \<and> (\<forall>r' \<in> set rows. slice_key r' = k \<longrightarrow> sl_rev r' \<le> sl_rev r)"
  then obtain e where e: "latest_of rows k = Some e" using latest_of_None by (cases "latest_of rows k") auto
  have "sl_rev e \<le> sl_rev r" "sl_rev r \<le> sl_rev e" using latest_of_Some [OF e] r by simp_all
  then have "sl_rev e = sl_rev r" by simp
  then have "e = r" using latest_of_Some(1,2) [OF e] r assms by (auto dest: inj_onD)
  then show "latest_of rows k = Some r" using e by simp
qed

text \<open>
  C26. Readers see the latest measurement of each slice, whatever order they read the rows in. Where no two
  different visible rows share their group, slice start and revision, a reader at a watermark and a
  generation gets, in ascending key order, exactly the visible rows that no visible row of the same group
  and slice outdates; and any other list of the same rows, reordered or repeated, gives the same answer.
\<close>

theorem latest_revision_wins:
  assumes "inj_on (\<lambda>r. (slice_key r, sl_rev r)) {r \<in> set rows. is_visible r watermark_end generation}"
    and "set rows' = set rows"
  shows "sorted_wrt (<) (map slice_key (visible_slices rows watermark_end generation)) \<and>
    set (visible_slices rows watermark_end generation) =
      {r \<in> set rows. is_visible r watermark_end generation \<and>
        (\<nexists>r'. r' \<in> set rows \<and> is_visible r' watermark_end generation \<and> slice_key r' = slice_key r \<and> sl_rev r < sl_rev r')} \<and>
    visible_slices rows' watermark_end generation = visible_slices rows watermark_end generation"
proof -
  define vis where "vis = filter (\<lambda>r. is_visible r watermark_end generation) rows"
  define vis' where "vis' = filter (\<lambda>r. is_visible r watermark_end generation) rows'"
  have inj: "inj_on (\<lambda>r. (slice_key r, sl_rev r)) (set vis)" using assms(1) by (simp add: vis_def)
  have same: "set vis' = set vis" using assms(2) by (simp add: vis_def vis'_def)
  then have "latest_of vis' k = Some r \<longleftrightarrow> latest_of vis k = Some r" for k r
    using latest_of_iff [of vis k] latest_of_iff [of vis' k] inj by simp
  then have lat: "latest_of vis' k = latest_of vis k" for k by (metis not_None_eq)
  let ?ks = "sorted_list_of_set (slice_key ` set vis)"
  have out: "visible_slices rows watermark_end generation = map (\<lambda>k. the (latest_of vis k)) ?ks"
    "visible_slices rows' watermark_end generation = map (\<lambda>k. the (latest_of vis' k)) ?ks"
    unfolding visible_slices_latest Let_def vis_def [symmetric] vis'_def [symmetric] same by (rule refl)+
  have some: "\<exists>r. latest_of vis k = Some r" if "k \<in> slice_key ` set vis" for k
    using that latest_of_None by (cases "latest_of vis k") auto
  then have "map slice_key (map (\<lambda>k. the (latest_of vis k)) ?ks) = ?ks"
    unfolding map_map comp_def using latest_of_Some(2) by (intro map_idI) (metis finite_imageI finite_set option.sel set_sorted_list_of_set)
  then have sorted: "sorted_wrt (<) (map slice_key (visible_slices rows watermark_end generation))" by (simp add: out)
  have "r \<in> set (visible_slices rows watermark_end generation) \<longleftrightarrow> latest_of vis (slice_key r) = Some r" for r
  proof
    assume "r \<in> set (visible_slices rows watermark_end generation)"
    then obtain k where k: "k \<in> slice_key ` set vis" "r = the (latest_of vis k)" by (auto simp: out)
    then have "latest_of vis k = Some r" using some [OF k(1)] by auto
    then show "latest_of vis (slice_key r) = Some r" using latest_of_Some(2) by metis
  next
    assume r: "latest_of vis (slice_key r) = Some r"
    then have "slice_key r \<in> slice_key ` set vis" using latest_of_Some(1) by blast
    moreover have "r = the (latest_of vis (slice_key r))" using r by simp
    ultimately show "r \<in> set (visible_slices rows watermark_end generation)" unfolding out by force
  qed
  then have "set (visible_slices rows watermark_end generation) =
      {r \<in> set vis. \<nexists>r'. r' \<in> set vis \<and> slice_key r' = slice_key r \<and> sl_rev r < sl_rev r'}"
    using latest_of_iff [OF inj] by (auto simp: not_less)
  then show ?thesis using sorted lat by (auto simp: out vis_def)
qed

definition seen_slice :: "int \<Rightarrow> int \<Rightarrow> int \<Rightarrow> slice_row" where
  "seen_slice start r good =
     \<lparr>sl_slo_id = ''s'', sl_definition_generation = 1, sl_group_key = [], sl_slice_start = start,
      sl_good = Fin (of_int good), sl_total = Fin 10, sl_rev = r, sl_corrected_by = None\<rparr>"

lemma seen_slice_simps:
  "slice_key (seen_slice t r g) = ([], t)" "sl_rev (seen_slice t r g) = r"
  "is_visible (seen_slice t r g) wm 1 \<longleftrightarrow> t < wm"
  "seen_slice t r g = seen_slice t' r' g' \<longleftrightarrow> t = t' \<and> r = r' \<and> g = g'"
  by (auto simp: seen_slice_def slice_key_def is_visible_def)

theorem latest_revision_wins_witness:
  "set (visible_slices [seen_slice 60 200 9, seen_slice 120 200 7, seen_slice 60 300 8] 180 1) =
     {seen_slice 120 200 7, seen_slice 60 300 8}
   \<and> visible_slices [seen_slice 60 300 8, seen_slice 60 200 9, seen_slice 60 200 9, seen_slice 120 200 7] 180 1 =
       visible_slices [seen_slice 60 200 9, seen_slice 120 200 7, seen_slice 60 300 8] 180 1"
proof -
  let ?rows = "[seen_slice 60 200 9, seen_slice 120 200 7, seen_slice 60 300 8]"
  let ?rows' = "[seen_slice 60 300 8, seen_slice 60 200 9, seen_slice 60 200 9, seen_slice 120 200 7]"
  have inj: "inj_on (\<lambda>r. (slice_key r, sl_rev r)) {r \<in> set ?rows. is_visible r 180 1}"
    by (auto simp: inj_on_def seen_slice_simps)
  have same: "set ?rows' = set ?rows" by auto
  have kept: "{r \<in> set ?rows. is_visible r 180 1 \<and>
      (\<nexists>r'. r' \<in> set ?rows \<and> is_visible r' 180 1 \<and> slice_key r' = slice_key r \<and> sl_rev r < sl_rev r')} =
    {seen_slice 120 200 7, seen_slice 60 300 8}"
    by (auto simp: seen_slice_simps dest!: spec [of _ "seen_slice 60 300 8"])
  from latest_revision_wins [OF inj same]
  have "set (visible_slices ?rows 180 1) = {r \<in> set ?rows. is_visible r 180 1 \<and>
      (\<nexists>r'. r' \<in> set ?rows \<and> is_visible r' 180 1 \<and> slice_key r' = slice_key r \<and> sl_rev r < sl_rev r')}"
    and "visible_slices ?rows' 180 1 = visible_slices ?rows 180 1" by blast+
  then show ?thesis unfolding kept by blast
qed

section \<open>What a pass writes\<close>

definition grid :: "pass_params \<Rightarrow> int set" where
  "grid params = {t. pp_range_start params \<le> t \<and> t < pp_range_end params \<and> pp_slice_interval_secs params dvd t}"

definition slice_ok :: "pass_params \<Rightarrow> slice_row \<Rightarrow> bool" where
  "slice_ok params s \<longleftrightarrow>
     sl_slice_start s \<in> grid params \<and> sl_slo_id s = pp_slo_id params \<and> sl_rev s = pp_rev params \<and>
     sl_definition_generation s = pp_definition_generation params \<and>
     (\<exists>g n. sl_good s = Fin g \<and> sl_total s = Fin n \<and> 0 \<le> g \<and> g \<le> n)"

lemma validate_observation_ok:
  "validate_observation good total' = Ok () \<longleftrightarrow> (\<exists>g n. good = Fin g \<and> total' = Fin n \<and> 0 \<le> g \<and> g \<le> n)"
  by (cases good; cases total') (auto simp: validate_observation_def is_finite_def)

definition build_ok :: "pass_params \<Rightarrow> query_row list \<Rightarrow> pass_result \<times> string list \<Rightarrow> bool" where
  "build_ok params rows acc \<longleftrightarrow>
     (\<forall>s \<in> set (ps_slices (fst acc)). slice_ok params s \<and> sl_corrected_by s = None) \<and>
     distinct (snd acc) \<and> set (snd acc) = sl_group_key ` set (ps_slices (fst acc)) \<and>
     int (length (snd acc)) \<le> max 0 (pp_max_groups params) \<and>
     length (ps_slices (fst acc)) + length (ps_rejected (fst acc)) \<le> length rows \<and>
     (\<not> ps_group_overflow (fst acc) \<longrightarrow> length (ps_slices (fst acc)) + length (ps_rejected (fst acc)) = length rows)"

lemma build_step_ok:
  assumes i: "0 < pp_slice_interval_secs params" and acc: "build_ok params rows acc"
  shows "build_ok params (rows @ [row]) (build_step sli params acc row)"
proof -
  obtain out groups where a: "acc = (out, groups)" by fastforce
  obtain good n where u: "slice_units sli row params = (good, n)" by fastforce
  have reject: "build_ok params (rows @ [row]) (out\<lparr>ps_rejected := ps_rejected out @ [x]\<rparr>, groups)" for x
    using acc by (auto simp: build_ok_def a)
  show ?thesis
  proof (cases "pp_range_start params \<le> qr_slice_start row \<and> qr_slice_start row < pp_range_end params \<and>
      pp_slice_interval_secs params dvd qr_slice_start row \<and> validate_observation good n = Ok ()")
    case False
    then show ?thesis using reject align_down_fixed [OF i, of "qr_slice_start row"]
      by (auto simp: build_step_def a u Let_def split: sum.split)
  next
    case True
    then have "slice_ok params (pass_row params (qr_group_key row) (qr_slice_start row) good n)"
      by (auto simp: slice_ok_def pass_row_def grid_def validate_observation_ok)
    moreover have "build_step sli params acc row =
        (if int (length groups) \<ge> pp_max_groups params \<and> qr_group_key row \<notin> set groups
         then (out\<lparr>ps_group_overflow := True\<rparr>, groups)
         else (out\<lparr>ps_slices := ps_slices out @ [pass_row params (qr_group_key row) (qr_slice_start row) good n]\<rparr>,
               List.insert (qr_group_key row) groups))"
      using True align_down_fixed [OF i, of "qr_slice_start row"] by (simp add: build_step_def a u)
    ultimately show ?thesis using acc by (auto simp: build_ok_def a pass_row_def List.insert_def)
  qed
qed

lemma build_slices_ok:
  assumes "0 < pp_slice_interval_secs params"
  shows "\<exists>groups. build_ok params rows (build_slices sli rows params, groups) \<and> ps_groups_seen (build_slices sli rows params) = length groups"
proof -
  let ?init = "(\<lparr>ps_slices = [], ps_rejected = [], ps_groups_seen = 0, ps_group_overflow = False\<rparr>, [] :: string list)"
  have "build_ok params rows (foldl (build_step sli params) ?init rows)"
    by (induction rows rule: rev_induct) (simp add: build_ok_def, simp add: build_step_ok assms)
  then show ?thesis by (auto simp: build_slices_def build_ok_def split: prod.splits)
qed

lemma grid_from_grid:
  assumes "0 < pp_slice_interval_secs params" "pp_slice_interval_secs params dvd pp_range_start params"
  shows "set (grid_from (pp_range_start params) (pp_range_end params) (pp_slice_interval_secs params)) = grid params"
  using assms by (auto simp: grid_from_iff grid_def dvd_diff_left_iff)

lemma distinct_grid_from: "0 < step \<Longrightarrow> distinct (grid_from s hi step)"
proof (induction s hi step rule: grid_from.induct)
  case (1 s hi step)
  then show ?case by (subst grid_from.simps) (auto simp: grid_from_iff)
qed

lemma as_f64_nonneg: "0 \<le> i \<Longrightarrow> \<exists>x. as_f64 i = Fin x \<and> 0 \<le> x"
  by (cases "i = 0") (simp_all add: as_f64_def)

lemma distinct_product: "distinct xs \<Longrightarrow> (\<And>x. x \<in> set xs \<Longrightarrow> distinct (ys x)) \<Longrightarrow> distinct (concat (map (\<lambda>x. map (Pair x) (ys x)) xs))"
  by (induction xs) (auto simp: distinct_map inj_on_def)

text \<open>
  C30. A pass measures the whole grid or says nothing. Every row it writes for the rows a query returned, and
  every row it fills in, is on the slice grid, inside the range, of the pass's revision and generation, with
  finite units and no more good than total ones. Where an empty bucket means something (a count, or a time
  slice for which silence is bad), the rows of the pass are exactly one per missing pair of a group seen
  and a slice of the grid beside those measured, so that no pair is left out; where it means nothing, not a
  single row is filled in.
\<close>

theorem pass_covers_grid:
  fixes params :: pass_params
  assumes "0 < pp_slice_interval_secs params" "pp_slice_interval_secs params dvd pp_range_start params"
  defines "built \<equiv> \<lambda>sli rows. ps_slices (build_slices sli rows params)"
  shows "(\<forall>s \<in> set (built sli rows @ fill_missing sli (built sli rows) params). slice_ok params s) \<and>
    distinct (map slice_key (fill_missing sli (built sli rows) params)) \<and>
    (if gap_fill_policy_for sli = FillNothing then fill_missing sli (built sli rows) params = []
     else slice_key ` set (fill_missing sli (built sli rows) params) =
       ((if built sli rows = [] then {[]} else sl_group_key ` set (built sli rows)) \<times> grid params)
         - slice_key ` set (built sli rows))"
proof -
  let ?b = "built sli rows"
  let ?ts = "grid_from (pp_range_start params) (pp_range_end params) (pp_slice_interval_secs params)"
  define gs where "gs = (if ?b = [] then [[]] else sort (remdups (map sl_group_key ?b)))"
  define tot where "tot = (if gap_fill_policy_for sli = CoveredZero then Fin 0 else as_f64 (pp_slice_interval_secs params))"
  define miss where "miss = (\<lambda>g. filter (\<lambda>t. (g, t) \<notin> set (map slice_key ?b)) ?ts)"
  have sort_nil: "sort (remdups (map sl_group_key ?b)) = [] \<longleftrightarrow> ?b = []" by (metis map_is_Nil_conv remdups_eq_nil_iff set_empty set_sort)
  have gs: "set gs = (if ?b = [] then {[]} else sl_group_key ` set ?b)" "distinct gs" by (simp_all add: gs_def)
  have tot: "\<exists>n. tot = Fin n \<and> 0 \<le> n" using as_f64_nonneg assms(1) by (simp add: tot_def)
  define F where "F = concat (map (\<lambda>g. map (\<lambda>t. pass_row params g t (Fin 0) tot) (miss g)) gs)"
  have fill: "fill_missing sli ?b params = (if gap_fill_policy_for sli = FillNothing then [] else F)"
    using sort_nil by (auto simp: fill_missing_def Let_def gs_def tot_def miss_def F_def split: gap_fill.split)
  have key: "slice_key (pass_row params g t x y) = (g, t)" for g t x y by (simp add: slice_key_def pass_row_def)
  have keys: "map slice_key F = concat (map (\<lambda>g. map (Pair g) (miss g)) gs)"
    by (simp add: F_def map_concat comp_def key)
  have dist: "distinct (map slice_key F)"
    unfolding keys using distinct_grid_from [OF assms(1)] by (intro distinct_product gs) (simp add: miss_def)
  have "slice_key ` set F = set (concat (map (\<lambda>g. map (Pair g) (miss g)) gs))" by (simp only: keys [symmetric] set_map)
  also have "\<dots> = set gs \<times> grid params - slice_key ` set ?b"
    using grid_from_grid [OF assms(1,2)] by (auto simp: miss_def)
  finally have set: "slice_key ` set F = set gs \<times> grid params - slice_key ` set ?b" .
  have ok: "\<forall>s \<in> set F. slice_ok params s"
    using tot grid_from_grid [OF assms(1,2)] by (auto simp: F_def slice_ok_def pass_row_def miss_def)
  have built: "\<forall>s \<in> set ?b. slice_ok params s"
    using build_slices_ok [OF assms(1), of rows sli] by (auto simp: built_def build_ok_def)
  show ?thesis unfolding fill using dist set ok built gs(1) by auto
qed

section \<open>Corrections\<close>

lemma correct_in_key [simp]: "slice_key (correct_in ws t i s) = slice_key s"
  by (auto simp: correct_in_def correct_def slice_key_def Let_def
      split: option.split slo_correction_mode.split sli_type.split)

lemma correct_in_group [simp]: "sl_group_key (correct_in ws t i s) = sl_group_key s" "sl_slice_start (correct_in ws t i s) = sl_slice_start s"
  using correct_in_key [of ws t i s] by (simp_all only: slice_key_def prod.inject)

lemma empty_slice_key [simp]: "slice_key (empty_slice g t params) = (g, t)"
  by (simp add: empty_slice_def pass_row_def slice_key_def)

lemma empty_slice_group [simp]: "sl_group_key (empty_slice g t params) = g" "sl_slice_start (empty_slice g t params) = t"
  by (simp_all add: empty_slice_def pass_row_def)

definition window_slots :: "slice_row list \<Rightarrow> correction_window list \<Rightarrow> pass_params \<Rightarrow> (string \<times> int) set" where
  "window_slots slices windows params =
     (if slices = [] then {[]} else sl_group_key ` set slices) \<times> {t \<in> grid params. window_for windows t \<noteq> None}"

lemma fill_windows_spec:
  assumes "0 < pp_slice_interval_secs params" "pp_slice_interval_secs params dvd pp_range_start params"
  shows "set (fill_windows slices windows params) =
    set slices \<union> (\<lambda>(g, t). empty_slice g t params) ` (window_slots slices windows params - slice_key ` set slices)"
proof -
  let ?ts = "grid_from (pp_range_start params) (pp_range_end params) (max (pp_slice_interval_secs params) 1)"
  have ts: "set ?ts = grid params" using grid_from_grid [OF assms] assms(1) by simp
  have "sort (remdups (map sl_group_key slices)) = [] \<longleftrightarrow> slices = []"
    by (metis map_is_Nil_conv remdups_eq_nil_iff set_empty set_sort)
  then show ?thesis
    by (auto simp: fill_windows_def Let_def ts window_slots_def image_iff)
qed

definition correction_keys :: "slice_row list \<Rightarrow> correction_window list \<Rightarrow> (string \<times> int) list \<Rightarrow> pass_params \<Rightarrow> (string \<times> int) set" where
  "correction_keys slices windows before params =
     slice_key ` set slices \<union> window_slots slices windows params \<union>
     {k \<in> set before. pp_range_start params \<le> snd k \<and> snd k < pp_range_end params}"

definition overall_if_alone :: "(string \<times> int) set \<Rightarrow> (string \<times> int) set" where
  "overall_if_alone K = {k \<in> K. fst k \<noteq> [] \<or> \<not> (\<exists>g. g \<noteq> [] \<and> (g, snd k) \<in> K)}"

lemma restore_corrected_spec:
  "set (fst (restore_corrected slices windows before t params)) =
     (let rows = set slices \<union> (\<lambda>(g, s). correct_in windows t (pp_slice_interval_secs params) (empty_slice g s params)) `
            {k \<in> set before. pp_range_start params \<le> snd k \<and> snd k < pp_range_end params \<and> k \<notin> slice_key ` set slices}
      in {s \<in> rows. slice_key s \<in> overall_if_alone (slice_key ` rows)})"
proof -
  define miss where "miss = {k \<in> set before. pp_range_start params \<le> snd k \<and> snd k < pp_range_end params \<and> k \<notin> slice_key ` set slices}"
  define R where "R = map (\<lambda>(g, s). correct_in windows t (pp_slice_interval_secs params) (empty_slice g s params))
    (sort (filter (\<lambda>(g, s). pp_range_start params \<le> s \<and> s < pp_range_end params \<and> (g, s) \<notin> set (map slice_key slices)) (remdups before)))"
  define rows where "rows = set slices \<union> set R"
  have R: "set R = (\<lambda>(g, s). correct_in windows t (pp_slice_interval_secs params) (empty_slice g s params)) ` miss"
    by (auto simp: R_def miss_def image_iff)
  have starts: "set (map sl_slice_start (filter (\<lambda>s. sl_group_key s \<noteq> []) (slices @ R))) = {x. \<exists>g. g \<noteq> [] \<and> (g, x) \<in> slice_key ` rows}"
    by (auto simp: rows_def slice_key_def image_iff)
  have "set (fst (restore_corrected slices windows before t params)) =
      {s \<in> rows. sl_group_key s \<noteq> [] \<or> sl_slice_start s \<notin> set (map sl_slice_start (filter (\<lambda>s. sl_group_key s \<noteq> []) (slices @ R)))}"
    unfolding restore_corrected_def Let_def R_def [symmetric] rows_def by auto
  also have "\<dots> = {s \<in> rows. slice_key s \<in> overall_if_alone (slice_key ` rows)}"
    unfolding starts by (auto simp: overall_if_alone_def slice_key_def [abs_def])
  finally show ?thesis by (simp add: Let_def rows_def R miss_def)
qed


lemma build_slices_accepts:
  assumes i: "0 < pp_slice_interval_secs params" and max: "1 \<le> pp_max_groups params"
    and "\<forall>row \<in> set rows. qr_slice_start row \<in> grid params \<and> qr_group_key row = g \<and>
      validate_observation (qr_good row) (qr_total row) = Ok ()"
  shows "build_slices (AlertCfg a :: 'src sli_config) rows params =
    \<lparr>ps_slices = map (\<lambda>row. pass_row params g (qr_slice_start row) (qr_good row) (qr_total row)) rows,
     ps_rejected = [], ps_groups_seen = (if rows = [] then 0 else 1), ps_group_overflow = False\<rparr>"
proof -
  let ?init = "(\<lparr>ps_slices = [], ps_rejected = [], ps_groups_seen = 0, ps_group_overflow = False\<rparr>, [] :: string list)"
  have "foldl (build_step (AlertCfg a :: 'src sli_config) params) ?init rows =
      (\<lparr>ps_slices = map (\<lambda>row. pass_row params g (qr_slice_start row) (qr_good row) (qr_total row)) rows,
        ps_rejected = [], ps_groups_seen = 0, ps_group_overflow = False\<rparr>, if rows = [] then [] else [g])"
    using assms(3)
  proof (induction rows rule: rev_induct)
    case (snoc row rows)
    moreover from this have "align_down (qr_slice_start row) (pp_slice_interval_secs params) = qr_slice_start row"
      using i by (simp add: align_down_fixed grid_def)
    ultimately show ?case using max by (auto simp: build_step_def slice_units_def grid_def)
  qed simp
  then show ?thesis by (simp add: build_slices_def)
qed

section \<open>Examples\<close>

definition example_params :: pass_params where
  "example_params = \<lparr>pp_slo_id = ''s'', pp_definition_generation = 1, pp_range_start = 60, pp_range_end = 180,
     pp_slice_interval_secs = 60, pp_rev = 180, pp_max_groups = 5\<rparr>"

definition example_window :: correction_window where
  "example_window = \<lparr>cw_downtime_id = ''d'', cw_start = 120000000, cw_end = 180000000, cw_mode = Exclude\<rparr>"

lemma example_grid: "grid example_params = {60, 120}"
proof -
  have "t = 60 \<or> t = 120" if "60 \<le> t" "t < 180" "60 dvd t" for t :: int using that by presburger
  then show ?thesis by (auto simp: grid_def example_params_def)
qed

theorem pass_covers_grid_witness:
  "slice_key ` set (fill_missing (CountCfg ()) [] example_params) = {([], 60), ([], 120)}"
  using pass_covers_grid [of example_params "CountCfg ()" "[]"]
  by (simp add: example_grid gap_fill_policy_for_def build_slices_def) (simp add: example_params_def)


text \<open>
  A pass reaches back over slices an earlier pass has measured, for late data, and adds all of its rows to the
  running aggregate: in the history below the aggregate counts five slices covered where there are four.
\<close>

definition next_params :: pass_params where
  "next_params = example_params\<lparr>pp_range_start := 120, pp_range_end := 300, pp_rev := 300\<rparr>"

definition empty_pass :: "pass_params \<Rightarrow> slice_row list" where
  "empty_pass params = ps_slices (measure_rows (\<lambda>a b. a) (CountCfg ()) False [] [] [] params)"

theorem recomputed_slice_counted_twice:
  "length (visible_slices (empty_pass example_params @ empty_pass next_params) 300 1) = 4 \<and>
   map_option sg_covered_slices
     (map_of (fst (apply_status_in_txn (\<lambda>a b. a)
        (fst (apply_status_in_txn (\<lambda>a b. a) [] (pass_status_write (\<lambda>a b. a) example_params (empty_pass example_params) (None :: unit option) None 190)))
        (pass_status_write (\<lambda>a b. a) next_params (empty_pass next_params) None None 310))) (''s'', [])) = Some (Some 5)"
proof
  show "length (visible_slices (empty_pass example_params @ empty_pass next_params) 300 1) = 4" by code_simp
  show "map_option sg_covered_slices
     (map_of (fst (apply_status_in_txn (\<lambda>a b. a)
        (fst (apply_status_in_txn (\<lambda>a b. a) [] (pass_status_write (\<lambda>a b. a) example_params (empty_pass example_params) (None :: unit option) None 190)))
        (pass_status_write (\<lambda>a b. a) next_params (empty_pass next_params) None None 310))) (''s'', [])) = Some (Some 5)" by code_simp
qed

end
