(* ===== verification/Slo_Alert.thy ===== *)
theory Slo_Alert
  imports Slo_Pass OO_Strings
begin

text \<open>
  Alerts on an SLO: the trailing buffer and the burn windows a pass keeps on the status row
  (\<open>src/config/src/meta/slo/burn.rs\<close>, \<open>build_burn_cache\<close> of \<open>src/core/src/slo/job.rs\<close>), the SLO arithmetic
  (\<open>math.rs\<close>), what counts as a measurement (\<open>coverage.rs\<close>), the validation and classification of an alert
  condition (\<open>condition.rs\<close>) and its evaluation against the status row (\<open>src/core/src/slo/evaluate.rs\<close>).
  Arithmetic on \<open>f64\<close> is the record \<open>f64_arith\<close>, about which nothing is assumed. A JSON number is the \<open>f64\<close>
  or the integer it was made of; a non-finite \<open>f64\<close> becomes null.
\<close>

section \<open>JSON columns\<close>

datatype json = JNull | JNum f64 | JInt int | JArr "json list" | JObj "(string \<times> json) list"

definition json_f64 :: "f64 \<Rightarrow> json" where
  "json_f64 v = (if is_finite v then JNum v else JNull)"

fun json_as_f64 :: "json \<Rightarrow> f64 option" where
  "json_as_f64 (JNum v) = Some v"
| "json_as_f64 (JInt i) = Some (as_f64 i)"
| "json_as_f64 _ = None"

fun json_as_i64 :: "json \<Rightarrow> int option" where
  "json_as_i64 (JInt i) = Some i"
| "json_as_i64 _ = None"

fun json_get :: "json \<Rightarrow> string \<Rightarrow> json option" where
  "json_get (JObj m) k = map_of m k"
| "json_get _ k = None"

section \<open>The trailing buffer\<close>

type_synonym trailing_slices = "(int \<times> f64 \<times> f64) list"

record window_agg =
  wa_good :: f64
  wa_total :: f64
  wa_covered :: int
  wa_expected :: int

definition parse_entry :: "json \<Rightarrow> (f64 \<times> f64) option" where
  "parse_entry entry =
     (case entry of
        JArr pair \<Rightarrow>
          (case pair of
             a # b # _ \<Rightarrow> (case (json_as_f64 a, json_as_f64 b) of (Some good, Some tot) \<Rightarrow> Some (good, tot) | _ \<Rightarrow> None)
           | _ \<Rightarrow> None)
      | _ \<Rightarrow> None)"

definition parse_step :: "trailing_slices \<Rightarrow> string \<times> json \<Rightarrow> trailing_slices" where
  "parse_step out e =
     (case (parse_i64 (fst e), parse_entry (snd e)) of
        (Some slice_start, Some v) \<Rightarrow> bt_insert slice_start v out
      | _ \<Rightarrow> out)"

definition parse_trailing :: "json option \<Rightarrow> trailing_slices" where
  "parse_trailing v = (case v of Some (JObj m) \<Rightarrow> foldl parse_step [] m | _ \<Rightarrow> [])"

definition trailing_to_json :: "trailing_slices \<Rightarrow> json" where
  "trailing_to_json buf =
     JObj (map (\<lambda>(slice_start, good, tot). (show_int slice_start, JArr [json_f64 good, json_f64 tot])) buf)"

definition fold_trailing :: "trailing_slices \<Rightarrow> (int \<times> f64 \<times> f64) list \<Rightarrow> int \<Rightarrow> int \<Rightarrow> trailing_slices" where
  "fold_trailing buf new_slices watermark_end retain =
     (let buf = foldl (\<lambda>b (slice_start, good, tot). bt_insert slice_start (good, tot) b) buf new_slices;
          horizon = watermark_end - max retain 0
      in filter (\<lambda>e. horizon \<le> fst e) buf)"

definition retain_secs :: "int list \<Rightarrow> int" where
  "retain_secs durations = (case max_opt durations of Some m \<Rightarrow> m | None \<Rightarrow> 0)"

definition durations_for_pairs :: "(int \<times> int) list \<Rightarrow> nat \<Rightarrow> int list" where
  "durations_for_pairs pairs max_pairs =
     (let distinct' = take max_pairs (remdups_adj (sort (filter (\<lambda>(l, s). l > 0 \<and> s > 0) pairs)))
      in remdups_adj (sort (concat (map (\<lambda>(l, s). [l, s]) distinct'))))"

section \<open>Burn windows\<close>

record f64_arith =
  ar_add :: "f64 \<Rightarrow> f64 \<Rightarrow> f64"
  ar_sub :: "f64 \<Rightarrow> f64 \<Rightarrow> f64"
  ar_mul :: "f64 \<Rightarrow> f64 \<Rightarrow> f64"
  ar_div :: "f64 \<Rightarrow> f64 \<Rightarrow> f64"

definition window_aggregate :: "f64_arith \<Rightarrow> trailing_slices \<Rightarrow> int \<Rightarrow> int \<Rightarrow> int \<Rightarrow> window_agg" where
  "window_aggregate fa buf window_secs watermark_end slice_interval_secs =
     (let frm = watermark_end - window_secs;
          (good, tot, cvd) =
            foldl (\<lambda>(good, tot, cvd) (_, g, t). (ar_add fa good g, ar_add fa tot t, cvd + 1)) (Fin 0, Fin 0, 0)
              (filter (\<lambda>e. frm \<le> fst e \<and> fst e < watermark_end) buf)
      in \<lparr>wa_good = good, wa_total = tot, wa_covered = cvd,
          wa_expected = expected_slices frm watermark_end slice_interval_secs\<rparr>)"

definition agg_json :: "window_agg \<Rightarrow> json" where
  "agg_json a = JObj [(''good'', json_f64 (wa_good a)), (''total'', json_f64 (wa_total a)),
                      (''covered'', JInt (wa_covered a)), (''expected'', JInt (wa_expected a))]"

definition burn_windows_json :: "f64_arith \<Rightarrow> trailing_slices \<Rightarrow> int list \<Rightarrow> int \<Rightarrow> int \<Rightarrow> json" where
  "burn_windows_json fa buf durations watermark_end slice_interval_secs =
     (let distinct' = remdups_adj (sort (filter (\<lambda>d. d > 0) durations))
      in JObj (map (\<lambda>d. (show_int d, agg_json (window_aggregate fa buf d watermark_end slice_interval_secs))) distinct'))"

definition fold_burn_cache ::
  "f64_arith \<Rightarrow> trailing_slices \<Rightarrow> (int \<times> f64 \<times> f64) list \<Rightarrow> int \<Rightarrow> int list \<Rightarrow> int \<Rightarrow> json \<times> json" where
  "fold_burn_cache fa buf rollup watermark_end durations slice_interval_secs =
     (let buf = fold_trailing buf rollup watermark_end (retain_secs durations);
          windows = burn_windows_json fa buf durations watermark_end slice_interval_secs
      in (trailing_to_json buf, windows))"

definition build_burn_cache ::
  "f64_arith \<Rightarrow> int \<Rightarrow> int \<Rightarrow> json status_row option \<Rightarrow> slice_row list \<Rightarrow> int \<Rightarrow> int list \<Rightarrow> json option \<times> json option" where
  "build_burn_cache fa generation slice_interval_secs rollup_row slices watermark_end durations =
     (if durations = [] then (None, None)
      else
        (let prev = (case rollup_row of
               Some row \<Rightarrow> if sg_definition_generation row = generation then sg_trailing_slices row else None
             | None \<Rightarrow> None);
             buf = parse_trailing prev;
             rollup = map (\<lambda>s. (sl_slice_start s, sl_good s, sl_total s)) (filter (\<lambda>s. sl_group_key s = []) slices);
             (trailing, windows) = fold_burn_cache fa buf rollup watermark_end durations slice_interval_secs
         in (Some trailing, Some windows)))"

section \<open>Arithmetic\<close>

definition sli :: "f64_arith \<Rightarrow> f64 \<Rightarrow> f64 \<Rightarrow> f64 option" where
  "sli fa good tot = (if tot = NaN \<or> f64_le tot (Fin 0) then None else Some (ar_div fa (ar_mul fa (Fin 100) good) tot))"

definition error_rate :: "f64_arith \<Rightarrow> f64 \<Rightarrow> f64" where
  "error_rate fa s = ar_sub fa (Fin 100) s"

definition burn_rate :: "f64_arith \<Rightarrow> f64 \<Rightarrow> f64 \<Rightarrow> f64" where
  "burn_rate fa s target = ar_div fa (error_rate fa s) (ar_sub fa (Fin 100) target)"

definition max_burn_rate :: "f64_arith \<Rightarrow> f64 \<Rightarrow> f64" where
  "max_burn_rate fa target = ar_div fa (Fin 100) (ar_sub fa (Fin 100) target)"

definition error_budget_consumed :: "f64_arith \<Rightarrow> f64 \<Rightarrow> f64 \<Rightarrow> f64" where
  "error_budget_consumed fa s target = ar_mul fa (Fin 100) (burn_rate fa s target)"

definition error_budget_remaining :: "f64_arith \<Rightarrow> f64 \<Rightarrow> f64 \<Rightarrow> f64" where
  "error_budget_remaining fa s target = ar_sub fa (Fin 100) (error_budget_consumed fa s target)"

section \<open>Observations\<close>

definition f64_clamp :: "f64 \<Rightarrow> f64 \<Rightarrow> f64 \<Rightarrow> f64" where
  "f64_clamp x lo hi = (if f64_lt x lo then lo else if f64_lt hi x then hi else x)"

definition coverage :: "f64_arith \<Rightarrow> int \<Rightarrow> int \<Rightarrow> f64" where
  "coverage fa observed expected =
     (if expected \<le> 0 then Fin 0 else f64_clamp (ar_div fa (as_f64 observed) (as_f64 expected)) (Fin 0) (Fin 1))"

record window_read =
  wr_good :: f64
  wr_total :: f64
  wr_observed_slices :: int
  wr_expected_slices :: int

datatype unobserved_reason = BelowCoverageFloor | ZeroTotal | StaleWatermark

datatype observation = Observed f64 | Unobserved unobserved_reason

definition observation_sli :: "observation \<Rightarrow> f64 option" where
  "observation_sli obs = (case obs of Observed s \<Rightarrow> Some s | Unobserved _ \<Rightarrow> None)"

definition observe :: "f64_arith \<Rightarrow> window_read \<Rightarrow> f64 \<Rightarrow> bool \<Rightarrow> observation" where
  "observe fa read coverage_floor watermark_stale =
     (if watermark_stale then Unobserved StaleWatermark
      else if f64_lt (coverage fa (wr_observed_slices read) (wr_expected_slices read)) coverage_floor
      then Unobserved BelowCoverageFloor
      else case sli fa (wr_good read) (wr_total read) of Some s \<Rightarrow> Observed s | None \<Rightarrow> Unobserved ZeroTotal)"

definition is_no_data :: "f64_arith \<Rightarrow> window_read \<Rightarrow> f64 \<Rightarrow> bool" where
  "is_no_data fa read coverage_floor = f64_lt (coverage fa (wr_observed_slices read) (wr_expected_slices read)) coverage_floor"

section \<open>Conditions\<close>

datatype slo_alert_kind = ErrorBudget | BurnRate

record slo_condition =
  sc_slo_id :: string
  sc_kind :: slo_alert_kind
  sc_operator :: operator
  sc_critical :: f64
  sc_warning :: "f64 option"
  sc_long_window_secs :: "int option"
  sc_short_window_secs :: "int option"
  sc_multi_alert :: bool

record slo_facts =
  sf_target :: f64
  sf_window_secs :: int
  sf_slice_interval_secs :: int
  sf_is_grouped :: bool

datatype slo_condition_error =
    OperatorNotAscending operator
  | ThresholdNotFinitePositive string f64
  | WarningNotLessSevere f64 f64
  | BurnRateAboveMax f64 f64
  | ErrorBudgetOutOfRange f64
  | LongWindowOutOfRange int
  | WindowNotSliceMultiple int int
  | WindowTooFewSlices int int string
  | ShortWindowExceedsLong int int
  | WindowExceedsSloWindow int int
  | WindowsMismatchedForKind slo_alert_kind
  | CountGateNotSupported
  | MultiAlertRequiresGroupedSlo
  | MultiAlertNotImplemented
  | TooManyBurnWindowPairs nat nat

definition min_window_secs :: "int \<Rightarrow> int" where
  "min_window_secs slice_interval_secs = 2 * slice_interval_secs"

definition default_short_window_secs :: "int \<Rightarrow> int \<Rightarrow> int" where
  "default_short_window_secs long_window_secs slice_interval_secs =
     (if slice_interval_secs \<le> 0 then long_window_secs
      else let raw = long_window_secs sdiv 12;
               on_grid = (raw sdiv slice_interval_secs) * slice_interval_secs
           in max on_grid (min_window_secs slice_interval_secs))"

abbreviation guard :: "bool \<Rightarrow> 'e \<Rightarrow> (unit, 'e) result \<Rightarrow> (unit, 'e) result" where
  "guard refused e rest \<equiv> (if refused then Err e else rest)"

text \<open>One list of checks per numbered step of the source, in its order; \<open>guard\<close> is an early return.\<close>

definition check_presence :: "slo_condition \<Rightarrow> (unit, slo_condition_error) result" where
  "check_presence cond =
     (case sc_kind cond of
        BurnRate \<Rightarrow> guard (sc_long_window_secs cond = None \<or> sc_short_window_secs cond = None) (WindowsMismatchedForKind BurnRate) (Ok ())
      | ErrorBudget \<Rightarrow>
          guard (sc_long_window_secs cond \<noteq> None \<or> sc_short_window_secs cond \<noteq> None) (WindowsMismatchedForKind ErrorBudget) (Ok ()))"

definition check_thresholds :: "f64_arith \<Rightarrow> slo_condition \<Rightarrow> slo_facts \<Rightarrow> (unit, slo_condition_error) result" where
  "check_thresholds fa cond slo =
     guard (sc_operator cond \<notin> {GreaterThan, GreaterThanEquals}) (OperatorNotAscending (sc_operator cond))
     (case try_each (\<lambda>(field, value). case value of
              Some v \<Rightarrow> guard (\<not> is_finite v \<or> f64_le v (Fin 0)) (ThresholdNotFinitePositive field v) (Ok ())
            | None \<Rightarrow> Ok ()) [(''critical'', Some (sc_critical cond)), (''warning'', sc_warning cond)] of
        Inl e \<Rightarrow> Err e
      | Inr _ \<Rightarrow>
          guard (sc_kind cond = BurnRate \<and> f64_lt (max_burn_rate fa (sf_target slo)) (sc_critical cond))
            (BurnRateAboveMax (sc_critical cond) (max_burn_rate fa (sf_target slo)))
          (guard (sc_kind cond = ErrorBudget \<and> f64_lt (Fin 100) (sc_critical cond)) (ErrorBudgetOutOfRange (sc_critical cond))
          (case sc_warning cond of
             Some w \<Rightarrow> guard (f64_le (sc_critical cond) w) (WarningNotLessSevere (sc_critical cond) w) (Ok ())
           | None \<Rightarrow> Ok ())))"

definition check_windows :: "slo_condition \<Rightarrow> slo_facts \<Rightarrow> (unit, slo_condition_error) result" where
  "check_windows cond slo =
     (case (sc_long_window_secs cond, sc_short_window_secs cond) of
        (Some long, Some short) \<Rightarrow>
          (let slice = sf_slice_interval_secs slo; mini = min_window_secs slice
           in guard (\<not> (3600 \<le> long \<and> long \<le> 48 * 3600)) (LongWindowOutOfRange long)
              (case try_each (\<lambda>w. guard (slice \<le> 0 \<or> w smod slice \<noteq> 0) (WindowNotSliceMultiple w slice) (Ok ())) [long, short] of
                 Inl e \<Rightarrow> Err e
               | Inr _ \<Rightarrow>
              (case try_each (\<lambda>(field, w). guard (w < mini) (WindowTooFewSlices w mini field) (Ok ()))
                      [(''long window'', long), (''short window'', short)] of
                 Inl e \<Rightarrow> Err e
               | Inr _ \<Rightarrow>
              guard (short > long) (ShortWindowExceedsLong short long)
              (try_each (\<lambda>w. guard (w > sf_window_secs slo) (WindowExceedsSloWindow w (sf_window_secs slo)) (Ok ())) [long, short]))))
      | _ \<Rightarrow> Ok ())"

definition validate_condition :: "f64_arith \<Rightarrow> slo_condition \<Rightarrow> slo_facts \<Rightarrow> bool \<Rightarrow> (unit, slo_condition_error) result" where
  "validate_condition fa cond slo count_gate_is_default =
     (case check_presence cond of Inl e \<Rightarrow> Err e | Inr _ \<Rightarrow>
     (case check_thresholds fa cond slo of Inl e \<Rightarrow> Err e | Inr _ \<Rightarrow>
     (case check_windows cond slo of Inl e \<Rightarrow> Err e | Inr _ \<Rightarrow>
     guard (\<not> count_gate_is_default) CountGateNotSupported
     (guard (sc_multi_alert cond \<and> \<not> sf_is_grouped slo) MultiAlertRequiresGroupedSlo
     (guard (sc_multi_alert cond) MultiAlertNotImplemented (Ok ()))))))"

definition validate_pair_budget :: "slo_condition \<Rightarrow> (int \<times> int) list \<Rightarrow> nat \<Rightarrow> (unit, slo_condition_error) result" where
  "validate_pair_budget cond existing max_pairs =
     (case (sc_long_window_secs cond, sc_short_window_secs cond) of
        (Some long, Some short) \<Rightarrow>
          if (long, short) \<in> set existing then Ok ()
          else let pairs = card (insert (long, short) (set existing))
               in guard (pairs > max_pairs) (TooManyBurnWindowPairs pairs max_pairs) (Ok ())
      | _ \<Rightarrow> Ok ())"

datatype slo_alert_error = MissingCondition | ConditionOnNonSloAlert | SloNotFound string | Condition slo_condition_error

definition validate_slo_alert ::
  "f64_arith \<Rightarrow> bool \<Rightarrow> slo_condition option \<Rightarrow> slo_facts option \<Rightarrow> bool \<Rightarrow> (int \<times> int) list \<Rightarrow> nat \<Rightarrow> (unit, slo_alert_error) result" where
  "validate_slo_alert fa is_slo_query_type cond slo count_gate_is_default existing_pairs max_pairs =
     (case (is_slo_query_type, cond) of
        (False, None) \<Rightarrow> Ok ()
      | (False, Some _) \<Rightarrow> Err ConditionOnNonSloAlert
      | (True, None) \<Rightarrow> Err MissingCondition
      | (True, Some c) \<Rightarrow>
          (case slo of
             None \<Rightarrow> Err (SloNotFound (sc_slo_id c))
           | Some facts \<Rightarrow>
               (case validate_condition fa c facts count_gate_is_default of
                  Inl e \<Rightarrow> Err (Condition e)
                | Inr _ \<Rightarrow> (case validate_pair_budget c existing_pairs max_pairs of Inl e \<Rightarrow> Err (Condition e) | Inr _ \<Rightarrow> Ok ()))))"

section \<open>Classification\<close>

definition classify_value :: "f64 \<Rightarrow> slo_condition \<Rightarrow> alert_level option" where
  "classify_value value cond = evaluate_level_values value (sc_operator cond) (sc_critical cond) (sc_warning cond)"

datatype slo_classification = Frozen unobserved_reason | ObservedLevel alert_level

definition classification_level :: "slo_classification \<Rightarrow> alert_level option" where
  "classification_level c = (case c of ObservedLevel l \<Rightarrow> Some l | Frozen _ \<Rightarrow> None)"

definition less_severe :: "alert_level option \<Rightarrow> alert_level option \<Rightarrow> alert_level" where
  "less_severe a b =
     (let rank = (\<lambda>l. case l of LCritical \<Rightarrow> 2 | LWarning \<Rightarrow> 1 | _ \<Rightarrow> (0::nat));
          a = level_for_successful_evaluation a; b = level_for_successful_evaluation b
      in if rank a \<le> rank b then a else b)"

definition classify_burn_rate :: "f64_arith \<Rightarrow> observation \<Rightarrow> observation \<Rightarrow> f64 \<Rightarrow> slo_condition \<Rightarrow> slo_classification" where
  "classify_burn_rate fa long short target cond =
     (case (long, short) of
        (Observed long_sli, Observed short_sli) \<Rightarrow>
          ObservedLevel (less_severe (classify_value (burn_rate fa long_sli target) cond) (classify_value (burn_rate fa short_sli target) cond))
      | (Unobserved r, _) \<Rightarrow> Frozen r
      | (_, Unobserved r) \<Rightarrow> Frozen r)"

definition classify_error_budget :: "f64_arith \<Rightarrow> observation \<Rightarrow> f64 \<Rightarrow> slo_condition \<Rightarrow> slo_classification" where
  "classify_error_budget fa window target cond =
     (case window of
        Unobserved r \<Rightarrow> Frozen r
      | Observed s \<Rightarrow> ObservedLevel (level_for_successful_evaluation (classify_value (error_budget_consumed fa s target) cond)))"

definition governing_burn_rate :: "f64 \<Rightarrow> f64 \<Rightarrow> f64" where
  "governing_burn_rate long short = f64_min long short"

section \<open>Evaluation\<close>

text \<open>Of an SLO, what the evaluation reads.\<close>

record slo_def =
  sd_name :: string
  sd_target :: f64
  sd_window_secs :: int
  sd_slice_interval_secs :: int
  sd_definition_generation :: int

record slo_cfg =
  cf_min_coverage :: f64
  cf_recompute_slices :: int

record slo_eval_result =
  se_classification :: slo_classification
  se_actual_value :: "f64 option"
  se_group_key :: "string option"
  se_sli :: "f64 option"
  se_coverage :: f64
  se_slo_name :: string
  se_slo_target :: f64
  se_slo_window_secs :: int
  se_error_budget_remaining :: "f64 option"

definition frozen_result :: "unobserved_reason \<Rightarrow> string \<Rightarrow> slo_def \<Rightarrow> slo_eval_result" where
  "frozen_result reason group_key slo =
     \<lparr>se_classification = Frozen reason, se_actual_value = None, se_group_key = (if group_key = [] then None else Some group_key),
      se_sli = None, se_coverage = Fin 0, se_slo_name = sd_name slo, se_slo_target = sd_target slo,
      se_slo_window_secs = sd_window_secs slo, se_error_budget_remaining = None\<rparr>"

definition read_pair :: "f64_arith \<Rightarrow> json option \<Rightarrow> f64 \<Rightarrow> bool \<Rightarrow> int \<Rightarrow> observation" where
  "read_pair fa windows coverage_floor stale secs =
     (case Option.bind windows (\<lambda>w. json_get w (show_int secs)) of
        None \<Rightarrow> Unobserved BelowCoverageFloor
      | Some entry \<Rightarrow>
          (case (Option.bind (json_get entry ''good'') json_as_f64, Option.bind (json_get entry ''total'') json_as_f64,
                 Option.bind (json_get entry ''covered'') json_as_i64) of
             (Some good, Some tot, Some cvd) \<Rightarrow>
               (let expected = (case Option.bind (json_get entry ''expected'') json_as_i64 of Some e \<Rightarrow> e | None \<Rightarrow> max cvd 1)
                in observe fa \<lparr>wr_good = good, wr_total = tot, wr_observed_slices = cvd, wr_expected_slices = expected\<rparr>
                     coverage_floor stale)
           | _ \<Rightarrow> Unobserved BelowCoverageFloor))"

definition window_pair :: "slo_condition \<Rightarrow> int \<times> int" where
  "window_pair cond =
     (let long_secs = (case sc_long_window_secs cond of Some l \<Rightarrow> l | None \<Rightarrow> 3600)
      in (long_secs, case sc_short_window_secs cond of Some s \<Rightarrow> s | None \<Rightarrow> long_secs sdiv 12))"

definition burn_windows :: "f64_arith \<Rightarrow> json status_row \<Rightarrow> slo_condition \<Rightarrow> f64 \<Rightarrow> bool \<Rightarrow> observation \<times> observation" where
  "burn_windows fa row cond coverage_floor stale =
     (let (long_secs, short_secs) = window_pair cond
      in (read_pair fa (sg_burn_windows row) coverage_floor stale long_secs,
          read_pair fa (sg_burn_windows row) coverage_floor stale short_secs))"

definition budget_read :: "slo_def \<Rightarrow> json status_row \<Rightarrow> window_read" where
  "budget_read slo row =
     \<lparr>wr_good = (case sg_good row of Some v \<Rightarrow> v | None \<Rightarrow> Fin 0), wr_total = (case sg_total row of Some v \<Rightarrow> v | None \<Rightarrow> Fin 0),
      wr_observed_slices = (case sg_covered_slices row of Some v \<Rightarrow> v | None \<Rightarrow> 0),
      wr_expected_slices = expected_slices 0 (sd_window_secs slo) (sd_slice_interval_secs slo)\<rparr>"

definition evaluate_row :: "f64_arith \<Rightarrow> slo_cfg \<Rightarrow> slo_def \<Rightarrow> slo_condition \<Rightarrow> string \<times> json status_row \<Rightarrow> int \<Rightarrow> slo_eval_result" where
  "evaluate_row fa cfg slo cond keyed now_secs =
     (let (gk, row) = keyed;
          cov_floor = cf_min_coverage cfg;
          stale = watermark_is_stale_or_absent now_secs (sg_watermark_end row) (sd_slice_interval_secs slo) (max (cf_recompute_slices cfg) 1);
          group_key = (if gk = [] then None else Some gk);
          result = (\<lambda>classification actual s cov.
            \<lparr>se_classification = classification, se_actual_value = actual, se_group_key = group_key, se_sli = s, se_coverage = cov,
             se_slo_name = sd_name slo, se_slo_target = sd_target slo, se_slo_window_secs = sd_window_secs slo,
             se_error_budget_remaining = map_option (\<lambda>x. error_budget_remaining fa x (sd_target slo)) s\<rparr>)
      in case sc_kind cond of
           ErrorBudget \<Rightarrow>
             (let read = budget_read slo row; obs = observe fa read cov_floor stale
              in result (classify_error_budget fa obs (sd_target slo) cond)
                   (map_option (\<lambda>s. error_budget_consumed fa s (sd_target slo)) (observation_sli obs)) (observation_sli obs)
                   (coverage fa (wr_observed_slices read) (wr_expected_slices read)))
         | BurnRate \<Rightarrow>
             (let (long, short) = burn_windows fa row cond cov_floor stale;
                  (governing_sli, governing_burn) =
                    (case (observation_sli long, observation_sli short) of
                       (Some l, Some s) \<Rightarrow>
                         (Some (f64_max l s), Some (governing_burn_rate (burn_rate fa l (sd_target slo)) (burn_rate fa s (sd_target slo))))
                     | _ \<Rightarrow> (None, None))
              in result (classify_burn_rate fa long short (sd_target slo) cond) governing_burn governing_sli (Fin 0)))"

definition evaluate_rows ::
  "f64_arith \<Rightarrow> slo_cfg \<Rightarrow> slo_def \<Rightarrow> slo_condition \<Rightarrow> (string \<times> json status_row) list \<Rightarrow> int \<Rightarrow> slo_eval_result list" where
  "evaluate_rows fa cfg slo cond rows now_secs =
     (if rows = [] then [frozen_result BelowCoverageFloor [] slo]
      else map (\<lambda>keyed. if sg_definition_generation (snd keyed) \<noteq> sd_definition_generation slo
                         then frozen_result StaleWatermark (fst keyed) slo
                         else evaluate_row fa cfg slo cond keyed now_secs) rows)"

section \<open>The stored buffer reads back\<close>

lemma show_int_inj: "show_int a = show_int b \<Longrightarrow> a = b"
proof -
  assume eq: "show_int a = show_int b"
  have hd: "show_nat n \<noteq> CHR ''-'' # cs" for n cs using show_nat_hd [of n "CHR ''-''" cs] by (auto simp: is_digit_def)
  have "hd (show_int x) = CHR ''-'' \<longleftrightarrow> x < 0" for x
    using hd [of "nat x"] show_nat_nonempty [of "nat x"] by (cases "show_nat (nat x)") (auto simp: show_int_def)
  then have "a < 0 \<longleftrightarrow> b < 0" using eq by metis
  then show "a = b" using eq show_nat_inj by (fastforce simp: show_int_def nat_eq_iff split: if_splits)
qed

lemma parse_show_int: "i64_ok i \<Longrightarrow> parse_i64 (show_int i) = Some i"
proof (cases "i < 0")
  case False
  assume ok: "i64_ok i"
  obtain c cs where s: "show_nat (nat i) = c # cs" using show_nat_nonempty by (cases "show_nat (nat i)") auto
  then have "c \<noteq> CHR ''-''" "c \<noteq> CHR ''+''" using show_nat_hd [OF s] by (auto simp: is_digit_def)
  then show ?thesis using ok False s parse_digits_show_nat [of "nat i"] by (simp add: parse_i64_def show_int_def checked_i64_def)
qed (simp add: parse_i64_def show_int_def checked_i64_def)

abbreviation sorted_keys :: "('k::linorder \<times> 'v) list \<Rightarrow> bool" where
  "sorted_keys m \<equiv> sorted_wrt (<) (map fst m)"

lemma bt_insert_last: "\<forall>x \<in> fst ` set m. x < k \<Longrightarrow> bt_insert k v m = m @ [(k, v)]"
  by (induction m) auto

lemma foldl_bt_insert:
  assumes "sorted_keys (acc @ buf)"
  shows "foldl (\<lambda>b (k, v). bt_insert k v b) acc buf = acc @ buf"
  using assms
proof (induction buf arbitrary: acc)
  case (Cons e buf)
  have "bt_insert (fst e) (snd e) acc = acc @ [e]"
    using Cons.prems by (subst bt_insert_last) (auto simp: sorted_wrt_append)
  then show ?case using Cons.IH [of "acc @ [e]"] Cons.prems by (simp add: case_prod_beta)
qed simp

definition storable :: "trailing_slices \<Rightarrow> bool" where
  "storable buf \<longleftrightarrow> (\<forall>e \<in> set buf. i64_ok (fst e) \<and> is_finite (fst (snd e)) \<and> is_finite (snd (snd e)))"

lemma storable_append [simp]: "storable (xs @ ys) \<longleftrightarrow> storable xs \<and> storable ys"
  by (auto simp: storable_def)

lemma parse_step_entry:
  "i64_ok t \<Longrightarrow> is_finite g \<Longrightarrow> is_finite s \<Longrightarrow>
     parse_step out (show_int t, JArr [json_f64 g, json_f64 s]) = bt_insert t (g, s) out"
  by (simp add: parse_step_def parse_show_int parse_entry_def json_f64_def)

lemma parse_trailing_roundtrip:
  assumes "sorted_keys buf" "storable buf"
  shows "parse_trailing (Some (trailing_to_json buf)) = buf"
proof -
  have "foldl parse_step acc (map (\<lambda>(t, g, s). (show_int t, JArr [json_f64 g, json_f64 s])) xs) =
      foldl (\<lambda>b (k, v). bt_insert k v b) acc xs" if "storable xs" for xs acc
    using that by (induction xs arbitrary: acc) (auto simp: storable_def parse_step_entry)
  then show ?thesis using assms foldl_bt_insert [of "[]" buf] by (simp add: parse_trailing_def trailing_to_json_def)
qed

section \<open>The buffer holds the latest measurement of every retained slice\<close>

lemma map_of_filter_key: "map_of (filter (\<lambda>e. P (fst e)) m) k = (if P k then map_of m k else None)"
  by (induction m) auto

lemma sorted_keys_filter: "sorted_keys m \<Longrightarrow> sorted_keys (filter P m)"
  by (induction m) auto

lemma insert_all:
  assumes "sorted_keys buf"
  shows "sorted_keys (foldl (\<lambda>b (t, g, s). bt_insert t (g, s) b) buf rows)"
    "map_of (foldl (\<lambda>b (t, g, s). bt_insert t (g, s) b) buf rows) t = (case map_of (rev rows) t of Some v \<Rightarrow> Some v | None \<Rightarrow> map_of buf t)"
  using assms by (induction rows arbitrary: t rule: rev_induct) (auto simp: bt_insert_sorted bt_insert_get)

lemma fold_trailing_spec:
  assumes "sorted_keys buf"
  shows "sorted_keys (fold_trailing buf rows wm r)"
    "map_of (fold_trailing buf rows wm r) t =
       (if wm - max r 0 \<le> t then case map_of (rev rows) t of Some v \<Rightarrow> Some v | None \<Rightarrow> map_of buf t else None)"
  using insert_all [OF assms, of rows] by (simp_all add: fold_trailing_def Let_def sorted_keys_filter map_of_filter_key)

text \<open>The rollup rows of a pass, and the columns after a history of passes of one generation.\<close>

definition rollup_of :: "slice_row list \<Rightarrow> (int \<times> f64 \<times> f64) list" where
  "rollup_of slices = map (\<lambda>s. (sl_slice_start s, sl_good s, sl_total s)) (filter (\<lambda>s. sl_group_key s = []) slices)"

definition cache_step ::
  "f64_arith \<Rightarrow> int \<Rightarrow> int \<Rightarrow> int list \<Rightarrow> json status_row \<Rightarrow> slice_row list \<times> int \<Rightarrow> json status_row" where
  "cache_step fa generation slice durations row p =
     (let (trailing, windows) = build_burn_cache fa generation slice (Some row) (fst p) (snd p) durations
      in row\<lparr>sg_trailing_slices := trailing, sg_burn_windows := windows\<rparr>)"

definition measured :: "(slice_row list \<times> int) list \<Rightarrow> (int \<times> f64 \<times> f64) list" where
  "measured passes = concat (map (rollup_of \<circ> fst) passes)"

definition passes_ok :: "(slice_row list \<times> int) list \<Rightarrow> bool" where
  "passes_ok passes \<longleftrightarrow> sorted (map snd passes) \<and> storable (measured passes)"

lemma storable_map_of: "storable xs \<Longrightarrow> map_of (rev xs) t = Some (g, s) \<Longrightarrow> i64_ok t \<and> is_finite g \<and> is_finite s"
  by (drule map_of_SomeD) (fastforce simp: storable_def)

lemma storable_iff:
  assumes "sorted_keys buf"
  shows "storable buf \<longleftrightarrow> (\<forall>t g s. map_of buf t = Some (g, s) \<longrightarrow> i64_ok t \<and> is_finite g \<and> is_finite s)"
proof -
  have "distinct (map fst buf)" using assms by (simp add: strict_sorted_iff)
  then show ?thesis by (auto simp: storable_def)
qed

lemma cache_step_trailing:
  assumes "sg_definition_generation row = generation" "durations \<noteq> []"
  shows "sg_trailing_slices (cache_step fa generation slice durations row p) =
      Some (trailing_to_json (fold_trailing (parse_trailing (sg_trailing_slices row)) (rollup_of (fst p)) (snd p) (retain_secs durations)))"
    "sg_burn_windows (cache_step fa generation slice durations row p) =
      Some (burn_windows_json fa (fold_trailing (parse_trailing (sg_trailing_slices row)) (rollup_of (fst p)) (snd p) (retain_secs durations))
        durations (snd p) slice)"
    "sg_definition_generation (cache_step fa generation slice durations row p) = generation"
    "sg_watermark_end (cache_step fa generation slice durations row p) = sg_watermark_end row"
  using assms by (simp_all add: cache_step_def build_burn_cache_def fold_burn_cache_def rollup_of_def Let_def)

lemma buffer_is_measured:
  fixes fa :: f64_arith and slice :: int
  assumes "sg_definition_generation row0 = generation" "sg_trailing_slices row0 = None" "durations \<noteq> []"
    and "passes_ok (passes @ [(slices, wm)])"
  defines "row \<equiv> foldl (cache_step fa generation slice durations) row0 passes"
  defines "buf \<equiv> fold_trailing (parse_trailing (sg_trailing_slices row)) (rollup_of slices) wm (retain_secs durations)"
  shows "sorted_keys buf \<and> sg_definition_generation row = generation \<and>
    (\<forall>t. map_of buf t = (if wm - max (retain_secs durations) 0 \<le> t then map_of (rev (measured (passes @ [(slices, wm)]))) t else None))"
  using assms(4) unfolding row_def buf_def
proof (induction passes arbitrary: slices wm rule: rev_induct)
  case Nil
  then show ?case using fold_trailing_spec [of "[]"] assms(1,2)
    by (auto simp: parse_trailing_def measured_def split: option.splits)
next
  case (snoc p passes)
  let ?row = "foldl (cache_step fa generation slice durations) row0 passes"
  let ?buf = "fold_trailing (parse_trailing (sg_trailing_slices ?row)) (rollup_of (fst p)) (snd p) (retain_secs durations)"
  let ?h = "\<lambda>wm. wm - max (retain_secs durations) 0"
  have ok: "passes_ok (passes @ [(fst p, snd p)])" "snd p \<le> wm"
    using snoc.prems by (auto simp: passes_ok_def measured_def sorted_append)
  note IH = snoc.IH [OF ok(1)]
  have generation: "sg_definition_generation ?row = generation" using IH by simp
  have "storable ?buf" using IH ok(1) storable_map_of by (subst storable_iff) (auto simp: passes_ok_def split: if_splits)
  then have reads_back: "parse_trailing (sg_trailing_slices (cache_step fa generation slice durations ?row p)) = ?buf"
    using IH generation assms(3) by (simp add: cache_step_trailing parse_trailing_roundtrip)
  have all: "rev (measured (passes @ [p, (slices, wm)])) = rev (rollup_of slices) @ rev (measured (passes @ [p]))"
    by (simp add: measured_def)
  have "map_of ?buf t = map_of (rev (measured (passes @ [p]))) t" if "?h wm \<le> t" for t
    using IH that ok(2) by simp
  moreover have "sorted_keys ?buf" using IH by simp
  ultimately show ?case
    using fold_trailing_spec [of ?buf "rollup_of slices" wm "retain_secs durations"] cache_step_trailing(3) [OF generation assms(3)]
    by (auto simp: reads_back all map_add_def split: option.splits)
qed

section \<open>Windows\<close>

text \<open>The reference: the latest measurement of every slice of the window, in order of time.\<close>

definition window_values :: "(int \<times> f64 \<times> f64) list \<Rightarrow> int \<Rightarrow> int \<Rightarrow> (f64 \<times> f64) list" where
  "window_values rows frm to =
     map (\<lambda>t. the (map_of (rev rows) t)) (sorted_list_of_set {t \<in> fst ` set rows. frm \<le> t \<and> t < to})"

definition reference_window :: "f64_arith \<Rightarrow> (int \<times> f64 \<times> f64) list \<Rightarrow> int \<Rightarrow> int \<Rightarrow> int \<Rightarrow> window_agg" where
  "reference_window fa rows d wm slice =
     (let vs = window_values rows (wm - d) wm
      in \<lparr>wa_good = foldl (ar_add fa) (Fin 0) (map fst vs), wa_total = foldl (ar_add fa) (Fin 0) (map snd vs),
          wa_covered = int (length vs), wa_expected = expected_slices (wm - d) wm slice\<rparr>)"

lemma sorted_alist_eq:
  assumes "sorted_keys m"
  shows "map snd m = map (\<lambda>t. the (map_of m t)) (sorted_list_of_set (fst ` set m))"
proof -
  have d: "distinct (map fst m)" "sorted (map fst m)" using assms by (simp_all add: strict_sorted_iff)
  then have "sorted_list_of_set (fst ` set m) = map fst m"
    by (metis set_map sorted_list_of_set.idem_if_sorted_distinct)
  then show ?thesis using d(1) by (auto simp: map_of_eq_Some_iff)
qed

lemma window_of_buffer:
  assumes "sorted_keys buf" "\<And>t. frm \<le> t \<Longrightarrow> map_of buf t = map_of (rev rows) t"
  shows "map snd (filter (\<lambda>e. frm \<le> fst e \<and> fst e < to) buf) = window_values rows frm to"
proof -
  let ?w = "filter (\<lambda>e. frm \<le> fst e \<and> fst e < to) buf"
  have get: "map_of ?w t = (if frm \<le> t \<and> t < to then map_of (rev rows) t else None)" for t
    using assms(2) map_of_filter_key [of "\<lambda>t. frm \<le> t \<and> t < to" buf t] by auto
  have "fst ` set ?w = dom (map_of ?w)" by (simp add: dom_map_of_conv_image_fst)
  also have "\<dots> = {t \<in> dom (map_of (rev rows)). frm \<le> t \<and> t < to}" by (auto simp: get split: if_splits)
  also have "\<dots> = {t \<in> fst ` set rows. frm \<le> t \<and> t < to}" by (simp add: dom_map_of_conv_image_fst)
  finally have k: "fst ` set ?w = {t \<in> fst ` set rows. frm \<le> t \<and> t < to}" .
  have "map snd ?w = map (\<lambda>t. the (map_of ?w t)) (sorted_list_of_set (fst ` set ?w))"
    by (rule sorted_alist_eq [OF sorted_keys_filter [OF assms(1)]])
  also have "\<dots> = window_values rows frm to" unfolding window_values_def k by (rule map_cong) (auto simp: get)
  finally show ?thesis .
qed

lemma foldl_window:
  "foldl (\<lambda>(good, tot, n) (_, g, t). (ar_add fa good g, ar_add fa tot t, n + 1)) (a, b, c) xs =
     (foldl (ar_add fa) a (map (fst \<circ> snd) xs), foldl (ar_add fa) b (map (snd \<circ> snd) xs), c + int (length xs))"
  by (induction xs arbitrary: a b c) auto

lemma window_aggregate_reference:
  assumes "sorted_keys buf" "\<And>t. wm - d \<le> t \<Longrightarrow> map_of buf t = map_of (rev rows) t"
  shows "window_aggregate fa buf d wm slice = reference_window fa rows d wm slice"
proof -
  have vs: "map snd (filter (\<lambda>e. wm - d \<le> fst e \<and> fst e < wm) buf) = window_values rows (wm - d) wm" by (rule window_of_buffer [OF assms])
  show ?thesis
    unfolding window_aggregate_def reference_window_def vs [symmetric] Let_def foldl_window by (simp add: comp_def)
qed

lemma retain_covers: "d \<in> set durations \<Longrightarrow> d \<le> retain_secs durations"
  using max_opt_spec [of durations] by (auto simp: retain_secs_def split: option.splits)

section \<open>What an alert reads\<close>

definition reference_observation ::
  "f64_arith \<Rightarrow> (int \<times> f64 \<times> f64) list \<Rightarrow> int \<Rightarrow> int \<Rightarrow> f64 \<Rightarrow> bool \<Rightarrow> int \<Rightarrow> observation" where
  "reference_observation fa rows wm slice cov_floor stale d =
     (let a = reference_window fa rows d wm slice
      in if is_finite (wa_good a) \<and> is_finite (wa_total a)
         then observe fa \<lparr>wr_good = wa_good a, wr_total = wa_total a, wr_observed_slices = wa_covered a, wr_expected_slices = wa_expected a\<rparr>
                cov_floor stale
         else Unobserved BelowCoverageFloor)"

lemma map_of_inj: "inj f \<Longrightarrow> map_of (map (\<lambda>x. (f x, g x)) xs) (f x) = (if x \<in> set xs then Some (g x) else None)"
  by (induction xs) (auto dest: injD)

lemma read_pair_windows:
  assumes "d \<in> set durations" "0 < d"
  shows "read_pair fa (Some (burn_windows_json fa buf durations wm slice)) cov_floor stale d =
    (let a = window_aggregate fa buf d wm slice
     in if is_finite (wa_good a) \<and> is_finite (wa_total a)
        then observe fa \<lparr>wr_good = wa_good a, wr_total = wa_total a, wr_observed_slices = wa_covered a, wr_expected_slices = wa_expected a\<rparr>
               cov_floor stale
        else Unobserved BelowCoverageFloor)"
proof -
  have "json_get (burn_windows_json fa buf durations wm slice) (show_int d) = Some (agg_json (window_aggregate fa buf d wm slice))"
    using assms map_of_inj [of show_int "\<lambda>d. agg_json (window_aggregate fa buf d wm slice)"] show_int_inj
    by (simp add: burn_windows_json_def Let_def inj_def)
  then show ?thesis by (auto simp: read_pair_def agg_json_def json_f64_def Let_def)
qed

text \<open>
  A burn-rate alert compares exactly what was measured. After any history of passes of one generation with
  advancing watermarks and finite measurements, and the same window durations in each, the two windows the alert reads from the status row are those of the reference: the
  sum, in order of time, of the latest measurement of every slice in the window that any pass measured,
  and the number of slices the grid expects. Slices measured again replace their earlier values, the
  buffer's trimming and its journey through JSON lose nothing a window needs, and a window whose sum is
  not finite is unobserved.
\<close>

theorem burn_alert_exact:
  assumes "sg_definition_generation row0 = sd_definition_generation slo" "sg_trailing_slices row0 = None"
    and "passes_ok (passes @ [(slices, wm)])"
    and "row = foldl (cache_step fa (sd_definition_generation slo) (sd_slice_interval_secs slo) durations) row0 (passes @ [(slices, wm)])"
    and "sc_kind cond = BurnRate" "sc_long_window_secs cond = Some long" "sc_short_window_secs cond = Some short"
    and "long \<in> set durations" "short \<in> set durations" "0 < long" "0 < short"
    and "stale = watermark_is_stale_or_absent now (sg_watermark_end row) (sd_slice_interval_secs slo) (max (cf_recompute_slices cfg) 1)"
    and "obs = reference_observation fa (measured (passes @ [(slices, wm)])) wm (sd_slice_interval_secs slo) (cf_min_coverage cfg) stale"
  shows "se_classification (evaluate_row fa cfg slo cond (gk, row) now) =
    classify_burn_rate fa (obs long) (obs short) (sd_target slo) cond"
proof -
  let ?g = "sd_definition_generation slo" and ?i = "sd_slice_interval_secs slo"
  let ?prev = "foldl (cache_step fa ?g ?i durations) row0 passes"
  let ?buf = "fold_trailing (parse_trailing (sg_trailing_slices ?prev)) (rollup_of slices) wm (retain_secs durations)"
  have D: "durations \<noteq> []" using assms(8) by auto
  note B = buffer_is_measured [OF assms(1,2) D assms(3), of fa ?i]
  have w: "sg_burn_windows row = Some (burn_windows_json fa ?buf durations wm ?i)"
    using cache_step_trailing(2) [OF _ D, of ?prev ?g fa ?i "(slices, wm)"] B by (simp add: assms(4))
  have "read_pair fa (sg_burn_windows row) (cf_min_coverage cfg) stale d = obs d" if "d \<in> set durations" "0 < d" for d
  proof -
    have "window_aggregate fa ?buf d wm ?i = reference_window fa (measured (passes @ [(slices, wm)])) d wm ?i"
      using B retain_covers [OF that(1)] by (intro window_aggregate_reference) auto
    then show ?thesis unfolding w read_pair_windows [OF that] assms(13) reference_observation_def by simp
  qed
  then show ?thesis using assms(5-12) by (simp add: evaluate_row_def burn_windows_def window_pair_def Let_def case_prod_beta)
qed

section \<open>No level without a measurement\<close>

lemma observe_observed:
  "observe fa read fl stale = Observed s \<longleftrightarrow>
     \<not> stale \<and> \<not> f64_lt (coverage fa (wr_observed_slices read) (wr_expected_slices read)) fl \<and>
     sli fa (wr_good read) (wr_total read) = Some s"
  by (auto simp: observe_def split: option.splits)

lemma sli_Some: "sli fa good tot = Some s \<Longrightarrow> f64_lt (Fin 0) tot"
  by (cases tot) (auto simp: sli_def f64_le_def f64_eq_def split: if_splits)

definition well_measured :: "f64_arith \<Rightarrow> f64 \<Rightarrow> window_read \<Rightarrow> bool" where
  "well_measured fa fl read \<longleftrightarrow>
     \<not> f64_lt (coverage fa (wr_observed_slices read) (wr_expected_slices read)) fl \<and> f64_lt (Fin 0) (wr_total read)"

text \<open>The window stored under a duration, as far as the status row says it.\<close>

definition stored_window :: "json status_row \<Rightarrow> int \<Rightarrow> window_read \<Rightarrow> bool" where
  "stored_window row secs read \<longleftrightarrow>
     (\<exists>entry. Option.bind (sg_burn_windows row) (\<lambda>w. json_get w (show_int secs)) = Some entry \<and>
        Option.bind (json_get entry ''good'') json_as_f64 = Some (wr_good read) \<and>
        Option.bind (json_get entry ''total'') json_as_f64 = Some (wr_total read) \<and>
        Option.bind (json_get entry ''covered'') json_as_i64 = Some (wr_observed_slices read) \<and>
        wr_expected_slices read =
          (case Option.bind (json_get entry ''expected'') json_as_i64 of Some e \<Rightarrow> e | None \<Rightarrow> max (wr_observed_slices read) 1))"

lemma read_pair_observed:
  assumes "read_pair fa (sg_burn_windows row) fl stale secs = Observed s"
  shows "\<not> stale \<and> (\<exists>read. stored_window row secs read \<and> well_measured fa fl read \<and> sli fa (wr_good read) (wr_total read) = Some s)"
proof -
  obtain entry good tot n where e: "Option.bind (sg_burn_windows row) (\<lambda>w. json_get w (show_int secs)) = Some entry"
      "Option.bind (json_get entry ''good'') json_as_f64 = Some good"
      "Option.bind (json_get entry ''total'') json_as_f64 = Some tot"
      "Option.bind (json_get entry ''covered'') json_as_i64 = Some n"
    using assms by (auto simp: read_pair_def split: option.splits)
  define read where "read = \<lparr>wr_good = good, wr_total = tot, wr_observed_slices = n,
    wr_expected_slices = (case Option.bind (json_get entry ''expected'') json_as_i64 of Some e \<Rightarrow> e | None \<Rightarrow> max n 1)\<rparr>"
  have "observe fa read fl stale = Observed s" using assms by (simp add: read_pair_def e read_def Let_def)
  moreover have "stored_window row secs read" using e by (simp add: stored_window_def read_def cong: option.case_cong)
  ultimately show ?thesis using sli_Some unfolding observe_observed well_measured_def by blast
qed

definition burns :: "f64_arith \<Rightarrow> slo_def \<Rightarrow> slo_condition \<Rightarrow> window_read \<Rightarrow> bool" where
  "burns fa slo cond read =
     (case sli fa (wr_good read) (wr_total read) of
        Some s \<Rightarrow> compare (burn_rate fa s (sd_target slo)) (sc_operator cond) (sc_critical cond)
      | None \<Rightarrow> False)"

lemma less_severe_critical: "less_severe a b = LCritical \<longleftrightarrow> a = Some LCritical \<and> b = Some LCritical"
  by (auto simp: less_severe_def Let_def level_for_successful_evaluation_def split: option.splits alert_level.splits if_splits)

lemma classify_value_critical: "classify_value v cond = Some LCritical \<longleftrightarrow> compare v (sc_operator cond) (sc_critical cond)"
  by (auto simp: classify_value_def evaluate_level_values_def split: option.splits if_splits)

lemma classify_burn_observed:
  assumes "classify_burn_rate fa long short target cond = ObservedLevel l"
  obtains ls ss where "long = Observed ls" "short = Observed ss"
    "l = LCritical \<Longrightarrow> compare (burn_rate fa ls target) (sc_operator cond) (sc_critical cond) \<and>
       compare (burn_rate fa ss target) (sc_operator cond) (sc_critical cond)"
  using assms by (cases long; cases short)
    (auto simp: classify_burn_rate_def less_severe_critical classify_value_critical split: if_splits)

text \<open>
  C31. No measurement, no level. Whenever an evaluation of an SLO alert yields a level, it comes from a status row
  of the current generation whose watermark is present and recent, and every window it rests on is covered
  to the configured floor and has events: the whole SLO window for an error-budget alert, both stored windows
  for a burn-rate alert. A burn-rate alert is critical only if both windows burn beyond its threshold. In
  every other case the alert is frozen, so an outage of the measurement cannot recover it.
\<close>

theorem slo_level_needs_measurement:
  assumes "res \<in> set (evaluate_rows fa cfg slo cond rows now)" "classification_level (se_classification res) = Some l"
  shows "\<exists>gk row wm. (gk, row) \<in> set rows \<and> sg_definition_generation row = sd_definition_generation slo \<and>
    sg_watermark_end row = Some wm \<and> now \<le> wm + max (cf_recompute_slices cfg) 1 * sd_slice_interval_secs slo \<and>
    (case sc_kind cond of
       ErrorBudget \<Rightarrow> well_measured fa (cf_min_coverage cfg) (budget_read slo row)
     | BurnRate \<Rightarrow> (\<exists>r1 r2. stored_window row (fst (window_pair cond)) r1 \<and> well_measured fa (cf_min_coverage cfg) r1 \<and>
         stored_window row (snd (window_pair cond)) r2 \<and> well_measured fa (cf_min_coverage cfg) r2 \<and>
         (l = LCritical \<longrightarrow> burns fa slo cond r1 \<and> burns fa slo cond r2)))"
proof -
  have cl: "se_classification res = ObservedLevel l" using assms(2) by (auto simp: classification_level_def split: slo_classification.splits)
  then obtain gk row where row: "(gk, row) \<in> set rows" "sg_definition_generation row = sd_definition_generation slo"
      "res = evaluate_row fa cfg slo cond (gk, row) now"
    using assms(1) by (fastforce simp: evaluate_rows_def frozen_result_def split: if_splits)
  let ?stale = "watermark_is_stale_or_absent now (sg_watermark_end row) (sd_slice_interval_secs slo) (max (cf_recompute_slices cfg) 1)"
  have fresh: "\<exists>wm. sg_watermark_end row = Some wm \<and> now \<le> wm + max (cf_recompute_slices cfg) 1 * sd_slice_interval_secs slo" if "\<not> ?stale"
    using that by (auto simp: watermark_is_stale_or_absent_def watermark_is_stale_def split: option.splits)
  show ?thesis
  proof (cases "sc_kind cond")
    case ErrorBudget
    then obtain s where "observe fa (budget_read slo row) (cf_min_coverage cfg) ?stale = Observed s"
      using cl row(3) by (auto simp: evaluate_row_def Let_def classify_error_budget_def split: observation.splits)
    then show ?thesis using row(1,2) fresh ErrorBudget sli_Some by (fastforce simp: observe_observed well_measured_def)
  next
    case BurnRate
    let ?read = "read_pair fa (sg_burn_windows row) (cf_min_coverage cfg) ?stale"
    have "classify_burn_rate fa (?read (fst (window_pair cond))) (?read (snd (window_pair cond))) (sd_target slo) cond = ObservedLevel l"
      using cl row(3) BurnRate by (simp add: evaluate_row_def Let_def burn_windows_def case_prod_beta)
    then obtain ls ss where reads: "?read (fst (window_pair cond)) = Observed ls" "?read (snd (window_pair cond)) = Observed ss"
        and crit: "l = LCritical \<Longrightarrow> compare (burn_rate fa ls (sd_target slo)) (sc_operator cond) (sc_critical cond) \<and>
          compare (burn_rate fa ss (sd_target slo)) (sc_operator cond) (sc_critical cond)"
      by (rule classify_burn_observed) blast
    obtain r1 r2 where "stored_window row (fst (window_pair cond)) r1" "well_measured fa (cf_min_coverage cfg) r1"
        "stored_window row (snd (window_pair cond)) r2" "well_measured fa (cf_min_coverage cfg) r2"
        "sli fa (wr_good r1) (wr_total r1) = Some ls" "sli fa (wr_good r2) (wr_total r2) = Some ss" "\<not> ?stale"
      using read_pair_observed [OF reads(1)] read_pair_observed [OF reads(2)] by blast
    then show ?thesis using row(1,2) fresh BurnRate crit unfolding burns_def by fastforce
  qed
qed

section \<open>Accepted alerts are served\<close>

lemma sorted_dedup_length: "length (remdups_adj (sort xs)) = card (set xs)"
proof -
  have "distinct (remdups_adj ys)" if "sorted ys" for ys :: "'a list"
    using that by (induction ys rule: remdups_adj.induct) (auto dest: order.antisym)
  then have "distinct (remdups_adj (sort xs))" by simp
  then show ?thesis by (metis distinct_card remdups_adj_set set_sort)
qed

lemma durations_complete:
  assumes "card (set pairs) \<le> max_pairs" "(l, s) \<in> set pairs" "0 < l" "0 < s"
  shows "{l, s} \<subseteq> set (durations_for_pairs pairs max_pairs)"
proof -
  let ?p = "filter (\<lambda>(l, s). l > 0 \<and> s > 0) pairs"
  have "card (set ?p) \<le> max_pairs" using assms(1) card_mono [of "set pairs" "set ?p"] by auto
  then have "take max_pairs (remdups_adj (sort ?p)) = remdups_adj (sort ?p)" by (simp only: take_all_iff sorted_dedup_length)
  then show ?thesis using assms(2-4) by (force simp: durations_for_pairs_def)
qed

lemma check_windows_ok:
  assumes "check_windows cond slo = Ok ()" "sc_long_window_secs cond = Some long" "sc_short_window_secs cond = Some short"
  shows "0 < sf_slice_interval_secs slo \<and> sf_slice_interval_secs slo dvd long \<and> sf_slice_interval_secs slo dvd short \<and>
    2 * sf_slice_interval_secs slo \<le> short \<and> short \<le> long \<and> long \<le> sf_window_secs slo"
proof -
  have "s dvd w" if "w smod s = 0" for w s :: int using that smod_mult_sdiv_eq [of w s] by (metis add_0 dvd_triv_left)
  then show ?thesis using assms by (auto simp: check_windows_def Let_def min_window_secs_def split: if_splits sum.splits)
qed

text \<open>
  An alert that is saved is served. If the save of a burn-rate alert is accepted, and the pairs already
  saved respect the cap, then both of its windows are among the durations every later pass computes, whatever
  the order in which the alerts are listed; each window lies on the slice grid, has at least two slices, fits
  into the SLO's window, and the short one is no longer than the long one.
\<close>

theorem accepted_alert_is_served:
  assumes "validate_slo_alert fa True (Some cond) (Some facts) gate existing max_pairs = Ok ()" "sc_kind cond = BurnRate"
    and "card (set existing) \<le> max_pairs" "set listed = insert (window_pair cond) (set existing)"
  shows "\<exists>long short. window_pair cond = (long, short) \<and> sc_long_window_secs cond = Some long \<and> sc_short_window_secs cond = Some short \<and>
    {long, short} \<subseteq> set (durations_for_pairs listed max_pairs) \<and>
    sf_slice_interval_secs facts dvd long \<and> sf_slice_interval_secs facts dvd short \<and>
    2 \<le> expected_slices 0 short (sf_slice_interval_secs facts) \<and> short \<le> long \<and> long \<le> sf_window_secs facts"
proof -
  have ok: "check_presence cond = Ok ()" "check_windows cond facts = Ok ()" "validate_pair_budget cond existing max_pairs = Ok ()"
    using assms(1) by (auto simp: validate_slo_alert_def validate_condition_def split: sum.splits if_splits)
  then obtain long short where w: "sc_long_window_secs cond = Some long" "sc_short_window_secs cond = Some short"
    using assms(2) by (auto simp: check_presence_def split: if_splits)
  note win = check_windows_ok [OF ok(2) w]
  have "card (insert (long, short) (set existing)) \<le> max_pairs"
    using ok(3) assms(3) w by (auto simp: validate_pair_budget_def Let_def insert_absorb split: if_splits)
  then have "{long, short} \<subseteq> set (durations_for_pairs listed max_pairs)"
    using win w assms(4) by (intro durations_complete) (auto simp: window_pair_def)
  moreover have "2 \<le> short div sf_slice_interval_secs facts"
    using win zdiv_mono1 [of "2 * sf_slice_interval_secs facts" short "sf_slice_interval_secs facts"] by simp
  then have "2 \<le> expected_slices 0 short (sf_slice_interval_secs facts)" using win by (simp add: expected_slices_def)
  ultimately show ?thesis using w win by (simp add: window_pair_def)
qed

section \<open>Examples\<close>

definition on_reals :: "(real \<Rightarrow> real \<Rightarrow> real) \<Rightarrow> f64 \<Rightarrow> f64 \<Rightarrow> f64" where
  "on_reals f x y = (case (x, y) of (Fin a, Fin b) \<Rightarrow> Fin (f a b) | _ \<Rightarrow> NaN)"

definition real_arith :: f64_arith where
  "real_arith = \<lparr>ar_add = on_reals (+), ar_sub = on_reals (-), ar_mul = on_reals (*), ar_div = on_reals (/)\<rparr>"

definition example_slo :: slo_def where
  "example_slo = \<lparr>sd_name = ''checkout'', sd_target = Fin 90, sd_window_secs = 86400, sd_slice_interval_secs = 300, sd_definition_generation = 1\<rparr>"

definition example_cfg :: slo_cfg where
  "example_cfg = \<lparr>cf_min_coverage = Fin 0, cf_recompute_slices = 3\<rparr>"

definition example_cond :: "slo_alert_kind \<Rightarrow> slo_condition" where
  "example_cond k =
     \<lparr>sc_slo_id = ''s'', sc_kind = k, sc_operator = GreaterThanEquals, sc_critical = Fin 2, sc_warning = None,
      sc_long_window_secs = (if k = BurnRate then Some 3600 else None),
      sc_short_window_secs = (if k = BurnRate then Some 600 else None), sc_multi_alert = False\<rparr>"

definition example_row :: "json status_row" where
  "example_row =
     \<lparr>sg_definition_generation = 1, sg_good = Some (Fin 5), sg_total = Some (Fin 10), sg_covered_slices = Some 1,
      sg_watermark_end = Some 600, sg_trailing_slices = None, sg_burn_windows = None, sg_computed_at = Some 600\<rparr>"

definition example_slice :: "int \<Rightarrow> real \<Rightarrow> slice_row" where
  "example_slice t good =
     \<lparr>sl_slo_id = ''s'', sl_definition_generation = 1, sl_group_key = [], sl_slice_start = t, sl_good = Fin good, sl_total = Fin 10,
      sl_rev = 1, sl_corrected_by = None\<rparr>"

definition example_passes :: "(slice_row list \<times> int) list" where
  "example_passes = [([example_slice 0 5], 300), ([example_slice 0 6, example_slice 300 5], 600)]"

definition example_burn_row :: "json status_row" where
  "example_burn_row = foldl (cache_step real_arith 1 300 [600, 3600]) example_row example_passes"

theorem burn_alert_exact_witness:
  "se_classification (evaluate_row real_arith example_cfg example_slo (example_cond BurnRate) ([], example_burn_row) 700) =
     (let obs = reference_observation real_arith (measured example_passes) 600 300 (Fin 0) False
      in classify_burn_rate real_arith (obs 3600) (obs 600) (Fin 90) (example_cond BurnRate))"
proof -
  have split: "example_passes = [([example_slice 0 5], 300)] @ [([example_slice 0 6, example_slice 300 5], 600)]"
    by (simp add: example_passes_def)
  have ok: "passes_ok ([([example_slice 0 5], 300)] @ [([example_slice 0 6, example_slice 300 5], 600)])"
    by (simp add: passes_ok_def measured_def rollup_of_def example_slice_def storable_def is_finite_def i64_ok_def)
  have "sg_watermark_end example_burn_row = Some 600"
    by (simp add: example_burn_row_def example_passes_def cache_step_def case_prod_beta Let_def example_row_def)
  then have fresh: "False = watermark_is_stale_or_absent 700 (sg_watermark_end example_burn_row) (sd_slice_interval_secs example_slo)
      (max (cf_recompute_slices example_cfg) 1)"
    by (simp add: watermark_is_stale_or_absent_def watermark_is_stale_def example_slo_def example_cfg_def)
  have row: "example_burn_row = foldl (cache_step real_arith (sd_definition_generation example_slo) (sd_slice_interval_secs example_slo) [600, 3600])
      example_row ([([example_slice 0 5], 300)] @ [([example_slice 0 6, example_slice 300 5], 600)])"
    by (simp add: example_burn_row_def example_passes_def example_slo_def)
  from burn_alert_exact [OF _ _ ok row _ _ _ _ _ _ _ fresh refl, of "example_cond BurnRate" 3600 600 "[]"]
  show ?thesis by (simp add: example_row_def example_slo_def example_cond_def example_cfg_def split Let_def)
qed

theorem slo_level_needs_measurement_witness:
  "well_measured real_arith (Fin 0) (budget_read example_slo example_row)"
proof -
  let ?res = "evaluate_row real_arith example_cfg example_slo (example_cond ErrorBudget) ([], example_row) 700"
  have "?res \<in> set (evaluate_rows real_arith example_cfg example_slo (example_cond ErrorBudget) [([], example_row)] 700)"
    by (simp add: evaluate_rows_def example_row_def example_slo_def)
  moreover have "\<exists>l. classification_level (se_classification ?res) = Some l"
    by (auto simp: evaluate_row_def example_cond_def budget_read_def observe_def example_cfg_def example_row_def example_slo_def
      watermark_is_stale_or_absent_def watermark_is_stale_def coverage_def f64_clamp_def expected_slices_def as_f64_exact
      real_arith_def on_reals_def sli_def f64_le_def f64_eq_def Let_def classify_error_budget_def classification_level_def)
  ultimately obtain l where "classification_level (se_classification ?res) = Some l" by blast
  from slo_level_needs_measurement [OF \<open>?res \<in> _\<close> this] show ?thesis by (auto simp: example_cond_def example_cfg_def)
qed

definition example_facts :: slo_facts where
  "example_facts = \<lparr>sf_target = Fin 90, sf_window_secs = 86400, sf_slice_interval_secs = 300, sf_is_grouped = False\<rparr>"

theorem accepted_alert_is_served_witness:
  "{3600, 600} \<subseteq> set (durations_for_pairs [(7200, 600), (3600, 600)] 2)"
proof -
  have "validate_slo_alert real_arith True (Some (example_cond BurnRate)) (Some example_facts) True [(7200, 600)] 2 = Ok ()"
    by (simp add: validate_slo_alert_def validate_condition_def check_presence_def check_thresholds_def check_windows_def
      validate_pair_budget_def example_cond_def example_facts_def max_burn_rate_def real_arith_def on_reals_def is_finite_def
      f64_le_def f64_eq_def min_window_secs_def Let_def signed_modulo_int_def)
  from accepted_alert_is_served [OF this] show ?thesis by (force simp: example_cond_def window_pair_def)
qed

end
