(* ===== verification/Slo_Budget.thy ===== *)
theory Slo_Budget
  imports Alert_Level "HOL-Library.AList"
begin

text \<open>
  The row budget of an organisation: its arithmetic (\<open>src/config/src/meta/slo/budget_rows.rs\<close>) and the two
  tables behind it (\<open>src/infra/src/table/slo_budget.rs\<close>). A charge, a retirement and an expiry each read the
  totals, read the detail, and commit both in one transaction guarded by the version they read; another
  client may act between any two of these steps. A client is its program counter with what it has read, a
  history is the list of the clients in the order they move. Floating point multiplication is the parameter
  \<open>mul64\<close>.
\<close>

section \<open>Arithmetic\<close>

definition SLICE_HORIZON_SECS :: int where "SLICE_HORIZON_SECS = 97 * 86400"

datatype budget_error = OrgBudgetExceeded int int int int | RequestExceedsCap int int

definition clamp_i64 :: "int \<Rightarrow> int \<Rightarrow> int \<Rightarrow> int" where
  "clamp_i64 x lo hi = (if x < lo then lo else if x > hi then hi else x)"

definition groups_reserved :: "bool \<Rightarrow> int option \<Rightarrow> int \<Rightarrow> int" where
  "groups_reserved is_grouped estimate hard_cap =
     (if \<not> is_grouped then 1
      else let doubled = saturating_mul (case estimate of Some e \<Rightarrow> e | None \<Rightarrow> 0) 2
           in clamp_i64 doubled 64 (max hard_cap 64))"

text \<open>\<open>f64::ceil\<close>; a cast to \<open>i64\<close> truncates, saturates and sends NaN to zero.\<close>

fun f64_ceil :: "f64 \<Rightarrow> f64" where
  "f64_ceil (Fin x) = Fin (of_int \<lceil>x\<rceil>)"
| "f64_ceil v = v"

fun as_i64 :: "f64 \<Rightarrow> int" where
  "as_i64 NaN = 0"
| "as_i64 NegInf = i64_min"
| "as_i64 PosInf = i64_max"
| "as_i64 (Fin x) = sat_i64 (if 0 \<le> x then \<lfloor>x\<rfloor> else \<lceil>x\<rceil>)"

definition rows_for_reservation :: "(f64 \<Rightarrow> f64 \<Rightarrow> f64) \<Rightarrow> int \<Rightarrow> int \<Rightarrow> f64 \<Rightarrow> int" where
  "rows_for_reservation mul64 groups slice_interval_secs revision_headroom =
     (if slice_interval_secs \<le> 0 then 0
      else let slices = SLICE_HORIZON_SECS div slice_interval_secs;
               logical = saturating_mul groups slices;
               headroom = f64_max revision_headroom (Fin 1)
           in as_i64 (f64_ceil (mul64 (as_f64 logical) headroom)))"

definition check_headroom :: "int \<Rightarrow> int \<Rightarrow> int \<Rightarrow> int \<Rightarrow> (unit, budget_error) result" where
  "check_headroom requested active residual cap =
     (if requested > cap then Err (RequestExceedsCap requested cap)
      else if saturating_add (saturating_add active residual) requested > cap
      then Err (OrgBudgetExceeded requested active residual cap)
      else Ok ())"

section \<open>The tables\<close>

definition STATE_ACTIVE :: int where "STATE_ACTIVE = 1"
definition STATE_RESIDUAL :: int where "STATE_RESIDUAL = 2"
definition CAS_RETRIES :: nat where "CAS_RETRIES = 5"

record slo_budget =
  bu_version :: int
  bu_active_rows :: int
  bu_residual_rows :: int

record budget_charge =
  ch_rows_charged :: int
  ch_state :: int
  ch_expires_at :: "int option"

type_synonym charge_key = "string \<times> string \<times> int"

record budget_db =
  bd_budgets :: "(string \<times> slo_budget) list"
  bd_charges :: "(charge_key \<times> budget_charge) list"

datatype charge_error = Budget budget_error | Contended | DbError

datatype commit = Committed budget_db | SwapLost | Aborted

text \<open>The compare-and-swap of the totals: one row is affected when the version is the one read.\<close>

definition swap_budget :: "string \<Rightarrow> slo_budget \<Rightarrow> int \<Rightarrow> int \<Rightarrow> budget_db \<Rightarrow> budget_db option" where
  "swap_budget org seen active residual db =
     (case map_of (bd_budgets db) org of
        Some b \<Rightarrow>
          if bu_version b = bu_version seen
          then Some (db\<lparr>bd_budgets := AList.update org
                 \<lparr>bu_version = bu_version seen + 1, bu_active_rows = active, bu_residual_rows = residual\<rparr> (bd_budgets db)\<rparr>)
          else None
      | None \<Rightarrow> None)"

section \<open>The operations\<close>

definition already_held :: "budget_charge option \<Rightarrow> int" where
  "already_held existing = (case existing of Some c \<Rightarrow> if ch_state c = STATE_ACTIVE then ch_rows_charged c else 0 | None \<Rightarrow> 0)"

definition totals_of :: "slo_budget option \<Rightarrow> int \<times> int" where
  "totals_of current = (case current of Some b \<Rightarrow> (bu_active_rows b, bu_residual_rows b) | None \<Rightarrow> (0, 0))"

definition charge_check :: "int \<Rightarrow> int \<Rightarrow> slo_budget option \<Rightarrow> budget_charge option \<Rightarrow> (unit, budget_error) result" where
  "charge_check rows cap current existing =
     (let (active, residual) = totals_of current in check_headroom rows (active - already_held existing) residual cap)"

text \<open>The swap of a charge keeps the residual column; the first charge of an organisation inserts its row.\<close>

definition charge_swap :: "string \<Rightarrow> int \<Rightarrow> slo_budget option \<Rightarrow> budget_charge option \<Rightarrow> budget_db \<Rightarrow> budget_db option" where
  "charge_swap org rows current existing db =
     (let new_active = fst (totals_of current) - already_held existing + rows
      in case current of
           Some seen \<Rightarrow>
             (case map_of (bd_budgets db) org of
                Some b \<Rightarrow> swap_budget org seen new_active (bu_residual_rows b) db
              | None \<Rightarrow> None)
         | None \<Rightarrow>
             if map_of (bd_budgets db) org = None
             then Some (db\<lparr>bd_budgets := AList.update org
                    \<lparr>bu_version = 1, bu_active_rows = new_active, bu_residual_rows = 0\<rparr> (bd_budgets db)\<rparr>)
             else None)"

definition charge_commit ::
  "charge_key \<Rightarrow> int \<Rightarrow> slo_budget option \<Rightarrow> budget_charge option \<Rightarrow> budget_db \<Rightarrow> commit" where
  "charge_commit k rows current existing db =
     (case charge_swap (fst k) rows current existing db of
        None \<Rightarrow> SwapLost
      | Some db' \<Rightarrow>
          if (map_of (bd_charges db') k = None) = (existing = None)
          then Committed (db'\<lparr>bd_charges := AList.update k
                 \<lparr>ch_rows_charged = rows, ch_state = STATE_ACTIVE, ch_expires_at = None\<rparr> (bd_charges db')\<rparr>)
          else Aborted)"

definition retire_commit :: "charge_key \<Rightarrow> int \<Rightarrow> slo_budget \<Rightarrow> budget_charge \<Rightarrow> budget_db \<Rightarrow> commit" where
  "retire_commit k expires_at budget charge db =
     (case swap_budget (fst k) budget (max (bu_active_rows budget - ch_rows_charged charge) 0)
             (bu_residual_rows budget + ch_rows_charged charge) db of
        None \<Rightarrow> SwapLost
      | Some db' \<Rightarrow>
          (case map_of (bd_charges db') k of
             None \<Rightarrow> Aborted
           | Some c \<Rightarrow> Committed (db'\<lparr>bd_charges := AList.update k
               (c\<lparr>ch_state := STATE_RESIDUAL, ch_expires_at := Some expires_at\<rparr>) (bd_charges db')\<rparr>)))"

definition expired_charges :: "string \<Rightarrow> int \<Rightarrow> budget_db \<Rightarrow> (charge_key \<times> budget_charge) list" where
  "expired_charges org now db =
     filter (\<lambda>(k, c). fst k = org \<and> ch_state c = STATE_RESIDUAL \<and> (case ch_expires_at c of Some t \<Rightarrow> t \<le> now | None \<Rightarrow> False))
       (bd_charges db)"

definition freed_rows :: "(charge_key \<times> budget_charge) list \<Rightarrow> int" where
  "freed_rows expired = sum_list (map (ch_rows_charged \<circ> snd) expired)"

definition expire_commit :: "string \<Rightarrow> slo_budget \<Rightarrow> (charge_key \<times> budget_charge) list \<Rightarrow> budget_db \<Rightarrow> commit" where
  "expire_commit org budget expired db =
     (case map_of (bd_budgets db) org of
        None \<Rightarrow> SwapLost
      | Some b \<Rightarrow>
          (case swap_budget org budget (bu_active_rows b) (max (bu_residual_rows budget - freed_rows expired) 0) db of
             None \<Rightarrow> SwapLost
           | Some db' \<Rightarrow> Committed (db'\<lparr>bd_charges := fold (AList.delete \<circ> fst) expired (bd_charges db')\<rparr>)))"

definition delete_by_org :: "string \<Rightarrow> budget_db \<Rightarrow> budget_db" where
  "delete_by_org org db =
     \<lparr>bd_budgets = AList.delete org (bd_budgets db), bd_charges = filter (\<lambda>(k, _). fst k \<noteq> org) (bd_charges db)\<rparr>"

section \<open>Clients\<close>

datatype budget_req = Charge charge_key int int | Retire charge_key int | Expire string int

fun req_org :: "budget_req \<Rightarrow> string" where
  "req_org (Charge k rows cap) = fst k"
| "req_org (Retire k expires_at) = fst k"
| "req_org (Expire org now) = org"

datatype detail = Existing "budget_charge option" | Held budget_charge | Expired "(charge_key \<times> budget_charge) list"

text \<open>A client about to read the totals, about to read the detail, about to commit, or finished with the rows freed.\<close>

datatype client =
    Start budget_req nat
  | HasBudget budget_req nat "slo_budget option"
  | HasDetail budget_req nat "slo_budget option" detail
  | Finished "(int, charge_error) result"

fun read_budget :: "budget_req \<Rightarrow> nat \<Rightarrow> budget_db \<Rightarrow> client" where
  "read_budget r 0 db = Finished (Err Contended)"
| "read_budget r (Suc n) db =
     (case (r, map_of (bd_budgets db) (req_org r)) of
        (Charge _ _ _, current) \<Rightarrow> HasBudget r n current
      | (_, None) \<Rightarrow> Finished (Ok 0)
      | (_, current) \<Rightarrow> HasBudget r n current)"

definition read_detail :: "budget_req \<Rightarrow> nat \<Rightarrow> slo_budget option \<Rightarrow> budget_db \<Rightarrow> client" where
  "read_detail r n current db =
     (case r of
        Charge k rows cap \<Rightarrow>
          (let existing = map_of (bd_charges db) k
           in case charge_check rows cap current existing of
                Inl e \<Rightarrow> Finished (Err (Budget e))
              | Inr _ \<Rightarrow> HasDetail r n current (Existing existing))
      | Retire k _ \<Rightarrow>
          (case map_of (bd_charges db) k of
             None \<Rightarrow> Finished (Ok 0)
           | Some c \<Rightarrow> if ch_state c \<noteq> STATE_ACTIVE then Finished (Ok 0) else HasDetail r n current (Held c))
      | Expire org now \<Rightarrow>
          (let expired = expired_charges org now db
           in if expired = [] then Finished (Ok 0) else HasDetail r n current (Expired expired)))"

fun commit_of :: "budget_req \<Rightarrow> slo_budget option \<Rightarrow> detail \<Rightarrow> budget_db \<Rightarrow> int \<times> commit" where
  "commit_of (Charge k rows cap) current (Existing existing) db = (0, charge_commit k rows current existing db)"
| "commit_of (Retire k expires_at) (Some b) (Held c) db = (0, retire_commit k expires_at b c db)"
| "commit_of (Expire org now) (Some b) (Expired expired) db = (freed_rows expired, expire_commit org b expired db)"
| "commit_of _ _ _ db = (0, Aborted)"

fun client_step :: "client \<Rightarrow> budget_db \<Rightarrow> client \<times> budget_db" where
  "client_step (Start r n) db = (read_budget r n db, db)"
| "client_step (HasBudget r n current) db = (read_detail r n current db, db)"
| "client_step (HasDetail r n current d) db =
     (case commit_of r current d db of
        (freed, Committed db') \<Rightarrow> (Finished (Ok freed), db')
      | (freed, SwapLost) \<Rightarrow> (Start r n, db)
      | (freed, Aborted) \<Rightarrow> (Finished (Err DbError), db))"
| "client_step (Finished res) db = (Finished res, db)"

definition schedule_step :: "client list \<times> budget_db \<Rightarrow> nat \<Rightarrow> client list \<times> budget_db" where
  "schedule_step s i =
     (case s of (cs, db) \<Rightarrow>
        if i < length cs then (case client_step (cs ! i) db of (c', db') \<Rightarrow> (cs[i := c'], db')) else s)"

definition run_schedule :: "client list \<times> budget_db \<Rightarrow> nat list \<Rightarrow> client list \<times> budget_db" where
  "run_schedule = foldl schedule_step"

section \<open>What the totals stand for\<close>

definition org_charges :: "budget_db \<Rightarrow> string \<Rightarrow> (charge_key \<times> budget_charge) list" where
  "org_charges db org = filter (\<lambda>e. fst (fst e) = org) (bd_charges db)"

definition held :: "int \<Rightarrow> (charge_key \<times> budget_charge) list \<Rightarrow> int" where
  "held st cs = sum_list (map (\<lambda>e. if ch_state (snd e) = st then ch_rows_charged (snd e) else 0) cs)"

definition org_ok :: "int \<Rightarrow> slo_budget option \<Rightarrow> (charge_key \<times> budget_charge) list \<Rightarrow> bool" where
  "org_ok cap current cs =
     (case current of
        None \<Rightarrow> cs = []
      | Some b \<Rightarrow> bu_active_rows b = held STATE_ACTIVE cs \<and> held STATE_RESIDUAL cs \<le> bu_residual_rows b \<and>
                  bu_active_rows b + bu_residual_rows b \<le> cap)"

definition budget_inv :: "int \<Rightarrow> budget_db \<Rightarrow> bool" where
  "budget_inv cap db \<longleftrightarrow>
     distinct (map fst (bd_charges db)) \<and> (\<forall>e \<in> set (bd_charges db). 0 \<le> ch_rows_charged (snd e)) \<and>
     (\<forall>org. org_ok cap (map_of (bd_budgets db) org) (org_charges db org))"

lemmas state_defs = STATE_ACTIVE_def STATE_RESIDUAL_def

lemma held_simps [simp]:
  "held st [] = 0"
  "held st (e # cs) = (if ch_state (snd e) = st then ch_rows_charged (snd e) else 0) + held st cs"
  by (simp_all add: held_def)

lemma held_nonneg: "\<forall>e \<in> set cs. 0 \<le> ch_rows_charged (snd e) \<Longrightarrow> 0 \<le> held st cs"
  by (induction cs) auto

lemma held_member:
  assumes "map_of cs k = Some c" "ch_state c = st" "\<forall>e \<in> set cs. 0 \<le> ch_rows_charged (snd e)"
  shows "ch_rows_charged c \<le> held st cs"
  using assms by (induction cs) (auto split: if_splits dest: held_nonneg intro: order.trans)

lemma held_update:
  "held st (AList.update k c cs) =
     held st cs - (case map_of cs k of Some o' \<Rightarrow> if ch_state o' = st then ch_rows_charged o' else 0 | None \<Rightarrow> 0) +
     (if ch_state c = st then ch_rows_charged c else 0)"
  by (induction cs) auto

lemma held_filter: "held st (filter (\<lambda>e. \<not> Q e) cs) = held st cs - held st (filter Q cs)"
  by (induction cs) auto

lemma held_due:
  "\<forall>e \<in> set cs. ch_state (snd e) = STATE_RESIDUAL \<Longrightarrow> held STATE_RESIDUAL cs = freed_rows cs \<and> held STATE_ACTIVE cs = 0"
  by (induction cs) (auto simp: freed_rows_def state_defs)

lemma org_filter_update:
  "filter (\<lambda>e. fst (fst e) = org) (AList.update k c cs) =
     (if fst k = org then AList.update k c (filter (\<lambda>e. fst (fst e) = org) cs) else filter (\<lambda>e. fst (fst e) = org) cs)"
  by (induction cs) auto

lemma map_of_org: "map_of (bd_charges db) k = map_of (org_charges db (fst k)) k"
proof -
  have "map_of cs k = map_of (filter (\<lambda>e. fst (fst e) = fst k) cs) k" for cs :: "(charge_key \<times> budget_charge) list"
    by (induction cs) auto
  then show ?thesis by (simp add: org_charges_def)
qed

lemma fold_delete: "fold (AList.delete \<circ> fst) xs cs = filter (\<lambda>e. fst e \<notin> fst ` set xs) cs"
  by (induction xs arbitrary: cs) (auto simp: AList.delete_eq case_prod_beta intro: filter_cong)

lemma filter_keys:
  assumes "distinct (map fst cs)"
  shows "filter (\<lambda>e. fst e \<notin> fst ` set (filter Q cs)) cs = filter (\<lambda>e. \<not> Q e) cs"
proof (rule filter_cong [OF refl])
  fix e assume e: "e \<in> set cs"
  have "e' = e" if "e' \<in> set cs" "fst e' = fst e" for e'
    using that e assms by (metis eq_key_imp_eq_value prod.collapse)
  then show "(fst e \<notin> fst ` set (filter Q cs)) = (\<not> Q e)" using e by auto
qed

lemma update_nonneg:
  "\<forall>e \<in> set cs. 0 \<le> ch_rows_charged (snd e) \<Longrightarrow> 0 \<le> ch_rows_charged c \<Longrightarrow>
     \<forall>e \<in> set (AList.update k c cs). 0 \<le> ch_rows_charged (snd e)"
  by (induction cs) auto

section \<open>Interleaved clients\<close>

definition evolves :: "budget_db \<Rightarrow> budget_db \<Rightarrow> bool" where
  "evolves db db' \<longleftrightarrow>
     (\<forall>org. map_of (bd_budgets db') org = map_of (bd_budgets db) org \<and> org_charges db' org = org_charges db org \<or>
        (case map_of (bd_budgets db) org of
           None \<Rightarrow> map_of (bd_budgets db') org \<noteq> None
         | Some b \<Rightarrow> (\<exists>b'. map_of (bd_budgets db') org = Some b' \<and> bu_version b < bu_version b')))"

lemma org_change:
  assumes "budget_inv cap db"
    and "bd_budgets db' = AList.update org b' (bd_budgets db)"
    and "\<And>x. x \<noteq> org \<Longrightarrow> org_charges db' x = org_charges db x"
    and "distinct (map fst (bd_charges db'))" "\<forall>e \<in> set (bd_charges db'). 0 \<le> ch_rows_charged (snd e)"
    and "org_ok cap (Some b') (org_charges db' org)"
    and "\<And>b. map_of (bd_budgets db) org = Some b \<Longrightarrow> bu_version b < bu_version b'"
  shows "budget_inv cap db' \<and> evolves db db'"
proof
  have other: "map_of (bd_budgets db') x = (if x = org then Some b' else map_of (bd_budgets db) x)" for x
    by (simp add: assms(2) update_conv')
  show "budget_inv cap db'" using assms(1,3-6) by (auto simp: budget_inv_def other)
  show "evolves db db'" using assms(3,7) by (auto simp: evolves_def other split: option.splits)
qed

definition req_ok :: "int \<Rightarrow> budget_req \<Rightarrow> bool" where
  "req_ok cap r = (case r of Charge _ rows cap' \<Rightarrow> 0 \<le> rows \<and> cap' = cap | _ \<Rightarrow> True)"

definition snapshot_ok :: "budget_db \<Rightarrow> string \<Rightarrow> slo_budget option \<Rightarrow> bool" where
  "snapshot_ok db org current =
     (case current of
        None \<Rightarrow> True
      | Some b \<Rightarrow> (\<exists>b'. map_of (bd_budgets db) org = Some b' \<and> (bu_version b < bu_version b' \<or> b' = b)))"

fun detail_ok :: "budget_db \<Rightarrow> budget_req \<Rightarrow> slo_budget option \<Rightarrow> detail \<Rightarrow> bool" where
  "detail_ok db (Charge k rows cap) current (Existing e) \<longleftrightarrow> map_of (bd_charges db) k = e \<and> charge_check rows cap current e = Ok ()"
| "detail_ok db (Retire k expires_at) current (Held c) \<longleftrightarrow> map_of (bd_charges db) k = Some c \<and> ch_state c = STATE_ACTIVE"
| "detail_ok db (Expire org now) current (Expired xs) \<longleftrightarrow> xs = expired_charges org now db"
| "detail_ok db r current d \<longleftrightarrow> False"

fun client_ok :: "int \<Rightarrow> budget_db \<Rightarrow> client \<Rightarrow> bool" where
  "client_ok cap db (Start r n) \<longleftrightarrow> req_ok cap r"
| "client_ok cap db (HasBudget r n current) \<longleftrightarrow> req_ok cap r \<and> snapshot_ok db (req_org r) current"
| "client_ok cap db (HasDetail r n current d) \<longleftrightarrow>
     req_ok cap r \<and> snapshot_ok db (req_org r) current \<and> (map_of (bd_budgets db) (req_org r) = current \<longrightarrow> detail_ok db r current d)"
| "client_ok cap db (Finished res) \<longleftrightarrow> True"

lemma expired_of_org: "expired_charges org now db =
    filter (\<lambda>(k, c). ch_state c = STATE_RESIDUAL \<and> (case ch_expires_at c of Some t \<Rightarrow> t \<le> now | None \<Rightarrow> False)) (org_charges db org)"
  by (auto simp: expired_charges_def org_charges_def intro: filter_cong)

lemma detail_ok_org:
  "org_charges db' (req_org r) = org_charges db (req_org r) \<Longrightarrow> detail_ok db' r current d = detail_ok db r current d"
  using map_of_org [of db] map_of_org [of db'] by (cases r; cases d) (simp_all add: expired_of_org)

lemma client_ok_evolves:
  assumes "client_ok cap db c" "evolves db db'"
  shows "client_ok cap db' c"
proof -
  have snap: "snapshot_ok db' org current" if "snapshot_ok db org current" for org current
    using that assms(2) [unfolded evolves_def, rule_format, of org] by (auto simp: snapshot_ok_def split: option.splits)
  have same: "map_of (bd_budgets db) org = current \<and> org_charges db' org = org_charges db org"
    if "snapshot_ok db org current" "map_of (bd_budgets db') org = current" for org current
    using that assms(2) [unfolded evolves_def, rule_format, of org] by (auto simp: snapshot_ok_def split: option.splits)
  show ?thesis
  proof (cases c)
    case (HasDetail r n current d)
    then show ?thesis using assms(1) snap same [of "req_org r" current] detail_ok_org [of db' r db current d] by simp
  qed (use assms(1) snap in simp_all)
qed

lemma swap_budget_Some:
  assumes "swap_budget org seen active residual db = Some db'" "snapshot_ok db org (Some seen)"
  shows "map_of (bd_budgets db) org = Some seen \<and>
    db' = db\<lparr>bd_budgets := AList.update org
      \<lparr>bu_version = bu_version seen + 1, bu_active_rows = active, bu_residual_rows = residual\<rparr> (bd_budgets db)\<rparr>"
  using assms by (auto simp: swap_budget_def snapshot_ok_def split: option.splits if_splits)

lemma check_headroom_ok:
  assumes "check_headroom rows active residual cap = Ok ()" "cap < i64_max" "0 \<le> active" "0 \<le> residual" "0 \<le> rows"
  shows "active + residual + rows \<le> cap"
  using assms by (auto simp: check_headroom_def i64_defs min_def max_def split: if_splits)

lemma budget_inv_org:
  assumes "budget_inv cap db"
  shows "org_ok cap (map_of (bd_budgets db) org) (org_charges db org)"
    "distinct (map fst (bd_charges db))" "\<forall>e \<in> set (bd_charges db). 0 \<le> ch_rows_charged (snd e)"
    "\<forall>e \<in> set (org_charges db org). 0 \<le> ch_rows_charged (snd e)" "0 \<le> held st (org_charges db org)"
proof -
  show 1: "\<forall>e \<in> set (org_charges db org). 0 \<le> ch_rows_charged (snd e)"
    using assms by (auto simp: budget_inv_def org_charges_def)
  show "0 \<le> held st (org_charges db org)" by (rule held_nonneg [OF 1])
qed (use assms in \<open>simp_all add: budget_inv_def\<close>)

lemma already_held_eq:
  "already_held (map_of cs k) = (case map_of cs k of Some c \<Rightarrow> if ch_state c = STATE_ACTIVE then ch_rows_charged c else 0 | None \<Rightarrow> 0)"
  by (simp add: already_held_def)

lemma totals_bounds:
  assumes "budget_inv cap db"
  shows "0 \<le> already_held (map_of (bd_charges db) k)"
    "already_held (map_of (bd_charges db) k) \<le> held STATE_ACTIVE (org_charges db (fst k))"
    "fst (totals_of (map_of (bd_budgets db) org)) = held STATE_ACTIVE (org_charges db org)"
    "held STATE_RESIDUAL (org_charges db org) \<le> snd (totals_of (map_of (bd_budgets db) org))"
    "map_of (bd_budgets db) org \<noteq> None \<Longrightarrow>
       fst (totals_of (map_of (bd_budgets db) org)) + snd (totals_of (map_of (bd_budgets db) org)) \<le> cap"
  using budget_inv_org(1) [OF assms, of org] budget_inv_org(4) [OF assms, of "fst k"] budget_inv_org(5) [OF assms, of _ "fst k"] map_of_org [of db k]
    held_member [OF _ _ budget_inv_org(4) [OF assms], of "fst k" k]
  by (auto simp: already_held_def org_ok_def totals_of_def split: option.splits dest!: map_of_SomeD)

lemma charge_update:
  assumes "budget_inv cap db" "map_of (bd_budgets db) (fst k) = current" "charge_check rows cap current (map_of (bd_charges db) k) = Ok ()"
    and "0 \<le> rows" "cap < i64_max"
    and "db' = \<lparr>bd_budgets = AList.update (fst k) \<lparr>bu_version = v,
            bu_active_rows = fst (totals_of current) - already_held (map_of (bd_charges db) k) + rows,
            bu_residual_rows = snd (totals_of current)\<rparr> (bd_budgets db),
          bd_charges = AList.update k \<lparr>ch_rows_charged = rows, ch_state = STATE_ACTIVE, ch_expires_at = None\<rparr> (bd_charges db)\<rparr>"
    and "\<And>b. current = Some b \<Longrightarrow> bu_version b < v"
  shows "budget_inv cap db' \<and> evolves db db'"
proof (rule org_change [OF assms(1), where org = "fst k"])
  let ?cs = "org_charges db (fst k)" and ?old = "already_held (map_of (bd_charges db) k)"
  note inv = budget_inv_org [OF assms(1)]
  have k: "map_of (bd_charges db) k = map_of ?cs k" by (rule map_of_org)
  note tot = totals_bounds(1,2) [OF assms(1), of k] totals_bounds(3-5) [OF assms(1), of "fst k", unfolded assms(2)]
  have fits: "fst (totals_of current) - ?old + snd (totals_of current) + rows \<le> cap"
    using assms(3-5) tot inv(5) [of STATE_RESIDUAL "fst k"] by (intro check_headroom_ok) (auto simp: charge_check_def case_prod_beta)
  have cs': "org_charges db' (fst k) = AList.update k \<lparr>ch_rows_charged = rows, ch_state = STATE_ACTIVE, ch_expires_at = None\<rparr> ?cs"
    by (simp add: assms(6) org_charges_def org_filter_update)
  show "org_ok cap (Some \<lparr>bu_version = v, bu_active_rows = fst (totals_of current) - ?old + rows,
      bu_residual_rows = snd (totals_of current)\<rparr>) (org_charges db' (fst k))"
    using tot fits inv(4) [of "fst k"]
    by (auto simp: org_ok_def cs' held_update k already_held_eq state_defs split: option.splits dest!: map_of_SomeD)
  show "\<forall>e \<in> set (bd_charges db'). 0 \<le> ch_rows_charged (snd e)"
    unfolding assms(6) budget_db.simps by (rule update_nonneg) (use inv(3) assms(4) in simp_all)
qed (use assms(2,6,7) budget_inv_org(2) [OF assms(1)] in \<open>simp_all add: org_charges_def org_filter_update distinct_update\<close>)

lemma retire_update:
  assumes "budget_inv cap db" "map_of (bd_budgets db) (fst k) = Some b" "map_of (bd_charges db) k = Some c" "ch_state c = STATE_ACTIVE"
    and "db' = \<lparr>bd_budgets = AList.update (fst k) \<lparr>bu_version = bu_version b + 1,
            bu_active_rows = max (bu_active_rows b - ch_rows_charged c) 0,
            bu_residual_rows = bu_residual_rows b + ch_rows_charged c\<rparr> (bd_budgets db),
          bd_charges = AList.update k (c\<lparr>ch_state := STATE_RESIDUAL, ch_expires_at := Some t\<rparr>) (bd_charges db)\<rparr>"
  shows "budget_inv cap db' \<and> evolves db db'"
proof (rule org_change [OF assms(1), where org = "fst k"])
  let ?cs = "org_charges db (fst k)"
  note inv = budget_inv_org [OF assms(1)]
  have k: "map_of ?cs k = Some c" using assms(3) map_of_org by metis
  have c: "ch_rows_charged c \<le> held STATE_ACTIVE ?cs" "0 \<le> ch_rows_charged c"
    using held_member [OF k assms(4) inv(4)] inv(4) [of "fst k"] map_of_SomeD [OF k] by auto
  have cs': "org_charges db' (fst k) = AList.update k (c\<lparr>ch_state := STATE_RESIDUAL, ch_expires_at := Some t\<rparr>) ?cs"
    by (simp add: assms(5) org_charges_def org_filter_update)
  show "org_ok cap (Some \<lparr>bu_version = bu_version b + 1, bu_active_rows = max (bu_active_rows b - ch_rows_charged c) 0,
      bu_residual_rows = bu_residual_rows b + ch_rows_charged c\<rparr>) (org_charges db' (fst k))"
    using inv(1) [of "fst k"] c k assms(2,4) by (auto simp: org_ok_def cs' held_update state_defs)
  show "\<forall>e \<in> set (bd_charges db'). 0 \<le> ch_rows_charged (snd e)"
    unfolding assms(5) budget_db.simps by (rule update_nonneg) (use inv(3) c in simp_all)
qed (use assms(2,5) budget_inv_org(2) [OF assms(1)] in \<open>simp_all add: org_charges_def org_filter_update distinct_update\<close>)

lemma expire_update:
  assumes "budget_inv cap db" "map_of (bd_budgets db) org = Some b" "expired = expired_charges org now db"
    and "db' = \<lparr>bd_budgets = AList.update org \<lparr>bu_version = bu_version b + 1, bu_active_rows = bu_active_rows b,
            bu_residual_rows = max (bu_residual_rows b - freed_rows expired) 0\<rparr> (bd_budgets db),
          bd_charges = fold (AList.delete \<circ> fst) expired (bd_charges db)\<rparr>"
  shows "budget_inv cap db' \<and> evolves db db'"
proof (rule org_change [OF assms(1), where org = org])
  let ?cs = "org_charges db org"
  let ?due = "\<lambda>e. ch_state (snd e) = STATE_RESIDUAL \<and> (case ch_expires_at (snd e) of Some t \<Rightarrow> t \<le> now | None \<Rightarrow> False)"
  note inv = budget_inv_org [OF assms(1)]
  have xs: "expired = filter (\<lambda>e. fst (fst e) = org \<and> ?due e) (bd_charges db)" "expired = filter ?due ?cs"
    by (auto simp: assms(3) expired_charges_def org_charges_def intro!: filter_cong)
  have cs: "bd_charges db' = filter (\<lambda>e. \<not> (fst (fst e) = org \<and> ?due e)) (bd_charges db)"
    using filter_keys [OF inv(2), of "\<lambda>e. fst (fst e) = org \<and> ?due e"] by (simp add: assms(4) fold_delete flip: xs(1))
  have org: "org_charges db' org = filter (\<lambda>e. \<not> ?due e) ?cs"
    unfolding org_charges_def cs by (auto intro: filter_cong)
  have freed: "held STATE_RESIDUAL (filter ?due ?cs) = freed_rows expired" "held STATE_ACTIVE (filter ?due ?cs) = 0"
    using held_due [of "filter ?due ?cs"] by (simp_all add: xs(2))
  have "0 \<le> held STATE_RESIDUAL (filter (\<lambda>e. \<not> ?due e) ?cs)" using inv(4) [of org] by (intro held_nonneg) auto
  moreover have "0 \<le> held STATE_RESIDUAL (filter ?due ?cs)" using inv(4) [of org] by (intro held_nonneg) auto
  ultimately show "org_ok cap (Some \<lparr>bu_version = bu_version b + 1, bu_active_rows = bu_active_rows b,
      bu_residual_rows = max (bu_residual_rows b - freed_rows expired) 0\<rparr>) (org_charges db' org)"
    using inv(1) [of org] assms(2) freed held_filter [of _ ?due ?cs] by (auto simp: org_ok_def org max_def)
  show "org_charges db' x = org_charges db x" if "x \<noteq> org" for x
    using that unfolding org_charges_def cs by (auto intro: filter_cong)
  show "distinct (map fst (bd_charges db'))" using inv(2) by (simp add: cs distinct_map_filter)
  show "\<forall>e \<in> set (bd_charges db'). 0 \<le> ch_rows_charged (snd e)" using inv(3) by (simp add: cs)
qed (use assms(2,4) in simp_all)

lemma commit_keeps:
  assumes "budget_inv cap db" "client_ok cap db (HasDetail r n current d)" "cap < i64_max"
    and "commit_of r current d db = (freed, Committed db')"
  shows "budget_inv cap db' \<and> evolves db db'"
  using assms(4)
proof (cases rule: commit_of.elims)
  case (1 k rows cap' current' existing db0)
  then obtain db1 where sw: "charge_swap (fst k) rows current existing db = Some db1"
      and db': "db' = db1\<lparr>bd_charges := AList.update k
        \<lparr>ch_rows_charged = rows, ch_state = STATE_ACTIVE, ch_expires_at = None\<rparr> (bd_charges db1)\<rparr>"
    by (auto simp: charge_commit_def split: option.splits if_splits)
  have now: "map_of (bd_budgets db) (fst k) = current"
    using sw assms(2) 1 by (auto simp: charge_swap_def swap_budget_def snapshot_ok_def Let_def split: option.splits if_splits)
  have det: "map_of (bd_charges db) k = existing" "charge_check rows cap current existing = Ok ()" "0 \<le> rows"
    using assms(2) now 1 by (auto simp: req_ok_def)
  define v where "v = (case current of Some b \<Rightarrow> bu_version b + 1 | None \<Rightarrow> 1)"
  have "db' = \<lparr>bd_budgets = AList.update (fst k) \<lparr>bu_version = v,
            bu_active_rows = fst (totals_of current) - already_held (map_of (bd_charges db) k) + rows,
            bu_residual_rows = snd (totals_of current)\<rparr> (bd_budgets db),
          bd_charges = AList.update k \<lparr>ch_rows_charged = rows, ch_state = STATE_ACTIVE, ch_expires_at = None\<rparr> (bd_charges db)\<rparr>"
    using sw now det(1) by (auto simp: db' v_def charge_swap_def swap_budget_def totals_of_def Let_def split: option.splits if_splits)
  then show ?thesis using charge_update [OF assms(1) now, of rows db' v] det assms(3) by (simp add: v_def)
next
  case (2 k t b c db0)
  then obtain db1 c' where sw: "swap_budget (fst k) b (max (bu_active_rows b - ch_rows_charged c) 0)
        (bu_residual_rows b + ch_rows_charged c) db = Some db1" "map_of (bd_charges db1) k = Some c'"
      and db': "db' = db1\<lparr>bd_charges := AList.update k (c'\<lparr>ch_state := STATE_RESIDUAL, ch_expires_at := Some t\<rparr>) (bd_charges db1)\<rparr>"
    by (auto simp: retire_commit_def split: option.splits)
  note s = swap_budget_Some [OF sw(1)]
  have "snapshot_ok db (fst k) (Some b)" using assms(2) 2 by simp
  note s = s [OF this]
  have "map_of (bd_charges db) k = Some c" "ch_state c = STATE_ACTIVE" using assms(2) s 2 by simp_all
  then show ?thesis using sw(2) s by (intro retire_update [OF assms(1), of k b c db' t]) (auto simp: db')
next
  case (3 org now b xs db0)
  then obtain b0 db1 where sw: "map_of (bd_budgets db) org = Some b0"
        "swap_budget org b (bu_active_rows b0) (max (bu_residual_rows b - freed_rows xs) 0) db = Some db1"
      and db': "db' = db1\<lparr>bd_charges := fold (AList.delete \<circ> fst) xs (bd_charges db1)\<rparr>"
    by (auto simp: expire_commit_def split: option.splits)
  have "snapshot_ok db org (Some b)" using assms(2) 3 by simp
  note s = swap_budget_Some [OF sw(2) this]
  have "xs = expired_charges org now db" using assms(2) s 3 by simp
  then show ?thesis using sw(1) s by (intro expire_update [OF assms(1), of org b xs now db']) (auto simp: db')
qed simp_all

lemma step_keeps:
  assumes "budget_inv cap db" "client_ok cap db c" "cap < i64_max" "client_step c db = (c', db')"
  shows "budget_inv cap db' \<and> evolves db db' \<and> client_ok cap db' c'"
proof (cases c)
  case (Start r n)
  then show ?thesis using assms
    by (cases n; cases r) (auto simp: evolves_def snapshot_ok_def req_ok_def split: option.splits)
next
  case (HasBudget r n current)
  then show ?thesis using assms
    by (cases r) (auto simp: evolves_def req_ok_def read_detail_def Let_def split: option.splits sum.splits if_splits)
next
  case (HasDetail r n current d)
  obtain freed res where com: "commit_of r current d db = (freed, res)" by fastforce
  show ?thesis
  proof (cases res)
    case (Committed db1)
    then have "c' = Finished (Ok freed)" "db' = db1" using assms(4) HasDetail com by auto
    then show ?thesis using commit_keeps [OF assms(1) _ assms(3)] assms(2) com Committed HasDetail by auto
  qed (use assms HasDetail com in \<open>auto simp: evolves_def\<close>)
qed (use assms in \<open>auto simp: evolves_def\<close>)

lemma run_keeps:
  assumes "budget_inv cap db" "\<forall>c \<in> set cs. client_ok cap db c" "cap < i64_max" "run_schedule (cs, db) sched = (cs', db')"
  shows "budget_inv cap db' \<and> (\<forall>c \<in> set cs'. client_ok cap db' c)"
  using assms(1,2,4)
proof (induction sched arbitrary: cs db)
  case (Cons i sched)
  obtain cs1 db1 where st: "schedule_step (cs, db) i = (cs1, db1)" by fastforce
  have "budget_inv cap db1 \<and> (\<forall>c \<in> set cs1. client_ok cap db1 c)"
  proof (cases "i < length cs")
    case True
    obtain c' where c': "client_step (cs ! i) db = (c', db1)" "cs1 = cs[i := c']"
      using st True by (auto simp: schedule_step_def split: prod.splits)
    have "budget_inv cap db1 \<and> evolves db db1 \<and> client_ok cap db1 c'"
      using Cons.prems(1,2) True by (intro step_keeps [OF _ _ assms(3) c'(1)]) auto
    then show ?thesis using Cons.prems(2) client_ok_evolves c'(2) by (auto dest!: set_update_subset_insert [THEN subsetD])
  qed (use st Cons.prems in \<open>auto simp: schedule_step_def\<close>)
  then show ?case using Cons.IH [of db1 cs1] Cons.prems(3) st by (simp add: run_schedule_def)
qed (simp add: run_schedule_def)

section \<open>The budget is never overdrawn\<close>

definition empty_budget :: budget_db where
  "empty_budget = \<lparr>bd_budgets = [], bd_charges = []\<rparr>"

lemma empty_budget_inv: "budget_inv cap empty_budget"
  by (simp add: budget_inv_def empty_budget_def org_ok_def org_charges_def)

text \<open>
  C17. However saves, retirements and expiries of any number of clients interleave, between the read of the
  totals, the read of the detail and the commit, and however often they lose the swap and retry: the
  active total of an organisation is exactly what its active charges add up to, its residual total is at
  least what its residual charges add up to, the two together never exceed the cap, and an organisation
  without totals has no charges, for any requests but the deletion of an organisation's budget. Two racing saves cannot both spend the last of the budget. The cap is below
  the greatest \<open>i64\<close>, where the saturating sum of the check would hide an overdraft.
\<close>

theorem budget_never_overdrawn:
  assumes "\<forall>c \<in> set cs. \<exists>r. c = Start r CAS_RETRIES \<and> req_ok cap r" "cap < i64_max"
    and "run_schedule (cs, empty_budget) sched = (cs', db)"
  shows "case map_of (bd_budgets db) org of
      None \<Rightarrow> org_charges db org = []
    | Some b \<Rightarrow> bu_active_rows b = held STATE_ACTIVE (org_charges db org) \<and>
        held STATE_RESIDUAL (org_charges db org) \<le> bu_residual_rows b \<and> bu_active_rows b + bu_residual_rows b \<le> cap"
proof -
  have "\<forall>c \<in> set cs. client_ok cap empty_budget c" using assms(1) by auto
  then have "budget_inv cap db" using run_keeps [OF empty_budget_inv _ assms(2,3)] by blast
  then show ?thesis using budget_inv_org(1) [of cap db org] by (simp add: org_ok_def)
qed

definition racing_saves :: "client list" where
  "racing_saves =
     [Start (Charge (''org'', ''a'', 1) 600 1000) CAS_RETRIES, Start (Charge (''org'', ''b'', 1) 600 1000) CAS_RETRIES]"

lemma racing_saves_run:
  "run_schedule (racing_saves, empty_budget) [0, 1, 0, 1, 0, 1, 1, 1] =
     ([Finished (Ok 0), Finished (Err (Budget (OrgBudgetExceeded 600 600 0 1000)))],
      \<lparr>bd_budgets = [(''org'', \<lparr>bu_version = 1, bu_active_rows = 600, bu_residual_rows = 0\<rparr>)],
       bd_charges = [((''org'', ''a'', 1), \<lparr>ch_rows_charged = 600, ch_state = STATE_ACTIVE, ch_expires_at = None\<rparr>)]\<rparr>)"
  by code_simp

theorem budget_never_overdrawn_witness:
  "held STATE_ACTIVE (org_charges (snd (run_schedule (racing_saves, empty_budget) [0, 1, 0, 1, 0, 1, 1, 1])) ''org'') = 600"
proof -
  have "\<forall>c \<in> set racing_saves. \<exists>r. c = Start r CAS_RETRIES \<and> req_ok 1000 r" by (auto simp: racing_saves_def req_ok_def)
  from budget_never_overdrawn [OF this _ racing_saves_run, of "''org''"] show ?thesis unfolding racing_saves_run by simp
qed

text \<open>
  A save that nobody disturbs is granted exactly when it fits. It needs one attempt: if what the
  organisation holds, less what this generation already holds, leaves room for the request, the charge is
  recorded, replaces the generation's earlier one, moves the active total by the difference and leaves every
  other charge alone; otherwise the save is refused and nothing changes.
\<close>

theorem charge_alone_exact:
  assumes "budget_inv cap db" "0 \<le> rows" "cap < i64_max"
    and "totals_of (map_of (bd_budgets db) (fst k)) = (active, residual)" "already_held (map_of (bd_charges db) k) = old"
  shows "case run_schedule ([Start (Charge k rows cap) CAS_RETRIES], db) [0, 0, 0] of (cs, db') \<Rightarrow>
    if active - old + residual + rows \<le> cap
    then cs = [Finished (Ok 0)] \<and> totals_of (map_of (bd_budgets db') (fst k)) = (active - old + rows, residual) \<and>
      map_of (bd_charges db') = (map_of (bd_charges db))(k \<mapsto> \<lparr>ch_rows_charged = rows, ch_state = STATE_ACTIVE, ch_expires_at = None\<rparr>)
    else (\<exists>e. cs = [Finished (Err (Budget e))]) \<and> db' = db"
proof -
  let ?cs = "org_charges db (fst k)" and ?cur = "map_of (bd_budgets db) (fst k)"
  note inv = budget_inv_org [OF assms(1)]
  have old: "0 \<le> old" "old \<le> active" "0 \<le> residual" "active + residual \<le> max cap 0"
    using totals_bounds(1,2) [OF assms(1), of k] totals_bounds(3-5) [OF assms(1), of "fst k"] assms(4,5) inv(5) [of STATE_RESIDUAL "fst k"]
    by (cases ?cur; simp add: totals_of_def)+
  have chk: "charge_check rows cap ?cur (map_of (bd_charges db) k) = Ok () \<longleftrightarrow> active - old + residual + rows \<le> cap"
    using assms(2-5) old
    by (auto simp: charge_check_def check_headroom_def i64_defs min_def max_def split: if_splits)
  show ?thesis
  proof (cases "active - old + residual + rows \<le> cap")
    case True
    then show ?thesis using chk assms(4,5)
      by (auto simp: run_schedule_def schedule_step_def CAS_RETRIES_def eval_nat_numeral read_detail_def Let_def charge_commit_def
        charge_swap_def swap_budget_def update_conv' totals_of_def split: option.splits)
  next
    case False
    then obtain e where "charge_check rows cap ?cur (map_of (bd_charges db) k) = Err e"
      using chk by (cases "charge_check rows cap ?cur (map_of (bd_charges db) k)") auto
    then show ?thesis using False
      by (auto simp: run_schedule_def schedule_step_def CAS_RETRIES_def eval_nat_numeral read_detail_def Let_def)
  qed
qed

theorem charge_alone_exact_witness:
  "case run_schedule ([Start (Charge (''org'', ''a'', 1) 600 1000) CAS_RETRIES], empty_budget) [0, 0, 0] of (cs, db') \<Rightarrow>
     cs = [Finished (Ok 0)] \<and> totals_of (map_of (bd_budgets db') ''org'') = (600, 0)"
  using charge_alone_exact [OF empty_budget_inv, of 600 1000 "(''org'', ''a'', 1)" 0 0 0]
  by (auto simp: totals_of_def already_held_def empty_budget_def)

text \<open>
  Deleting an organisation resets its version. A save that read the totals before the deletion commits
  over the totals of the organisation created in its place, when the versions happen to agree: here the
  charges add up to 350 rows of a budget of 300, and the totals say 250.
\<close>

definition before_deletion :: budget_db where
  "before_deletion =
     \<lparr>bd_budgets = [(''org'', \<lparr>bu_version = 1, bu_active_rows = 100, bu_residual_rows = 0\<rparr>)],
      bd_charges = [((''org'', ''a'', 1), \<lparr>ch_rows_charged = 100, ch_state = STATE_ACTIVE, ch_expires_at = None\<rparr>)]\<rparr>"

definition recreate_history :: "client list \<times> budget_db" where
  "recreate_history =
     (let (cs, db) = run_schedule
            ([Start (Charge (''org'', ''b'', 1) 150 300) CAS_RETRIES, Start (Charge (''org'', ''c'', 1) 200 300) CAS_RETRIES],
             before_deletion) [0, 0]
      in run_schedule (cs, delete_by_org ''org'' db) [1, 1, 1, 0])"

theorem recreated_org_overdrawn:
  "budget_inv 300 before_deletion \<and>
   fst recreate_history = [Finished (Ok 0), Finished (Ok 0)] \<and>
   held STATE_ACTIVE (org_charges (snd recreate_history) ''org'') = 350 \<and>
   map_option bu_active_rows (map_of (bd_budgets (snd recreate_history)) ''org'') = Some 250"
proof (intro conjI)
  show "budget_inv 300 before_deletion"
    by (auto simp: before_deletion_def budget_inv_def org_ok_def org_charges_def state_defs)
  show "fst recreate_history = [Finished (Ok 0), Finished (Ok 0)]" by code_simp
  show "held STATE_ACTIVE (org_charges (snd recreate_history) ''org'') = 350" by code_simp
  show "map_option bu_active_rows (map_of (bd_budgets (snd recreate_history)) ''org'') = Some 250" by code_simp
qed

end
