(* ===== verification/Spec2Isabelle.thy ===== *)
theory Spec2Isabelle
  imports Deql_Registry Oncall_Response Oncall_Schedule Oncall_Policy Oncall_Routing Oncall_Team Oncall_Preset
    Oncall_Phone Midx_Writer Alert_Store Alert_Nesting Alert_Runtime Slo_Alert Slo_Budget
begin

text \<open>
  A verification library for the decision-making core of OpenObserve (this repository's fork with the
  DeQL registry): what an evaluation of an alert means and what is stored of it, how measured time becomes
  an SLO, who is paged and when, and how metric samples are packed into index files. Paths below are
  relative to \<open>src/\<close> of the repository.

  \<^bold>\<open>How the parts interact.\<close> The scheduler evaluates an alert and classifies the result against its
  thresholds (levels), once per group of a grouped alert (grouping), or by combining the states of other
  alerts (composites). The outcome is folded into a durable row with its transitions and episodes (state,
  store), the groups to notify are chosen (dispatch), and each measured evaluation extends the
  availability ledger. The SLO job reads the ledger over a slice grid (uptime), turns the rows into slices,
  corrects them for downtimes and folds them into a running aggregate behind a watermark (SLO passes), keeps
  the trailing windows that burn-rate alerts compare (SLO alerts), and every SLO reserves its rows from the
  budget of its organisation (row budget). A notification that pages opens a response record: routing finds the team that owns the signal, the gate of
  the triage agent may hold it, the policy's ladder says which rung is due, targets are resolved over the
  team's schedule, contacts say which channels reach a person, and a circuit breaker guards each channel.
  The metrics index and the DeQL registry stand beside these.

  \<^bold>\<open>Theories and sources.\<close>
  \<^item> \<open>OO_Prelude\<close>, \<open>OO_Strings\<close>: 64-bit arithmetic with its overflow written out, results and the \<open>?\<close>
    operator, orderings with Rust's tie-breaking, UTF-8 strings. Two interfaces are stated here: \<open>keyed_cmp\<close>
    (a comparator that is the order of a key, hence order-free choices) and \<open>durable_enum\<close> (an
    enumeration with stored codes and names).
  \<^item> \<open>Deql_Registry\<close>: \<open>deql-core/src\<close>. The port is the locale \<open>registry\<close>; the hash-map implementation is
    refined to a finite map.
  \<^item> \<open>Oncall_Priority\<close>, \<open>Oncall_Subject\<close>, \<open>Oncall_Channel\<close>, \<open>Oncall_Target\<close>, \<open>Oncall_Agent\<close>, \<open>Oncall_Policy\<close>,
    \<open>Oncall_Response\<close>, \<open>Oncall_Rotation\<close> and \<open>Oncall_Schedule\<close>, \<open>Oncall_Routing\<close>, \<open>Oncall_Team\<close>, \<open>Oncall_Preset\<close>,
    \<open>Oncall_Contact\<close>: the files of the same names in \<open>config/src/meta/oncall\<close> (priorities in
    \<open>config/src/meta/alerts/priority.rs\<close>, both halves of \<open>rotation.rs\<close> in the two schedule theories).
    \<open>Oncall_Phone\<close>: the tables \<open>oncall_phone_verifications.rs\<close> and \<open>oncall_user_contacts.rs\<close> of
    \<open>infra/src/table\<close>, with the write of a contact another cluster sends (\<open>super_cluster_oncall.rs\<close>). The write
    of a snooze is that of \<open>oncall_responses.rs\<close> there.
  \<^item> \<open>Alert_Level\<close>, \<open>Alert_State\<close>, \<open>Alert_Grouping\<close>, \<open>Alert_Dispatch\<close>, \<open>Alert_Composite\<close>, \<open>Alert_Nesting\<close>: \<open>level.rs\<close>,
    \<open>state.rs\<close> and \<open>recovery.rs\<close>, \<open>grouping.rs\<close> and \<open>prom_rule.rs\<close>, \<open>dispatch.rs\<close>, \<open>composite.rs\<close> of
    \<open>config/src/meta/alerts\<close>. \<open>Alert_Runtime\<close>: \<open>core/src/alerts/composite/runtime.rs\<close>. \<open>Alert_Store\<close>:
    \<open>infra/src/table/alert_states.rs\<close>, the evaluation path of \<open>core/src/alerts/scheduler/handlers.rs\<close> and the
    sweep of \<open>jobs/src/job/alert_group_reaper.rs\<close>. \<open>Alert_Ledger\<close> and \<open>Alert_Uptime\<close>:
    \<open>infra/src/table/alert_eval_intervals.rs\<close> and \<open>config/src/meta/slo/alert_uptime.rs\<close>.
  \<^item> \<open>Slo_Window\<close>, \<open>Slo_Pass\<close>: \<open>window.rs\<close> and \<open>slice.rs\<close> of \<open>config/src/meta/slo\<close>, and of \<open>core/src/slo\<close> the files
    \<open>ingest.rs\<close>, \<open>corrections.rs\<close> and the passes of \<open>job.rs\<close>, with the status write of
    \<open>infra/src/table/slo.rs\<close>. \<open>Slo_Alert\<close>: \<open>burn.rs\<close>, \<open>math.rs\<close>, \<open>coverage.rs\<close> and \<open>condition.rs\<close> of the former,
    \<open>evaluate.rs\<close> and the burn cache of \<open>job.rs\<close> of the latter. \<open>Slo_Budget\<close>: \<open>budget_rows.rs\<close> and
    \<open>infra/src/table/slo_budget.rs\<close>.
  \<^item> \<open>Midx_Bytes\<close>, \<open>Midx_Pack\<close>, \<open>Midx_Time\<close>, \<open>Midx_Values\<close>, \<open>Midx_Samples\<close>, \<open>Midx_Directory\<close>, \<open>Midx_Writer\<close>:
    \<open>metrics_index/src/block\<close>, from byte primitives to the writer and the decoding of what it wrote.

  \<^bold>\<open>State and operations.\<close> A struct is a record and a method on \<open>&mut self\<close> a function that returns the new
  record; a table is the list of its rows, and a transaction one function on it, since one that fails
  changes nothing. Where reads or writes may fail or interleave (the evaluation path against the
  delivery workers, the phone tables), histories are lists of operations and the results hold after every
  one. The clients of the row budget read and commit in separate steps, and a history says in which order
  they move. Errors are values of a sum type with the source's variants; texts are kept where a caller sees them.

  \<^bold>\<open>What the lemmas show.\<close>
  \<^item> Alerts: a row says what its history of evaluations says; transitions chain; recoveries pair with
    delivered firings once; the columns of delivery have one writer; a vanished group is resolved with one
    transition and then deleted; dispatch sends the more severe groups first; a capped rollup equals the uncapped one; composites parse, print and evaluate as
    their formula, and the nesting check accepts exactly the acyclic graphs of bounded depth.
  \<^item> Ledger and SLO: no second is reported measured that no evaluation vouches for, slices count exactly the
    measured instants, passes leave no gap behind the watermark, corrections remove exactly the
    downtime, an alert has a level only where it was measured, burn windows equal their reference over any
    history of passes, and racing reservations never overdraw a budget. The end of this theory composes the ledger with the slice builder.
  \<^item> On-call: the drawn grid is who the pager resolves, a shift contains its instant, presets cover every
    hour, routing does not depend on row order, a ladder sends each due page once, snoozes pause the clock,
    the breaker opens on bursts only, suppression needs the team's consent, a leaver is paged through a
    remaining cover only, and a number is verified by its code or by another cluster alone.
  \<^item> Metrics index: encodings round-trip, blocks decode within their directory entry, the directory tiles the
    file, and the rows a reader gets are the rows written.

  \<^bold>\<open>Bounds and fuel.\<close> Instants and their differences are unbounded integers in the on-call, alert and SLO
  theories: microseconds since 1970 are far inside \<open>i64\<close>, and the operations the source checks or saturates
  keep their 64-bit limits. Counters that wrap are wrapped. The metrics index computes on 8-, 64- and
  128-bit words throughout. Fuel is chosen so that a lemma excludes running out: the number of rungs and two
  more for a run of the ladder, six units per token and nine more for the composite parser, one more unit
  than there are composites for the nesting search. The grid's limit of 2000 handovers and the four
  corrections of a shift boundary are the source's own; the grid theorem assumes shifts of at least half an
  hour and rules without restriction windows. The uptime walk is a partial function that is shown to return. A file offset is bounded by fifty
  bytes per row, and an interval of slices by \<open>2 ^ 53\<close> microseconds, below which \<open>f64\<close> holds every integer.

  \<^bold>\<open>Parameters.\<close> Code outside the repository is an argument: the calendar of chrono and chrono_tz (\<open>zone\<close>, with
  the laws used in the locale \<open>wall_clock\<close>: between 1985 and the end of the range every instant has a reading
  within a day and every reading an instant, and on whole minutes the two go in the same order but for a
  step back of the clock. UTC and a zone with one change forward, as Berlin in spring, or back, as in
  autumn, are shown to keep them; a zone that skips more than three hours at once does not), parsing of zone names, formatting of times, decoding of JSON
  by serde, Unicode and database lower-casing (they need not agree; lower-casing a text in the program
  leaves nothing for the database to change), fresh ids, the sink an index file is written to and the lookups in
  an Arrow schema, SHA-256, the validity of a KSUID, cron schedules,
  and arithmetic on \<open>f64\<close> where it is not exact. JSON rows that are only passed on are type variables.

  \<^bold>\<open>Not modelled.\<close> Sending notifications, running searches, publication and the HTTP surface are I/O over
  third-party libraries. Matching downtimes belongs to the enterprise code, which is not in the
  repository. Backfill and reconciliation of SLOs, the validation of a
  multi-alert (it reads the whole alert definition) and the listing queries of the stores are left out, as
  is the form catalogue of schedule presets, which is static text. The adapters of \<open>deql\<close> are stubs. The
  ingestion, search and storage services are outside the scope of the library.
\<close>

section \<open>From the ledger to slices\<close>

text \<open>What the composition needs of floating point: dividing by a million rounds the exact quotient monotonically.\<close>

definition rounds_division :: "(f64 \<Rightarrow> f64 \<Rightarrow> f64) \<Rightarrow> bool" where
  "rounds_division div64 \<longleftrightarrow>
     (\<exists>rnd. mono rnd \<and> rnd 0 = (0::real) \<and> (\<forall>x \<ge> 0. div64 (Fin x) (Fin 1000000) = Fin (rnd (x / 1000000))))"

lemma reference_slice_on_grid:
  assumes "grid_ok g" "ug_slice_interval_secs g dvd ug_range_start_secs g"
    and "s \<in> set (reference_slices div64 ivs g)"
  shows "ug_range_start_secs g \<le> us_slice_start s \<and> us_slice_start s < ug_range_end_secs g \<and>
    ug_slice_interval_secs g dvd us_slice_start s \<and>
    (\<exists>x y. 0 \<le> x \<and> x \<le> y \<and> y \<le> ug_slice_interval_secs g * MICROS \<and> us_good_secs s = div64 (as_f64 x) (as_f64 MICROS) \<and> us_total_secs s = div64 (as_f64 y) (as_f64 MICROS))"
proof -
  let ?i = "ug_slice_interval_secs g" and ?rs = "ug_range_start_secs g" and ?re = "ug_range_end_secs g"
  have M: "MICROS = 1000000" by (simp add: MICROS_def)
  have i: "0 < ?i" "0 \<le> ?rs" using assms(1) by (simp_all add: grid_ok_def)
  obtain k where k: "(?rs * MICROS) div (?i * MICROS) \<le> k" "k \<le> (?re * MICROS - 1) div (?i * MICROS)"
      and s: "s \<in> set (emit div64 (ug_min_coverage g) (?i * MICROS)
        (k * (?i * MICROS), counted (assessment ivs) (slice_of (?i * MICROS) (k * (?i * MICROS)) \<inter> {?rs * MICROS ..< ?re * MICROS})))"
    using assms(3) by (auto simp: reference_slices_def Let_def)
  have lo: "?rs \<le> k * ?i" using k(1) assms(2) i by (simp add: M) (metis dvd_div_mult_self mult_right_mono less_imp_le)
  then have k0: "0 \<le> k" using i by (meson order.trans zero_le_mult_iff not_less)
  have "k * (?i * MICROS) \<le> (?re * MICROS - 1) div (?i * MICROS) * (?i * MICROS)" using k(2) i by (simp add: M)
  also have "\<dots> \<le> ?re * MICROS - 1" by (rule slice_start_bounds(1)) (use i in \<open>simp add: M\<close>)
  finally have hi: "k * ?i < ?re" by (simp add: M)
  have "(k * ?i * MICROS) sdiv MICROS = k * ?i" using k0 i by (simp add: M signed_divide_int_def abs_mult sgn_if)
  moreover define c where "c = counted (assessment ivs) (slice_of (?i * MICROS) (k * (?i * MICROS)) \<inter> {?rs * MICROS ..< ?re * MICROS})"
  moreover have "0 \<le> fst c" "0 \<le> snd c" by (simp_all add: c_def counted_def)
  ultimately have "us_slice_start s = k * ?i" "us_good_secs s = div64 (as_f64 (min (fst c) (snd c))) (as_f64 MICROS)"
      "us_total_secs s = div64 (as_f64 (snd c)) (as_f64 MICROS)" and c: "0 \<le> min (fst c) (snd c)"
    using s by (auto simp: emit_def c_def [symmetric] mult.assoc split: if_splits prod.splits)
  moreover have "snd c \<le> ?i * MICROS"
  proof -
    have "card {t \<in> slice_of (?i * MICROS) (k * (?i * MICROS)) \<inter> {?rs * MICROS ..< ?re * MICROS}. assessment ivs t \<noteq> None} \<le>
        card (slice_of (?i * MICROS) (k * (?i * MICROS)))" by (intro card_mono) (auto simp: slice_of_def)
    then show ?thesis using i by (simp add: c_def counted_def slice_of_def M)
  qed
  moreover have "min (fst c) (snd c) \<le> snd c" by simp
  ultimately show ?thesis using lo hi by (metis dvd_triv_right)
qed

text \<open>
  C4. No measured second is lost between the ledger and the SLO. For any history of evaluations with positive
  cadences and non-negative times and any range aligned to the slice grid, the rows the alert-based pass
  reads from the ledger are all accepted by the slice builder: none is rejected as off the grid or as an
  incoherent observation, none overflows, and each becomes one slice with the same start and the same good
  and total seconds. The only assumption on floating point is that dividing by a million keeps order.
\<close>

theorem ledger_rows_become_slices:
  assumes "\<forall>w \<in> writes_of ops. 0 < lw_frequency_secs w \<and> 0 \<le> lw_at w"
    and "grid_ok g" "ug_slice_interval_secs g dvd ug_range_start_secs g" "ug_slice_interval_secs g * MICROS \<le> 2 ^ 53"
    and "rounds_division div64"
    and "pp_range_start params = ug_range_start_secs g" "pp_range_end params = ug_range_end_secs g"
    and "pp_slice_interval_secs params = ug_slice_interval_secs g" "1 \<le> pp_max_groups params"
  shows "\<exists>rows. ledger_pass div64 (ledger_run ops) a g = Some rows \<and>
    build_slices (AlertCfg a) rows params =
      \<lparr>ps_slices = map (\<lambda>row. pass_row params [] (qr_slice_start row) (qr_good row) (qr_total row)) rows,
       ps_rejected = [], ps_groups_seen = (if rows = [] then 0 else 1), ps_group_overflow = False\<rparr>"
proof -
  let ?ref = "reference_slices div64 (stored_intervals (ledger_run ops) a) g"
  let ?row = "\<lambda>s. \<lparr>qr_slice_start = us_slice_start s, qr_group_key = [], qr_group_labels = [],
    qr_good = us_good_secs s, qr_total = us_total_secs s\<rparr>"
  obtain rnd where rnd: "mono rnd" "rnd 0 = (0::real)" "\<And>x. 0 \<le> x \<Longrightarrow> div64 (Fin x) (Fin 1000000) = Fin (rnd (x / 1000000))"
    using assms(5) by (auto simp: rounds_division_def)
  have q: "div64 (as_f64 x) (as_f64 MICROS) = Fin (rnd (real_of_int x / 1000000))" if "0 \<le> x" "x \<le> 2 ^ 53" for x
    using that rnd(3) as_f64_exact [of x] as_f64_exact [of MICROS] by (simp add: MICROS_def)
  have pass: "ledger_pass div64 (ledger_run ops) a g = Some (map ?row ?ref)"
    using ledger_pass_whole [OF assms(1,2)] by (simp add: ledger_query_rows_def stored_intervals_def)
  have "0 < pp_slice_interval_secs params" using assms(2,8) by (simp add: grid_ok_def)
  moreover have "qr_slice_start row \<in> grid params \<and> qr_group_key row = [] \<and> validate_observation (qr_good row) (qr_total row) = Ok ()"
    if row: "row \<in> set (map ?row ?ref)" for row
  proof -
    obtain s where s: "s \<in> set ?ref" "row = ?row s" using row by auto
    note on = reference_slice_on_grid [OF assms(2,3) s(1)]
    then obtain x y where xy: "0 \<le> x" "x \<le> y" "y \<le> 2 ^ 53"
        "us_good_secs s = div64 (as_f64 x) (as_f64 MICROS)" "us_total_secs s = div64 (as_f64 y) (as_f64 MICROS)"
      using assms(4) by force
    have "0 \<le> rnd (real_of_int x / 1000000)" "rnd (real_of_int x / 1000000) \<le> rnd (real_of_int y / 1000000)"
      using rnd(2) xy monoD [OF rnd(1), of 0 "real_of_int x / 1000000"] by (simp_all add: monoD [OF rnd(1)])
    moreover have "us_good_secs s = Fin (rnd (real_of_int x / 1000000))" "us_total_secs s = Fin (rnd (real_of_int y / 1000000))"
      using q xy by simp_all
    ultimately show ?thesis using on s(2) assms(6-8) by (simp add: grid_def validate_observation_ok)
  qed
  ultimately show ?thesis using build_slices_accepts [OF _ assms(9), of "map ?row ?ref" "[]" a] pass by auto
qed

definition exact_division :: "f64 \<Rightarrow> f64 \<Rightarrow> f64" where
  "exact_division x y = (case (x, y) of (Fin a, Fin b) \<Rightarrow> Fin (a / b) | _ \<Rightarrow> NaN)"

lemma exact_division_rounds: "rounds_division exact_division"
  unfolding rounds_division_def by (rule exI [of _ "\<lambda>x. x"]) (simp add: exact_division_def mono_def)

theorem ledger_rows_become_slices_witness:
  "\<exists>rows. ledger_pass exact_division (ledger_run ledger_example) ''a'' one_slice = Some rows \<and>
     ps_rejected (build_slices (AlertCfg ''a'' :: unit sli_config) rows
       (example_params\<lparr>pp_range_start := 0, pp_range_end := 300, pp_slice_interval_secs := 300\<rparr>)) = []"
proof -
  let ?p = "example_params\<lparr>pp_range_start := 0, pp_range_end := 300, pp_slice_interval_secs := 300\<rparr>"
  have "\<forall>w \<in> writes_of ledger_example. 0 < lw_frequency_secs w \<and> 0 \<le> lw_at w"
    by (auto simp: writes_of_def ledger_example_def eval_write_def)
  moreover have "grid_ok one_slice" by (simp add: grid_ok_def one_slice_def MICROS_def)
  ultimately show ?thesis
    using ledger_rows_become_slices [where 'a = unit, of ledger_example one_slice exact_division ?p "''a''"] exact_division_rounds
    by (auto simp: one_slice_def example_params_def MICROS_def)
qed

end
